(* ===== verification/Prelude.thy ===== *)
theory Prelude
  imports Main "HOL-Library.Word"
begin

text \<open>
  Prelude of the libspill development: the byte type, 64-bit arithmetic on natural numbers
  with the wrap-around written out, byte intervals of the store file, and the list idioms
  (\<open>memcpy\<close>, \<open>memmove\<close>, slices) the C code uses everywhere.

  C's \<open>uint64_t\<close> and \<open>size_t\<close> values are natural numbers below \<open>u64_mod\<close>; a sum or a
  difference the code does not guard itself is written with \<open>add64\<close> and \<open>sub64\<close>, which
  wrap exactly as the machine does. Positions and lengths are then ordinary naturals, which
  is what the list and interval lemmas are about.
\<close>

type_synonym byte = "8 word"

named_theorems wrap_simps
named_theorems locs_simps

subsection \<open>Machine arithmetic\<close>

definition u64_mod :: nat where
  "u64_mod = 2 ^ 64"

definition off_max :: nat where
  "off_max = 2 ^ 63"

definition add64 :: "nat \<Rightarrow> nat \<Rightarrow> nat" where
  "add64 a b = (a + b) mod u64_mod"

definition sub64 :: "nat \<Rightarrow> nat \<Rightarrow> nat" where
  "sub64 a b = (a + (u64_mod - b mod u64_mod)) mod u64_mod"

lemma off_max_double: "u64_mod = 2 * off_max"
  by (simp add: u64_mod_def off_max_def)

lemma off_max_pos [simp]: "0 < off_max" "4096 < off_max"
  by (simp_all add: off_max_def)

lemma u64_mod_pos [simp]: "0 < u64_mod" "4096 < u64_mod"
  by (simp_all add: u64_mod_def)

lemma off_max_less [simp]: "off_max < u64_mod"
  by (simp add: off_max_double)

lemma dvd_off_max [simp]: "4096 dvd off_max"
proof -
  have "(4096::nat) = 2 ^ 12" by simp
  then show ?thesis unfolding off_max_def by (simp only: le_imp_power_dvd)
qed

lemma dvd_u64_mod [simp]: "4096 dvd u64_mod"
  unfolding off_max_double by (rule dvd_mult) simp

lemma add64_small [wrap_simps]: "a + b < u64_mod \<Longrightarrow> add64 a b = a + b"
  by (simp add: add64_def)

lemma add64_less [simp]: "add64 a b < u64_mod"
  by (simp add: add64_def)

lemma sub64_small [wrap_simps]: "b \<le> a \<Longrightarrow> a < u64_mod \<Longrightarrow> sub64 a b = a - b"
proof -
  assume "b \<le> a" "a < u64_mod"
  then have "a + (u64_mod - b mod u64_mod) = (a - b) + u64_mod" by simp
  then show ?thesis using \<open>a < u64_mod\<close> by (simp add: sub64_def)
qed

text \<open>The guard \<open>off + n < off\<close> of the data path is exactly unsigned overflow.\<close>

lemma add64_overflow_iff:
  assumes "a < u64_mod" "b < u64_mod"
  shows "add64 a b < a \<longleftrightarrow> u64_mod \<le> a + b"
proof (cases "a + b < u64_mod")
  case True
  then show ?thesis by (simp add: wrap_simps)
next
  case False
  then have "add64 a b = a + b - u64_mod"
    using assms by (simp add: add64_def mod_if)
  with False assms show ?thesis by linarith
qed

subsection \<open>Byte intervals\<close>

definition ival :: "nat \<Rightarrow> nat \<Rightarrow> nat set" where
  "ival a n = {a..<a + n}"

lemma ival_iff [simp]: "i \<in> ival a n \<longleftrightarrow> a \<le> i \<and> i < a + n"
  by (auto simp: ival_def)

lemma ival_0 [simp]: "ival a 0 = {}"
  by (simp add: ival_def)

lemma ival_empty_iff [simp]: "ival a n = {} \<longleftrightarrow> n = 0"
  by (auto simp: ival_def)

lemma finite_ival [simp]: "finite (ival a n)"
  by (simp add: ival_def)

lemma card_ival [simp]: "card (ival a n) = n"
  by (simp add: ival_def)

lemma ival_append: "ival a n \<union> ival (a + n) m = ival a (n + m)"
  by auto

lemma ival_split: "k \<le> n \<Longrightarrow> ival a n = ival a k \<union> ival (a + k) (n - k)"
  by auto

lemma ival_prefix_Diff: "k \<le> n \<Longrightarrow> ival a n - ival a k = ival (a + k) (n - k)"
  by auto

lemma set_upt_ival [simp]: "set [a..<a + n] = ival a n"
  by auto

subsection \<open>Copying and moving within buffers\<close>

text \<open>\<open>memcpy (xs + off) ys (length ys)\<close> into a buffer that is large enough.\<close>

definition blit :: "'a list \<Rightarrow> nat \<Rightarrow> 'a list \<Rightarrow> 'a list" where
  "blit xs off ys = take off xs @ ys @ drop (off + length ys) xs"

definition part :: "'a list \<Rightarrow> nat \<Rightarrow> nat \<Rightarrow> 'a list" where
  "part xs off n = take n (drop off xs)"

definition zeros :: "nat \<Rightarrow> byte list" where
  "zeros n = replicate n 0"

text \<open>The \<open>memmove\<close> idioms that delete or open a slot of an array.\<close>

definition remove_at :: "nat \<Rightarrow> 'a list \<Rightarrow> 'a list" where
  "remove_at i xs = take i xs @ drop (Suc i) xs"

definition insert_at :: "nat \<Rightarrow> 'a \<Rightarrow> 'a list \<Rightarrow> 'a list" where
  "insert_at i x xs = take i xs @ x # drop i xs"

lemma length_blit [simp]: "off + length ys \<le> length xs \<Longrightarrow> length (blit xs off ys) = length xs"
  by (simp add: blit_def)

lemma nth_blit:
  assumes "off + length ys \<le> length xs" "i < length xs"
  shows "blit xs off ys ! i = (if i \<in> ival off (length ys) then ys ! (i - off) else xs ! i)"
  using assms by (auto simp: blit_def nth_append min_def)

lemma blit_Nil [simp]: "blit xs off [] = xs"
  by (simp add: blit_def)

lemma length_part [simp]: "off + n \<le> length xs \<Longrightarrow> length (part xs off n) = n"
  by (simp add: part_def)

lemma nth_part: "off + n \<le> length xs \<Longrightarrow> i < n \<Longrightarrow> part xs off n ! i = xs ! (off + i)"
  by (simp add: part_def)

lemma part_0 [simp]: "part xs off 0 = []"
  by (simp add: part_def)

lemma part_full [simp]: "part xs 0 (length xs) = xs"
  by (simp add: part_def)

lemma part_append: "part xs off n @ part xs (off + n) m = part xs off (n + m)"
  by (simp add: part_def take_add add.commute [of n off])

lemma part_map: "part (map f xs) off n = map f (part xs off n)"
  by (simp add: part_def take_map drop_map)

lemma part_blit_same [simp]:
  "off \<le> length xs \<Longrightarrow> part (blit xs off ys) off (length ys) = ys"
  by (simp add: part_def blit_def)

lemma blit_append:
  "off + length ys + length zs \<le> length xs \<Longrightarrow>
     blit (blit xs off ys) (off + length ys) zs = blit xs off (ys @ zs)"
  by (rule nth_equalityI) (auto simp: nth_blit nth_append)

lemma length_zeros [simp]: "length (zeros n) = n"
  by (simp add: zeros_def)

lemma nth_zeros [simp]: "i < n \<Longrightarrow> zeros n ! i = 0"
  by (simp add: zeros_def)

lemma zeros_eq_Nil [simp]: "zeros n = [] \<longleftrightarrow> n = 0"
  by (simp add: zeros_def)

lemma set_zeros: "set (zeros n) \<subseteq> {0}"
  by (auto simp: zeros_def)

lemma length_remove_at [simp]: "i < length xs \<Longrightarrow> length (remove_at i xs) = length xs - 1"
  by (simp add: remove_at_def)

lemma length_insert_at [simp]: "i \<le> length xs \<Longrightarrow> length (insert_at i x xs) = Suc (length xs)"
  by (simp add: insert_at_def)

lemma set_insert_at [simp]: "set (insert_at i x xs) = insert x (set xs)"
  by (metis Un_insert_right append_take_drop_id insert_at_def list.simps(15) set_append)

lemma set_remove_at_subset: "set (remove_at i xs) \<subseteq> set xs"
  unfolding remove_at_def using set_take_subset set_drop_subset by fastforce

lemma mem_split_at: "i < length xs \<Longrightarrow> xs = take i xs @ xs ! i # drop (Suc i) xs"
  by (simp add: id_take_nth_drop)

end
