(* ===== verification/Errors.thy ===== *)
theory Errors
  imports Prelude
begin

text \<open>
  The error convention of libspill (\<open>include/libspill.h\<close>, \<open>src/error.c\<close>): every entry point
  returns an \<open>int\<close>, zero on success, a negated \<open>errno\<close> for an operating-system failure, or
  one of the library's own codes from \<open>-1000\<close> downwards. The operating system's text for an
  \<open>errno\<close> is a parameter of \<open>ls_strerror\<close>.
\<close>

subsection \<open>The errno values the library can pass through\<close>

datatype errno = ENOENT | EINTR | EIO | EBADF | EAGAIN | ENOMEM | EACCES | EINVAL | EFBIG
  | ENOSPC | EDQUOT | E_other nat

text \<open>\<open>E_other n\<close> is the errno \<open>n\<close> for every number up to 999 without a name above, so that the system can fail
  with any code.\<close>

fun errno_val :: "errno \<Rightarrow> int" where
  "errno_val ENOENT = 2"
| "errno_val EINTR = 4"
| "errno_val EIO = 5"
| "errno_val EBADF = 9"
| "errno_val EAGAIN = 11"
| "errno_val ENOMEM = 12"
| "errno_val EACCES = 13"
| "errno_val EINVAL = 22"
| "errno_val EFBIG = 27"
| "errno_val ENOSPC = 28"
| "errno_val EDQUOT = 122"
| "errno_val (E_other n) = (if 0 < n \<and> n \<le> 999 \<and> n \<notin> {2, 4, 5, 9, 11, 12, 13, 22, 27, 28, 122} then int n else 999)"

text \<open>The C idiom \<open>return -errno\<close>.\<close>

definition neg_errno :: "errno \<Rightarrow> int" where
  "neg_errno e = - errno_val e"

subsection \<open>The library's own codes\<close>

definition LS_OK :: int where "LS_OK = 0"
definition LS_ERR_NOKEY :: int where "LS_ERR_NOKEY = -1000"
definition LS_ERR_RANGE :: int where "LS_ERR_RANGE = -1001"
definition LS_ERR_INVAL :: int where "LS_ERR_INVAL = -1002"
definition LS_ERR_MODE :: int where "LS_ERR_MODE = -1003"
definition LS_ERR_BACKEND :: int where "LS_ERR_BACKEND = -1004"
definition LS_ERR_BUSY :: int where "LS_ERR_BUSY = -1005"
definition LS_ERR_CORRUPT :: int where "LS_ERR_CORRUPT = -1006"

lemmas ls_codes = LS_OK_def LS_ERR_NOKEY_def LS_ERR_RANGE_def LS_ERR_INVAL_def
  LS_ERR_MODE_def LS_ERR_BACKEND_def LS_ERR_BUSY_def LS_ERR_CORRUPT_def

lemma ls_codes_neq_OK [simp]:
  "LS_ERR_NOKEY \<noteq> LS_OK" "LS_ERR_RANGE \<noteq> LS_OK" "LS_ERR_INVAL \<noteq> LS_OK"
  "LS_ERR_MODE \<noteq> LS_OK" "LS_ERR_BACKEND \<noteq> LS_OK" "LS_ERR_BUSY \<noteq> LS_OK"
  "LS_ERR_CORRUPT \<noteq> LS_OK"
  by (simp_all add: ls_codes)

lemma errno_val_range: "1 \<le> errno_val e \<and> errno_val e \<le> 999"
  by (cases e) auto

lemma neg_errno_neq_OK [simp]: "neg_errno e \<noteq> LS_OK"
  using errno_val_range [of e] by (simp add: neg_errno_def ls_codes)

lemmas ls_codes_neq_OK_sym [simp] = ls_codes_neq_OK [symmetric] neg_errno_neq_OK [symmetric]

subsection \<open>Decimal output, as \<open>printf\<close> writes it\<close>

fun nat_digits :: "nat \<Rightarrow> string" where
  "nat_digits n =
     (if n < 10 then [char_of (48 + n)] else nat_digits (n div 10) @ [char_of (48 + n mod 10)])"

declare nat_digits.simps [simp del]

definition int_digits :: "int \<Rightarrow> string" where
  "int_digits i = (if i < 0 then CHR ''-'' # nat_digits (nat (- i)) else nat_digits (nat i))"

lemma nat_digits_nonempty [simp]: "nat_digits n \<noteq> []"
  by (subst nat_digits.simps) simp

text \<open>\<open>snprintf (buf, n, ...)\<close>: at most \<open>n - 1\<close> characters are stored, then the NUL.\<close>

definition snprintf :: "nat \<Rightarrow> string \<Rightarrow> string" where
  "snprintf n m = take (n - 1) m"

subsection \<open>\<open>ls_version\<close> and \<open>ls_strerror\<close>\<close>

definition LS_VERSION_NUM :: int where
  "LS_VERSION_NUM = 0 * 10000 + 1 * 100 + 0"

definition ls_version :: int where
  "ls_version = LS_VERSION_NUM"

definition ls_version_string :: string where
  "ls_version_string = ''0.1.0''"

definition strerror_own :: "int \<Rightarrow> string option" where
  "strerror_own err =
     (if err = LS_OK then Some ''success''
      else if err = LS_ERR_NOKEY then Some ''no record under that key''
      else if err = LS_ERR_RANGE then Some ''range outside the record''
      else if err = LS_ERR_INVAL then Some ''invalid argument or option combination''
      else if err = LS_ERR_MODE then Some ''not valid for this store's mode or backend''
      else if err = LS_ERR_BACKEND then Some ''backend unavailable or failed''
      else if err = LS_ERR_BUSY then Some ''request still in flight''
      else if err = LS_ERR_CORRUPT then Some ''table of contents did not validate''
      else None)"

text \<open>
  \<open>None\<close> is the early return for a NULL or zero-length buffer, which leaves the buffer as it
  was; \<open>Some m\<close> is the NUL-terminated text left in it. \<open>os_text\<close> stands for
  \<open>ls_os_strerror\<close>, the operating system's text for an \<open>errno\<close>.
\<close>

definition ls_strerror :: "(int \<Rightarrow> string) \<Rightarrow> int \<Rightarrow> bool \<Rightarrow> nat \<Rightarrow> string option" where
  "ls_strerror os_text err buf buflen =
     (if \<not> buf \<or> buflen = 0 then None
      else Some (case strerror_own err of
          Some m \<Rightarrow> snprintf buflen m
        | None \<Rightarrow>
            if err < 0 \<and> - 1000 < err then snprintf buflen (os_text (- err))
            else snprintf buflen (''unknown error '' @ int_digits err)))"

text \<open>The two ranges of error codes never meet: a negated errno lies in -999..-1, every
  code of the library's own is below -999, these codes are pairwise distinct, and none of
  them, nor any errno, is mistaken for success.\<close>

theorem error_ranges_disjoint:
  "- 999 \<le> neg_errno e \<and> neg_errno e \<le> - 1
   \<and> distinct [LS_OK, LS_ERR_NOKEY, LS_ERR_RANGE, LS_ERR_INVAL, LS_ERR_MODE, LS_ERR_BACKEND,
               LS_ERR_BUSY, LS_ERR_CORRUPT]
   \<and> neg_errno e \<notin> {LS_OK, LS_ERR_NOKEY, LS_ERR_RANGE, LS_ERR_INVAL, LS_ERR_MODE,
                    LS_ERR_BACKEND, LS_ERR_BUSY, LS_ERR_CORRUPT}"
  using errno_val_range [of e] by (auto simp: neg_errno_def ls_codes)

lemma snprintf_fits: "0 < n \<Longrightarrow> length (snprintf n m) < n"
  by (simp add: snprintf_def)

lemma snprintf_nonempty: "1 < n \<Longrightarrow> m \<noteq> [] \<Longrightarrow> snprintf n m \<noteq> []"
  by (simp add: snprintf_def)

text \<open>\<open>ls_strerror\<close> with a usable buffer always describes the code: the text and its NUL
  fit the buffer, and it is not empty when the buffer has room for a character and the
  operating system's texts are not empty.\<close>

theorem ls_strerror_describes:
  assumes "0 < buflen"
  shows "\<exists>m. ls_strerror os_text err True buflen = Some m \<and> length m < buflen
             \<and> (1 < buflen \<and> (\<forall>e. os_text e \<noteq> []) \<longrightarrow> m \<noteq> [])"
proof -
  have own: "strerror_own err = Some m \<Longrightarrow> m \<noteq> []" for m
    by (auto simp: strerror_own_def split: if_splits)
  show ?thesis
    using assms own
    by (auto simp: ls_strerror_def snprintf_fits snprintf_nonempty split: option.splits)
qed

theorem ls_strerror_describes_witness:
  "ls_strerror (\<lambda>_. ''I/O error'') (neg_errno EIO) True 128 = Some ''I/O error''
   \<and> length ''I/O error'' < 128"
  using ls_strerror_describes [of 128 "\<lambda>_. ''I/O error''" "neg_errno EIO"]
  by (auto simp: ls_strerror_def strerror_own_def ls_codes neg_errno_def snprintf_def)

end
