(* ===== verification/Os.thy ===== *)
theory Os
  imports Errors
begin

text \<open>
  The platform floor (\<open>src/os.h\<close>, \<open>src/os_posix.c\<close>): the store's one open file and the calls the
  library makes on it. The kernel's choices are data: \<open>sys\<close> lists the outcomes of the coming
  system calls (a full transfer, a short one, an errno), \<open>oom\<close> says which of the coming
  memory allocations fail, \<open>algn\<close> whether the next buffer handed to uncached I/O happens to
  be block-aligned. An exhausted list means: no more trouble. Every theorem is about all
  such lists, so about every finite pattern of failures, short transfers and interrupts.

  The file is a byte function with a length; bytes past the end are zero, which is how a
  file that is extended past its end reads.
\<close>

datatype sysres = Sys_ok | Sys_short nat | Sys_err errno

record os =
  fbytes :: "nat \<Rightarrow> byte"
  flen :: nat
  sys :: "sysres list"
  oom :: "bool list"
  algn :: "bool list"

definition next_sys :: "os \<Rightarrow> sysres \<times> os" where
  "next_sys w = (case sys w of [] \<Rightarrow> (Sys_ok, w) | r # rs \<Rightarrow> (r, w\<lparr>sys := rs\<rparr>))"

text \<open>\<open>malloc\<close>, \<open>calloc\<close>, \<open>realloc\<close>, \<open>strdup\<close>, \<open>posix_memalign\<close>: does the next request succeed?\<close>

definition os_malloc :: "os \<Rightarrow> bool \<times> os" where
  "os_malloc w = (case oom w of [] \<Rightarrow> (True, w) | b # bs \<Rightarrow> (\<not> b, w\<lparr>oom := bs\<rparr>))"

text \<open>The test \<open>((uintptr_t) buf & (LS_ALIGN - 1)) == 0\<close> on a buffer the caller chose.\<close>

definition os_aligned :: "os \<Rightarrow> bool \<times> os" where
  "os_aligned w = (case algn w of [] \<Rightarrow> (False, w) | b # bs \<Rightarrow> (b, w\<lparr>algn := bs\<rparr>))"

definition file_read :: "os \<Rightarrow> nat \<Rightarrow> nat \<Rightarrow> byte list" where
  "file_read w off n = map (fbytes w) [off..<off + n]"

definition file_write :: "os \<Rightarrow> nat \<Rightarrow> byte list \<Rightarrow> os" where
  "file_write w off bs =
     (if bs = [] then w
      else w\<lparr>fbytes := (\<lambda>i. if i \<in> ival off (length bs) then bs ! (i - off) else fbytes w i),
             flen := max (flen w) (off + length bs)\<rparr>)"

text \<open>How many of \<open>n\<close> requested bytes the outcome lets through.\<close>

fun granted :: "sysres \<Rightarrow> nat \<Rightarrow> nat" where
  "granted Sys_ok n = n"
| "granted (Sys_short k) n = min k n"
| "granted (Sys_err e) n = 0"

text \<open>\<open>pread\<close> and \<open>pwrite\<close>. Offsets are cast to the signed \<open>off_t\<close>, and a transfer that would
  end at \<open>2 ^ 63\<close> or beyond is refused with \<open>EINVAL\<close>. A read returns what lies before the end
  of the file.\<close>

definition ls_os_pread :: "os \<Rightarrow> nat \<Rightarrow> nat \<Rightarrow> os \<times> (errno + byte list)" where
  "ls_os_pread w n off =
     (case next_sys w of (r, w') \<Rightarrow>
        if off_max \<le> off + n then (w', Inl EINVAL)
        else (case r of
            Sys_err e \<Rightarrow> (w', Inl e)
          | _ \<Rightarrow> (w', Inr (file_read w' off (granted r (min n (flen w' - off)))))))"

definition ls_os_pwrite :: "os \<Rightarrow> byte list \<Rightarrow> nat \<Rightarrow> os \<times> (errno + nat)" where
  "ls_os_pwrite w bs off =
     (case next_sys w of (r, w') \<Rightarrow>
        if off_max \<le> off + length bs then (w', Inl EINVAL)
        else (case r of
            Sys_err e \<Rightarrow> (w', Inl e)
          | _ \<Rightarrow> let k = granted r (length bs) in (file_write w' off (take k bs), Inr k)))"

definition ls_os_ftruncate :: "os \<Rightarrow> nat \<Rightarrow> os \<times> (errno + unit)" where
  "ls_os_ftruncate w n =
     (case next_sys w of (r, w') \<Rightarrow>
        if off_max \<le> n then (w', Inl EINVAL)
        else (case r of
            Sys_err e \<Rightarrow> (w', Inl e)
          | _ \<Rightarrow> (w'\<lparr>fbytes := (\<lambda>i. if i < n then fbytes w' i else 0), flen := n\<rparr>, Inr ())))"

definition ls_os_file_size :: "os \<Rightarrow> os \<times> (errno + nat)" where
  "ls_os_file_size w =
     (case next_sys w of (r, w') \<Rightarrow>
        (case r of Sys_err e \<Rightarrow> (w', Inl e) | _ \<Rightarrow> (w', Inr (flen w'))))"

definition ls_os_fsync :: "os \<Rightarrow> os \<times> (errno + unit)" where
  "ls_os_fsync w =
     (case next_sys w of (r, w') \<Rightarrow>
        (case r of Sys_err e \<Rightarrow> (w', Inl e) | _ \<Rightarrow> (w', Inr ())))"

text \<open>\<open>fallocate (FALLOC_FL_ZERO_RANGE | FALLOC_FL_KEEP_SIZE)\<close>: zeroes, never extends.\<close>

definition ls_os_zero_range :: "os \<Rightarrow> nat \<Rightarrow> nat \<Rightarrow> os \<times> (errno + unit)" where
  "ls_os_zero_range w off n =
     (case next_sys w of (r, w') \<Rightarrow>
        (case r of
            Sys_err e \<Rightarrow> (w', Inl e)
          | _ \<Rightarrow> (w'\<lparr>fbytes := (\<lambda>i. if i \<in> ival off n then 0 else fbytes w' i)\<rparr>, Inr ())))"

subsection \<open>What the calls do to the file\<close>

text \<open>A file's length fits \<open>off_t\<close>, and the bytes past its end are zero.\<close>

definition file_wf :: "os \<Rightarrow> bool" where
  "file_wf w \<longleftrightarrow> flen w < off_max \<and> (\<forall>i. flen w \<le> i \<longrightarrow> fbytes w i = 0)"

text \<open>Nothing will fail any more.\<close>

definition quiet :: "os \<Rightarrow> bool" where
  "quiet w \<longleftrightarrow> sys w = [] \<and> oom w = []"

definition no_short :: "os \<Rightarrow> bool" where
  "no_short w \<longleftrightarrow> (\<forall>k. Sys_short k \<notin> set (sys w))"

text \<open>\<open>advances w w'\<close>: \<open>w'\<close> is a later state of the environment: outcomes may have been
  consumed, none has been added.\<close>

definition advances :: "os \<Rightarrow> os \<Rightarrow> bool" where
  "advances w w' \<longleftrightarrow> (\<exists>n. sys w' = drop n (sys w)) \<and> (\<exists>n. oom w' = drop n (oom w))"

lemma advances_refl [simp]: "advances w w"
  unfolding advances_def by (metis drop0)

lemma advances_trans [trans]: "advances a b \<Longrightarrow> advances b c \<Longrightarrow> advances a c"
  unfolding advances_def by (metis drop_drop)

lemma advances_quiet: "advances w w' \<Longrightarrow> quiet w \<Longrightarrow> quiet w'"
  by (auto simp: advances_def quiet_def)

lemma advances_no_short: "advances w w' \<Longrightarrow> no_short w \<Longrightarrow> no_short w'"
  unfolding advances_def no_short_def by (metis in_set_dropD)

lemma advances_length: "advances w w' \<Longrightarrow> length (sys w') \<le> length (sys w)"
  by (auto simp: advances_def)

lemma next_sys_props:
  assumes "next_sys w = (r, w')"
  shows "fbytes w' = fbytes w" "flen w' = flen w" "oom w' = oom w" "algn w' = algn w"
    "advances w w'" "sys w = [] \<Longrightarrow> r = Sys_ok \<and> sys w' = []"
    "sys w \<noteq> [] \<Longrightarrow> length (sys w') < length (sys w) \<and> r \<in> set (sys w)"
  using assms
  by (auto simp: next_sys_def advances_def split: list.splits)
     (metis drop0 drop_Suc_Cons)+

lemma os_malloc_props:
  assumes "os_malloc w = (b, w')"
  shows "fbytes w' = fbytes w" "flen w' = flen w" "sys w' = sys w" "algn w' = algn w"
    "advances w w'" "oom w = [] \<Longrightarrow> b"
  using assms
  by (auto simp: os_malloc_def advances_def split: list.splits)
     (metis drop0 drop_Suc_Cons)+

lemma os_aligned_props:
  assumes "os_aligned w = (b, w')"
  shows "fbytes w' = fbytes w" "flen w' = flen w" "sys w' = sys w" "oom w' = oom w"
    "advances w w'"
  using assms by (auto simp: os_aligned_def advances_def split: list.splits) (metis drop0)+

lemma file_write_props:
  "sys (file_write w off bs) = sys w" "oom (file_write w off bs) = oom w"
  "algn (file_write w off bs) = algn w"
  "i \<notin> ival off (length bs) \<Longrightarrow> fbytes (file_write w off bs) i = fbytes w i"
  "i < length bs \<Longrightarrow> fbytes (file_write w off bs) (off + i) = bs ! i"
  "flen w \<le> flen (file_write w off bs)"
  "bs \<noteq> [] \<Longrightarrow> off + length bs \<le> flen (file_write w off bs)"
  by (auto simp: file_write_def)

lemma file_write_cong:
  assumes "fbytes v = fbytes w" "flen v = flen w"
  shows "fbytes (file_write v off bs) = fbytes (file_write w off bs)"
    "flen (file_write v off bs) = flen (file_write w off bs)"
  using assms by (simp_all add: file_write_def cong: if_cong)

lemma file_write_wf:
  "file_wf w \<Longrightarrow> off + length bs < off_max \<Longrightarrow> file_wf (file_write w off bs)"
  by (auto simp: file_wf_def file_write_def)

lemma length_file_read [simp]: "length (file_read w off n) = n"
  by (simp add: file_read_def)

lemma nth_file_read: "i < n \<Longrightarrow> file_read w off n ! i = fbytes w (off + i)"
  by (simp add: file_read_def)

lemma file_read_append:
  "file_read w off n @ file_read w (off + n) m = file_read w off (n + m)"
  using upt_add_eq_append [of off "off + n" m] by (simp add: file_read_def add.assoc)

subsection \<open>One system call: what it consumes, what it changes\<close>

text \<open>A call consumes an outcome, or there is none left and it goes through.\<close>

definition progressed :: "os \<Rightarrow> os \<Rightarrow> bool" where
  "progressed w w' \<longleftrightarrow> advances w w' \<and> (sys w \<noteq> [] \<longrightarrow> length (sys w') < length (sys w))"

lemma progressed_advances: "progressed w w' \<Longrightarrow> advances w w'"
  by (simp add: progressed_def)

lemma next_sys_progressed: "next_sys w = (r, w') \<Longrightarrow> progressed w w'"
  using next_sys_props [of w r w'] by (simp add: progressed_def)

lemma progressed_file_write [simp]: "progressed w (file_write v off bs) = progressed w v"
  by (simp add: progressed_def advances_def file_write_props)

lemma advances_file_write [simp]: "advances w (file_write v off bs) = advances w v"
  by (simp add: advances_def file_write_props)

lemma ls_os_pwrite_spec:
  assumes "ls_os_pwrite w bs off = (w', res)"
  shows "progressed w w'"
    and "case res of
           Inl e \<Rightarrow> fbytes w' = fbytes w \<and> flen w' = flen w \<and> (quiet w \<longrightarrow> off_max \<le> off + length bs)
         | Inr k \<Rightarrow> k \<le> length bs \<and> off + length bs < off_max
             \<and> fbytes w' = fbytes (file_write w off (take k bs))
             \<and> flen w' = flen (file_write w off (take k bs))
             \<and> (no_short w \<longrightarrow> k = length bs) \<and> (sys w = [] \<longrightarrow> k = length bs)"
    and "sys w = [] \<Longrightarrow> res = Inl e \<Longrightarrow> e = EINVAL"
proof -
  obtain r v where nx: "next_sys w = (r, v)" by fastforce
  note props = next_sys_props [OF nx] next_sys_progressed [OF nx]
  show "progressed w w'"
    using assms nx props
    by (auto simp: ls_os_pwrite_def Let_def 
        split: if_splits sysres.splits)
  show "case res of
           Inl e \<Rightarrow> fbytes w' = fbytes w \<and> flen w' = flen w \<and> (quiet w \<longrightarrow> off_max \<le> off + length bs)
         | Inr k \<Rightarrow> k \<le> length bs \<and> off + length bs < off_max
             \<and> fbytes w' = fbytes (file_write w off (take k bs))
             \<and> flen w' = flen (file_write w off (take k bs))
             \<and> (no_short w \<longrightarrow> k = length bs) \<and> (sys w = [] \<longrightarrow> k = length bs)"
    using assms nx props
    by (cases "sys w = []"; cases r)
       (auto simp: ls_os_pwrite_def Let_def quiet_def no_short_def
        intro!: file_write_cong split: if_splits)
  show "sys w = [] \<Longrightarrow> res = Inl e \<Longrightarrow> e = EINVAL"
    using assms nx props
    by (auto simp: ls_os_pwrite_def Let_def split: if_splits sysres.splits)
qed

lemma ls_os_pread_spec:
  assumes "ls_os_pread w n off = (w', res)"
  shows "progressed w w'" and "fbytes w' = fbytes w" and "flen w' = flen w"
    and "case res of
           Inl e \<Rightarrow> quiet w \<longrightarrow> off_max \<le> off + n
         | Inr bs \<Rightarrow> length bs \<le> n \<and> off + n < off_max \<and> length bs \<le> flen w - off
             \<and> bs = file_read w off (length bs)
             \<and> (no_short w \<or> sys w = [] \<longrightarrow> length bs = min n (flen w - off))"
    and "sys w = [] \<Longrightarrow> res = Inl e \<Longrightarrow> e = EINVAL"
proof -
  obtain r v where nx: "next_sys w = (r, v)" by fastforce
  note props = next_sys_props [OF nx] next_sys_progressed [OF nx]
  show "progressed w w'" "fbytes w' = fbytes w" "flen w' = flen w"
    using assms nx props
    by (auto simp: ls_os_pread_def split: if_splits sysres.splits)
  show "case res of
           Inl e \<Rightarrow> quiet w \<longrightarrow> off_max \<le> off + n
         | Inr bs \<Rightarrow> length bs \<le> n \<and> off + n < off_max \<and> length bs \<le> flen w - off
             \<and> bs = file_read w off (length bs)
             \<and> (no_short w \<or> sys w = [] \<longrightarrow> length bs = min n (flen w - off))"
    using assms nx props
    by (cases "sys w = []"; cases r)
       (auto simp: ls_os_pread_def quiet_def no_short_def file_read_def split: if_splits)
  show "sys w = [] \<Longrightarrow> res = Inl e \<Longrightarrow> e = EINVAL"
    using assms nx props
    by (auto simp: ls_os_pread_def split: if_splits sysres.splits)
qed

subsection \<open>Frames: what a sequence of calls leaves alone\<close>

text \<open>\<open>file_frame w w' A\<close>: between \<open>w\<close> and \<open>w'\<close> only bytes in \<open>A\<close> may have changed and the file
  has not been cut.\<close>

definition file_frame :: "os \<Rightarrow> os \<Rightarrow> nat set \<Rightarrow> bool" where
  "file_frame w w' A \<longleftrightarrow> advances w w' \<and> file_wf w' \<and> flen w \<le> flen w'
     \<and> (\<forall>i. i \<notin> A \<longrightarrow> fbytes w' i = fbytes w i)"

lemma file_frameD:
  assumes "file_frame w w' A"
  shows "advances w w'" "file_wf w'" "flen w \<le> flen w'" "i \<notin> A \<Longrightarrow> fbytes w' i = fbytes w i"
  using assms by (auto simp: file_frame_def)

lemma file_wf_cong: "fbytes a = fbytes b \<Longrightarrow> flen a = flen b \<Longrightarrow> file_wf a = file_wf b"
  by (simp add: file_wf_def)

lemma file_frame_refl: "file_wf w \<Longrightarrow> file_frame w w A"
  by (simp add: file_frame_def)

lemma file_frame_same:
  "advances w w' \<Longrightarrow> file_wf w \<Longrightarrow> fbytes w' = fbytes w \<Longrightarrow> flen w' = flen w \<Longrightarrow> file_frame w w' A"
  by (simp add: file_frame_def file_wf_cong [of w' w])

lemma file_frame_trans:
  "file_frame a b A \<Longrightarrow> file_frame b c B \<Longrightarrow> A \<union> B \<subseteq> C \<Longrightarrow> file_frame a c C"
  unfolding file_frame_def using advances_trans by (metis UnCI le_trans subsetD)

lemma file_frame_mono: "file_frame a b A \<Longrightarrow> A \<subseteq> B \<Longrightarrow> file_frame a b B"
  unfolding file_frame_def by blast

lemma ls_os_pwrite_frame:
  assumes "ls_os_pwrite w bs off = (w', res)" "file_wf w"
  shows "file_frame w w' (ival off (case res of Inl _ \<Rightarrow> 0 | Inr k \<Rightarrow> k))"
    and "res = Inr k \<Longrightarrow> k \<le> length bs \<and> (\<forall>i<k. fbytes w' (off + i) = bs ! i)
           \<and> (0 < k \<longrightarrow> off + k \<le> flen w')"
proof -
  note sp = ls_os_pwrite_spec [OF assms(1)]
  have adv: "advances w w'" using sp(1) by (rule progressed_advances)
  have "file_frame w w' (ival off k) \<and> k \<le> length bs \<and> (\<forall>i<k. fbytes w' (off + i) = bs ! i)
      \<and> (0 < k \<longrightarrow> off + k \<le> flen w')" if "res = Inr k" for k
  proof -
    let ?v = "file_write w off (take k bs)"
    have k: "k \<le> length bs" "off + length bs < off_max" "fbytes w' = fbytes ?v" "flen w' = flen ?v"
      using sp(2) that by auto
    have "file_wf ?v" using assms(2) k by (intro file_write_wf) auto
    then have "file_wf w'" using k by (simp add: file_wf_cong [of w' ?v])
    moreover have "length (take k bs) = k" using k(1) by simp
    moreover have "0 < k \<Longrightarrow> take k bs \<noteq> []" using k(1) by (metis calculation(2) length_0_conv less_numeral_extra(3))
    ultimately show ?thesis
      using k adv file_write_props(4,5,6,7) [where off = off and bs = "take k bs" and w = w]
      by (auto simp: file_frame_def)
  qed
  moreover have "file_frame w w' (ival off 0)" if "res = Inl e" for e
    using sp(2) that adv assms(2) by (auto intro: file_frame_same)
  ultimately show "file_frame w w' (ival off (case res of Inl _ \<Rightarrow> 0 | Inr k \<Rightarrow> k))"
    and "res = Inr k \<Longrightarrow> k \<le> length bs \<and> (\<forall>i<k. fbytes w' (off + i) = bs ! i)
           \<and> (0 < k \<longrightarrow> off + k \<le> flen w')"
    by (auto split: sum.splits)
qed

lemma ls_os_zero_range_spec:
  assumes "ls_os_zero_range w off n = (w', res)" "file_wf w"
  shows "file_frame w w' (ival off n)" "flen w' = flen w"
    "res = Inr () \<Longrightarrow> i \<in> ival off n \<Longrightarrow> fbytes w' i = 0" "sys w = [] \<Longrightarrow> res = Inr ()"
proof -
  obtain r v where nx: "next_sys w = (r, v)" by fastforce
  note v = next_sys_props [OF nx]
  have "advances w w'" "flen w' = flen w" "\<forall>j. j \<notin> ival off n \<longrightarrow> fbytes w' j = fbytes w j"
    "\<forall>j. fbytes w j = 0 \<longrightarrow> fbytes w' j = 0"
    using assms(1) nx v
    by (auto simp: ls_os_zero_range_def advances_def split: sysres.splits)
  then show "file_frame w w' (ival off n)" "flen w' = flen w"
    using assms(2) by (auto simp: file_frame_def file_wf_def)
  show "res = Inr () \<Longrightarrow> i \<in> ival off n \<Longrightarrow> fbytes w' i = 0" "sys w = [] \<Longrightarrow> res = Inr ()"
    using assms(1) nx v by (auto simp: ls_os_zero_range_def split: sysres.splits)
qed

lemma ls_os_file_size_spec:
  assumes "ls_os_file_size w = (w', res)" "file_wf w"
  shows "file_frame w w' {}" "flen w' = flen w" "fbytes w' = fbytes w"
    "res = Inr n \<Longrightarrow> n = flen w" "sys w = [] \<Longrightarrow> \<exists>n. res = Inr n"
proof -
  obtain r v where nx: "next_sys w = (r, v)" by fastforce
  note v = next_sys_props [OF nx]
  have "w' = v" using assms(1) nx by (auto simp: ls_os_file_size_def split: sysres.splits)
  then show "file_frame w w' {}" "flen w' = flen w" "fbytes w' = fbytes w"
    using v assms(2) by (auto intro: file_frame_same)
  show "res = Inr n \<Longrightarrow> n = flen w" "sys w = [] \<Longrightarrow> \<exists>n. res = Inr n"
    using assms(1) nx v by (auto simp: ls_os_file_size_def split: sysres.splits)
qed

text \<open>\<open>os_keeps w w' P\<close>: the bytes at the positions \<open>P\<close> are what they were, and those that were
  inside the file still are. Unlike a frame it allows the file to be cut elsewhere.\<close>

definition os_keeps :: "os \<Rightarrow> os \<Rightarrow> nat set \<Rightarrow> bool" where
  "os_keeps w w' P \<longleftrightarrow> advances w w' \<and> file_wf w'
     \<and> (\<forall>i\<in>P. fbytes w' i = fbytes w i \<and> (i < flen w \<longrightarrow> i < flen w'))"

lemma os_keepsD:
  assumes "os_keeps w w' P"
  shows "advances w w'" "file_wf w'" "i \<in> P \<Longrightarrow> fbytes w' i = fbytes w i"
    "i \<in> P \<Longrightarrow> i < flen w \<Longrightarrow> i < flen w'"
  using assms by (auto simp: os_keeps_def)

lemma os_keeps_refl: "file_wf w \<Longrightarrow> os_keeps w w P"
  by (simp add: os_keeps_def)

lemma os_keeps_same:
  "advances w w' \<Longrightarrow> file_wf w \<Longrightarrow> fbytes w' = fbytes w \<Longrightarrow> flen w' = flen w \<Longrightarrow> os_keeps w w' P"
  by (simp add: os_keeps_def file_wf_cong [of w' w])

lemma os_keeps_frame: "file_frame w w' A \<Longrightarrow> P \<inter> A = {} \<Longrightarrow> os_keeps w w' P"
  unfolding file_frame_def os_keeps_def by fastforce

lemma os_keeps_trans:
  "os_keeps a b P \<Longrightarrow> os_keeps b c Q \<Longrightarrow> R \<subseteq> P \<inter> Q \<Longrightarrow> os_keeps a c R"
  unfolding os_keeps_def using advances_trans by (metis IntD1 IntD2 subsetD)

lemma os_keeps_mono: "os_keeps a b P \<Longrightarrow> Q \<subseteq> P \<Longrightarrow> os_keeps a b Q"
  unfolding os_keeps_def by blast

lemma ls_os_ftruncate_keeps:
  assumes "ls_os_ftruncate w n = (w', res)" "file_wf w"
  shows "os_keeps w w' {..<n}"
proof -
  obtain r v where nx: "next_sys w = (r, v)" by fastforce
  note v = next_sys_props [OF nx]
  have "fbytes w' = fbytes w \<and> flen w' = flen w \<and> advances w w'
      \<or> n < off_max \<and> flen w' = n \<and> fbytes w' = (\<lambda>i. if i < n then fbytes w i else 0) \<and> advances w w'"
    using assms(1) nx v
    by (auto simp: ls_os_ftruncate_def advances_def split: if_splits sysres.splits)
  then show ?thesis
  proof
    assume "n < off_max \<and> flen w' = n \<and> fbytes w' = (\<lambda>i. if i < n then fbytes w i else 0) \<and> advances w w'"
    then show ?thesis by (simp add: os_keeps_def file_wf_def)
  qed (use assms(2) in \<open>auto intro: os_keeps_same\<close>)
qed

end
