(* ===== verification/RawIO.thy ===== *)
theory RawIO
  imports Os
begin

text \<open>
  Raw file I/O of the POSIX backend (\<open>src/store.c\<close>, \<open>rw_all\<close>, \<open>ls_pread_all\<close>,
  \<open>ls_pwrite_all\<close>, \<open>zero_range\<close>): the loops that turn short and interrupted transfers into
  all-or-nothing ones, the bounce-buffer path for uncached I/O, and the zeroing of a range.

  The loops are total functions: every iteration either consumes one outcome of the finite
  list \<open>sys\<close> or, when the list is exhausted, makes the whole remaining transfer.
\<close>

definition LS_ALIGN :: nat where "LS_ALIGN = 4096"
definition LS_BOUNCE :: nat where "LS_BOUNCE = 4 * 2 ^ 20"
definition ZERO_CHUNK :: nat where "ZERO_CHUNK = 2 ^ 20"

lemma LS_ALIGN_simp [simp]: "LS_ALIGN = 4096"
  by (simp add: LS_ALIGN_def)

lemma LS_BOUNCE_simp [simp]: "LS_BOUNCE = 4194304"
  by (simp add: LS_BOUNCE_def)

subsection \<open>The buffered transfer loops\<close>

function plain_write :: "os \<Rightarrow> byte list \<Rightarrow> nat \<Rightarrow> nat \<Rightarrow> nat \<Rightarrow> os \<times> int" where
  "plain_write w cp n off dn =
     (if dn < n then
        (case ls_os_pwrite w (take (n - dn) (drop dn cp)) (add64 off dn) of
           (w', Inl e) \<Rightarrow>
             if e = EINTR then plain_write w' cp n off dn else (w', neg_errno e)
         | (w', Inr r) \<Rightarrow>
             if r = 0 then (w', neg_errno ENOSPC) else plain_write w' cp n off (dn + r))
      else (w, LS_OK))"
  by pat_completeness auto
termination
proof (relation "measures [\<lambda>(w, cp, n, off, dn). length (sys w), \<lambda>(w, cp, n, off, dn). n - dn]",
    goal_cases)
  case 1
  show ?case by simp
next
  case (2 w cp n off dn w' y e)
  then have "sys w \<noteq> []" "progressed w w'"
    using ls_os_pwrite_spec(1,3) [of w "take (n - dn) (drop dn cp)" "add64 off dn" w' y] by auto
  then show ?case by (simp add: progressed_def)
next
  case (3 w cp n off dn w' y r)
  then have "progressed w w'"
    using ls_os_pwrite_spec(1) [of w "take (n - dn) (drop dn cp)" "add64 off dn" w' y] by simp
  then show ?case
    using 3 advances_length [of w w'] by (auto simp: progressed_def)
qed

function plain_read :: "os \<Rightarrow> byte list \<Rightarrow> nat \<Rightarrow> nat \<Rightarrow> nat \<Rightarrow> os \<times> int \<times> byte list" where
  "plain_read w p n off dn =
     (if dn < n then
        (case ls_os_pread w (n - dn) (add64 off dn) of
           (w', Inl e) \<Rightarrow>
             if e = EINTR then plain_read w' p n off dn else (w', neg_errno e, p)
         | (w', Inr bs) \<Rightarrow>
             if bs = [] then (w', neg_errno EIO, p)
             else plain_read w' (p @ bs) n off (dn + length bs))
      else (w, LS_OK, p))"
  by pat_completeness auto
termination
proof (relation "measures [\<lambda>(w, p, n, off, dn). length (sys w), \<lambda>(w, p, n, off, dn). n - dn]",
    goal_cases)
  case 1
  show ?case by simp
next
  case (2 w p n off dn w' y e)
  then have "sys w \<noteq> []" "progressed w w'"
    using ls_os_pread_spec(1,5) [of w "n - dn" "add64 off dn" w' y] by auto
  then show ?case by (simp add: progressed_def)
next
  case (3 w p n off dn w' y bs)
  then have "progressed w w'"
    using ls_os_pread_spec(1) [of w "n - dn" "add64 off dn" w' y] by simp
  moreover have "n - (dn + length bs) < n - dn"
    using 3 by (simp add: diff_less_mono2)
  ultimately show ?case
    using advances_length [of w w'] by (auto simp: progressed_def)
qed

declare plain_write.simps [simp del] plain_read.simps [simp del]

subsection \<open>Uncached I/O through the bounce buffer\<close>

text \<open>
  The geometry of one round: the block that holds the current position, the skew of the
  position in it, the bytes moved in this round and the whole blocks they touch. The masks
  \<open>x & ~(LS_ALIGN - 1)\<close> of the source are rounding to multiples of \<open>LS_ALIGN\<close>.
\<close>

definition db_skew :: "nat \<Rightarrow> nat" where
  "db_skew pos = pos mod LS_ALIGN"

definition db_base :: "nat \<Rightarrow> nat" where
  "db_base pos = pos - pos mod LS_ALIGN"

definition db_chunk :: "nat \<Rightarrow> nat \<Rightarrow> nat" where
  "db_chunk pos left = (if LS_BOUNCE - db_skew pos < left then LS_BOUNCE - db_skew pos else left)"

definition db_span :: "nat \<Rightarrow> nat \<Rightarrow> nat" where
  "db_span pos left =
     (db_skew pos + db_chunk pos left + LS_ALIGN - 1) div LS_ALIGN * LS_ALIGN"

lemma db_geometry:
  assumes "0 < left"
  shows "db_base pos + db_skew pos = pos" "0 < db_chunk pos left" "db_chunk pos left \<le> left"
    "db_skew pos + db_chunk pos left \<le> db_span pos left"
    "db_base pos + db_span pos left < pos + db_chunk pos left + 4096"
    "4096 dvd db_base pos" "4096 dvd db_span pos left"
proof -
  let ?a = "db_skew pos + db_chunk pos left"
  have sk: "db_skew pos < 4096" by (simp add: db_skew_def)
  show "db_base pos + db_skew pos = pos" "4096 dvd db_base pos"
    by (simp_all add: db_base_def db_skew_def dvd_minus_mod)
  then show ch: "0 < db_chunk pos left" "db_chunk pos left \<le> left"
    using assms sk by (simp_all add: db_chunk_def)
  have "?a \<le> (?a + 4095) div 4096 * 4096 \<and> (?a + 4095) div 4096 * 4096 < ?a + 4096"
    by linarith
  then show "?a \<le> db_span pos left" "db_base pos + db_span pos left < pos + db_chunk pos left + 4096"
    using \<open>db_base pos + db_skew pos = pos\<close> by (simp_all add: db_span_def)
  show "4096 dvd db_span pos left" by (simp add: db_span_def)
qed

text \<open>
  Writing: a partial block is read first (a short read is padded with zeros), the caller's
  bytes are copied over it, and whole blocks go out. The source advances by the chunk
  whatever count \<open>ls_os_pwrite\<close> returned.
\<close>

function direct_write :: "os \<Rightarrow> byte list \<Rightarrow> nat \<Rightarrow> nat \<Rightarrow> nat \<Rightarrow> os \<times> int" where
  "direct_write w cp n off dn =
     (if dn < n then
        (let pos = add64 off dn; chunk = db_chunk pos (n - dn); span = db_span pos (n - dn) in
         case (if db_skew pos \<noteq> 0 \<or> span \<noteq> db_skew pos + chunk
               then ls_os_pread w span (db_base pos) else (w, Inr [])) of
           (w1, Inl e) \<Rightarrow> (w1, neg_errno e)
         | (w1, Inr got) \<Rightarrow>
             (case ls_os_pwrite w1
                 (blit (got @ zeros (span - length got)) (db_skew pos) (part cp dn chunk))
                 (db_base pos) of
                (w2, Inl e) \<Rightarrow>
                  if e = EINTR then direct_write w2 cp n off dn else (w2, neg_errno e)
              | (w2, Inr r) \<Rightarrow> direct_write w2 cp n off (dn + chunk)))
      else (w, LS_OK))"
  by pat_completeness auto

termination
proof (relation "measures [\<lambda>(w, cp, n, off, dn). length (sys w), \<lambda>(w, cp, n, off, dn). n - dn]",
    goal_cases)
  case 1
  show ?case by simp
next
  case (2 w cp n off dn pos chunk span w1 y got w2 z e)
  have r: "advances w w1"
    using 2(5) ls_os_pread_spec(1) [of w span "db_base pos" w1 y]
    by (auto dest!: sym progressed_advances split: if_splits)
  have "sys w1 \<noteq> []" "progressed w1 w2"
    using 2(7,8,9) ls_os_pwrite_spec(1,3) [OF 2(7) [symmetric]] by auto
  then have "length (sys w2) < length (sys w)"
    using advances_length [OF r] by (auto simp: progressed_def)
  then show ?case by simp
next
  case (3 w cp n off dn pos chunk span w1 y got w2 z r)
  have r: "advances w w1" "w1 = w \<or> progressed w w1"
    using 3(5) ls_os_pread_spec(1) [of w span "db_base pos" w1 y]
    by (auto dest!: sym progressed_advances split: if_splits)
  have p: "progressed w1 w2"
    using 3(7) ls_os_pwrite_spec(1) [OF 3(7) [symmetric]] by auto
  have "sys w = [] \<or> length (sys w2) < length (sys w)"
    using r p advances_length [of w w1] advances_length [of w1 w2] by (auto simp: progressed_def)
  moreover have "n - (dn + chunk) < n - dn"
    using 3(1,2,3) db_geometry(2) [of "n - dn" pos] by simp
  moreover have "length (sys w2) \<le> length (sys w)"
    using r p advances_length by (meson le_trans progressed_advances)
  ultimately show ?case by auto
qed

function direct_read :: "os \<Rightarrow> byte list \<Rightarrow> nat \<Rightarrow> nat \<Rightarrow> nat \<Rightarrow> os \<times> int \<times> byte list" where
  "direct_read w p n off dn =
     (if dn < n then
        (let pos = add64 off dn; chunk = db_chunk pos (n - dn); span = db_span pos (n - dn) in
         case ls_os_pread w span (db_base pos) of
           (w1, Inl e) \<Rightarrow>
             if e = EINTR then direct_read w1 p n off dn else (w1, neg_errno e, p)
         | (w1, Inr got) \<Rightarrow>
             direct_read w1 (p @ part (got @ zeros (span - length got)) (db_skew pos) chunk)
               n off (dn + chunk))
      else (w, LS_OK, p))"
  by pat_completeness auto
termination
proof (relation "measures [\<lambda>(w, p, n, off, dn). length (sys w), \<lambda>(w, p, n, off, dn). n - dn]",
    goal_cases)
  case 1
  show ?case by simp
next
  case (2 w p n off dn pos chunk span w1 y e)
  then have "sys w \<noteq> []" "progressed w w1"
    using ls_os_pread_spec(1,5) [of w span "db_base pos" w1 y] by auto
  then show ?case by (simp add: progressed_def)
next
  case (3 w p n off dn pos chunk span w1 y got)
  then have "progressed w w1"
    using ls_os_pread_spec(1) [of w span "db_base pos" w1 y] by simp
  moreover have "n - (dn + chunk) < n - dn"
    using 3(1,2,3) db_geometry(2) [of "n - dn" pos] by simp
  ultimately show ?case
    using advances_length [of w w1] by (auto simp: progressed_def)
qed

declare direct_write.simps [simp del] direct_read.simps [simp del]

subsection \<open>\<open>rw_all\<close> and its two entry points\<close>

definition rw_all :: "os \<Rightarrow> bool \<Rightarrow> byte list \<Rightarrow> nat \<Rightarrow> nat \<Rightarrow> bool \<Rightarrow> os \<times> int \<times> byte list" where
  "rw_all w direct cbuf n off is_write =
     (if n = 0 then (w, LS_OK, [])
      else case (if direct then os_aligned w else (True, w)) of (al, w1) \<Rightarrow>
        if \<not> direct \<or> (al \<and> off mod LS_ALIGN = 0 \<and> n mod LS_ALIGN = 0) then
          (if is_write then (case plain_write w1 cbuf n off 0 of (w2, rc) \<Rightarrow> (w2, rc, []))
           else plain_read w1 [] n off 0)
        else (case os_malloc w1 of (ok, w2) \<Rightarrow>
          if \<not> ok then (w2, neg_errno ENOMEM, [])
          else if is_write then (case direct_write w2 cbuf n off 0 of (w3, rc) \<Rightarrow> (w3, rc, []))
          else direct_read w2 [] n off 0))"

definition ls_pread_all :: "os \<Rightarrow> bool \<Rightarrow> nat \<Rightarrow> nat \<Rightarrow> os \<times> int \<times> byte list" where
  "ls_pread_all w direct n off = rw_all w direct [] n off False"

definition ls_pwrite_all :: "os \<Rightarrow> bool \<Rightarrow> byte list \<Rightarrow> nat \<Rightarrow> os \<times> int" where
  "ls_pwrite_all w direct bs off =
     (case rw_all w direct bs (length bs) off True of (w', rc, _) \<Rightarrow> (w', rc))"

subsection \<open>\<open>zero_range\<close>\<close>

function zero_loop :: "os \<Rightarrow> bool \<Rightarrow> nat \<Rightarrow> nat \<Rightarrow> os \<times> int" where
  "zero_loop w direct off n =
     (if n = 0 then (w, LS_OK)
      else let k = (if n < ZERO_CHUNK then n else ZERO_CHUNK) in
        case ls_pwrite_all w direct (zeros k) off of (w', rc) \<Rightarrow>
          if rc \<noteq> LS_OK then (w', rc) else zero_loop w' direct (add64 off k) (n - k))"
  by pat_completeness auto
termination
  by (relation "measure (\<lambda>(w, direct, off, n). n)") (auto simp: ZERO_CHUNK_def)

declare zero_loop.simps [simp del]

definition zero_write :: "os \<Rightarrow> bool \<Rightarrow> nat \<Rightarrow> nat \<Rightarrow> os \<times> int" where
  "zero_write w direct off n =
     (case os_malloc w of (ok, w1) \<Rightarrow>
        if ok then zero_loop w1 direct off n else (w1, neg_errno ENOMEM))"

definition zero_range :: "os \<Rightarrow> bool \<Rightarrow> nat \<Rightarrow> nat \<Rightarrow> os \<times> int" where
  "zero_range w direct off n =
     (if n = 0 then (w, LS_OK)
      else if \<not> direct then
        (case ls_os_file_size w of
           (w1, Inl e) \<Rightarrow> (w1, neg_errno e)
         | (w1, Inr fend) \<Rightarrow>
             let inside = (if fend \<le> off then 0 else if fend - off < n then fend - off else n) in
             (case (if inside = 0 then (w1, Inr ()) else ls_os_zero_range w1 off inside) of
                (w2, Inl _) \<Rightarrow> zero_write w2 direct off n
              | (w2, Inr _) \<Rightarrow>
                  if add64 off n \<le> fend then (w2, LS_OK)
                  else ls_pwrite_all w2 direct [0] (sub64 (add64 off n) 1)))
      else zero_write w direct off n)"

subsection \<open>The loops meet their specification\<close>

text \<open>The part of \<open>cp\<close> from \<open>dn\<close> on stands in the file at \<open>off + dn\<close>.\<close>

definition landed :: "os \<Rightarrow> byte list \<Rightarrow> nat \<Rightarrow> nat \<Rightarrow> nat \<Rightarrow> bool" where
  "landed w cp n off dn \<longleftrightarrow>
     (\<forall>i. dn \<le> i \<and> i < n \<longrightarrow> fbytes w (off + i) = cp ! i) \<and> (dn < n \<longrightarrow> off + n \<le> flen w)"

lemma landed_extend:
  assumes "landed w' cp n off (dn + k)" "file_frame w1 w' (ival (off + (dn + k)) (n - (dn + k)))"
    "\<And>i. dn \<le> i \<Longrightarrow> i < dn + k \<Longrightarrow> fbytes w1 (off + i) = cp ! i" "0 < k"
    "off + (dn + k) \<le> flen w1" "dn + k \<le> n"
  shows "landed w' cp n off dn"
proof -
  have "fbytes w' (off + i) = cp ! i" if "dn \<le> i" "i < n" for i
  proof (cases "i < dn + k")
    case True
    then show ?thesis using that assms(2,3) by (simp add: file_frame_def)
  next
    case False
    then show ?thesis using that assms(1) by (simp add: landed_def)
  qed
  moreover have "off + n \<le> flen w'"
    using assms(1,2,5,6) by (cases "dn + k < n") (auto simp: landed_def file_frame_def)
  ultimately show ?thesis by (simp add: landed_def)
qed

lemma plain_write_spec:
  assumes "plain_write w cp n off dn = (w', rc)" "length cp = n" "dn \<le> n" "off + n < u64_mod"
    "file_wf w"
  shows "file_frame w w' (ival (off + dn) (n - dn)) \<and> (rc = LS_OK \<longrightarrow> landed w' cp n off dn)
    \<and> (quiet w \<and> off + n < off_max \<longrightarrow> rc = LS_OK)"
  using assms
proof (induction w cp n off dn rule: plain_write.induct)
  case (1 w cp n off dn)
  show ?case
  proof (cases "dn < n")
    case False
    then show ?thesis
      using "1.prems" by (auto simp: plain_write.simps [of w] landed_def file_frame_refl)
  next
    case True
    let ?bs = "take (n - dn) (drop dn cp)"
    have pos: "add64 off dn = off + dn" using "1.prems"(4) True by (simp add: wrap_simps)
    have len: "length ?bs = n - dn" using "1.prems"(2) by simp
    obtain w1 res where pw: "ls_os_pwrite w ?bs (off + dn) = (w1, res)" by fastforce
    note sp = ls_os_pwrite_spec [OF pw] and fr = ls_os_pwrite_frame [OF pw "1.prems"(5)]
    have adv: "advances w w1" using sp(1) by (rule progressed_advances)
    have wf1: "file_wf w1" using fr(1) by (rule file_frameD)
    show ?thesis
    proof (cases res)
      case (Inl e)
      have f1: "file_frame w w1 {}" using fr(1) Inl by simp
      show ?thesis
      proof (cases "e = EINTR")
        case True
        have run: "plain_write w1 cp n off dn = (w', rc)"
          using "1.prems"(1) \<open>dn < n\<close> pos pw Inl True by (simp add: plain_write.simps [of w])
        then show ?thesis
          using "1.IH"(1) [OF \<open>dn < n\<close> _ Inl True] pos pw "1.prems"(2,3,4) wf1 f1
            advances_quiet [OF adv] by (auto intro: file_frame_trans)
      next
        case False
        then have "w' = w1" "rc = neg_errno e"
          using "1.prems"(1) \<open>dn < n\<close> pos pw Inl by (simp_all add: plain_write.simps [of w])
        moreover have "quiet w \<Longrightarrow> off + n < off_max \<Longrightarrow> False"
          using sp(2) Inl len True by simp
        ultimately show ?thesis using f1 by (auto intro: file_frame_mono)
      qed
    next
      case (Inr k)
      have k: "k \<le> n - dn" "\<And>i. i < k \<Longrightarrow> fbytes w1 (off + dn + i) = cp ! (dn + i)"
        "0 < k \<Longrightarrow> off + dn + k \<le> flen w1"
        using fr(2) [OF Inr] "1.prems"(2) by auto
      have f1: "file_frame w w1 (ival (off + dn) k)" using fr(1) Inr by simp
      show ?thesis
      proof (cases "k = 0")
        case True
        then have "w' = w1" "rc = neg_errno ENOSPC"
          using "1.prems"(1) \<open>dn < n\<close> pos pw Inr by (simp_all add: plain_write.simps [of w])
        moreover have "quiet w \<Longrightarrow> False"
          using sp(2) Inr len \<open>dn < n\<close> True by (auto simp: quiet_def)
        ultimately show ?thesis using f1 True by (auto intro: file_frame_mono)
      next
        case False
        then have run: "plain_write w1 cp n off (dn + k) = (w', rc)"
          using "1.prems"(1) \<open>dn < n\<close> pos pw Inr by (simp add: plain_write.simps [of w])
        have IH: "file_frame w1 w' (ival (off + (dn + k)) (n - (dn + k)))"
          "rc = LS_OK \<Longrightarrow> landed w' cp n off (dn + k)"
          "quiet w1 \<Longrightarrow> off + n < off_max \<Longrightarrow> rc = LS_OK"
          using "1.IH"(2) [OF \<open>dn < n\<close> _ Inr False] pos pw run "1.prems"(2,4) wf1 k(1) True
          by auto
        have c: "fbytes w1 (off + i) = cp ! i" if "dn \<le> i" "i < dn + k" for i
          using k(2) [of "i - dn"] that by simp
        have "rc = LS_OK \<Longrightarrow> landed w' cp n off dn"
          using landed_extend [OF IH(2) IH(1) c] False k(1,3) \<open>dn < n\<close> by simp
        moreover have "file_frame w w' (ival (off + dn) (n - dn))"
          using f1 IH(1) by (rule file_frame_trans) (use k(1) in auto)
        ultimately show ?thesis using IH(3) advances_quiet [OF adv] by auto
      qed
    qed
  qed
qed

lemma plain_read_spec:
  assumes "plain_read w p n off dn = (w', rc, out)" "dn \<le> n" "off + n < u64_mod"
    "p = file_read w off dn"
  shows "advances w w' \<and> fbytes w' = fbytes w \<and> flen w' = flen w
    \<and> (rc = LS_OK \<longrightarrow> out = file_read w off n)
    \<and> (quiet w \<and> off + n < off_max \<and> off + n \<le> flen w \<longrightarrow> rc = LS_OK)"
  using assms
proof (induction w p n off dn rule: plain_read.induct)
  case (1 w p n off dn)
  show ?case
  proof (cases "dn < n")
    case False
    then show ?thesis using "1.prems" by (auto simp: plain_read.simps [of w])
  next
    case True
    have pos: "add64 off dn = off + dn" using "1.prems"(3) True by (simp add: wrap_simps)
    obtain w1 res where pr: "ls_os_pread w (n - dn) (off + dn) = (w1, res)" by fastforce
    note sp = ls_os_pread_spec [OF pr]
    have adv: "advances w w1" using sp(1) by (rule progressed_advances)
    have rd: "file_read w1 = file_read w" using sp(2) by (simp add: file_read_def fun_eq_iff)
    show ?thesis
    proof (cases res)
      case (Inl e)
      show ?thesis
      proof (cases "e = EINTR")
        case True
        then have run: "plain_read w1 p n off dn = (w', rc, out)"
          using "1.prems"(1) \<open>dn < n\<close> pos pr Inl by (simp add: plain_read.simps [of w])
        then show ?thesis
          using "1.IH"(1) [OF \<open>dn < n\<close> _ Inl True] pos pr "1.prems"(2,3,4) sp(2,3) rd adv
            advances_quiet [OF adv] advances_trans by auto
      next
        case False
        then have "w' = w1" "rc = neg_errno e"
          using "1.prems"(1) \<open>dn < n\<close> pos pr Inl by (simp_all add: plain_read.simps [of w])
        then show ?thesis using sp Inl \<open>dn < n\<close> adv by auto
      qed
    next
      case (Inr bs)
      note b = sp(4) [unfolded Inr sum.case]
      show ?thesis
      proof (cases "bs = []")
        case True
        then have "w' = w1" "rc = neg_errno EIO"
          using "1.prems"(1) \<open>dn < n\<close> pos pr Inr by (simp_all add: plain_read.simps [of w])
        moreover have "\<not> (sys w = [] \<and> off + n \<le> flen w)" using b True \<open>dn < n\<close> by auto
        ultimately show ?thesis using sp(2,3) adv by (auto simp: quiet_def)
      next
        case False
        then have run: "plain_read w1 (p @ bs) n off (dn + length bs) = (w', rc, out)"
          using "1.prems"(1) \<open>dn < n\<close> pos pr Inr by (simp add: plain_read.simps [of w])
        have acc: "p @ bs = file_read w1 off (dn + length bs)"
          using b "1.prems"(4) rd file_read_append [of w off dn "length bs"] by auto
        have "dn + length bs \<le> n" using b \<open>dn < n\<close> by linarith
        from "1.IH"(2) [OF \<open>dn < n\<close> _ Inr False run this "1.prems"(3) acc]
        have IH: "advances w1 w'" "fbytes w' = fbytes w1" "flen w' = flen w1"
          "rc = LS_OK \<longrightarrow> out = file_read w1 off n"
          "quiet w1 \<and> off + n < off_max \<and> off + n \<le> flen w1 \<longrightarrow> rc = LS_OK"
          using pos pr by simp_all
        show ?thesis
          using IH sp(2,3) rd advances_trans [OF adv IH(1)] advances_quiet [OF adv] by simp
      qed
    qed
  qed
qed

text \<open>
  The bounce-buffer path writes whole blocks, so it also rewrites the bytes around the
  caller's range; with full transfers it rewrites them with what they were.
\<close>

lemma direct_round:
  assumes "file_wf w" "no_short w" "0 < left" "length cs = db_chunk pos left"
    and pr: "(if db_skew pos \<noteq> 0 \<or> db_span pos left \<noteq> db_skew pos + db_chunk pos left
       then ls_os_pread w (db_span pos left) (db_base pos) else (w, Inr [])) = (w1, Inr got)"
    and pw: "ls_os_pwrite w1 (blit (got @ zeros (db_span pos left - length got)) (db_skew pos) cs)
       (db_base pos) = (w2, Inr r)"
  shows "file_frame w w2 (ival pos (db_chunk pos left))"
    "\<And>i. i < db_chunk pos left \<Longrightarrow> fbytes w2 (pos + i) = cs ! i"
    "pos + db_chunk pos left \<le> flen w2"
proof -
  let ?sp = "db_span pos left" and ?sk = "db_skew pos" and ?ch = "db_chunk pos left"
  let ?b = "db_base pos" and ?pad = "got @ zeros (?sp - length got)"
  note g = db_geometry [OF assms(3), of pos]
  have w1: "fbytes w1 = fbytes w" "flen w1 = flen w" "advances w w1"
    using pr ls_os_pread_spec(1,2,3) [of w ?sp ?b w1 "Inr got"]
    by (auto split: if_splits dest: progressed_advances)
  have wf1: "file_wf w1" "no_short w1"
    using assms(1,2) w1 by (auto simp: file_wf_cong [of w1 w] advances_no_short)
  have got: "length got \<le> ?sp"
    using pr ls_os_pread_spec(4) [of w ?sp ?b w1 "Inr got"] by (auto split: if_splits)
  have pad: "?pad ! j = fbytes w (?b + j)" if "?sk \<noteq> 0 \<or> ?sp \<noteq> ?sk + ?ch" "j < ?sp" for j
  proof -
    have "got = file_read w ?b (length got)" "length got = min ?sp (flen w - ?b)"
      using pr that(1) ls_os_pread_spec(4) [of w ?sp ?b w1 "Inr got"] assms(2) by auto
    then show ?thesis
      using that(2) assms(1) nth_file_read [of j "length got" w ?b]
      by (auto simp: nth_append file_wf_def)
  qed
  have out: "blit ?pad ?sk cs ! j = (if j \<in> ival ?sk ?ch then cs ! (j - ?sk) else fbytes w (?b + j))"
    if "j < ?sp" for j
    using that got pad [OF _ that] g(4) assms(4) by (auto simp: nth_blit)
  have len: "length (blit ?pad ?sk cs) = ?sp" using got g(4) assms(4) by simp
  have r: "r = ?sp" using ls_os_pwrite_spec(2) [OF pw] wf1(2) len by simp
  note fr = ls_os_pwrite_frame [OF pw wf1(1)]
  have cell: "fbytes w2 (?b + j) = blit ?pad ?sk cs ! j" if "j < ?sp" for j
    using fr(2) [OF refl] r that by simp
  have same: "fbytes w2 i = fbytes w i" if "i \<notin> ival pos ?ch" for i
  proof (cases "i \<in> ival ?b ?sp")
    case True
    then show ?thesis using cell [of "i - ?b"] out [of "i - ?b"] that g(1) by auto
  next
    case False
    then show ?thesis using fr(1) r w1(1) by (auto dest: file_frameD(4) [where i = i])
  qed
  show "file_frame w w2 (ival pos ?ch)"
    using fr(1) same w1 advances_trans [OF w1(3)] by (simp add: file_frame_def)
  show "\<And>i. i < ?ch \<Longrightarrow> fbytes w2 (pos + i) = cs ! i"
    using cell out g(1,4) by (metis (no_types, lifting) add.assoc add_diff_cancel_left' add_less_mono1 add_mono_thms_linordered_field(2) ival_iff le_add1 less_le_trans)
  show "pos + ?ch \<le> flen w2"
    using fr(2) [OF refl] r g(1,2,4) by auto
qed
lemma direct_write_spec:
  assumes "direct_write w cp n off dn = (w', rc)" "length cp = n" "dn \<le> n" "off + n < u64_mod"
    "file_wf w" "no_short w"
  shows "file_frame w w' (ival (off + dn) (n - dn)) \<and> (rc = LS_OK \<longrightarrow> landed w' cp n off dn)
    \<and> (quiet w \<and> off + n + 4096 \<le> off_max \<longrightarrow> rc = LS_OK)"
  using assms
proof (induction w cp n off dn rule: direct_write.induct)
  case (1 w cp n off dn)
  show ?case
  proof (cases "dn < n")
    case False
    then show ?thesis
      using "1.prems" by (auto simp: direct_write.simps [of w] landed_def file_frame_refl)
  next
    case True
    let ?p = "off + dn" and ?l = "n - dn"
    let ?ch = "db_chunk ?p ?l" and ?sp = "db_span ?p ?l"
    let ?rd = "if db_skew ?p \<noteq> 0 \<or> ?sp \<noteq> db_skew ?p + ?ch
               then ls_os_pread w ?sp (db_base ?p) else (w, Inr [])"
    have pos: "add64 off dn = ?p" using "1.prems"(4) True by (simp add: wrap_simps)
    have l: "0 < ?l" using True by simp
    note g = db_geometry [OF l, of ?p]
    have lim: "off + n + 4096 \<le> off_max \<Longrightarrow> db_base ?p + ?sp < off_max" using g(3,5) True by linarith
    obtain w1 y where rd: "?rd = (w1, y)" by fastforce
    have w1: "fbytes w1 = fbytes w" "flen w1 = flen w" "advances w w1"
      using rd ls_os_pread_spec(1,2,3) [of w ?sp "db_base ?p" w1 y]
      by (auto split: if_splits dest: progressed_advances)
    have wf1: "file_wf w1" using "1.prems"(5) w1 by (simp add: file_wf_cong [of w1 w])
    show ?thesis
    proof (cases y)
      case (Inl e)
      then have "w' = w1" "rc = neg_errno e"
        using "1.prems"(1) True rd by (simp_all add: direct_write.simps [of w] pos Let_def)
      moreover have "quiet w \<Longrightarrow> \<not> db_base ?p + ?sp < off_max"
        using rd Inl ls_os_pread_spec(4) [of w ?sp "db_base ?p" w1 y] by (auto split: if_splits)
      ultimately show ?thesis
        using w1 lim "1.prems"(5) by (auto intro: file_frame_same)
    next
      case (Inr got)
      let ?bb = "blit (got @ zeros (?sp - length got)) (db_skew ?p) (part cp dn ?ch)"
      obtain w2 z where pw: "ls_os_pwrite w1 ?bb (db_base ?p) = (w2, z)" by fastforce
      note sp = ls_os_pwrite_spec [OF pw] and fr = ls_os_pwrite_frame [OF pw wf1]
      have adv: "advances w w2" using w1(3) sp(1) by (blast intro: advances_trans progressed_advances)
      have q: "quiet w \<Longrightarrow> quiet w2" "no_short w2" "file_wf w2"
        using adv "1.prems"(6) fr(1) by (auto intro: advances_quiet advances_no_short file_frameD)
      have lenp: "length (part cp dn ?ch) = ?ch" using g(3) "1.prems"(2) True by simp
      have lbb: "length ?bb = ?sp"
      proof -
        have "length got \<le> ?sp"
          using rd Inr ls_os_pread_spec(4) [of w ?sp "db_base ?p" w1 y] by (auto split: if_splits)
        then show ?thesis using lenp g(4) by simp
      qed
      show ?thesis
      proof (cases z)
        case (Inl e)
        have f1: "file_frame w w2 {}" using fr(1) Inl w1 adv by (simp add: file_frame_def)
        show ?thesis
        proof (cases "e = EINTR")
          case True
          have run: "direct_write w2 cp n off dn = (w', rc)"
            using "1.prems"(1) \<open>dn < n\<close> rd \<open>y = Inr got\<close> pw Inl True
            by (simp add: direct_write.simps [of w] pos Let_def)
          from "1.IH"(1) [OF \<open>dn < n\<close> refl refl refl, unfolded pos, OF rd [symmetric] \<open>y = Inr got\<close>
              pw [symmetric] Inl True run "1.prems"(2,3,4) q(3,2)]
          show ?thesis using q(1) f1 by (auto intro: file_frame_trans)
        next
          case False
          then have "w' = w2" "rc = neg_errno e"
            using "1.prems"(1) \<open>dn < n\<close> rd \<open>y = Inr got\<close> pw Inl
            by (simp_all add: direct_write.simps [of w] pos Let_def)
          moreover have "quiet w \<Longrightarrow> \<not> db_base ?p + ?sp < off_max"
            using sp(2) Inl lbb advances_quiet [OF w1(3)] by simp
          ultimately show ?thesis using f1 lim by (auto intro: file_frame_mono)
        qed
      next
        case (Inr r)
        have run: "direct_write w2 cp n off (dn + ?ch) = (w', rc)"
          using "1.prems"(1) \<open>dn < n\<close> rd \<open>y = Inr got\<close> pw Inr
          by (simp add: direct_write.simps [of w] pos Let_def)
        note rnd = direct_round [OF "1.prems"(5,6) l lenp rd [unfolded \<open>y = Inr got\<close>] pw [unfolded Inr]]
        have "dn + ?ch \<le> n" using g(3) True by simp
        from "1.IH"(2) [OF \<open>dn < n\<close> refl refl refl, unfolded pos, OF rd [symmetric] \<open>y = Inr got\<close>
            pw [symmetric] Inr run "1.prems"(2) this "1.prems"(4) q(3,2)]
        have IH: "file_frame w2 w' (ival (off + (dn + ?ch)) (n - (dn + ?ch)))"
          "rc = LS_OK \<Longrightarrow> landed w' cp n off (dn + ?ch)"
          "quiet w2 \<and> off + n + 4096 \<le> off_max \<Longrightarrow> rc = LS_OK"
          by simp_all
        have c: "fbytes w2 (off + i) = cp ! i" if "dn \<le> i" "i < dn + ?ch" for i
          using rnd(2) [of "i - dn"] that nth_part [of dn ?ch cp "i - dn"] \<open>dn + ?ch \<le> n\<close> "1.prems"(2)
          by simp
        have "rc = LS_OK \<Longrightarrow> landed w' cp n off dn"
          using landed_extend [OF IH(2) IH(1) c] g(2) rnd(3) \<open>dn + ?ch \<le> n\<close> by (simp add: add.assoc)
        moreover have "file_frame w w' (ival (off + dn) (n - dn))"
          using rnd(1) IH(1) by (rule file_frame_trans) (use \<open>dn + ?ch \<le> n\<close> in auto)
        ultimately show ?thesis using IH(3) q(1) by auto
      qed
    qed
  qed
qed

lemma direct_read_spec:
  assumes "direct_read w p n off dn = (w', rc, out)" "dn \<le> n" "off + n < u64_mod"
    "p = file_read w off dn" "file_wf w" "no_short w"
  shows "advances w w' \<and> fbytes w' = fbytes w \<and> flen w' = flen w
    \<and> (rc = LS_OK \<longrightarrow> out = file_read w off n)
    \<and> (quiet w \<and> off + n + 4096 \<le> off_max \<longrightarrow> rc = LS_OK)"
  using assms
proof (induction w p n off dn rule: direct_read.induct)
  case (1 w p n off dn)
  show ?case
  proof (cases "dn < n")
    case False
    then show ?thesis using "1.prems" by (auto simp: direct_read.simps [of w])
  next
    case True
    let ?p = "off + dn" and ?l = "n - dn"
    let ?ch = "db_chunk ?p ?l" and ?sp = "db_span ?p ?l"
    have pos: "add64 off dn = ?p" using "1.prems"(3) True by (simp add: wrap_simps)
    have l: "0 < ?l" using True by simp
    note g = db_geometry [OF l, of ?p]
    have lim: "off + n + 4096 \<le> off_max \<Longrightarrow> db_base ?p + ?sp < off_max" using g(3,5) True by linarith
    obtain w1 y where pr: "ls_os_pread w ?sp (db_base ?p) = (w1, y)" by fastforce
    note sp = ls_os_pread_spec [OF pr]
    have adv: "advances w w1" using sp(1) by (rule progressed_advances)
    have rd: "file_read w1 = file_read w" using sp(2) by (simp add: file_read_def fun_eq_iff)
    have q: "quiet w \<Longrightarrow> quiet w1" "no_short w1" "file_wf w1"
      using adv "1.prems"(5,6) sp(2,3) by (auto intro: advances_quiet advances_no_short simp: file_wf_cong [of w1 w])
    show ?thesis
    proof (cases y)
      case (Inl e)
      show ?thesis
      proof (cases "e = EINTR")
        case True
        then have run: "direct_read w1 p n off dn = (w', rc, out)"
          using "1.prems"(1) \<open>dn < n\<close> pr Inl by (simp add: direct_read.simps [of w] pos Let_def)
        have "p = file_read w1 off dn" using "1.prems"(4) rd by simp
        from "1.IH"(1) [OF \<open>dn < n\<close> refl refl refl, unfolded pos, OF pr [symmetric] Inl True run
            "1.prems"(2,3) this q(3,2)]
        show ?thesis using rd q(1) sp(2,3) advances_trans [OF adv] by auto
      next
        case False
        then have "w' = w1" "rc = neg_errno e"
          using "1.prems"(1) \<open>dn < n\<close> pr Inl by (simp_all add: direct_read.simps [of w] pos Let_def)
        then show ?thesis using sp Inl lim adv by auto
      qed
    next
      case (Inr got)
      let ?new = "part (got @ zeros (?sp - length got)) (db_skew ?p) ?ch"
      have run: "direct_read w1 (p @ ?new) n off (dn + ?ch) = (w', rc, out)"
        using "1.prems"(1) \<open>dn < n\<close> pr Inr by (simp add: direct_read.simps [of w] pos Let_def)
      have gl: "length got = min ?sp (flen w - db_base ?p)" "got = file_read w (db_base ?p) (length got)"
        using sp(4) Inr "1.prems"(6) by auto
      have cell: "(got @ zeros (?sp - length got)) ! j = fbytes w (db_base ?p + j)" if "j < ?sp" for j
        using gl that "1.prems"(5) nth_file_read [of j "length got" w "db_base ?p"]
        by (auto simp: nth_append file_wf_def)
      have lnew: "length ?new = ?ch" using gl(1) g(4) by (intro length_part) simp
      have "?new = file_read w ?p ?ch"
      proof (rule nth_equalityI)
        show "length ?new = length (file_read w ?p ?ch)" using lnew by simp
        fix i assume "i < length ?new"
        then have i: "i < ?ch" using lnew by simp
        have "?new ! i = (got @ zeros (?sp - length got)) ! (db_skew ?p + i)"
          using i gl(1) g(4) by (intro nth_part) auto
        also have "\<dots> = fbytes w (db_base ?p + (db_skew ?p + i))"
          using cell [of "db_skew ?p + i"] i g(4) by simp
        also have "\<dots> = file_read w ?p ?ch ! i"
          using g(1) i nth_file_read [of i ?ch w ?p] by (simp flip: add.assoc)
        finally show "?new ! i = file_read w ?p ?ch ! i" .
      qed
      then have acc: "p @ ?new = file_read w1 off (dn + ?ch)"
        using "1.prems"(4) rd file_read_append [of w off dn ?ch] by simp
      have "dn + ?ch \<le> n" using g(3) True by simp
      from "1.IH"(2) [OF \<open>dn < n\<close> refl refl refl, unfolded pos, OF pr [symmetric] Inr run this
          "1.prems"(3) acc q(3,2)]
      have IH: "advances w1 w'" "fbytes w' = fbytes w1" "flen w' = flen w1"
        "rc = LS_OK \<longrightarrow> out = file_read w1 off n"
        "quiet w1 \<and> off + n + 4096 \<le> off_max \<longrightarrow> rc = LS_OK"
        by simp_all
      show ?thesis using IH sp(2,3) rd q(1) advances_trans [OF adv IH(1)] by simp
    qed
  qed
qed

subsection \<open>\<open>rw_all\<close>: all or nothing\<close>

text \<open>Uncached I/O retries nothing but an interrupt, so there a short transfer must not happen.\<close>

definition io_ok :: "os \<Rightarrow> bool \<Rightarrow> bool" where
  "io_ok w direct \<longleftrightarrow> file_wf w \<and> (direct \<longrightarrow> no_short w)"

lemma io_ok_frame: "file_frame w w' A \<Longrightarrow> io_ok w direct \<Longrightarrow> io_ok w' direct"
  by (auto simp: io_ok_def file_frame_def intro: advances_no_short)

lemma ls_pwrite_all_spec:
  assumes "ls_pwrite_all w direct bs off = (w', rc)" "off + length bs < u64_mod" "io_ok w direct"
  shows "file_frame w w' (ival off (length bs))"
    "rc = LS_OK \<Longrightarrow> file_read w' off (length bs) = bs"
    "rc = LS_OK \<Longrightarrow> bs \<noteq> [] \<Longrightarrow> off + length bs \<le> flen w'"
    "quiet w \<Longrightarrow> off + length bs + 4096 \<le> off_max \<Longrightarrow> rc = LS_OK"
proof -
  have "file_frame w w' (ival off (length bs)) \<and> (rc = LS_OK \<longrightarrow> landed w' bs (length bs) off 0)
    \<and> (quiet w \<and> off + length bs + 4096 \<le> off_max \<longrightarrow> rc = LS_OK)"
  proof (cases "bs = []")
    case True
    then show ?thesis using assms
      by (auto simp: ls_pwrite_all_def rw_all_def landed_def io_ok_def file_frame_refl)
  next
    case False
    obtain al w1 where al: "(if direct then os_aligned w else (True, w)) = (al, w1)" by fastforce
    have w1: "fbytes w1 = fbytes w" "flen w1 = flen w" "sys w1 = sys w" "advances w w1"
      using al os_aligned_props [of w al w1] by (auto split: if_splits)
    obtain ok w2 where ok: "os_malloc w1 = (ok, w2)" by fastforce
    note w2 = os_malloc_props [OF ok]
    have wf: "file_wf w" "file_wf w1" "file_wf w2" "direct \<Longrightarrow> no_short w2"
      using assms(3) w1 w2 by (auto simp: io_ok_def file_wf_def no_short_def)
    have fr: "file_frame w w1 {}" "file_frame w w2 {}"
      using w1 w2 wf advances_trans [OF w1(4)] by (auto intro: file_frame_same)
    have q: "quiet w \<Longrightarrow> quiet w1 \<and> quiet w2 \<and> ok"
      using advances_quiet w1(4) w2(5,6) by (metis quiet_def)
    consider (plain) "plain_write w1 bs (length bs) off 0 = (w', rc)"
      | (oom) "w' = w2" "rc = neg_errno ENOMEM" "\<not> ok"
      | (direct) "direct" "direct_write w2 bs (length bs) off 0 = (w', rc)"
      using assms(1) al ok False
      by (auto simp: ls_pwrite_all_def rw_all_def split: if_splits prod.splits)
    then show ?thesis
    proof cases
      case plain
      show ?thesis using plain_write_spec [OF plain refl _ assms(2) wf(2)] fr(1) q
        by (auto intro: file_frame_trans)
    next
      case oom
      then show ?thesis using fr(2) q by (auto intro: file_frame_mono)
    next
      case direct
      show ?thesis using direct_write_spec [OF direct(2) refl _ assms(2) wf(3) wf(4) [OF direct(1)]] fr(2) q
        by (auto intro: file_frame_trans)
    qed
  qed
  then show "file_frame w w' (ival off (length bs))"
    "rc = LS_OK \<Longrightarrow> file_read w' off (length bs) = bs"
    "rc = LS_OK \<Longrightarrow> bs \<noteq> [] \<Longrightarrow> off + length bs \<le> flen w'"
    "quiet w \<Longrightarrow> off + length bs + 4096 \<le> off_max \<Longrightarrow> rc = LS_OK"
    by (auto simp: landed_def nth_file_read intro!: nth_equalityI)
qed

lemma ls_pread_all_spec:
  assumes "ls_pread_all w direct n off = (w', rc, out)" "off + n < u64_mod" "io_ok w direct"
  shows "file_frame w w' {}" "rc = LS_OK \<Longrightarrow> out = file_read w off n"
    "quiet w \<Longrightarrow> off + n + 4096 \<le> off_max \<Longrightarrow> off + n \<le> flen w \<Longrightarrow> rc = LS_OK"
    "flen w' = flen w"
proof -
  have "advances w w' \<and> fbytes w' = fbytes w \<and> flen w' = flen w
    \<and> (rc = LS_OK \<longrightarrow> out = file_read w off n)
    \<and> (quiet w \<and> off + n + 4096 \<le> off_max \<and> off + n \<le> flen w \<longrightarrow> rc = LS_OK)"
  proof (cases "n = 0")
    case True
    then show ?thesis using assms by (auto simp: ls_pread_all_def rw_all_def file_read_def)
  next
    case False
    obtain al w1 where al: "(if direct then os_aligned w else (True, w)) = (al, w1)" by fastforce
    have w1: "fbytes w1 = fbytes w" "flen w1 = flen w" "sys w1 = sys w" "advances w w1"
      using al os_aligned_props [of w al w1] by (auto split: if_splits)
    obtain ok w2 where ok: "os_malloc w1 = (ok, w2)" by fastforce
    note w2 = os_malloc_props [OF ok]
    have wf: "file_wf w2" "direct \<Longrightarrow> no_short w2"
      using assms(3) w1 w2 by (auto simp: io_ok_def file_wf_def no_short_def)
    have q: "quiet w \<Longrightarrow> quiet w1 \<and> quiet w2 \<and> ok"
      using advances_quiet w1(4) w2(5,6) by (metis quiet_def)
    have rd: "file_read w1 = file_read w" "file_read w2 = file_read w"
      using w1 w2 by (auto simp: file_read_def fun_eq_iff)
    have nil: "[] = file_read v off 0" for v by (simp add: file_read_def)
    consider (plain) "plain_read w1 [] n off 0 = (w', rc, out)"
      | (oom) "w' = w2" "rc = neg_errno ENOMEM" "\<not> ok"
      | (direct) "direct" "direct_read w2 [] n off 0 = (w', rc, out)"
      using assms(1) al ok False
      by (auto simp: ls_pread_all_def rw_all_def split: if_splits prod.splits)
    then show ?thesis
    proof cases
      case plain
      show ?thesis using plain_read_spec [OF plain _ assms(2) nil] w1 rd q advances_trans [OF w1(4)]
        by auto
    next
      case oom
      then show ?thesis using w1 w2 q advances_trans [OF w1(4)] by auto
    next
      case direct
      show ?thesis
        using direct_read_spec [OF direct(2) _ assms(2) nil wf(1) wf(2) [OF direct(1)]] w1 w2 rd q
          advances_trans [OF w1(4) advances_trans [OF w2(5)]] by auto
    qed
  qed
  then show "file_frame w w' {}" "rc = LS_OK \<Longrightarrow> out = file_read w off n"
    "quiet w \<Longrightarrow> off + n + 4096 \<le> off_max \<Longrightarrow> off + n \<le> flen w \<Longrightarrow> rc = LS_OK" "flen w' = flen w"
    using assms(3) by (auto simp: io_ok_def intro: file_frame_same)
qed

subsection \<open>The interface the rest of the library uses\<close>

text \<open>
  Positional transfers: a write changes its own range only, a successful write leaves its
  bytes there, a successful read returns what is there. The store reaches the file through
  this contract, whichever of the two transfer paths is in force.
\<close>

locale positional_io =
  fixes wr :: "os \<Rightarrow> byte list \<Rightarrow> nat \<Rightarrow> os \<times> int"
    and rd :: "os \<Rightarrow> nat \<Rightarrow> nat \<Rightarrow> os \<times> int \<times> byte list"
    and ok :: "os \<Rightarrow> bool"
  assumes wr_frame: "wr w bs off = (w', rc) \<Longrightarrow> off + length bs < u64_mod \<Longrightarrow> ok w \<Longrightarrow>
      file_frame w w' (ival off (length bs)) \<and> ok w'"
    and wr_lands: "wr w bs off = (w', LS_OK) \<Longrightarrow> off + length bs < u64_mod \<Longrightarrow> ok w \<Longrightarrow>
      file_read w' off (length bs) = bs"
    and rd_frame: "rd w n off = (w', rc, out) \<Longrightarrow> off + n < u64_mod \<Longrightarrow> ok w \<Longrightarrow>
      file_frame w w' {} \<and> ok w'"
    and rd_reads: "rd w n off = (w', LS_OK, out) \<Longrightarrow> off + n < u64_mod \<Longrightarrow> ok w \<Longrightarrow>
      out = file_read w off n"
begin

lemma read_back:
  assumes "wr w bs off = (w1, LS_OK)" "rd w1 (length bs) off = (w2, LS_OK, out)"
    "off + length bs < u64_mod" "ok w"
  shows "out = bs"
  using assms wr_frame wr_lands rd_reads by metis

lemma file_read_frame:
  assumes "file_frame w w' A" "ival off n \<inter> A = {}"
  shows "file_read w' off n = file_read w off n"
  using assms by (auto simp: file_read_def file_frame_def)

lemma write_elsewhere:
  assumes "wr w as a = (w1, LS_OK)" "wr w1 bs b = (w2, rc)" "ok w"
    "a + length as < u64_mod" "b + length bs < u64_mod"
    "ival a (length as) \<inter> ival b (length bs) = {}"
  shows "file_read w2 a (length as) = as"
proof -
  have "file_frame w1 w2 (ival b (length bs))" using assms wr_frame by blast
  from file_read_frame [OF this assms(6)] show ?thesis
    using assms(1,3,4) wr_lands by simp
qed

lemma both_read_back:
  assumes "wr w as a = (w1, LS_OK)" "wr w1 bs b = (w2, LS_OK)" "ok w"
    "rd w2 (length as) a = (w3, LS_OK, as')" "rd w3 (length bs) b = (w4, LS_OK, bs')"
    "a + length as < u64_mod" "b + length bs < u64_mod"
    "ival a (length as) \<inter> ival b (length bs) = {}"
  shows "as' = as \<and> bs' = bs"
proof -
  have ok: "ok w1" "ok w2" using assms wr_frame by blast+
  have "as' = as" using rd_reads [OF assms(4,6) ok(2)] write_elsewhere [OF assms(1,2,3,6,7,8)] by simp
  moreover have "file_frame w2 w3 {}" "ok w3" using rd_frame [OF assms(4,6) ok(2)] by auto
  then have "bs' = file_read w2 b (length bs)"
    using rd_reads [OF assms(5,7)] file_read_frame [of w2 w3 "{}"] by simp
  ultimately show ?thesis using wr_lands [OF assms(2,7) ok(1)] by simp
qed

end

interpretation pio: positional_io
  "\<lambda>w. ls_pwrite_all w direct" "\<lambda>w. ls_pread_all w direct" "\<lambda>w. io_ok w direct" for direct
proof
  show "ls_pwrite_all w direct bs off = (w', rc) \<Longrightarrow> off + length bs < u64_mod \<Longrightarrow> io_ok w direct
      \<Longrightarrow> file_frame w w' (ival off (length bs)) \<and> io_ok w' direct" for w bs off w' rc
    using ls_pwrite_all_spec(1) io_ok_frame by blast
  show "ls_pwrite_all w direct bs off = (w', LS_OK) \<Longrightarrow> off + length bs < u64_mod \<Longrightarrow> io_ok w direct
      \<Longrightarrow> file_read w' off (length bs) = bs" for w bs off w'
    using ls_pwrite_all_spec(2) by blast
  show "ls_pread_all w direct n off = (w', rc, out) \<Longrightarrow> off + n < u64_mod \<Longrightarrow> io_ok w direct
      \<Longrightarrow> file_frame w w' {} \<and> io_ok w' direct" for w n off w' rc out
    using ls_pread_all_spec(1) io_ok_frame by blast
  show "ls_pread_all w direct n off = (w', LS_OK, out) \<Longrightarrow> off + n < u64_mod \<Longrightarrow> io_ok w direct
      \<Longrightarrow> out = file_read w off n" for w n off w' out
    using ls_pread_all_spec(2) by blast
qed

subsection \<open>Zeroing a range\<close>

text \<open>\<open>zeroed w off n\<close>: the range reads as zero and lies inside the file.\<close>

definition zeroed :: "os \<Rightarrow> nat \<Rightarrow> nat \<Rightarrow> bool" where
  "zeroed w off n \<longleftrightarrow> (\<forall>i\<in>ival off n. fbytes w i = 0) \<and> (0 < n \<longrightarrow> off + n \<le> flen w)"

lemma ZERO_CHUNK_pos [simp]: "0 < ZERO_CHUNK"
  by (simp add: ZERO_CHUNK_def)

lemma zero_loop_spec:
  assumes "zero_loop w direct off n = (w', rc)" "off + n < u64_mod" "io_ok w direct"
  shows "file_frame w w' (ival off n) \<and> (rc = LS_OK \<longrightarrow> zeroed w' off n)
    \<and> (quiet w \<and> off + n + 4096 \<le> off_max \<longrightarrow> rc = LS_OK)"
  using assms
proof (induction w direct off n rule: zero_loop.induct)
  case (1 w direct off n)
  show ?case
  proof (cases "n = 0")
    case True
    then show ?thesis
      using "1.prems" by (auto simp: zero_loop.simps [of w] zeroed_def io_ok_def file_frame_refl)
  next
    case False
    let ?k = "if n < ZERO_CHUNK then n else ZERO_CHUNK"
    have k: "0 < ?k" "?k \<le> n" using False by auto
    obtain w1 rc1 where pw: "ls_pwrite_all w direct (zeros ?k) off = (w1, rc1)" by fastforce
    have lim: "off + length (zeros ?k) < u64_mod" using k "1.prems"(2) by simp
    note sp = ls_pwrite_all_spec [OF pw lim "1.prems"(3)]
    have ok: "io_ok w1 direct" using sp(1) "1.prems"(3) by (rule io_ok_frame)
    show ?thesis
    proof (cases "rc1 = LS_OK")
      case False
      then have "w' = w1" "rc = rc1"
        using "1.prems"(1) \<open>n \<noteq> 0\<close> pw by (simp_all add: zero_loop.simps [of w] Let_def)
      then show ?thesis
        using False sp(1,4) k by (auto intro: file_frame_mono)
    next
      case True
      have run: "zero_loop w1 direct (off + ?k) (n - ?k) = (w', rc)"
        using "1.prems"(1,2) \<open>n \<noteq> 0\<close> pw True k
        by (simp add: zero_loop.simps [of w] Let_def wrap_simps)
      have eq: "add64 off ?k = off + ?k" using k "1.prems"(2) by (simp add: wrap_simps)
      from "1.IH" [OF \<open>n \<noteq> 0\<close> refl pw [symmetric], unfolded eq] True run ok "1.prems"(2) k
      have IH: "file_frame w1 w' (ival (off + ?k) (n - ?k))"
        "rc = LS_OK \<Longrightarrow> zeroed w' (off + ?k) (n - ?k)"
        "quiet w1 \<Longrightarrow> off + n + 4096 \<le> off_max \<Longrightarrow> rc = LS_OK" by simp_all
      have z: "fbytes w1 i = 0" if "i \<in> ival off ?k" for i
        using sp(2) [OF True] that nth_file_read [of "i - off" ?k w1 off]
        by (cases "n < ZERO_CHUNK") auto
      have "zeroed w' off n" if "rc = LS_OK"
        unfolding zeroed_def
      proof (intro conjI ballI impI)
        fix i assume "i \<in> ival off n"
        then show "fbytes w' i = 0"
          using IH(2) [OF that] z [of i] file_frameD(4) [OF IH(1), of i]
          by (cases "i < off + ?k") (auto simp: zeroed_def)
      next
        show "off + n \<le> flen w'"
          using IH(2) [OF that] sp(3) [OF True] file_frameD(3) [OF IH(1)] k
          by (cases "?k < n") (auto simp: zeroed_def)
      qed
      moreover have "file_frame w w' (ival off n)"
        using sp(1) IH(1) by (rule file_frame_trans) (use k in auto)
      moreover have "quiet w \<Longrightarrow> quiet w1" using sp(1) by (blast intro: advances_quiet file_frameD)
      ultimately show ?thesis using IH(3) by auto
    qed
  qed
qed

lemma zero_write_spec:
  assumes "zero_write w direct off n = (w', rc)" "off + n < u64_mod" "io_ok w direct"
  shows "file_frame w w' (ival off n)" "rc = LS_OK \<Longrightarrow> zeroed w' off n"
    "quiet w \<Longrightarrow> off + n + 4096 \<le> off_max \<Longrightarrow> rc = LS_OK"
proof -
  obtain ok w1 where m: "os_malloc w = (ok, w1)" by fastforce
  note w1 = os_malloc_props [OF m]
  have f: "file_frame w w1 {}" using w1 assms(3) by (auto simp: io_ok_def intro: file_frame_same)
  have ok1: "io_ok w1 direct" using f assms(3) by (rule io_ok_frame)
  have q: "quiet w \<Longrightarrow> quiet w1 \<and> ok" using w1(5,6) advances_quiet by (auto simp: quiet_def)
  have "file_frame w w' (ival off n) \<and> (rc = LS_OK \<longrightarrow> zeroed w' off n)
    \<and> (quiet w \<and> off + n + 4096 \<le> off_max \<longrightarrow> rc = LS_OK)"
  proof (cases ok)
    case True
    then have "zero_loop w1 direct off n = (w', rc)" using assms(1) m by (simp add: zero_write_def)
    from zero_loop_spec [OF this assms(2) ok1] show ?thesis
      using q file_frame_trans [OF f] by auto
  next
    case False
    then show ?thesis using assms(1) m f q by (auto simp: zero_write_def intro: file_frame_mono)
  qed
  then show "file_frame w w' (ival off n)" "rc = LS_OK \<Longrightarrow> zeroed w' off n"
    "quiet w \<Longrightarrow> off + n + 4096 \<le> off_max \<Longrightarrow> rc = LS_OK" by auto
qed

text \<open>
  The path with the zeroing primitive: what lies inside the file is zeroed in place, and one
  zero byte at the end of the range extends the file over the rest.
\<close>

lemma zero_extend_spec:
  assumes "file_wf v" "\<forall>i\<in>ival off n. i < flen v \<longrightarrow> fbytes v i = 0" "0 < n" "off + n < u64_mod"
    and run: "(if off + n \<le> flen v then (v, LS_OK) else ls_pwrite_all v False [0] (off + n - 1)) = (w', rc)"
  shows "file_frame v w' (ival off n)" "rc = LS_OK \<Longrightarrow> zeroed w' off n"
    "quiet v \<Longrightarrow> off + n + 4096 \<le> off_max \<Longrightarrow> rc = LS_OK"
proof -
  have z: "\<forall>i\<in>ival off n. fbytes v i = 0"
    using assms(1,2) by (meson file_wf_def not_le)
  have "file_frame v w' (ival off n) \<and> (rc = LS_OK \<longrightarrow> zeroed w' off n)
    \<and> (quiet v \<and> off + n + 4096 \<le> off_max \<longrightarrow> rc = LS_OK)"
  proof (cases "off + n \<le> flen v")
    case True
    then show ?thesis using run z assms(1) by (auto simp: zeroed_def file_frame_refl)
  next
    case False
    then have pw: "ls_pwrite_all v False [0] (off + n - 1) = (w', rc)" using run by simp
    have lim: "off + n - 1 + length [0 :: byte] < u64_mod" using assms(3,4) by simp
    have ok: "io_ok v False" using assms(1) by (simp add: io_ok_def)
    note sp = ls_pwrite_all_spec [OF pw lim ok]
    have f: "file_frame v w' (ival off n)" using sp(1) by (rule file_frame_mono) (use assms(3) in auto)
    have "zeroed w' off n" if "rc = LS_OK"
    proof -
      have "fbytes w' i = 0" if i: "i \<in> ival off n" for i
      proof (cases "i = off + n - 1")
        case True
        then show ?thesis using sp(2) [OF \<open>rc = LS_OK\<close>] by (simp add: file_read_def)
      next
        case False
        then have "i \<notin> ival (off + n - 1) (length [0 :: byte])" using i by auto
        then have "fbytes w' i = fbytes v i" by (rule file_frameD(4) [OF sp(1)])
        then show ?thesis using z i by simp
      qed
      moreover have "off + n \<le> flen w'" using sp(3) [OF that] assms(3) by simp
      ultimately show ?thesis by (simp add: zeroed_def)
    qed
    then show ?thesis using f sp(4) assms(3) by simp
  qed
  then show "file_frame v w' (ival off n)" "rc = LS_OK \<Longrightarrow> zeroed w' off n"
    "quiet v \<Longrightarrow> off + n + 4096 \<le> off_max \<Longrightarrow> rc = LS_OK" by auto
qed

lemma zero_range_spec:
  assumes "zero_range w direct off n = (w', rc)" "off + n < u64_mod" "io_ok w direct"
  shows "file_frame w w' (ival off n) \<and> (rc = LS_OK \<longrightarrow> zeroed w' off n)
    \<and> (quiet w \<and> off + n + 4096 \<le> off_max \<longrightarrow> rc = LS_OK)"
proof (cases "n = 0 \<or> direct")
  case True
  then show ?thesis using assms zero_write_spec [OF _ assms(2,3), of w' rc]
    by (cases "n = 0") (auto simp: zero_range_def zeroed_def io_ok_def file_frame_refl)
next
  case False
  then have n: "0 < n" and nd: "\<not> direct" and wf: "file_wf w" using assms(3) by (auto simp: io_ok_def)
  have s: "add64 off n = off + n" "sub64 (off + n) 1 = off + n - 1"
    using assms(2) n by (simp_all add: wrap_simps)
  obtain v fs where fs: "ls_os_file_size w = (v, fs)" by fastforce
  note v = ls_os_file_size_spec [OF fs wf]
  have wfv: "file_wf v" using v(1) by (rule file_frameD)
  show ?thesis
  proof (cases fs)
    case (Inl e)
    then show ?thesis
      using assms(1) nd n fs v(1,5) by (auto simp: zero_range_def quiet_def intro: file_frame_mono)
  next
    case (Inr fend)
    define inside where "inside = (if fend \<le> off then 0 else if fend - off < n then fend - off else n)"
    have fend: "fend = flen v" using v(2,4) Inr by simp
    have run: "(case (if inside = 0 then (v, Inr ()) else ls_os_zero_range v off inside) of
                (w2, Inl _) \<Rightarrow> zero_write w2 False off n
              | (w2, Inr _) \<Rightarrow>
                  if add64 off n \<le> fend then (w2, LS_OK)
                  else ls_pwrite_all w2 False [0] (sub64 (add64 off n) 1)) = (w', rc)"
      using assms(1) nd n fs Inr unfolding zero_range_def Let_def inside_def
      by (simp del: One_nat_def split del: if_split cong: if_cong)
    obtain u y where z: "(if inside = 0 then (v, Inr ()) else ls_os_zero_range v off inside) = (u, y)"
      by fastforce
    have u: "file_frame v u (ival off inside)" "flen u = flen v" "quiet v \<longrightarrow> y = Inr ()"
      "y = Inr () \<Longrightarrow> \<forall>i\<in>ival off inside. fbytes u i = 0"
    proof -
      have "file_frame v u (ival off inside) \<and> flen u = flen v \<and> (quiet v \<longrightarrow> y = Inr ())
        \<and> (y = Inr () \<longrightarrow> (\<forall>i\<in>ival off inside. fbytes u i = 0))"
      proof (cases "inside = 0")
        case True
        then show ?thesis using z wfv by (simp add: file_frame_refl)
      next
        case False
        then have "ls_os_zero_range v off inside = (u, y)" using z by simp
        from ls_os_zero_range_spec [OF this wfv] show ?thesis by (simp add: quiet_def)
      qed
      then show "file_frame v u (ival off inside)" "flen u = flen v" "quiet v \<longrightarrow> y = Inr ()"
        "y = Inr () \<Longrightarrow> \<forall>i\<in>ival off inside. fbytes u i = 0" by auto
    qed
    have fu: "file_frame w u (ival off n)"
      using v(1) u(1) by (rule file_frame_trans) (auto simp: inside_def)
    have q: "quiet w \<Longrightarrow> quiet v \<and> quiet u" using v(1) u(1) by (blast intro: advances_quiet file_frameD)
    have oku: "io_ok u False" "file_wf u" using u(1) by (auto simp: io_ok_def file_frame_def)
    show ?thesis
    proof (cases y)
      case (Inl e)
      then have "zero_write u False off n = (w', rc)"
        using run z nd by simp
      from zero_write_spec [OF this assms(2) oku(1)] show ?thesis
        using fu q u(3) Inl by (auto intro: file_frame_trans)
    next
      case (Inr x)
      have z0: "\<forall>i\<in>ival off n. i < flen u \<longrightarrow> fbytes u i = 0"
        using u(2,4) Inr fend by (auto simp: inside_def split: if_splits)
      have "(if off + n \<le> flen u then (u, LS_OK) else ls_pwrite_all u False [0] (off + n - 1)) = (w', rc)"
        using run [unfolded z Inr s] nd fend u(2) by simp
      from zero_extend_spec [OF oku(2) z0 n assms(2) this] show ?thesis
        using fu q by (auto intro: file_frame_trans)
    qed
  qed
qed

subsection \<open>Properties of the raw I/O layer\<close>

text \<open>C3. Writes are all-or-nothing. For every pattern of interrupts and errors, and on a buffered store of short
  transfers too, an \<open>ls_pwrite_all\<close> that reports success has put exactly the caller's bytes in its
  range; whatever it reports, no byte outside the range has changed and the file has not been
  cut; and when nothing fails it reports success. On an uncached store (\<open>direct\<close>), whose aligned transfers
  take the caller's buffer and whose others go through whole blocks of the bounce buffer, this needs
  transfers that are not short: the property on lost short writes shows what happens otherwise.\<close>

theorem pwrite_all_or_error:
  assumes "file_wf w" "direct \<Longrightarrow> no_short w" "off + length bs < u64_mod" "ls_pwrite_all w direct bs off = (w', rc)"
  shows "(rc = LS_OK \<longrightarrow> file_read w' off (length bs) = bs)
    \<and> (\<forall>i. i \<notin> ival off (length bs) \<longrightarrow> fbytes w' i = fbytes w i) \<and> flen w \<le> flen w'
    \<and> (quiet w \<and> off + length bs + 4096 \<le> off_max \<longrightarrow> rc = LS_OK)"
  using ls_pwrite_all_spec [OF assms(4,3)] assms(1,2) by (auto simp: io_ok_def file_frame_def)

definition os_empty :: "sysres list \<Rightarrow> os" where
  "os_empty script = \<lparr>fbytes = (\<lambda>_. 0), flen = 0, sys = script, oom = [], algn = []\<rparr>"

lemma os_empty_wf [simp]: "file_wf (os_empty script)"
  by (simp add: os_empty_def file_wf_def)

lemma os_empty_sel [simp]: "sys (os_empty s) = s" "oom (os_empty s) = []" "flen (os_empty s) = 0"
  by (simp_all add: os_empty_def)

theorem pwrite_all_or_error_witness:
  "\<exists>w' v'. ls_pwrite_all (os_empty [Sys_err EINTR, Sys_short 1]) False [7, 8, 9] 2 = (w', LS_OK)
     \<and> file_read w' 2 3 = [7, 8, 9]
     \<and> ls_pwrite_all (os_empty []) True [7, 8, 9] 4095 = (v', LS_OK) \<and> file_read v' 4095 3 = [7, 8, 9]"
proof -
  obtain w' rc where r:
    "ls_pwrite_all (os_empty [Sys_err EINTR, Sys_short 1]) False [7, 8, 9] 2 = (w', rc)" by fastforce
  have "rc = LS_OK"
    using r by (simp add: ls_pwrite_all_def rw_all_def plain_write.simps ls_os_pwrite_def next_sys_def
        os_empty_def file_write_def add64_def u64_mod_def off_max_def)
  moreover obtain v' rc' where d: "ls_pwrite_all (os_empty []) True [7, 8, 9] 4095 = (v', rc')" by fastforce
  have "quiet (os_empty [])" "no_short (os_empty [])" by (simp_all add: quiet_def no_short_def os_empty_def)
  then have "rc' = LS_OK" "file_read v' 4095 3 = [7, 8, 9]"
    using pwrite_all_or_error [OF _ _ _ d] by (auto simp: u64_mod_def off_max_def numeral_3_eq_3)
  ultimately show ?thesis
    using pwrite_all_or_error [OF _ _ _ r] r d by (auto simp: u64_mod_def numeral_3_eq_3)
qed

text \<open>What a successful \<open>ls_pwrite_all\<close> wrote, a successful \<open>ls_pread_all\<close> of the same range
  returns, buffered or uncached, whatever interrupts happen on the way; uncached I/O needs
  the system not to transfer short, since that path does not retry.\<close>

theorem read_after_write:
  assumes "io_ok w direct" "off + length bs < u64_mod"
    "ls_pwrite_all w direct bs off = (w1, LS_OK)"
    "ls_pread_all w1 direct (length bs) off = (w2, LS_OK, out)"
  shows "out = bs"
  using pio.read_back [OF assms(3,4,2,1)] .

theorem read_after_write_witness:
  "\<exists>w1 w2 out. ls_pwrite_all (os_empty [Sys_short 1, Sys_ok, Sys_err EINTR]) False [5, 6] 0 = (w1, LS_OK)
     \<and> ls_pread_all w1 False 2 0 = (w2, LS_OK, out) \<and> out = [5, 6]"
proof -
  obtain w1 rc where r:
    "ls_pwrite_all (os_empty [Sys_short 1, Sys_ok, Sys_err EINTR]) False [5, 6] 0 = (w1, rc)" by fastforce
  have w1: "rc = LS_OK" "sys w1 = [Sys_err EINTR]" "flen w1 = 2"
    using r by (auto simp: ls_pwrite_all_def rw_all_def plain_write.simps ls_os_pwrite_def next_sys_def
        os_empty_def file_write_def add64_def u64_mod_def off_max_def)
  obtain w2 rc2 out where r2: "ls_pread_all w1 False 2 0 = (w2, rc2, out)" by (metis prod_cases3)
  have "rc2 = LS_OK"
    using r2 w1 by (auto simp: ls_pread_all_def rw_all_def plain_read.simps ls_os_pread_def next_sys_def
        file_read_def add64_def u64_mod_def off_max_def)
  then have r2': "ls_pread_all w1 False (length [5, 6 :: byte]) 0 = (w2, LS_OK, out)"
    using r2 by (simp add: numeral_2_eq_2)
  have "io_ok (os_empty [Sys_short 1, Sys_ok, Sys_err EINTR]) False" by (simp add: io_ok_def)
  moreover have "0 + length [5, 6 :: byte] < u64_mod" by (simp add: u64_mod_def)
  ultimately have "out = [5, 6]"
    using r w1(1) r2' by (intro read_after_write [of _ False 0 _ w1 w2 out]) simp_all
  then show ?thesis using r r2 w1 \<open>rc2 = LS_OK\<close> by blast
qed

text \<open>\<open>zero_range\<close> does what \<open>ls_reserve\<close> and write gaps rely on: when it reports success the
  whole range reads as zero and lies inside the file, stale bytes of an earlier record or
  table of contents included; no byte outside the range changes; and it succeeds when
  nothing fails.\<close>

theorem zero_range_zeroes:
  assumes "zero_range w direct off n = (w', rc)" "off + n < u64_mod" "io_ok w direct"
  shows "(rc = LS_OK \<longrightarrow> (\<forall>i\<in>ival off n. fbytes w' i = 0) \<and> (0 < n \<longrightarrow> off + n \<le> flen w'))
    \<and> (\<forall>i. i \<notin> ival off n \<longrightarrow> fbytes w' i = fbytes w i)
    \<and> (quiet w \<and> off + n + 4096 \<le> off_max \<longrightarrow> rc = LS_OK)"
  using zero_range_spec [OF assms] by (auto simp: zeroed_def file_frame_def)

theorem zero_range_zeroes_witness:
  "\<exists>w'. zero_range (os_empty []) False 4096 4096 = (w', LS_OK) \<and> fbytes w' 5000 = 0 \<and> 8192 \<le> flen w'"
proof -
  obtain w' rc where r: "zero_range (os_empty []) False 4096 4096 = (w', rc)" by fastforce
  have "4096 + 4096 < u64_mod" "io_ok (os_empty []) False" "quiet (os_empty [])"
    "4096 + 4096 + 4096 \<le> off_max"
    by (simp_all add: u64_mod_def off_max_def io_ok_def quiet_def)
  then show ?thesis using zero_range_zeroes [OF r] r by auto
qed

text \<open>C6: the uncached path reports success for a write the system cut short: with a
  block-aligned range and an unaligned buffer, a transfer of zero bytes is taken for the
  whole transfer, and the file is left as it was.\<close>

theorem direct_short_write_lost:
  assumes "sys w = [Sys_short 0]" "oom w = []" "algn w = []" "length bs = 4096"
    "off mod 4096 = 0" "off + 8192 < off_max"
  shows "ls_pwrite_all w True bs off = (w\<lparr>sys := []\<rparr>, LS_OK)"
proof -
  have o: "off + 4096 < u64_mod" "off < u64_mod" using assms(6) off_max_less by linarith+
  then have p: "add64 off 0 = off" by (simp add: wrap_simps)
  have ch: "db_skew off = 0" "db_chunk off 4096 = 4096" "db_span off 4096 = 4096" "db_base off = off"
    using assms(5) by (simp_all add: db_skew_def db_chunk_def db_span_def db_base_def)
  show ?thesis
    using assms p ch
    by (simp add: ls_pwrite_all_def rw_all_def os_aligned_def os_malloc_def direct_write.simps [of w]
        direct_write.simps [of "w\<lparr>sys := []\<rparr>"] Let_def part_def blit_def ls_os_pwrite_def next_sys_def
        file_write_def)
qed

theorem direct_short_write_lost_witness:
  "ls_pwrite_all (os_empty [Sys_short 0]) True (replicate 4096 1) 0 = (os_empty [], LS_OK)
   \<and> file_read (os_empty []) 0 1 \<noteq> [1]"
proof -
  have "ls_pwrite_all (os_empty [Sys_short 0]) True (replicate 4096 1) 0
      = ((os_empty [Sys_short 0])\<lparr>sys := []\<rparr>, LS_OK)"
    by (rule direct_short_write_lost) (simp_all add: os_empty_def off_max_def)
  then show ?thesis by (simp add: os_empty_def file_read_def)
qed

end
