(* ===== verification/Internal.thy ===== *)
theory Internal
  imports RawIO
begin

text \<open>
  The data model: the options of \<open>include/libspill.h\<close> and the structures of
  \<open>src/internal.h\<close>. A store is one record with the fields of \<open>struct ls_store\<close>.

  Records live on a small heap \<open>recs\<close> that maps the address of an \<open>ls_rec\<close> to its fields, as
  the C pointers do; a bucket of the hash table is the list of the addresses on its chain.
  The fields \<open>lru_prev\<close> and \<open>lru_next\<close> of \<open>ls_rec\<close> are kept as two address maps (one heap per
  field), together with the list's head and tail. A buffer of the memory tier carries the
  address it was allocated at, so that a snapshot taken before a \<open>realloc\<close> can be told from
  one taken after. A store value stands for a non-NULL handle. The locks and the worker
  pool belong to the asynchronous layer, not to this record.
\<close>

definition LS_SUPER_SIZE :: nat where "LS_SUPER_SIZE = 4096"
definition LS_MIN_EXTENT :: nat where "LS_MIN_EXTENT = 64 * 2 ^ 10"
definition LS_MAX_EXTENTS :: nat where "LS_MAX_EXTENTS = 8"
definition LS_KEY_MAX :: nat where "LS_KEY_MAX = 255"
definition LS_ATTR_MAX :: nat where "LS_ATTR_MAX = 256"

lemma LS_SUPER_SIZE_simp [simp]: "LS_SUPER_SIZE = 4096"
  by (simp add: LS_SUPER_SIZE_def)

lemma LS_ATTR_MAX_simp [simp]: "LS_ATTR_MAX = 256"
  by (simp add: LS_ATTR_MAX_def)

subsection \<open>Options\<close>

datatype ls_backend = LS_POSIX | LS_HDF5
datatype ls_mode = LS_EXPLICIT | LS_MAPPED
datatype ls_parallel = LS_LOCAL | LS_PER_RANK | LS_SHARED

record ls_opts =
  version :: nat
  backend :: ls_backend
  mode :: ls_mode
  parallel :: ls_parallel
  rank :: int
  memory_budget :: nat
  dir :: "string option"
  direct_io :: bool
  log :: bool
  exact_name :: bool
  durable_close :: bool

subsection \<open>Extents, records, the store\<close>

record ls_extent =
  foff :: nat
  elen :: nat

record membuf =
  baddr :: nat
  bdata :: "byte list"

record ls_rec =
  key :: string
  rsize :: nat
  mem :: "membuf option"
  mem_cap :: nat
  busy :: nat
  attr :: "byte list"
  attrlen :: nat
  map_addr :: "nat option"
  map_len :: nat
  ext :: "ls_extent list"
  ncap :: nat
  ext_total :: nat

record lru_links =
  lru_head :: "nat option"
  lru_tail :: "nat option"
  lru_prev :: "nat \<Rightarrow> nat option"
  lru_next :: "nat \<Rightarrow> nat option"

text \<open>One call of the log callback: error, key, offset, byte count, message.\<close>

type_synonym log_entry = "int \<times> string option \<times> nat \<times> nat \<times> string"

record ls_store =
  fd :: os
  path :: "string option"
  opts :: ls_opts
  direct :: bool
  recs :: "nat \<Rightarrow> ls_rec option"
  fresh :: nat
  tab :: "nat list list"
  nrec :: nat
  teardown :: bool
  nretired :: nat
  retcap :: nat
  fl :: "ls_extent list"
  flcap :: nat
  file_end :: nat
  resident :: nat
  lru :: lru_links
  logged :: "log_entry list"

text \<open>\<open>ls_place\<close>: a snapshot of where a record's bytes are. A resident record is named by its
  address and the address of its buffer.\<close>

record ls_place =
  pmem :: "(nat \<times> nat) option"
  pext :: "ls_extent list"

datatype ls_op = LS_OP_READ | LS_OP_WRITE

text \<open>\<open>ls_opts_init\<close> for the newest version of the structure, and the store as \<open>ls_open\<close> sets it up
  before it looks at the file: zeroed, 64 empty buckets, data space from the end of the
  superblock on.\<close>

definition LS_OPTS_VERSION :: nat where "LS_OPTS_VERSION = 3"

definition opts_default :: ls_opts where
  "opts_default = \<lparr>version = LS_OPTS_VERSION, backend = LS_POSIX, mode = LS_EXPLICIT, parallel = LS_LOCAL,
     rank = -1, memory_budget = 0, dir = None, direct_io = False, log = False,
     exact_name = False, durable_close = False\<rparr>"

definition store_init :: "os \<Rightarrow> string \<Rightarrow> ls_opts \<Rightarrow> bool \<Rightarrow> ls_store" where
  "store_init w p o' d = \<lparr>fd = w, path = Some p, opts = o', direct = d, recs = Map.empty, fresh = 0,
     tab = replicate 64 [], nrec = 0, teardown = False, nretired = 0, retcap = 0, fl = [],
     flcap = 0, file_end = LS_SUPER_SIZE, resident = 0,
     lru = \<lparr>lru_head = None, lru_tail = None, lru_prev = (\<lambda>_. None), lru_next = (\<lambda>_. None)\<rparr>,
     logged = []\<rparr>"

text \<open>Assignment through a record pointer, and an allocation of the store's environment.\<close>

definition upd_rec :: "ls_store \<Rightarrow> nat \<Rightarrow> (ls_rec \<Rightarrow> ls_rec) \<Rightarrow> ls_store" where
  "upd_rec s r f = s\<lparr>recs := (recs s)(r := map_option f (recs s r))\<rparr>"

definition st_malloc :: "ls_store \<Rightarrow> bool \<times> ls_store" where
  "st_malloc s = (case os_malloc (fd s) of (ok, w) \<Rightarrow> (ok, s\<lparr>fd := w\<rparr>))"

text \<open>\<open>ls_report\<close> of \<open>src/error.c\<close>: the failing operation's context goes to the log callback.\<close>

definition ls_report :: "ls_store \<Rightarrow> int \<Rightarrow> string option \<Rightarrow> nat \<Rightarrow> nat \<Rightarrow> string \<Rightarrow> ls_store" where
  "ls_report s err k off n msg =
     (if log (opts s) \<and> err \<noteq> LS_OK then s\<lparr>logged := logged s @ [(err, k, off, n, msg)]\<rparr> else s)"

subsection \<open>Selectors after the basic updates\<close>

lemma upd_rec_sel [simp]:
  "fd (upd_rec s r f) = fd s" "path (upd_rec s r f) = path s" "opts (upd_rec s r f) = opts s"
  "direct (upd_rec s r f) = direct s" "fresh (upd_rec s r f) = fresh s" "tab (upd_rec s r f) = tab s"
  "nrec (upd_rec s r f) = nrec s" "teardown (upd_rec s r f) = teardown s"
  "nretired (upd_rec s r f) = nretired s" "retcap (upd_rec s r f) = retcap s"
  "fl (upd_rec s r f) = fl s" "flcap (upd_rec s r f) = flcap s"
  "file_end (upd_rec s r f) = file_end s" "resident (upd_rec s r f) = resident s"
  "lru (upd_rec s r f) = lru s" "logged (upd_rec s r f) = logged s"
  by (simp_all add: upd_rec_def)

lemma recs_upd_rec: "recs (upd_rec s r f) = (recs s)(r := map_option f (recs s r))"
  by (simp add: upd_rec_def)

lemma ls_report_sel [simp]:
  "fd (ls_report s e k off n m) = fd s" "path (ls_report s e k off n m) = path s"
  "opts (ls_report s e k off n m) = opts s" "direct (ls_report s e k off n m) = direct s"
  "recs (ls_report s e k off n m) = recs s" "fresh (ls_report s e k off n m) = fresh s"
  "tab (ls_report s e k off n m) = tab s" "nrec (ls_report s e k off n m) = nrec s"
  "teardown (ls_report s e k off n m) = teardown s"
  "nretired (ls_report s e k off n m) = nretired s" "retcap (ls_report s e k off n m) = retcap s"
  "fl (ls_report s e k off n m) = fl s" "flcap (ls_report s e k off n m) = flcap s"
  "file_end (ls_report s e k off n m) = file_end s"
  "resident (ls_report s e k off n m) = resident s" "lru (ls_report s e k off n m) = lru s"
  by (simp_all add: ls_report_def)

text \<open>The file positions a list of extents covers, in logical order.\<close>

definition locs :: "ls_extent list \<Rightarrow> nat list" where
  "locs es = concat (map (\<lambda>e. [foff e..<foff e + elen e]) es)"

abbreviation span_of :: "ls_extent \<Rightarrow> nat set" where
  "span_of e \<equiv> ival (foff e) (elen e)"

lemma locs_Nil [simp, locs_simps]: "locs [] = []"
  by (simp add: locs_def)

lemma locs_Cons [locs_simps]: "locs (e # es) = [foff e..<foff e + elen e] @ locs es"
  by (simp add: locs_def)

lemma locs_append [locs_simps]: "locs (es @ fs) = locs es @ locs fs"
  by (simp add: locs_def)

lemma length_locs: "length (locs es) = sum_list (map elen es)"
  by (induction es) (simp_all add: locs_simps)

lemma set_locs: "set (locs es) = (\<Union>e\<in>set es. span_of e)"
  by (induction es) (auto simp: locs_simps)

end
