(* ===== verification/Alloc.thy ===== *)
theory Alloc
  imports Internal
begin

unbundle bit_operations_syntax

text \<open>
  The extent allocator (\<open>src/alloc.c\<close>): a free list of holes, sorted by offset and coalesced
  on release, below the high-water mark \<open>file_end\<close>; best fit, largest hole, and fresh space
  at the tail. The lemmas describe every operation by its effect on one set, the free space
  of the store file: the holes and everything past \<open>file_end\<close>.
\<close>

subsection \<open>Definitions\<close>

definition round_up :: "nat \<Rightarrow> nat" where
  "round_up n = unat ((word_of_nat n + 4095 :: 64 word) AND NOT 4095)"

function grow_cap :: "nat \<Rightarrow> nat \<Rightarrow> nat" where
  "grow_cap cap want = (if 0 < cap \<and> cap < want then grow_cap (2 * cap) want else cap)"
  by pat_completeness auto
termination by (relation "measure (\<lambda>(cap, want). want - cap)") auto

declare grow_cap.simps [simp del]

definition fl_reserve :: "ls_store \<Rightarrow> nat \<Rightarrow> ls_store \<times> int" where
  "fl_reserve s want =
     (let cap = (if flcap s = 0 then 16 else flcap s) in
      if want \<le> flcap s then (s, LS_OK)
      else (case st_malloc s of (ok, s1) \<Rightarrow>
        if ok then (s1\<lparr>flcap := grow_cap cap want\<rparr>, LS_OK) else (s1, neg_errno ENOMEM)))"

text \<open>Merging the hole at index \<open>i\<close> with its right neighbour, if they touch.\<close>

definition fl_merge_right :: "ls_extent list \<Rightarrow> nat \<Rightarrow> ls_extent list" where
  "fl_merge_right hs i =
     (let j = i + 1 in
      if j < length hs \<and> add64 (foff (hs ! i)) (elen (hs ! i)) = foff (hs ! j) then
        remove_at j (hs[i := (hs ! i)\<lparr>elen := add64 (elen (hs ! i)) (elen (hs ! j))\<rparr>])
      else hs)"

text \<open>A hole that runs to the end of the file is given back to the file system.\<close>

definition fl_trim :: "ls_store \<Rightarrow> ls_store" where
  "fl_trim s =
     (if fl s \<noteq> [] \<and> add64 (foff (last (fl s))) (elen (last (fl s))) = file_end s then
        let s1 = s\<lparr>file_end := foff (last (fl s)), fl := butlast (fl s)\<rparr> in
        (case ls_os_ftruncate (fd s1) (file_end s1) of
           (w, Inr _) \<Rightarrow> s1\<lparr>fd := w\<rparr>
         | (w, Inl e) \<Rightarrow>
             ls_report (s1\<lparr>fd := w\<rparr>) (neg_errno e) None (file_end s1) 0 ''truncating freed tail'')
      else s)"

definition fl_insert :: "ls_store \<Rightarrow> nat \<Rightarrow> nat \<Rightarrow> ls_store \<times> int" where
  "fl_insert s off n =
     (if n = 0 then (s, LS_OK)
      else let i = length (takeWhile (\<lambda>h. foff h < off) (fl s)) in
        if 0 < i \<and> add64 (foff (fl s ! (i - 1))) (elen (fl s ! (i - 1))) = off then
          let hs = (fl s)[i - 1 := (fl s ! (i - 1))\<lparr>elen := add64 (elen (fl s ! (i - 1))) n\<rparr>] in
          (fl_trim (s\<lparr>fl := fl_merge_right hs (i - 1)\<rparr>), LS_OK)
        else (case fl_reserve s (length (fl s) + 1) of (s1, rc) \<Rightarrow>
          if rc \<noteq> LS_OK then (s1, neg_errno ENOMEM)
          else (fl_trim (s1\<lparr>fl := fl_merge_right (insert_at i \<lparr>foff = off, elen = n\<rparr> (fl s1)) i\<rparr>), LS_OK)))"

text \<open>The scans for the smallest sufficient hole and for the largest hole. \<open>None\<close> is the
  sentinel \<open>(size_t) -1\<close>.\<close>

function best_loop :: "ls_extent list \<Rightarrow> nat \<Rightarrow> nat \<Rightarrow> nat option \<Rightarrow> nat option" where
  "best_loop hs need i best =
     (if i < length hs then
        best_loop hs need (Suc i)
          (if need \<le> elen (hs ! i)
              \<and> (case best of None \<Rightarrow> True | Some b \<Rightarrow> elen (hs ! i) < elen (hs ! b))
           then Some i else best)
      else best)"
  by pat_completeness auto
termination by (relation "measure (\<lambda>(hs, need, i, best). length hs - i)") auto

function largest_loop :: "ls_extent list \<Rightarrow> nat \<Rightarrow> nat option \<Rightarrow> nat option" where
  "largest_loop hs i big =
     (if i < length hs then
        largest_loop hs (Suc i)
          (if (case big of None \<Rightarrow> True | Some b \<Rightarrow> elen (hs ! b) < elen (hs ! i)) then Some i else big)
      else big)"
  by pat_completeness auto
termination by (relation "measure (\<lambda>(hs, i, big). length hs - i)") auto

declare best_loop.simps [simp del] largest_loop.simps [simp del]

definition ls_alloc_best :: "ls_store \<Rightarrow> nat \<Rightarrow> ls_store \<times> ls_extent option" where
  "ls_alloc_best s need0 =
     (let need = round_up need0 in
      if need = 0 then (s, None)
      else (case best_loop (fl s) need 0 None of
          None \<Rightarrow> (s, None)
        | Some b \<Rightarrow>
            let h = fl s ! b in
            if elen h = need then (s\<lparr>fl := remove_at b (fl s)\<rparr>, Some \<lparr>foff = foff h, elen = need\<rparr>)
            else (s\<lparr>fl := (fl s)[b := \<lparr>foff = add64 (foff h) need, elen = elen h - need\<rparr>]\<rparr>,
                  Some \<lparr>foff = foff h, elen = need\<rparr>)))"

definition ls_alloc_largest :: "ls_store \<Rightarrow> nat \<Rightarrow> ls_store \<times> ls_extent option" where
  "ls_alloc_largest s least =
     (case largest_loop (fl s) 0 None of
        Some b \<Rightarrow>
          if round_up least \<le> elen (fl s ! b) then
            (s\<lparr>fl := remove_at b (fl s)\<rparr>,
             Some \<lparr>foff = foff (fl s ! b), elen = elen (fl s ! b)\<rparr>)
          else (s, None)
      | None \<Rightarrow> (s, None))"

definition ls_alloc_tail :: "ls_store \<Rightarrow> nat \<Rightarrow> ls_store \<times> ls_extent" where
  "ls_alloc_tail s need0 =
     (let need = round_up need0 in
      (s\<lparr>file_end := add64 (file_end s) need\<rparr>, \<lparr>foff = file_end s, elen = need\<rparr>))"

fun fl_insert_all :: "ls_store \<Rightarrow> ls_extent list \<Rightarrow> ls_store" where
  "fl_insert_all s [] = s"
| "fl_insert_all s (e # es) = fl_insert_all (fst (fl_insert s (foff e) (elen e))) es"

definition ls_free_extents :: "ls_store \<Rightarrow> ls_extent list \<Rightarrow> ls_store" where
  "ls_free_extents s es = (if es = [] then s else if teardown s then s else fl_insert_all s es)"

definition ls_alloc_live :: "ls_store \<Rightarrow> nat" where
  "ls_alloc_live s = sub64 (sub64 (file_end s) LS_SUPER_SIZE) (sum_list (map elen (fl s)) mod u64_mod)"

subsection \<open>Rounding\<close>

lemma and_not_mask_block: "(x :: 'a::len word) AND NOT (mask n) = push_bit n (drop_bit n x)"
  by (rule bit_word_eqI) (auto simp: bit_simps)

lemma and_not_4095: "(x :: 64 word) AND NOT 4095 = push_bit 12 (drop_bit 12 x)"
proof -
  have "(4095 :: 64 word) = mask 12" by (simp add: mask_eq_exp_minus_1)
  then show ?thesis by (simp only: and_not_mask_block)
qed

lemma unat_block: "unat (push_bit 12 (drop_bit 12 (x :: 64 word))) = unat x div 4096 * 4096"
proof -
  have "unat x div 4096 * 4096 \<le> unat x" by simp
  also have "unat x < 2 ^ 64" using unsigned_less [of x] by simp
  finally have "unat x div 4096 * 4096 < 2 ^ 64" .
  then show ?thesis
    by (simp add: push_bit_eq_mult unat_word_ariths unat_drop_bit_eq drop_bit_eq_div mult.commute)
qed

lemma round_up_eq:
  assumes "n < u64_mod"
  shows "round_up n = ((n + 4095) mod u64_mod) div 4096 * 4096"
proof -
  have "unat (word_of_nat n + 4095 :: 64 word) = (n + 4095) mod u64_mod"
    using assms by (simp add: unat_word_ariths unat_of_nat u64_mod_def)
  then show ?thesis by (simp only: round_up_def and_not_4095 unat_block)
qed

lemma round_up_dvd [simp]: "4096 dvd round_up n"
  by (simp only: round_up_def and_not_4095 unat_block dvd_triv_right)

lemma round_up_small:
  assumes "n + 4095 < u64_mod"
  shows "n \<le> round_up n" "round_up n < n + 4096"
proof -
  have "round_up n = (n + 4095) div 4096 * 4096" using assms by (simp add: round_up_eq)
  then show "n \<le> round_up n" "round_up n < n + 4096" by linarith+
qed

lemma round_up_pos: "0 < n \<Longrightarrow> n + 4095 < u64_mod \<Longrightarrow> 0 < round_up n"
  using round_up_small(1) [of n] by linarith

text \<open>The last 4095 values below \<open>2 ^ 64\<close> wrap to zero.\<close>

lemma round_up_wraps:
  assumes "u64_mod \<le> n + 4095" "n < u64_mod"
  shows "round_up n = 0"
proof -
  have small: "n + 4095 - u64_mod < 4096" using assms by linarith
  then have "n + 4095 - u64_mod < u64_mod" using u64_mod_pos(2) by linarith
  then have "(n + 4095) mod u64_mod = n + 4095 - u64_mod"
    using assms by (simp add: le_mod_geq)
  then show ?thesis using assms(2) small by (simp add: round_up_eq)
qed

subsection \<open>Lists of holes\<close>

definition ext_ok :: "ls_extent \<Rightarrow> bool" where
  "ext_ok e \<longleftrightarrow> 4096 \<le> foff e \<and> 4096 dvd foff e \<and> 4096 dvd elen e \<and> 0 < elen e"

abbreviation e_end :: "ls_extent \<Rightarrow> nat" where
  "e_end e \<equiv> foff e + elen e"

definition before :: "ls_extent \<Rightarrow> ls_extent \<Rightarrow> bool" where
  "before a b \<longleftrightarrow> e_end a < foff b"

definition hole_set :: "ls_extent list \<Rightarrow> nat set" where
  "hole_set hs = (\<Union>h\<in>set hs. span_of h)"

text \<open>Holes are aligned, sorted, pairwise apart by at least a byte that is not free, and end
  within \<open>lim\<close>.\<close>

definition holes_ok :: "ls_extent list \<Rightarrow> nat \<Rightarrow> bool" where
  "holes_ok hs lim \<longleftrightarrow> (\<forall>h\<in>set hs. ext_ok h \<and> e_end h \<le> lim) \<and> sorted_wrt before hs"

lemma hole_set_simps [simp]:
  "hole_set [] = {}" "hole_set (h # hs) = span_of h \<union> hole_set hs"
  "hole_set (xs @ ys) = hole_set xs \<union> hole_set ys"
  by (auto simp: hole_set_def)

lemma hole_set_locs: "hole_set hs = set (locs hs)"
  by (simp add: hole_set_def set_locs)

lemma before_trans: "before a b \<Longrightarrow> before b c \<Longrightarrow> before a c"
  by (simp add: before_def)

lemma holes_ok_Nil [simp]: "holes_ok [] lim"
  by (simp add: holes_ok_def)

lemma holes_ok_append:
  "holes_ok (xs @ ys) lim \<longleftrightarrow> holes_ok xs lim \<and> holes_ok ys lim \<and> (\<forall>x\<in>set xs. \<forall>y\<in>set ys. before x y)"
  by (auto simp: holes_ok_def sorted_wrt_append)

lemma holes_ok_Cons:
  "holes_ok (x # ys) lim \<longleftrightarrow> ext_ok x \<and> e_end x \<le> lim \<and> holes_ok ys lim \<and> (\<forall>y\<in>set ys. before x y)"
  by (auto simp: holes_ok_def)

lemmas holes_ok_simps = holes_ok_append holes_ok_Cons

lemma span_before: "before x y \<Longrightarrow> span_of x \<inter> span_of y = {}"
  by (auto simp: before_def)

lemma hole_set_split:
  assumes "holes_ok (xs @ h # ys) lim"
  shows "span_of h \<inter> (hole_set xs \<union> hole_set ys) = {}"
  using assms unfolding holes_ok_simps hole_set_def by (fastforce simp: before_def)

lemma sum_holes_card:
  "holes_ok hs lim \<Longrightarrow> card (hole_set hs) = sum_list (map elen hs) \<and> finite (hole_set hs)"
proof (induction hs)
  case (Cons h hs)
  have "span_of h \<inter> hole_set hs = {}" using hole_set_split [of "[]" h hs] Cons.prems by simp
  moreover have "holes_ok hs lim" using Cons.prems by (simp add: holes_ok_simps)
  ultimately show ?case using Cons.IH by (simp add: card_Un_disjoint)
qed simp

text \<open>A list of holes is determined by the bytes it covers.\<close>

lemma holes_min:
  assumes "holes_ok (h # hs) lim"
  shows "foff h \<in> hole_set (h # hs)" "i \<in> hole_set (h # hs) \<Longrightarrow> foff h \<le> i"
    "e_end h \<notin> hole_set (h # hs)"
  using assms by (auto simp: holes_ok_Cons ext_ok_def hole_set_def before_def)

lemma holes_head_eq:
  assumes "holes_ok (a # as) l" "holes_ok (b # bs) m" "hole_set (a # as) = hole_set (b # bs)"
  shows "a = b"
proof -
  have ge: "foff a = foff b"
    using holes_min [OF assms(1)] holes_min [OF assms(2)] assms(3) by (metis le_antisym)
  have "e_end a = e_end b"
  proof (rule ccontr)
    assume "e_end a \<noteq> e_end b"
    moreover have "e_end a \<notin> hole_set (b # bs)" "e_end b \<notin> hole_set (a # as)"
      using holes_min(3) [OF assms(1)] holes_min(3) [OF assms(2)] assms(3) by auto
    ultimately show False using ge by (auto simp: not_less)
  qed
  then show ?thesis using ge by (cases a; cases b) simp
qed

lemma holes_unique:
  "holes_ok as l \<Longrightarrow> holes_ok bs m \<Longrightarrow> hole_set as = hole_set bs \<Longrightarrow> as = bs"
proof (induction as arbitrary: bs)
  case Nil
  then show ?case by (cases bs) (auto simp: holes_ok_Cons ext_ok_def)
next
  case (Cons a as)
  show ?case
  proof (cases bs)
    case Nil
    then show ?thesis using Cons.prems by (auto simp: holes_ok_Cons ext_ok_def)
  next
    case (Cons b bs')
    then have "a = b" using holes_head_eq Cons.prems by blast
    moreover have "hole_set as = hole_set bs'"
    proof -
      have "span_of a \<inter> hole_set as = {}" "span_of b \<inter> hole_set bs' = {}"
        using hole_set_split [of "[]"] Cons.prems Cons by fastforce+
      then show ?thesis using Cons.prems(3) Cons \<open>a = b\<close> by auto
    qed
    ultimately show ?thesis using Cons.IH Cons.prems Cons by (simp add: holes_ok_Cons)
  qed
qed

subsection \<open>The allocator's invariant and its free space\<close>

definition alloc_inv :: "ls_store \<Rightarrow> bool" where
  "alloc_inv s \<longleftrightarrow> holes_ok (fl s) (file_end s) \<and> (\<forall>h\<in>set (fl s). e_end h < file_end s)
     \<and> 4096 \<le> file_end s \<and> 4096 dvd file_end s \<and> file_end s < u64_mod"

definition free_set :: "ls_store \<Rightarrow> nat set" where
  "free_set s = hole_set (fl s) \<union> {file_end s..}"

text \<open>The fields the allocator works on; all others keep their values.\<close>

definition alloc_only :: "ls_store \<Rightarrow> ls_store \<Rightarrow> bool" where
  "alloc_only s s' \<longleftrightarrow> s' = s\<lparr>fd := fd s', fl := fl s', flcap := flcap s',
                              file_end := file_end s', logged := logged s'\<rparr>"

lemma alloc_only_refl [simp]: "alloc_only s s"
  by (simp add: alloc_only_def)

lemma alloc_only_sel:
  assumes "alloc_only s s'"
  shows "path s' = path s" "opts s' = opts s" "direct s' = direct s" "recs s' = recs s"
    "fresh s' = fresh s" "tab s' = tab s" "nrec s' = nrec s" "teardown s' = teardown s"
    "nretired s' = nretired s" "retcap s' = retcap s" "resident s' = resident s" "lru s' = lru s"
proof -
  note eq = assms [unfolded alloc_only_def]
  show "path s' = path s" "opts s' = opts s" "direct s' = direct s" "recs s' = recs s"
    "fresh s' = fresh s" "tab s' = tab s" "nrec s' = nrec s" "teardown s' = teardown s"
    "nretired s' = nretired s" "retcap s' = retcap s" "resident s' = resident s" "lru s' = lru s"
    by (subst eq, simp)+
qed

lemma alloc_only_trans: "alloc_only a b \<Longrightarrow> alloc_only b c \<Longrightarrow> alloc_only a c"
  unfolding alloc_only_def
  by (cases a; cases b; cases c) (simp only: ls_store.simps ls_store.update_convs ls_store.iffs)

lemma alloc_canonical:
  assumes "alloc_inv s" "alloc_inv t" "free_set s = free_set t"
  shows "fl s = fl t \<and> file_end s = file_end t"
proof -
  have last: "file_end a \<le> file_end b" if "alloc_inv a" "alloc_inv b" "free_set a = free_set b" for a b
  proof (rule ccontr)
    assume c: "\<not> file_end a \<le> file_end b"
    then have pos: "file_end b \<le> file_end a - 1" "file_end a - 1 < file_end a" by auto
    then have "file_end a - 1 \<in> free_set a" using that(3) by (simp add: free_set_def)
    then obtain h where "h \<in> set (fl a)" "file_end a - 1 \<in> span_of h"
      using pos by (auto simp: free_set_def hole_set_def)
    then show False using that(1) by (auto simp: alloc_inv_def)
  qed
  then have fe: "file_end s = file_end t" using assms by (metis le_antisym)
  have below: "hole_set (fl a) = free_set a \<inter> {..<file_end a}" if "alloc_inv a" for a
    using that by (fastforce simp: alloc_inv_def free_set_def hole_set_def)
  have "hole_set (fl s) = hole_set (fl t)" using below assms fe by simp
  then show ?thesis using fe assms(1,2) holes_unique by (auto simp: alloc_inv_def)
qed

subsection \<open>Taking space\<close>

lemma remove_at_append [simp]: "remove_at (length xs) (xs @ y # ys) = xs @ ys"
  by (simp add: remove_at_def)

lemma insert_at_append [simp]: "insert_at (length xs) x (xs @ ys) = xs @ x # ys"
  by (simp add: insert_at_def)

lemma split_at:
  assumes "i < length hs"
  obtains xs ys where "hs = xs @ hs ! i # ys" "length xs = i"
  using assms by (metis id_take_nth_drop length_take min.absorb4)

text \<open>Dropping one hole, or the first \<open>k\<close> bytes of one, takes exactly those bytes out of the
  free space.\<close>

lemma take_hole:
  assumes "alloc_inv s" "i < length (fl s)" "s' = s\<lparr>fl := remove_at i (fl s)\<rparr>"
  shows "alloc_inv s'" "free_set s' = free_set s - span_of (fl s ! i)"
    "span_of (fl s ! i) \<subseteq> free_set s" "ext_ok (fl s ! i)" "e_end (fl s ! i) < file_end s"
proof -
  obtain xs ys where sp: "fl s = xs @ fl s ! i # ys" "length xs = i" using split_at [OF assms(2)] .
  define h where "h = fl s ! i"
  have hs: "fl s = xs @ h # ys" using sp h_def by simp
  have fl': "fl s' = xs @ ys" using assms(3) hs sp(2) by (metis ls_store.select_convs(12) ls_store.surjective ls_store.update_convs(12) remove_at_append)
  have ok: "holes_ok (xs @ h # ys) (file_end s)" "\<forall>h\<in>set (fl s). e_end h < file_end s"
    using assms(1) hs by (simp_all add: alloc_inv_def)
  have fe: "file_end s' = file_end s" using assms(3) by simp
  show "alloc_inv s'"
    using assms(1) hs fl' fe by (auto simp: alloc_inv_def holes_ok_simps)
  have "span_of h \<inter> (hole_set xs \<union> hole_set ys) = {}" by (rule hole_set_split [OF ok(1)])
  then show "free_set s' = free_set s - span_of (fl s ! i)"
    using ok(2) unfolding free_set_def fl' fe h_def [symmetric] by (auto simp: hs)
  show "span_of (fl s ! i) \<subseteq> free_set s" "ext_ok (fl s ! i)" "e_end (fl s ! i) < file_end s"
    using ok hs unfolding h_def [symmetric] by (auto simp: free_set_def holes_ok_simps)
qed

lemma cut_hole:
  assumes "alloc_inv s" "i < length (fl s)" "k < elen (fl s ! i)" "4096 dvd k" "0 < k"
    and "s' = s\<lparr>fl := (fl s)[i := \<lparr>foff = add64 (foff (fl s ! i)) k, elen = elen (fl s ! i) - k\<rparr>]\<rparr>"
  shows "alloc_inv s'" "free_set s' = free_set s - ival (foff (fl s ! i)) k"
    "ival (foff (fl s ! i)) k \<subseteq> free_set s"
proof -
  obtain xs ys where sp: "fl s = xs @ fl s ! i # ys" "length xs = i" using split_at [OF assms(2)] .
  define h where "h = fl s ! i"
  define g where "g = \<lparr>foff = foff h + k, elen = elen h - k\<rparr>"
  have hs: "fl s = xs @ h # ys" using sp h_def by simp
  have ok: "holes_ok (xs @ h # ys) (file_end s)" "e_end h < file_end s" "file_end s < u64_mod"
    using assms(1) hs by (simp_all add: alloc_inv_def)
  have k: "k < elen h" using assms(3) h_def by simp
  then have "add64 (foff h) k = foff h + k" using ok by (simp add: wrap_simps)
  then have fl': "fl s' = xs @ g # ys" and fe: "file_end s' = file_end s"
    unfolding assms(6) h_def [symmetric] sp(2) [symmetric] by (simp_all add: hs g_def)
  have eg: "e_end g = e_end h" "ext_ok g" "foff h < foff g"
    using k ok assms(4,5) by (auto simp: g_def holes_ok_simps ext_ok_def)
  then show "alloc_inv s'"
    using assms(1) ok k unfolding alloc_inv_def fl' fe hs
    by (auto simp: holes_ok_simps before_def)
  have "ival (foff h) k \<subseteq> span_of h" using k by auto
  then have "ival (foff h) k \<inter> (hole_set xs \<union> hole_set ys) = {}" using hole_set_split [OF ok(1)] by blast
  then show "free_set s' = free_set s - ival (foff (fl s ! i)) k"
    using ok(2) k unfolding free_set_def fl' fe h_def [symmetric]
    by (auto simp: hs g_def)
  show "ival (foff (fl s ! i)) k \<subseteq> free_set s"
    using k unfolding free_set_def h_def [symmetric] by (auto simp: hs)
qed

lemma best_loop_spec:
  assumes "best_loop hs need i best = res"
    and "\<forall>b. best = Some b \<longrightarrow> b < i \<and> b < length hs \<and> need \<le> elen (hs ! b)"
    and "\<forall>j<i. j < length hs \<longrightarrow> need \<le> elen (hs ! j) \<longrightarrow> (\<exists>b. best = Some b \<and> elen (hs ! b) \<le> elen (hs ! j))"
  shows "(\<forall>b. res = Some b \<longrightarrow> b < length hs \<and> need \<le> elen (hs ! b))
     \<and> (\<forall>j<length hs. need \<le> elen (hs ! j) \<longrightarrow> (\<exists>b. res = Some b \<and> elen (hs ! b) \<le> elen (hs ! j)))"
  using assms
proof (induction hs need i best rule: best_loop.induct)
  case (1 hs need i best)
  show ?case
  proof (cases "i < length hs")
    case True
    let ?b = "if need \<le> elen (hs ! i)
              \<and> (case best of None \<Rightarrow> True | Some b \<Rightarrow> elen (hs ! i) < elen (hs ! b)) then Some i else best"
    have "best_loop hs need (Suc i) ?b = res"
      using 1(2) True by (simp add: best_loop.simps [of hs need i best])
    moreover have "\<forall>b. ?b = Some b \<longrightarrow> b < Suc i \<and> b < length hs \<and> need \<le> elen (hs ! b)"
      using 1(3) True by (auto simp: less_Suc_eq)
    moreover have "\<forall>j<Suc i. j < length hs \<longrightarrow> need \<le> elen (hs ! j) \<longrightarrow>
        (\<exists>b. ?b = Some b \<and> elen (hs ! b) \<le> elen (hs ! j))"
      using 1(4) True by (cases best) (fastforce simp: less_Suc_eq)+
    ultimately show ?thesis using 1(1) [OF True] by blast
  next
    case False
    then have "res = best" using 1(2) by (simp add: best_loop.simps [of hs need i best])
    then show ?thesis using 1(3,4) False by auto
  qed
qed

lemmas best_loop_start = best_loop_spec [where i = 0 and best = None, OF refl, simplified]

lemma largest_loop_spec:
  assumes "largest_loop hs i big = res"
    and "\<forall>b. big = Some b \<longrightarrow> b < i \<and> b < length hs"
    and "\<forall>j<i. j < length hs \<longrightarrow> (\<exists>b. big = Some b \<and> elen (hs ! j) \<le> elen (hs ! b))"
  shows "(\<forall>b. res = Some b \<longrightarrow> b < length hs)
     \<and> (\<forall>j<length hs. (\<exists>b. res = Some b \<and> elen (hs ! j) \<le> elen (hs ! b)))"
  using assms
proof (induction hs i big rule: largest_loop.induct)
  case (1 hs i big)
  show ?case
  proof (cases "i < length hs")
    case True
    let ?b = "if (case big of None \<Rightarrow> True | Some b \<Rightarrow> elen (hs ! b) < elen (hs ! i)) then Some i else big"
    have "largest_loop hs (Suc i) ?b = res"
      using 1(2) True by (simp add: largest_loop.simps [of hs i big])
    moreover have "\<forall>b. ?b = Some b \<longrightarrow> b < Suc i \<and> b < length hs"
      using 1(3) True by (auto simp: less_Suc_eq)
    moreover have "\<forall>j<Suc i. j < length hs \<longrightarrow>
        (\<exists>b. ?b = Some b \<and> elen (hs ! j) \<le> elen (hs ! b))"
      using 1(4) True by (cases big) (fastforce simp: less_Suc_eq)+
    ultimately show ?thesis using 1(1) [OF True] by blast
  next
    case False
    then have "res = big" using 1(2) by (simp add: largest_loop.simps [of hs i big])
    then show ?thesis using 1(3,4) False by auto
  qed
qed

lemmas largest_loop_start = largest_loop_spec [where i = 0 and big = None, OF refl, simplified]

text \<open>What an allocation hands out was free, and is exactly what leaves the free space.\<close>

definition took :: "ls_store \<Rightarrow> ls_store \<Rightarrow> ls_extent \<Rightarrow> bool" where
  "took s s' e \<longleftrightarrow> alloc_inv s' \<and> alloc_only s s' \<and> fd s' = fd s \<and> ext_ok e
     \<and> span_of e \<subseteq> free_set s \<and> free_set s' = free_set s - span_of e"

lemma ls_alloc_best_spec:
  assumes "ls_alloc_best s need = (s', res)" "alloc_inv s" "need + 4095 < u64_mod"
  shows "case res of
      None \<Rightarrow> s' = s \<and> (0 < need \<longrightarrow> (\<forall>h\<in>set (fl s). elen h < round_up need))
    | Some e \<Rightarrow> took s s' e \<and> elen e = round_up need \<and> file_end s' = file_end s \<and> e_end e < file_end s
        \<and> (\<exists>h\<in>set (fl s). foff h = foff e \<and> round_up need \<le> elen h
             \<and> (\<forall>g\<in>set (fl s). round_up need \<le> elen g \<longrightarrow> elen h \<le> elen g))"
proof (cases "round_up need = 0")
  case True
  then have "need = 0" using round_up_pos assms(3) by force
  then show ?thesis using assms(1) True by (auto simp: ls_alloc_best_def)
next
  case False
  note loop = best_loop_start [of "fl s" "round_up need"]
  show ?thesis
  proof (cases "best_loop (fl s) (round_up need) 0 None")
    case None
    then have "s' = s" "res = None" using assms(1) False by (auto simp: ls_alloc_best_def)
    moreover have "\<forall>h\<in>set (fl s). elen h < round_up need"
      using loop None by (auto simp: in_set_conv_nth not_le [symmetric])
    ultimately show ?thesis by simp
  next
    case (Some b)
    define h where "h = fl s ! b"
    have b: "b < length (fl s)" "round_up need \<le> elen h"
      "\<forall>g\<in>set (fl s). round_up need \<le> elen g \<longrightarrow> elen h \<le> elen g"
      using loop Some by (auto simp: in_set_conv_nth h_def)
    note th = take_hole [OF assms(2) b(1) refl]
    have res: "res = Some \<lparr>foff = foff h, elen = round_up need\<rparr>"
      using assms(1) False Some by (auto simp: ls_alloc_best_def Let_def h_def split: if_splits)
    have "took s s' \<lparr>foff = foff h, elen = round_up need\<rparr> \<and> file_end s' = file_end s"
    proof (cases "elen h = round_up need")
      case True
      then have "s' = s\<lparr>fl := remove_at b (fl s)\<rparr>"
        using assms(1) Some False by (auto simp: ls_alloc_best_def Let_def h_def)
      then show ?thesis using th True False
        by (auto simp: took_def alloc_only_def h_def ext_ok_def)
    next
      case ne: False
      then have s': "s' = s\<lparr>fl := (fl s)[b := \<lparr>foff = add64 (foff h) (round_up need), elen = elen h - round_up need\<rparr>]\<rparr>"
        using assms(1) Some False by (auto simp: ls_alloc_best_def Let_def h_def)
      have "round_up need < elen h" "0 < round_up need" using ne False b(2) by auto
      then show ?thesis
        using cut_hole [OF assms(2) b(1) _ round_up_dvd _ s' [unfolded h_def]] th(4) s'
        by (auto simp: took_def alloc_only_def h_def ext_ok_def)
    qed
    moreover have "h \<in> set (fl s)" using b(1) h_def by simp
    ultimately show ?thesis using res b(2,3) th(5) by (auto simp: h_def [symmetric])
  qed
qed

lemma ls_alloc_largest_spec:
  assumes "ls_alloc_largest s least = (s', res)" "alloc_inv s"
  shows "case res of
      None \<Rightarrow> s' = s \<and> (\<forall>h\<in>set (fl s). elen h < round_up least)
    | Some e \<Rightarrow> took s s' e \<and> round_up least \<le> elen e \<and> file_end s' = file_end s \<and> e_end e < file_end s
        \<and> e \<in> set (fl s) \<and> (\<forall>g\<in>set (fl s). elen g \<le> elen e)"
proof -
  note loop = largest_loop_start [of "fl s"]
  show ?thesis
  proof (cases "largest_loop (fl s) 0 None")
    case None
    then show ?thesis using assms(1) loop by (auto simp: ls_alloc_largest_def in_set_conv_nth)
  next
    case (Some b)
    then have b: "b < length (fl s)" "\<forall>g\<in>set (fl s). elen g \<le> elen (fl s ! b)"
      using loop by (auto simp: in_set_conv_nth)
    have eta: "\<lparr>foff = foff (fl s ! b), elen = elen (fl s ! b)\<rparr> = fl s ! b" by simp
    note th = take_hole [OF assms(2) b(1) refl]
    show ?thesis
    proof (cases "round_up least \<le> elen (fl s ! b)")
      case True
      then have "s' = s\<lparr>fl := remove_at b (fl s)\<rparr>" "res = Some (fl s ! b)"
        using assms(1) Some by (auto simp: ls_alloc_largest_def eta)
      then show ?thesis using th b True by (auto simp: took_def alloc_only_def)
    next
      case False
      then show ?thesis using assms(1) Some b by (fastforce simp: ls_alloc_largest_def)
    qed
  qed
qed

lemma ls_alloc_tail_spec:
  assumes "ls_alloc_tail s need = (s', e)" "alloc_inv s" "0 < need"
    and "need + 4095 < u64_mod" "file_end s + round_up need < u64_mod"
  shows "took s s' e" "elen e = round_up need" "file_end s' = file_end s + round_up need"
    "e_end e = file_end s'" "foff e = file_end s"
proof -
  have s': "s' = s\<lparr>file_end := file_end s + round_up need\<rparr>" and e: "e = \<lparr>foff = file_end s, elen = round_up need\<rparr>"
    using assms(1,5) by (auto simp: ls_alloc_tail_def Let_def wrap_simps)
  have pos: "0 < round_up need" using assms(3,4) by (rule round_up_pos)
  show "elen e = round_up need" "file_end s' = file_end s + round_up need" "e_end e = file_end s'"
    "foff e = file_end s"
    using s' e by auto
  have "alloc_inv s'"
    using assms(2,5) s' by (fastforce simp: alloc_inv_def holes_ok_def)
  moreover have "hole_set (fl s) \<inter> {file_end s..} = {}"
    using assms(2) by (fastforce simp: alloc_inv_def hole_set_def)
  ultimately show "took s s' e"
    using assms(2) s' e pos
    by (auto simp: took_def alloc_only_def ext_ok_def free_set_def alloc_inv_def)
qed

subsection \<open>Giving space back\<close>

lemma st_malloc_props:
  assumes "st_malloc s = (ok, s')"
  shows "s' = s\<lparr>fd := fd s'\<rparr>" "fbytes (fd s') = fbytes (fd s)" "flen (fd s') = flen (fd s)"
    "advances (fd s) (fd s')" "oom (fd s) = [] \<Longrightarrow> ok" "sys (fd s') = sys (fd s)"
  using assms os_malloc_props [of "fd s"]
  by (auto simp: st_malloc_def split: prod.splits)

lemma fl_reserve_spec:
  assumes "fl_reserve s want = (s', rc)" "file_wf (fd s)"
  shows "alloc_only s s'" "fl s' = fl s" "file_end s' = file_end s" "os_keeps (fd s) (fd s') UNIV"
    "rc = LS_OK \<or> rc = neg_errno ENOMEM" "oom (fd s) = [] \<Longrightarrow> rc = LS_OK"
    "rc = LS_OK \<Longrightarrow> want \<le> flcap s'"
proof -
  have "os_keeps (fd s) (fd s) UNIV" using assms(2) by (rule os_keeps_refl)
  moreover have cap: "want \<le> grow_cap c want" if "0 < c" for c
    using that by (induction c want rule: grow_cap.induct) (subst grow_cap.simps, auto)
  moreover obtain ok s1 where m: "st_malloc s = (ok, s1)" by fastforce
  note m' = st_malloc_props [OF m]
  moreover have "os_keeps (fd s) (fd s1) UNIV" using m' assms(2) by (auto intro: os_keeps_same)
  moreover have "fl s1 = fl s" "file_end s1 = file_end s" "alloc_only s s1" "alloc_only s (s1\<lparr>flcap := c\<rparr>)" for c
    by (subst m'(1), simp add: alloc_only_def)+
  ultimately show "alloc_only s s'" "fl s' = fl s" "file_end s' = file_end s"
    "os_keeps (fd s) (fd s') UNIV" "rc = LS_OK \<or> rc = neg_errno ENOMEM"
    "oom (fd s) = [] \<Longrightarrow> rc = LS_OK" "rc = LS_OK \<Longrightarrow> want \<le> flcap s'"
    using assms(1) m by (auto simp: fl_reserve_def Let_def split: if_splits)
qed

lemma fl_merge_right_app:
  "fl_merge_right (xs @ m # ys) (length xs) =
     (case ys of
        [] \<Rightarrow> xs @ [m]
      | y # ys' \<Rightarrow> if add64 (foff m) (elen m) = foff y
                   then xs @ m\<lparr>elen := add64 (elen m) (elen y)\<rparr> # ys' else xs @ m # ys)"
proof (cases ys)
  case (Cons y ys')
  have "remove_at (Suc (length xs)) (xs @ g # y # ys') = xs @ g # ys'" for g
    using remove_at_append [of "xs @ [g]" y ys'] by simp
  then show ?thesis using Cons by (simp add: fl_merge_right_def Let_def nth_append)
qed (simp add: fl_merge_right_def)

text \<open>A hole placed between its neighbours is joined to the right one if they touch.\<close>

lemma fl_merge_right_spec:
  assumes "holes_ok (xs @ [m]) lim" "holes_ok (xs @ ys) lim" "\<forall>y\<in>set ys. e_end m \<le> foff y" "lim < u64_mod"
  shows "holes_ok (fl_merge_right (xs @ m # ys) (length xs)) lim"
    "hole_set (fl_merge_right (xs @ m # ys) (length xs)) = hole_set (xs @ m # ys)"
proof -
  have "holes_ok (fl_merge_right (xs @ m # ys) (length xs)) lim \<and>
    hole_set (fl_merge_right (xs @ m # ys) (length xs)) = hole_set (xs @ m # ys)"
  proof (cases ys)
    case Nil
    then show ?thesis using assms by (simp add: fl_merge_right_app)
  next
    case (Cons y ys')
    have m: "ext_ok m" "e_end m \<le> lim" and y: "ext_ok y" "e_end y \<le> lim" "e_end m \<le> foff y"
      using assms Cons by (auto simp: holes_ok_simps)
    have ym: "\<forall>z\<in>set ys'. before m z"
      using assms(2) y(3) Cons by (fastforce simp: holes_ok_simps before_def)
    show ?thesis
    proof (cases "e_end m = foff y")
      case True
      define g where "g = m\<lparr>elen := elen m + elen y\<rparr>"
      have "elen m + elen y < u64_mod" "e_end m < u64_mod" using m y True assms(4) by linarith+
      then have f: "fl_merge_right (xs @ m # ys) (length xs) = xs @ g # ys'"
        unfolding fl_merge_right_app g_def using Cons True by (simp add: wrap_simps)
      have g: "ext_ok g" "foff g = foff m" "e_end g = e_end y" "span_of g = span_of m \<union> span_of y"
        using m y True by (auto simp: g_def ext_ok_def)
      have "holes_ok (xs @ g # ys') lim"
        using assms(1,2) Cons g y by (auto simp: holes_ok_simps before_def)
      moreover have "hole_set (xs @ g # ys') = hole_set (xs @ m # ys)"
        unfolding Cons hole_set_simps g(4) by blast
      ultimately show ?thesis unfolding f by blast
    next
      case False
      then have "e_end m < foff y" "e_end m < u64_mod" using y m assms(4) by auto
      then have f: "fl_merge_right (xs @ m # ys) (length xs) = xs @ m # ys"
        unfolding fl_merge_right_app using Cons by (simp add: wrap_simps)
      show ?thesis unfolding f using assms(1,2) Cons ym \<open>e_end m < foff y\<close>
        by (auto simp: holes_ok_simps before_def)
    qed
  qed
  then show "holes_ok (fl_merge_right (xs @ m # ys) (length xs)) lim"
    "hole_set (fl_merge_right (xs @ m # ys) (length xs)) = hole_set (xs @ m # ys)"
    by auto
qed

text \<open>Before the final trim the last hole may reach \<open>file_end\<close>.\<close>

lemma fl_trim_spec:
  assumes "fl_trim s = s'" "holes_ok (fl s) (file_end s)" "4096 \<le> file_end s" "4096 dvd file_end s"
    "file_end s < u64_mod" "file_wf (fd s)"
  shows "alloc_inv s'" "free_set s' = free_set s" "alloc_only s s'" "file_end s' \<le> file_end s"
    "os_keeps (fd s) (fd s') {..<file_end s'}"
proof -
  have "alloc_inv s' \<and> free_set s' = free_set s \<and> alloc_only s s' \<and> file_end s' \<le> file_end s
    \<and> os_keeps (fd s) (fd s') {..<file_end s'}"
  proof (cases "fl s \<noteq> [] \<and> e_end (last (fl s)) = file_end s")
    case True
    then obtain hs h where fl: "fl s = hs @ [h]" "e_end h = file_end s"
      by (metis append_butlast_last_id)
    define s1 where "s1 = s\<lparr>file_end := foff h, fl := hs\<rparr>"
    obtain w res where t: "ls_os_ftruncate (fd s) (foff h) = (w, res)" by fastforce
    have s': "s' = (case res of Inr _ \<Rightarrow> s1\<lparr>fd := w\<rparr>
      | Inl e \<Rightarrow> ls_report (s1\<lparr>fd := w\<rparr>) (neg_errno e) None (foff h) 0 ''truncating freed tail'')"
      using assms(1,5) fl t by (auto simp: fl_trim_def wrap_simps Let_def s1_def split: sum.splits)
    then have sel: "fl s' = hs" "file_end s' = foff h" "fd s' = w" "alloc_only s s'"
      by (auto simp: s1_def alloc_only_def ls_report_def split: sum.splits)
    have "holes_ok hs (file_end s)" "\<forall>g\<in>set hs. before g h" "ext_ok h"
      using assms(2) fl by (auto simp: holes_ok_simps)
    then have "alloc_inv s'" using assms(5) sel fl(2)
      by (fastforce simp: alloc_inv_def holes_ok_def before_def ext_ok_def)
    moreover have "free_set s' = free_set s" using fl by (auto simp: free_set_def sel)
    ultimately show ?thesis using ls_os_ftruncate_keeps [OF t assms(6)] sel fl(2) by auto
  next
    case False
    have "\<forall>h\<in>set (fl s). e_end h < file_end s"
    proof
      fix h assume h: "h \<in> set (fl s)"
      then have ne: "fl s = butlast (fl s) @ [last (fl s)]" by (cases "fl s") auto
      show "e_end h < file_end s"
      proof (cases "h = last (fl s)")
        case True
        then show ?thesis using False h assms(2) by (fastforce simp: holes_ok_def)
      next
        case b: False
        then have "h \<in> set (butlast (fl s))" using h ne by (metis in_set_butlast_appendI rotate1.simps(2) set_ConsD set_rotate1)
        moreover have "holes_ok (butlast (fl s) @ [last (fl s)]) (file_end s)" using ne assms(2) by simp
        ultimately show ?thesis by (fastforce simp: holes_ok_simps before_def)
      qed
    qed
    moreover have "s' = s"
    proof -
      have "fl s \<noteq> [] \<Longrightarrow> e_end (last (fl s)) < u64_mod"
        using assms(2,5) last_in_set by (meson holes_ok_def order_le_less_trans)
      then show ?thesis using assms(1) False by (auto simp: fl_trim_def wrap_simps)
    qed
    ultimately show ?thesis using assms by (auto simp: alloc_inv_def intro: os_keeps_refl)
  qed
  then show "alloc_inv s'" "free_set s' = free_set s" "alloc_only s s'" "file_end s' \<le> file_end s"
    "os_keeps (fd s) (fd s') {..<file_end s'}" by auto
qed

lemma sorted_split_at_offset:
  assumes "holes_ok hs lim" "span_of e \<inter> hole_set hs = {}" "0 < elen e"
  defines "xs \<equiv> takeWhile (\<lambda>h. foff h < foff e) hs" and "ys \<equiv> dropWhile (\<lambda>h. foff h < foff e) hs"
  shows "hs = xs @ ys" "x \<in> set xs \<Longrightarrow> e_end x \<le> foff e" "y \<in> set ys \<Longrightarrow> e_end e \<le> foff y"
proof -
  show hs: "hs = xs @ ys" by (simp add: xs_def ys_def)
  have ok: "ext_ok h" "span_of e \<inter> span_of h = {}" if "h \<in> set hs" for h
    using assms(1,2) that by (auto simp: holes_ok_def hole_set_def)
  show "e_end x \<le> foff e" if "x \<in> set xs"
  proof (rule ccontr)
    assume "\<not> e_end x \<le> foff e"
    moreover have "foff x < foff e" using that set_takeWhileD unfolding xs_def by fastforce
    moreover have "x \<in> set hs" using that hs by simp
    ultimately have "foff e \<in> span_of e \<inter> span_of x" using assms(3) by simp
    then show False using ok(2) [OF \<open>x \<in> set hs\<close>] by blast
  qed
  show "e_end e \<le> foff y" if yin: "y \<in> set ys"
  proof (rule ccontr)
    assume c: "\<not> e_end e \<le> foff y"
    obtain z zs where z: "ys = z # zs" using yin by (cases ys) auto
    then have "foff e \<le> foff z" using hd_dropWhile [of "\<lambda>h. foff h < foff e" hs] by (simp add: ys_def [symmetric])
    moreover have "holes_ok (z # zs) lim" using assms(1) hs z by (simp add: holes_ok_append)
    ultimately have "foff e \<le> foff y" using yin z by (auto simp: holes_ok_Cons before_def)
    moreover have y: "y \<in> set hs" using yin hs by simp
    ultimately have "foff y \<in> span_of e \<inter> span_of y" using c ok(1) [OF y] by (simp add: ext_ok_def)
    then show False using ok(2) [OF y] by blast
  qed
qed

text \<open>Releasing an extent that is not free adds exactly its bytes to the free space; if the
  free list cannot grow, the space is leaked and nothing else happens.\<close>

lemma fl_insert_coalesced:
  assumes "holes_ok (xs @ [m]) (file_end s1)" "holes_ok (xs @ ys) (file_end s1)"
    "\<forall>y\<in>set ys. e_end m \<le> foff y" "file_end s1 = file_end s" "alloc_inv s" "alloc_only s s1"
    "hole_set (xs @ m # ys) = hole_set (fl s) \<union> span_of e" "os_keeps (fd s) (fd s1) UNIV"
    "s' = fl_trim (s1\<lparr>fl := fl_merge_right (xs @ m # ys) (length xs)\<rparr>)"
  shows "alloc_inv s'" "free_set s' = free_set s \<union> span_of e" "alloc_only s s'"
    "file_end s' \<le> file_end s" "os_keeps (fd s) (fd s') (- free_set s')"
proof -
  let ?t = "s1\<lparr>fl := fl_merge_right (xs @ m # ys) (length xs)\<rparr>"
  have lim: "4096 \<le> file_end ?t" "4096 dvd file_end ?t" "file_end ?t < u64_mod"
    using assms(4,5) by (simp_all add: alloc_inv_def)
  have wf: "file_wf (fd ?t)" using assms(8) os_keepsD(2) by simp
  note mr = fl_merge_right_spec [OF assms(1-3)]
  have "holes_ok (fl ?t) (file_end ?t)" using mr(1) lim by simp
  note tr = fl_trim_spec [OF assms(9) [symmetric] this lim wf]
  show "alloc_inv s'" by (rule tr(1))
  have "free_set ?t = free_set s \<union> span_of e"
    using mr(2) lim assms(4,7) by (auto simp: free_set_def)
  then show free: "free_set s' = free_set s \<union> span_of e" using tr(2) by simp
  have "alloc_only s1 ?t" by (simp add: alloc_only_def)
  then show "alloc_only s s'" using tr(3) assms(6) alloc_only_trans by blast
  show "file_end s' \<le> file_end s" using tr(4) assms(4) by simp
  have "os_keeps (fd s1) (fd s') {..<file_end s'}" using tr(5) by simp
  then show "os_keeps (fd s) (fd s') (- free_set s')"
    using assms(8) by (rule_tac os_keeps_trans) (auto simp: free_set_def)
qed

lemma fl_insert_spec:
  assumes "fl_insert s (foff e) (elen e) = (s', rc)" "alloc_inv s" "file_wf (fd s)" "ext_ok e"
    and "span_of e \<inter> free_set s = {}"
  shows "alloc_inv s' \<and> alloc_only s s' \<and> os_keeps (fd s) (fd s') (- free_set s') \<and> file_end s' \<le> file_end s
     \<and> free_set s' = (if rc = LS_OK then free_set s \<union> span_of e else free_set s)
     \<and> (rc = LS_OK \<or> rc = neg_errno ENOMEM) \<and> (oom (fd s) = [] \<longrightarrow> rc = LS_OK)"
proof -
  define xs where "xs = takeWhile (\<lambda>h. foff h < foff e) (fl s)"
  define ys where "ys = dropWhile (\<lambda>h. foff h < foff e) (fl s)"
  have ok: "holes_ok (fl s) (file_end s)" "file_end s < u64_mod" and pos: "0 < elen e"
    using assms(2,4) by (auto simp: alloc_inv_def ext_ok_def)
  have dj: "span_of e \<inter> hole_set (fl s) = {}" and "e_end e \<le> file_end s"
  proof -
    show "span_of e \<inter> hole_set (fl s) = {}" using assms(5) by (auto simp: free_set_def)
    have "e_end e - 1 \<in> span_of e" using pos by auto
    then have "e_end e - 1 \<notin> free_set s" using assms(5) by blast
    then show "e_end e \<le> file_end s" by (auto simp: free_set_def)
  qed
  note sp = sorted_split_at_offset [OF ok(1) dj pos, folded xs_def ys_def]
  have ends: "\<forall>h\<in>set (fl s). e_end h < u64_mod" using ok by (fastforce simp: holes_ok_def)
  show ?thesis
  proof (cases "xs \<noteq> [] \<and> e_end (last xs) = foff e")
    case True
    then obtain us p where us: "xs = us @ [p]" "e_end p = foff e" by (metis append_butlast_last_id)
    define m where "m = p\<lparr>elen := elen p + elen e\<rparr>"
    have fl: "fl s = us @ p # ys" using sp(1) us by simp
    have "foff e + elen e < u64_mod" using \<open>e_end e \<le> file_end s\<close> ok(2) by linarith
    then have "elen p + elen e < u64_mod" "e_end p < u64_mod" using us(2) by linarith+
    then have "add64 (foff p) (elen p) = foff e" "add64 (elen p) (elen e) = elen p + elen e"
      using us(2) by (simp_all add: wrap_simps)
    then have s': "s' = fl_trim (s\<lparr>fl := fl_merge_right (us @ m # ys) (length us)\<rparr>)" and rc: "rc = LS_OK"
      using assms(1) pos fl unfolding fl_insert_def xs_def [symmetric] m_def us
      by (auto simp: Let_def nth_append)
    have m: "foff m = foff p" "e_end m = e_end e" "span_of m = span_of p \<union> span_of e" "ext_ok m"
      using us(2) assms(4) ok fl by (auto simp: m_def holes_ok_simps ext_ok_def)
    have "hole_set (us @ m # ys) = hole_set (fl s) \<union> span_of e" unfolding fl hole_set_simps m(3) by blast
    moreover have "holes_ok (us @ [m]) (file_end s)" "holes_ok (us @ ys) (file_end s)"
      using ok fl m \<open>e_end e \<le> file_end s\<close> by (auto simp: holes_ok_simps before_def)
    moreover have "os_keeps (fd s) (fd s) UNIV" using assms(3) by (rule os_keeps_refl)
    ultimately show ?thesis
      using fl_insert_coalesced [of us m s ys s e s'] sp(3) m(2) assms(2) s' rc by auto
  next
    case False
    obtain s1 rc1 where r: "fl_reserve s (length (fl s) + 1) = (s1, rc1)" by fastforce
    note rs = fl_reserve_spec [OF r assms(3)]
    have "\<not> (0 < length xs \<and> add64 (foff (fl s ! (length xs - 1))) (elen (fl s ! (length xs - 1))) = foff e)"
    proof (cases xs rule: rev_cases)
      case (snoc us p)
      then have "fl s ! (length xs - 1) = p" "p \<in> set (fl s)" using sp(1) by (auto simp: nth_append)
      then show ?thesis using False snoc ends by (auto simp: wrap_simps)
    qed simp
    moreover have eta: "\<lparr>foff = foff e, elen = elen e\<rparr> = e" by simp
    ultimately have ins: "fl_insert s (foff e) (elen e) =
      (if rc1 \<noteq> LS_OK then (s1, neg_errno ENOMEM)
       else (fl_trim (s1\<lparr>fl := fl_merge_right (insert_at (length xs) e (fl s1)) (length xs)\<rparr>), LS_OK))"
      unfolding fl_insert_def xs_def [symmetric] eta using pos r by (auto simp: Let_def)
    show ?thesis
    proof (cases "rc1 = LS_OK")
      case True
      have "fl s1 = xs @ ys" using rs(2) sp(1) by simp
      then have s': "s' = fl_trim (s1\<lparr>fl := fl_merge_right (xs @ e # ys) (length xs)\<rparr>)" and rc: "rc = LS_OK"
        using ins assms(1) True by auto
      have bef: "before x e" if "x \<in> set xs" for x
      proof (cases xs rule: rev_cases)
        case (snoc us p)
        have "holes_ok (us @ [p]) (file_end s)" using ok sp(1) snoc by (simp add: holes_ok_simps)
        moreover have "e_end p < foff e" using sp(2) [of p] False snoc by fastforce
        ultimately show ?thesis using that snoc by (auto simp: before_def holes_ok_simps)
      qed (use that in simp)
      have hl: "holes_ok (xs @ ys) (file_end s)" using ok sp(1) by simp
      then have "holes_ok (xs @ [e]) (file_end s)"
        using bef assms(4) \<open>e_end e \<le> file_end s\<close> by (auto simp: holes_ok_simps)
      moreover have "hole_set (xs @ e # ys) = hole_set (fl s) \<union> span_of e"
        unfolding sp(1) hole_set_simps by blast
      ultimately show ?thesis
        using fl_insert_coalesced [of xs e s1 ys s e s'] hl sp(3) rs(1,3,4) assms(2) s' rc by auto
    next
      case False
      then have "s' = s1" "rc = neg_errno ENOMEM" using ins assms(1) by auto
      moreover have "neg_errno ENOMEM \<noteq> LS_OK" by (simp add: neg_errno_def LS_OK_def)
      moreover have "alloc_inv s1" "free_set s1 = free_set s"
        using rs assms(2) by (simp_all add: alloc_inv_def free_set_def)
      ultimately show ?thesis
        using rs False by (auto intro: os_keeps_mono)
    qed
  qed
qed

lemma fl_insert_all_spec:
  assumes "alloc_inv s" "file_wf (fd s)" "\<forall>e\<in>set es. ext_ok e" "set (locs es) \<inter> free_set s = {}"
    "distinct (locs es)" "fl_insert_all s es = s'"
  shows "alloc_inv s' \<and> alloc_only s s' \<and> os_keeps (fd s) (fd s') (- free_set s') \<and> file_end s' \<le> file_end s
     \<and> free_set s \<subseteq> free_set s' \<and> free_set s' \<subseteq> free_set s \<union> set (locs es)
     \<and> (oom (fd s) = [] \<longrightarrow> free_set s' = free_set s \<union> set (locs es))"
  using assms
proof (induction es arbitrary: s)
  case Nil
  then show ?case by (auto intro: os_keeps_refl)
next
  case (Cons e es)
  obtain t rc where t: "fl_insert s (foff e) (elen e) = (t, rc)" by fastforce
  have dj: "span_of e \<inter> free_set s = {}" "ext_ok e" "span_of e \<inter> set (locs es) = {}"
    using Cons.prems(3-5) by (auto simp: locs_simps)
  note f = fl_insert_spec [OF t Cons.prems(1,2) dj(2,1)]
  then have adv: "advances (fd s) (fd t)" using os_keepsD(1) by blast
  have "alloc_inv t" "file_wf (fd t)" using f os_keepsD(2) by blast+
  moreover have "set (locs es) \<inter> free_set t = {}"
    using f dj(3) Cons.prems(4) by (auto simp: locs_simps split: if_splits)
  moreover have "fl_insert_all t es = s'" using Cons.prems(6) t by simp
  moreover have "distinct (locs es)" "\<forall>e\<in>set es. ext_ok e" using Cons.prems(3,5) by (auto simp: locs_simps)
  ultimately have ih: "alloc_inv s' \<and> alloc_only t s' \<and> os_keeps (fd t) (fd s') (- free_set s') \<and> file_end s' \<le> file_end t
     \<and> free_set t \<subseteq> free_set s' \<and> free_set s' \<subseteq> free_set t \<union> set (locs es)
     \<and> (oom (fd t) = [] \<longrightarrow> free_set s' = free_set t \<union> set (locs es))"
    using Cons.IH by blast
  have "os_keeps (fd s) (fd s') (- free_set s')" using f ih by (blast intro: os_keeps_trans)
  moreover have "alloc_only s s'" using f ih alloc_only_trans by blast
  moreover have "oom (fd s) = [] \<longrightarrow> oom (fd t) = [] \<and> rc = LS_OK"
    using f adv by (auto simp: advances_def)
  ultimately show ?case using ih f by (auto simp: locs_simps split: if_splits)
qed

lemma ls_free_extents_spec:
  assumes "alloc_inv s" "file_wf (fd s)" "\<forall>e\<in>set es. ext_ok e" "set (locs es) \<inter> free_set s = {}"
    "distinct (locs es)" "ls_free_extents s es = s'"
  shows "alloc_inv s'" "alloc_only s s'" "os_keeps (fd s) (fd s') (- free_set s')"
    "file_end s' \<le> file_end s" "free_set s \<subseteq> free_set s'" "free_set s' \<subseteq> free_set s \<union> set (locs es)"
    "oom (fd s) = [] \<Longrightarrow> \<not> teardown s \<Longrightarrow> free_set s' = free_set s \<union> set (locs es)"
  using fl_insert_all_spec [OF assms(1-5) refl] assms(1,2,6) os_keeps_refl
  by (auto simp: ls_free_extents_def split: if_splits)

subsection \<open>The allocator as a space of extents\<close>

text \<open>What the record layer relies on: taking hands out free bytes and removes exactly them;
  giving back never adds anything but the extent's own bytes.\<close>

locale extent_space =
  fixes inv :: "'s \<Rightarrow> bool"
    and free :: "'s \<Rightarrow> nat set"
    and takes :: "'s \<Rightarrow> ls_extent \<Rightarrow> 's \<Rightarrow> bool"
    and gives :: "'s \<Rightarrow> ls_extent \<Rightarrow> 's \<Rightarrow> bool"
  assumes take_inv: "inv s \<Longrightarrow> takes s e s' \<Longrightarrow> inv s'"
    and take_ok: "inv s \<Longrightarrow> takes s e s' \<Longrightarrow> ext_ok e \<and> span_of e \<subseteq> free s"
    and take_free: "inv s \<Longrightarrow> takes s e s' \<Longrightarrow> free s' = free s - span_of e"
    and give_inv: "inv s \<Longrightarrow> ext_ok e \<Longrightarrow> span_of e \<inter> free s = {} \<Longrightarrow> gives s e s' \<Longrightarrow> inv s'"
    and give_free: "inv s \<Longrightarrow> ext_ok e \<Longrightarrow> span_of e \<inter> free s = {} \<Longrightarrow> gives s e s' \<Longrightarrow>
      free s \<subseteq> free s' \<and> free s' \<subseteq> free s \<union> span_of e"

text \<open>Any history of takes and gives, with the list of the extents held.\<close>

inductive space_run :: "('s \<Rightarrow> ls_extent \<Rightarrow> 's \<Rightarrow> bool) \<Rightarrow> ('s \<Rightarrow> ls_extent \<Rightarrow> 's \<Rightarrow> bool) \<Rightarrow>
    's \<Rightarrow> 's \<Rightarrow> ls_extent list \<Rightarrow> bool"
  for takes gives s0 where
  run_start: "space_run takes gives s0 s0 []"
| run_take: "space_run takes gives s0 s held \<Longrightarrow> takes s e s' \<Longrightarrow> space_run takes gives s0 s' (e # held)"
| run_give: "space_run takes gives s0 s (xs @ e # ys) \<Longrightarrow> gives s e s' \<Longrightarrow>
    space_run takes gives s0 s' (xs @ ys)"

context extent_space
begin

lemma held_apart:
  assumes "inv s0" "space_run takes gives s0 s held"
  shows "inv s \<and> (\<forall>e\<in>set held. ext_ok e) \<and> distinct (locs held) \<and> set (locs held) \<inter> free s = {}"
  using assms(2)
proof (induction rule: space_run.induct)
  case (run_take s held e s')
  moreover have "set (locs held) \<inter> span_of e = {}"
    using run_take take_ok by (meson disjoint_iff subsetD)
  ultimately show ?case
    using take_inv take_ok take_free by (auto simp: locs_simps)
next
  case (run_give s xs e ys s')
  then have e: "ext_ok e" "span_of e \<inter> free s = {}" "inv s"
    by (auto simp: locs_simps)
  have "set (locs (xs @ ys)) \<inter> span_of e = {}" using run_give by (auto simp: locs_simps)
  then have "set (locs (xs @ ys)) \<inter> free s' = {}"
    using give_free [OF e(3,1,2) run_give.hyps(2)] run_give.IH by (auto simp: locs_simps)
  then show ?case using give_inv [OF e(3,1,2) run_give.hyps(2)] run_give.IH by (auto simp: locs_simps)
qed (simp add: assms(1))

end

text \<open>The three allocation primitives, within the 64-bit file offsets, and the release.\<close>

definition alloc_takes :: "ls_store \<Rightarrow> ls_extent \<Rightarrow> ls_store \<Rightarrow> bool" where
  "alloc_takes s e s' \<longleftrightarrow> (\<exists>n. n + 4095 < u64_mod \<and> 0 < n
     \<and> (ls_alloc_best s n = (s', Some e) \<or> ls_alloc_largest s n = (s', Some e)
        \<or> file_end s + round_up n < u64_mod \<and> ls_alloc_tail s n = (s', e)))"

definition alloc_gives :: "ls_store \<Rightarrow> ls_extent \<Rightarrow> ls_store \<Rightarrow> bool" where
  "alloc_gives s e s' \<longleftrightarrow> ls_free_extents s [e] = s'"

lemma alloc_takes_took:
  assumes "alloc_takes s e s'" "alloc_inv s"
  shows "took s s' e"
proof -
  obtain n where n: "n + 4095 < u64_mod" "0 < n"
    and "ls_alloc_best s n = (s', Some e) \<or> ls_alloc_largest s n = (s', Some e)
        \<or> file_end s + round_up n < u64_mod \<and> ls_alloc_tail s n = (s', e)"
    using assms(1) by (auto simp: alloc_takes_def)
  then consider (best) "ls_alloc_best s n = (s', Some e)" | (largest) "ls_alloc_largest s n = (s', Some e)"
    | (tail) "file_end s + round_up n < u64_mod" "ls_alloc_tail s n = (s', e)" by blast
  then show ?thesis
  proof cases
    case best
    then show ?thesis using ls_alloc_best_spec [OF best assms(2) n(1)] by simp
  next
    case largest
    then show ?thesis using ls_alloc_largest_spec [OF largest assms(2)] by simp
  next
    case tail
    then show ?thesis using ls_alloc_tail_spec(1) [OF tail(2) assms(2) n(2,1) tail(1)] by simp
  qed
qed

interpretation space: extent_space "\<lambda>s. alloc_inv s \<and> file_wf (fd s)" free_set alloc_takes alloc_gives
proof
  fix s e s'
  assume inv: "alloc_inv s \<and> file_wf (fd s)"
  have tk: "alloc_takes s e s' \<Longrightarrow> took s s' e" using alloc_takes_took inv by blast
  show "alloc_takes s e s' \<Longrightarrow> alloc_inv s' \<and> file_wf (fd s')"
    using tk inv unfolding took_def by metis
  show "alloc_takes s e s' \<Longrightarrow> ext_ok e \<and> span_of e \<subseteq> free_set s"
    "alloc_takes s e s' \<Longrightarrow> free_set s' = free_set s - span_of e"
    using tk unfolding took_def by blast+
  assume e: "ext_ok e" "span_of e \<inter> free_set s = {}" and g: "alloc_gives s e s'"
  have l: "set (locs [e]) = span_of e" "distinct (locs [e])" by (auto simp: locs_simps)
  have "alloc_inv s" "file_wf (fd s)" "\<forall>e\<in>set [e]. ext_ok e" "ls_free_extents s [e] = s'"
    using inv e g by (auto simp: alloc_gives_def)
  note f = ls_free_extents_spec [OF this(1-3) _ l(2) this(4), unfolded l(1), OF e(2)]
  show "alloc_inv s' \<and> file_wf (fd s')" using f(1,3) os_keepsD(2) by blast
  show "free_set s \<subseteq> free_set s' \<and> free_set s' \<subseteq> free_set s \<union> span_of e" using f(5,6) by blast
qed

subsection \<open>Accounting\<close>

lemma used_card:
  assumes "alloc_inv s"
  shows "card ({LS_SUPER_SIZE..<file_end s} - free_set s) = file_end s - 4096 - sum_list (map elen (fl s))"
    "sum_list (map elen (fl s)) \<le> file_end s - 4096"
proof -
  have ok: "holes_ok (fl s) (file_end s)" using assms by (simp add: alloc_inv_def)
  have sub: "hole_set (fl s) \<subseteq> {LS_SUPER_SIZE..<file_end s}"
    using assms by (fastforce simp: alloc_inv_def hole_set_def holes_ok_def ext_ok_def)
  have "{LS_SUPER_SIZE..<file_end s} - free_set s = {LS_SUPER_SIZE..<file_end s} - hole_set (fl s)"
    by (auto simp: free_set_def)
  then show "card ({LS_SUPER_SIZE..<file_end s} - free_set s) = file_end s - 4096 - sum_list (map elen (fl s))"
    using sum_holes_card [OF ok] sub by (simp add: card_Diff_subset)
  show "sum_list (map elen (fl s)) \<le> file_end s - 4096"
    using sum_holes_card [OF ok] card_mono [OF _ sub] by simp
qed

subsection \<open>Properties\<close>

text \<open>C7. Extents never overlap. Start from any allocator state that satisfies the invariant
  and run any history of \<open>ls_alloc_best\<close>, \<open>ls_alloc_largest\<close>, \<open>ls_alloc_tail\<close> and
  \<open>ls_free_extents\<close>, whatever the operating system does: the extents held are pairwise
  disjoint, block-aligned, clear of the superblock and of the free space, and the free list
  is still sorted, coalesced and below the high-water mark.\<close>

theorem allocations_never_overlap:
  assumes "alloc_inv s0" "file_wf (fd s0)" "space_run alloc_takes alloc_gives s0 s held"
  shows "alloc_inv s \<and> distinct (locs held) \<and> set (locs held) \<inter> free_set s = {}
     \<and> (\<forall>e\<in>set held. 4096 dvd foff e \<and> 4096 dvd elen e \<and> LS_SUPER_SIZE \<le> foff e)"
  using space.held_apart [OF _ assms(3)] assms(1,2) by (simp add: ext_ok_def)

text \<open>A store with two holes, and one extent in use between them.\<close>

definition two_holes :: ls_store where
  "two_holes = (store_init (os_empty []) ''p'' opts_default False)
     \<lparr>fl := [\<lparr>foff = 4096, elen = 8192\<rparr>, \<lparr>foff = 16384, elen = 4096\<rparr>], flcap := 16, file_end := 24576\<rparr>"

lemma two_holes_sel [simp]:
  "fl two_holes = [\<lparr>foff = 4096, elen = 8192\<rparr>, \<lparr>foff = 16384, elen = 4096\<rparr>]"
  "file_end two_holes = 24576" "fd two_holes = os_empty []" "teardown two_holes = False"
  by (simp_all add: two_holes_def store_init_def)

lemma two_holes_inv: "alloc_inv two_holes"
proof -
  have "24576 < u64_mod" by (simp add: u64_mod_def)
  moreover have "(4096 :: nat) dvd 8192" "(4096 :: nat) dvd 16384" "(4096 :: nat) dvd 24576" by (simp_all add: dvd_eq_mod_eq_0)
  ultimately show ?thesis by (simp add: alloc_inv_def holes_ok_def ext_ok_def before_def)
qed

lemma round_up_values: "round_up 100 = 4096" "round_up 5000 = 8192"
  by (simp_all add: round_up_eq u64_mod_def)

text \<open>Allocating 100 bytes twice: the first takes the 4096-byte hole, the second splits the other.\<close>

lemma two_holes_takes:
  "alloc_takes two_holes \<lparr>foff = 16384, elen = 4096\<rparr> (two_holes\<lparr>fl := [\<lparr>foff = 4096, elen = 8192\<rparr>]\<rparr>)"
  "alloc_takes (two_holes\<lparr>fl := [\<lparr>foff = 4096, elen = 8192\<rparr>]\<rparr>) \<lparr>foff = 4096, elen = 4096\<rparr>
     (two_holes\<lparr>fl := [\<lparr>foff = 8192, elen = 4096\<rparr>]\<rparr>)"
  unfolding alloc_takes_def
  by (rule exI [of _ 100],
      simp add: ls_alloc_best_def round_up_values Let_def best_loop.simps remove_at_def add64_def u64_mod_def)+

theorem allocations_never_overlap_witness:
  "alloc_inv (two_holes\<lparr>fl := [\<lparr>foff = 8192, elen = 4096\<rparr>]\<rparr>)
   \<and> distinct (locs [\<lparr>foff = 4096, elen = 4096\<rparr>, \<lparr>foff = 16384, elen = 4096\<rparr>])"
proof -
  have "space_run alloc_takes alloc_gives two_holes (two_holes\<lparr>fl := [\<lparr>foff = 8192, elen = 4096\<rparr>]\<rparr>)
      [\<lparr>foff = 4096, elen = 4096\<rparr>, \<lparr>foff = 16384, elen = 4096\<rparr>]"
    by (rule run_take [OF run_take [OF run_start]]) (rule two_holes_takes)+
  from allocations_never_overlap [OF two_holes_inv _ this] show ?thesis by simp
qed

text \<open>Best fit. With a sufficient hole on the list \<open>ls_alloc_best\<close> succeeds, returns the first
  bytes of a smallest sufficient hole, rounded up to whole blocks, and does not grow the
  file.\<close>

theorem alloc_best_fits:
  assumes "alloc_inv s" "0 < need" "need + 4095 < u64_mod" "g \<in> set (fl s)" "round_up need \<le> elen g"
  shows "\<exists>s' e h. ls_alloc_best s need = (s', Some e) \<and> need \<le> elen e \<and> elen e < need + 4096
     \<and> h \<in> set (fl s) \<and> foff e = foff h \<and> elen e \<le> elen h \<and> elen h \<le> elen g \<and> file_end s' = file_end s
     \<and> free_set s' = free_set s - span_of e"
proof -
  obtain s' res where r: "ls_alloc_best s need = (s', res)" by fastforce
  note sp = ls_alloc_best_spec [OF r assms(1,3)]
  then obtain e where "res = Some e" using assms(2,4,5) by (cases res) auto
  moreover note round_up_small [OF assms(3)]
  ultimately show ?thesis using sp r assms(4,5) unfolding took_def by auto
qed

theorem alloc_best_fits_witness:
  "\<exists>s' e. ls_alloc_best two_holes 100 = (s', Some e) \<and> elen e < 100 + 4096 \<and> foff e \<in> {4096, 16384}"
proof -
  have "(100 :: nat) + 4095 < u64_mod" by (simp add: u64_mod_def)
  from alloc_best_fits [OF two_holes_inv _ this, of "\<lparr>foff = 16384, elen = 4096\<rparr>"]
  show ?thesis by (auto simp: round_up_values)
qed

text \<open>Freeing what was just allocated restores the allocator: the free list and the
  high-water mark are the ones from before, also when the hole had been split, and also when
  the file had grown.\<close>

theorem alloc_free_restores:
  assumes "alloc_inv s" "quiet (fd s)" "file_wf (fd s)" "\<not> teardown s" "alloc_takes s e s1"
  shows "fl (ls_free_extents s1 [e]) = fl s \<and> file_end (ls_free_extents s1 [e]) = file_end s"
proof -
  have tk: "alloc_inv s1" "alloc_only s s1" "fd s1 = fd s" "ext_ok e" "span_of e \<subseteq> free_set s"
    "free_set s1 = free_set s - span_of e"
    using alloc_takes_took [OF assms(5,1)] by (auto simp: took_def)
  have l: "set (locs [e]) = span_of e" "distinct (locs [e])" by (auto simp: locs_simps)
  have "file_wf (fd s1)" "\<forall>e\<in>set [e]. ext_ok e" "span_of e \<inter> free_set s1 = {}"
    using tk assms(3) by auto
  note f = ls_free_extents_spec [OF tk(1) this(1,2) _ l(2) refl, unfolded l(1), OF this(3)]
  have "free_set (ls_free_extents s1 [e]) = free_set s"
    using f(7) tk assms(2,4) by (auto simp: quiet_def alloc_only_sel [OF tk(2)])
  then show ?thesis using alloc_canonical [OF f(1) assms(1)] by blast
qed

theorem alloc_free_restores_witness:
  "fl (ls_free_extents (two_holes\<lparr>fl := [\<lparr>foff = 4096, elen = 8192\<rparr>]\<rparr>) [\<lparr>foff = 16384, elen = 4096\<rparr>])
     = [\<lparr>foff = 4096, elen = 8192\<rparr>, \<lparr>foff = 16384, elen = 4096\<rparr>]"
  using alloc_free_restores [OF two_holes_inv _ _ _ two_holes_takes(1)] by (simp add: quiet_def)

text \<open>\<open>ls_alloc_live\<close> counts the bytes that are handed out: the positions between the
  superblock and \<open>file_end\<close> that are not free. None of its subtractions wraps.\<close>

theorem alloc_live_counts:
  assumes "alloc_inv s"
  shows "ls_alloc_live s = card ({LS_SUPER_SIZE..<file_end s} - free_set s)"
proof -
  have "file_end s < u64_mod" "4096 \<le> file_end s" using assms by (simp_all add: alloc_inv_def)
  then show ?thesis using used_card [OF assms] by (simp add: ls_alloc_live_def wrap_simps)
qed

theorem alloc_live_counts_witness:
  "card ({LS_SUPER_SIZE..<file_end two_holes} - free_set two_holes) = 8192"
  using alloc_live_counts [OF two_holes_inv]
  by (simp add: ls_alloc_live_def sub64_def u64_mod_def)

end
