(* ===== verification/Toc.thy ===== *)
theory Toc
  imports Alloc "HOL-Library.Multiset"
begin

unbundle bit_operations_syntax

text \<open>
  The table of contents (\<open>src/toc.c\<close>): a chained hash table from keys to records, hashed with
  FNV-1a and doubled when it is three quarters full. A bucket is the list of the record
  addresses on its chain. The lemmas show that the table is a finite map from keys to
  record addresses, whatever the hash values are.
\<close>

subsection \<open>Definitions\<close>

text \<open>A key argument: \<open>None\<close> is NULL, a C string is the list of its characters before the NUL.\<close>

definition ls_key_ok :: "string option \<Rightarrow> bool" where
  "ls_key_ok ko = (case ko of None \<Rightarrow> False | Some k \<Rightarrow> 0 < length k \<and> length k \<le> LS_KEY_MAX)"

definition hash_of :: "string \<Rightarrow> 64 word" where
  "hash_of k = foldl (\<lambda>h c. (h XOR of_char c) * 1099511628211) 1469598103934665603 k"

text \<open>\<open>hash_of (key) & (nbuckets - 1)\<close>.\<close>

definition bucket :: "nat \<Rightarrow> string \<Rightarrow> nat" where
  "bucket nb k = unat (hash_of k AND (word_of_nat nb - 1))"

definition rkey :: "ls_store \<Rightarrow> nat \<Rightarrow> string" where
  "rkey s r = (case recs s r of Some x \<Rightarrow> key x | None \<Rightarrow> [])"

fun chain_find :: "ls_store \<Rightarrow> nat list \<Rightarrow> string \<Rightarrow> nat option" where
  "chain_find s [] k = None"
| "chain_find s (r # rs) k = (if rkey s r = k then Some r else chain_find s rs k)"

definition ls_toc_find :: "ls_store \<Rightarrow> string \<Rightarrow> nat option" where
  "ls_toc_find s k = chain_find s (tab s ! bucket (length (tab s)) k) k"

text \<open>Rehashing pushes every record to the front of its new chain.\<close>

fun rehash_chain :: "ls_store \<Rightarrow> nat \<Rightarrow> nat list list \<Rightarrow> nat list \<Rightarrow> nat list list" where
  "rehash_chain s nb t [] = t"
| "rehash_chain s nb t (r # rs) =
     rehash_chain s nb (t[bucket nb (rkey s r) := r # t ! bucket nb (rkey s r)]) rs"

fun rehash_all :: "ls_store \<Rightarrow> nat \<Rightarrow> nat list list \<Rightarrow> nat list list \<Rightarrow> nat list list" where
  "rehash_all s nb t [] = t"
| "rehash_all s nb t (c # cs) = rehash_all s nb (rehash_chain s nb t c) cs"

text \<open>\<open>calloc (nb, sizeof *t)\<close> with 8-byte pointers; no object of \<open>2 ^ 63\<close> bytes or more exists.\<close>

definition toc_grow :: "ls_store \<Rightarrow> ls_store \<times> int" where
  "toc_grow s =
     (let nb = length (tab s) * 2 in
      case st_malloc s of (ok, s1) \<Rightarrow>
        if \<not> ok \<or> off_max \<le> nb * 8 then (s1, neg_errno ENOMEM)
        else (s1\<lparr>tab := rehash_all s1 nb (replicate nb []) (tab s1)\<rparr>, LS_OK))"

definition rec_new :: "string \<Rightarrow> ls_rec" where
  "rec_new k = \<lparr>key = k, rsize = 0, mem = None, mem_cap = 0, busy = 0, attr = zeros LS_ATTR_MAX,
     attrlen = 0, map_addr = None, map_len = 0, ext = [], ncap = 0, ext_total = 0\<rparr>"

definition toc_link :: "ls_store \<Rightarrow> string \<Rightarrow> ls_store \<times> nat option" where
  "toc_link s k =
     (let b = bucket (length (tab s)) k; r = fresh s in
      (s\<lparr>recs := (recs s)(r \<mapsto> rec_new k), fresh := r + 1,
         tab := (tab s)[b := r # tab s ! b], nrec := nrec s + 1\<rparr>, Some r))"

definition toc_alloc_rec :: "ls_store \<Rightarrow> string \<Rightarrow> ls_store \<times> nat option" where
  "toc_alloc_rec s k =
     (case st_malloc s of (ok, s1) \<Rightarrow>
        if \<not> ok then (s1, None)
        else (case st_malloc s1 of (ok2, s2) \<Rightarrow>
          if \<not> ok2 then (s2, None) else toc_link s2 k))"

definition ls_toc_insert :: "ls_store \<Rightarrow> string \<Rightarrow> ls_store \<times> nat option" where
  "ls_toc_insert s k =
     (let nb = length (tab s) in
      if nb - nb div 4 < nrec s + 1 then
        (case toc_grow s of (s1, rc) \<Rightarrow>
           if rc \<noteq> LS_OK then (s1, None) else toc_alloc_rec s1 k)
      else toc_alloc_rec s k)"

definition ls_toc_unlink :: "ls_store \<Rightarrow> nat \<Rightarrow> ls_store" where
  "ls_toc_unlink s r =
     (let b = bucket (length (tab s)) (rkey s r) in
      if r \<in> set (tab s ! b)
      then s\<lparr>tab := (tab s)[b := remove1 r (tab s ! b)], nrec := nrec s - 1\<rparr> else s)"

text \<open>The record's buffer, mapping, extents and key go, then the record itself.\<close>

definition ls_rec_free :: "ls_store \<Rightarrow> nat \<Rightarrow> ls_store" where
  "ls_rec_free s r =
     (case recs s r of
        None \<Rightarrow> s
      | Some x \<Rightarrow>
          let s1 = (if mem x \<noteq> None \<and> mem_cap x \<le> resident s
                    then s\<lparr>resident := resident s - mem_cap x\<rparr> else s);
              s2 = ls_free_extents s1 (ext x)
          in s2\<lparr>recs := (recs s2)(r := None)\<rparr>)"

subsection \<open>Buckets\<close>

lemma bucket_mod:
  assumes "n < 64"
  shows "bucket (2 ^ n) k = unat (hash_of k) mod 2 ^ n"
proof -
  have "(word_of_nat (2 ^ n) :: 64 word) - 1 = mask n"
    by (simp add: mask_eq_exp_minus_1)
  then have "bucket (2 ^ n) k = unat (take_bit n (hash_of k))"
    by (simp only: bucket_def take_bit_eq_mask)
  then have "bucket (2 ^ n) k = take_bit n (unat (hash_of k))" by (simp only: unsigned_take_bit_eq)
  then show ?thesis by (simp only: take_bit_eq_mod)
qed

definition pow2 :: "nat \<Rightarrow> bool" where
  "pow2 nb \<longleftrightarrow> (\<exists>n<64. nb = 2 ^ n)"

lemma bucket_less [simp]: "pow2 nb \<Longrightarrow> bucket nb k < nb"
  by (auto simp: pow2_def bucket_mod)

lemma pow2_pos: "pow2 nb \<Longrightarrow> 0 < nb"
  by (auto simp: pow2_def)

lemma chain_find_in: "chain_find s rs k = Some r \<Longrightarrow> r \<in> set rs \<and> rkey s r = k"
  by (induction rs) (auto split: if_splits)

lemma chain_find_None: "chain_find s rs k = None \<longleftrightarrow> (\<forall>r\<in>set rs. rkey s r \<noteq> k)"
  by (induction rs) auto

subsection \<open>The table's invariant\<close>

definition toc_inv :: "ls_store \<Rightarrow> bool" where
  "toc_inv s \<longleftrightarrow> pow2 (length (tab s)) \<and> length (tab s) * 8 < off_max \<and> distinct (concat (tab s))
     \<and> set (concat (tab s)) = dom (recs s) \<and> inj_on (rkey s) (dom (recs s))
     \<and> (\<forall>b<length (tab s). \<forall>r\<in>set (tab s ! b). bucket (length (tab s)) (rkey s r) = b)
     \<and> nrec s = length (concat (tab s)) \<and> (\<forall>r\<in>dom (recs s). r < fresh s)"

lemma toc_invD:
  assumes "toc_inv s"
  shows "pow2 (length (tab s))" "inj_on (rkey s) (dom (recs s))" "distinct (concat (tab s))"
    "b < length (tab s) \<Longrightarrow> r \<in> set (tab s ! b) \<Longrightarrow> r \<in> dom (recs s) \<and> bucket (length (tab s)) (rkey s r) = b"
    "r \<in> dom (recs s) \<Longrightarrow> r \<in> set (tab s ! bucket (length (tab s)) (rkey s r))"
    "r \<in> dom (recs s) \<Longrightarrow> r < fresh s"
proof -
  have dom: "set (concat (tab s)) = dom (recs s)" using assms by (simp add: toc_inv_def)
  show "pow2 (length (tab s))" "inj_on (rkey s) (dom (recs s))" "distinct (concat (tab s))"
    "r \<in> dom (recs s) \<Longrightarrow> r < fresh s"
    using assms by (simp_all add: toc_inv_def)
  have home: "bucket (length (tab s)) (rkey s r) = b" if "b < length (tab s)" "r \<in> set (tab s ! b)" for b
    using assms that by (simp add: toc_inv_def)
  then show "b < length (tab s) \<Longrightarrow> r \<in> set (tab s ! b) \<Longrightarrow>
      r \<in> dom (recs s) \<and> bucket (length (tab s)) (rkey s r) = b"
    using dom by (metis UN_I nth_mem set_concat)
  assume "r \<in> dom (recs s)"
  then have "r \<in> set (concat (tab s))" using dom by simp
  then obtain c where "c \<in> set (tab s)" "r \<in> set c" by auto
  then obtain b where "b < length (tab s)" "r \<in> set (tab s ! b)" by (metis in_set_conv_nth)
  then show "r \<in> set (tab s ! bucket (length (tab s)) (rkey s r))" using home by simp
qed

lemma toc_find_iff:
  assumes "toc_inv s"
  shows "ls_toc_find s k = Some r \<longleftrightarrow> r \<in> dom (recs s) \<and> rkey s r = k"
proof
  note inv = toc_invD [OF assms]
  let ?b = "bucket (length (tab s)) k"
  have b: "?b < length (tab s)" using inv(1) by simp
  {
    assume "ls_toc_find s k = Some r"
    then have "r \<in> set (tab s ! ?b)" "rkey s r = k"
      using chain_find_in by (auto simp: ls_toc_find_def)
    then show "r \<in> dom (recs s) \<and> rkey s r = k" using b inv(4) by blast
  }
  assume r: "r \<in> dom (recs s) \<and> rkey s r = k"
  then have "r \<in> set (tab s ! ?b)" using inv(5) by blast
  then obtain r' where r': "chain_find s (tab s ! ?b) k = Some r'"
    using r chain_find_None by (metis not_Some_eq)
  then have "r' \<in> dom (recs s)" "rkey s r' = k" using chain_find_in [OF r'] b inv(4) by blast+
  then have "r' = r" using inj_onD [OF inv(2), of r' r] r by simp
  then show "ls_toc_find s k = Some r" using r' by (simp add: ls_toc_find_def)
qed

lemma toc_find_None:
  "toc_inv s \<Longrightarrow> ls_toc_find s k = None \<longleftrightarrow> (\<forall>r\<in>dom (recs s). rkey s r \<noteq> k)"
  by (metis (no_types, lifting) not_Some_eq toc_find_iff)

lemma toc_find_ext:
  assumes "toc_inv s" "toc_inv t" "\<And>r. r \<in> dom (recs s) \<and> rkey s r = k \<longleftrightarrow> r \<in> dom (recs t) \<and> rkey t r = k"
  shows "ls_toc_find s k = ls_toc_find t k"
proof -
  have "ls_toc_find s k = Some r \<longleftrightarrow> ls_toc_find t k = Some r" for r
    unfolding toc_find_iff [OF assms(1)] toc_find_iff [OF assms(2)] by (rule assms(3))
  then show ?thesis by (metis not_Some_eq)
qed

subsection \<open>Growing\<close>

text \<open>\<open>filed nb t rs\<close>: the table \<open>t\<close> has \<open>nb\<close> chains that hold exactly the records \<open>rs\<close>, each once and
  in the chain its key hashes to.\<close>

definition filed :: "ls_store \<Rightarrow> nat \<Rightarrow> nat list list \<Rightarrow> nat set \<Rightarrow> bool" where
  "filed s nb t rs \<longleftrightarrow> length t = nb \<and> distinct (concat t) \<and> set (concat t) = rs
     \<and> (\<forall>b<nb. \<forall>r\<in>set (t ! b). bucket nb (rkey s r) = b)"

lemma concat_update:
  assumes "b < length t"
  shows "concat (t[b := c]) = concat (take b t) @ c @ concat (drop (Suc b) t)"
  using assms by (simp add: upd_conv_take_nth_drop)

lemma concat_split:
  assumes "b < length t"
  shows "concat t = concat (take b t) @ t ! b @ concat (drop (Suc b) t)"
  using concat_update [OF assms, of "t ! b"] by simp

lemma filed_push:
  assumes "filed s nb t rs" "pow2 nb" "r \<notin> rs"
  shows "filed s nb (t[bucket nb (rkey s r) := r # t ! bucket nb (rkey s r)]) (insert r rs)"
proof -
  let ?b = "bucket nb (rkey s r)"
  have b: "?b < length t" using assms by (simp add: filed_def)
  have "mset (concat (t[?b := r # t ! ?b])) = mset (r # concat t)"
    unfolding concat_update [OF b] concat_split [OF b] by simp
  then have "distinct (concat (t[?b := r # t ! ?b]))" "set (concat (t[?b := r # t ! ?b])) = insert r rs"
    using assms by (metis distinct.simps(2) filed_def mset_eq_imp_distinct_iff,
        metis filed_def list.simps(15) mset_eq_setD)
  then show ?thesis using assms by (auto simp: filed_def nth_list_update)
qed

lemma rehash_chain_filed:
  assumes "filed s nb t rs" "pow2 nb" "set c \<inter> rs = {}" "distinct c"
  shows "filed s nb (rehash_chain s nb t c) (rs \<union> set c)"
  using assms
proof (induction c arbitrary: t rs)
  case (Cons r c)
  then have "filed s nb (t[bucket nb (rkey s r) := r # t ! bucket nb (rkey s r)]) (insert r rs)"
    by (intro filed_push) auto
  from Cons.IH [OF this] show ?case using Cons.prems by simp
qed simp

lemma rehash_all_filed:
  assumes "filed s nb t rs" "pow2 nb" "set (concat cs) \<inter> rs = {}" "distinct (concat cs)"
  shows "filed s nb (rehash_all s nb t cs) (rs \<union> set (concat cs))"
  using assms
proof (induction cs arbitrary: t rs)
  case (Cons c cs)
  then have "filed s nb (rehash_chain s nb t c) (rs \<union> set c)"
    by (intro rehash_chain_filed) auto
  from Cons.IH [OF this] show ?case using Cons.prems by (auto simp: Un_assoc)
qed simp

lemma toc_inv_filed:
  "toc_inv s \<longleftrightarrow> pow2 (length (tab s)) \<and> length (tab s) * 8 < off_max \<and> filed s (length (tab s)) (tab s) (dom (recs s))
     \<and> inj_on (rkey s) (dom (recs s)) \<and> nrec s = length (concat (tab s)) \<and> (\<forall>r\<in>dom (recs s). r < fresh s)"
  by (auto simp: toc_inv_def filed_def)

lemma rkey_cong: "recs s = recs t \<Longrightarrow> rkey s = rkey t"
  by (simp add: rkey_def fun_eq_iff)

lemma filed_cong: "recs s = recs t \<Longrightarrow> filed s = filed t"
  using rkey_cong [of s t] by (simp add: filed_def fun_eq_iff)

lemma toc_inv_cong:
  assumes "recs s = recs t" "tab s = tab t" "nrec s = nrec t" "fresh s = fresh t"
  shows "toc_inv s = toc_inv t"
  unfolding toc_inv_def using assms rkey_cong [OF assms(1)] by simp

lemma ls_toc_find_cong:
  assumes "recs s = recs t" "tab s = tab t"
  shows "ls_toc_find s = ls_toc_find t"
proof -
  have "chain_find s rs k = chain_find t rs k" for rs k
    by (induction rs) (simp_all add: rkey_cong [OF assms(1)])
  then show ?thesis using assms by (simp add: ls_toc_find_def fun_eq_iff)
qed

text \<open>The fields the table works on; all others keep their values.\<close>

definition toc_only :: "ls_store \<Rightarrow> ls_store \<Rightarrow> bool" where
  "toc_only s s' \<longleftrightarrow> s' = s\<lparr>fd := fd s', recs := recs s', fresh := fresh s', tab := tab s', nrec := nrec s'\<rparr>
     \<and> fbytes (fd s') = fbytes (fd s) \<and> flen (fd s') = flen (fd s) \<and> advances (fd s) (fd s')"

lemma toc_only_sel:
  assumes "toc_only s s'"
  shows "path s' = path s" "opts s' = opts s" "direct s' = direct s" "teardown s' = teardown s"
    "nretired s' = nretired s" "retcap s' = retcap s" "fl s' = fl s" "flcap s' = flcap s"
    "file_end s' = file_end s" "resident s' = resident s" "lru s' = lru s" "logged s' = logged s"
proof -
  have eq: "s' = s\<lparr>fd := fd s', recs := recs s', fresh := fresh s', tab := tab s', nrec := nrec s'\<rparr>"
    using assms by (simp add: toc_only_def)
  show "path s' = path s" "opts s' = opts s" "direct s' = direct s" "teardown s' = teardown s"
    "nretired s' = nretired s" "retcap s' = retcap s" "fl s' = fl s" "flcap s' = flcap s"
    "file_end s' = file_end s" "resident s' = resident s" "lru s' = lru s" "logged s' = logged s"
    by (subst eq, simp)+
qed

lemma toc_only_trans: "toc_only a b \<Longrightarrow> toc_only b c \<Longrightarrow> toc_only a c"
  unfolding toc_only_def using advances_trans
  by (cases a; cases b; cases c) (simp only: ls_store.simps ls_store.update_convs ls_store.iffs, blast)

lemma st_malloc_toc:
  assumes "st_malloc s = (ok, s')"
  shows "toc_only s s'" "recs s' = recs s" "tab s' = tab s" "nrec s' = nrec s" "fresh s' = fresh s"
    "oom (fd s) = [] \<Longrightarrow> ok" "toc_inv s' = toc_inv s" "ls_toc_find s' = ls_toc_find s"
proof -
  note p = st_malloc_props [OF assms]
  show sel: "recs s' = recs s" "tab s' = tab s" "nrec s' = nrec s" "fresh s' = fresh s"
    by (subst p(1), simp)+
  show "toc_only s s'" unfolding toc_only_def using p(2-4) sel by (subst p(1)) auto
  show "oom (fd s) = [] \<Longrightarrow> ok" by (rule p(5))
  show "toc_inv s' = toc_inv s" "ls_toc_find s' = ls_toc_find s"
    using sel by (intro toc_inv_cong ls_toc_find_cong; simp)+
qed

lemma toc_grow_spec:
  assumes "toc_grow s = (s', rc)" "toc_inv s"
  shows "toc_inv s'" "recs s' = recs s" "toc_only s s'" "ls_toc_find s' = ls_toc_find s"
    "oom (fd s) = [] \<Longrightarrow> length (tab s) * 16 < off_max \<Longrightarrow> rc = LS_OK"
    "rc = LS_OK \<Longrightarrow> length (tab s') = 2 * length (tab s)" "nrec s' = nrec s" "fresh s' = fresh s"
proof -
  obtain ok s1 where m: "st_malloc s = (ok, s1)" by fastforce
  note p = st_malloc_toc [OF m]
  let ?nb = "length (tab s) * 2"
  let ?t = "rehash_all s1 ?nb (replicate ?nb []) (tab s1)"
  have inv: "toc_inv s1" using p assms(2) by simp
  let ?ok = "ok \<and> ?nb * 8 < off_max"
  have g: "s' = (if ?ok then s1\<lparr>tab := ?t\<rparr> else s1)" "rc = (if ?ok then LS_OK else neg_errno ENOMEM)"
    using assms(1) m by (auto simp: toc_grow_def Let_def split: if_splits)
  then show sel: "recs s' = recs s" "nrec s' = nrec s" "fresh s' = fresh s" using p by auto
  obtain n where n: "n < 64" "length (tab s) = 2 ^ n" using inv p(3) by (auto simp: toc_inv_def pow2_def)
  moreover have "length (tab s) * 8 < off_max" using assms(2) by (simp add: toc_inv_def)
  ultimately have "(2 :: nat) ^ Suc n < 2 ^ 64" by (simp add: off_max_def)
  then have "Suc n < 64" using power_less_imp_less_exp by (metis one_less_numeral_iff semiring_norm(76))
  then have p2: "pow2 ?nb" using n(2) by (auto simp: pow2_def intro!: exI [of _ "Suc n"])
  have f: "filed s1 ?nb ?t (dom (recs s1))"
  proof -
    have "filed s1 ?nb (replicate ?nb []) {}"
      by (simp add: filed_def)
    moreover have "distinct (concat (tab s1))" "set (concat (tab s1)) = dom (recs s1)"
      using inv by (simp_all add: toc_inv_def)
    ultimately show ?thesis using rehash_all_filed [of s1 ?nb "replicate ?nb []" "{}" "tab s1"] p2 by simp
  qed
  then have len: "length ?t = ?nb" "distinct (concat ?t)" "set (concat ?t) = dom (recs s1)"
    by (auto simp: filed_def)
  have "length (concat ?t) = length (concat (tab s1))"
    using len inv by (metis distinct_card toc_inv_def)
  moreover have "filed (s1\<lparr>tab := ?t\<rparr>) ?nb ?t (dom (recs s1))" using f filed_cong [of "s1\<lparr>tab := ?t\<rparr>" s1] by simp
  moreover have "rkey (s1\<lparr>tab := ?t\<rparr>) = rkey s1" by (rule rkey_cong) simp
  ultimately have inv': "toc_inv (s1\<lparr>tab := ?t\<rparr>)" if "?nb * 8 < off_max"
    using inv p2 len(1) that unfolding toc_inv_filed by simp
  then show inv_s': "toc_inv s'" using g inv by auto
  show "ls_toc_find s' = ls_toc_find s"
    using toc_find_ext [OF inv_s' assms(2)] rkey_cong [OF sel(1)] sel(1) by auto
  show "toc_only s s'" using p(1) g unfolding toc_only_def by (cases s; cases s1) auto
  show "oom (fd s) = [] \<Longrightarrow> length (tab s) * 16 < off_max \<Longrightarrow> rc = LS_OK" using p(6) g by simp
  show "rc = LS_OK \<Longrightarrow> length (tab s') = 2 * length (tab s)" using g len by (auto split: if_splits)
qed

subsection \<open>Inserting\<close>

lemma toc_link_spec:
  assumes "toc_link s k = (s', ro)" "toc_inv s" "ls_toc_find s k = None"
  shows "ro = Some (fresh s)" "toc_inv s'" "recs s' = (recs s)(fresh s \<mapsto> rec_new k)"
    "ls_toc_find s' = (ls_toc_find s)(k \<mapsto> fresh s)" "fresh s' = fresh s + 1" "toc_only s s'"
    "nrec s' = nrec s + 1" "length (tab s') = length (tab s)"
proof -
  let ?r = "fresh s" and ?nb = "length (tab s)"
  have small: "?nb * 8 < off_max" using assms(2) by (simp add: toc_inv_def)
  have inv: "pow2 ?nb" "filed s ?nb (tab s) (dom (recs s))" "inj_on (rkey s) (dom (recs s))"
    "nrec s = length (concat (tab s))" "\<forall>r\<in>dom (recs s). r < fresh s"
    using assms(2) unfolding toc_inv_filed by auto
  have fr: "?r \<notin> dom (recs s)" using inv(5) by blast
  have s': "s' = s\<lparr>recs := (recs s)(?r \<mapsto> rec_new k), fresh := ?r + 1,
       tab := (tab s)[bucket ?nb k := ?r # tab s ! bucket ?nb k], nrec := nrec s + 1\<rparr>"
    and ro: "ro = Some ?r"
    using assms(1) by (auto simp: toc_link_def Let_def)
  show "ro = Some ?r" by (rule ro)
  show sel: "recs s' = (recs s)(?r \<mapsto> rec_new k)" "fresh s' = ?r + 1" "toc_only s s'"
    "nrec s' = nrec s + 1" "length (tab s') = ?nb"
    by (simp_all add: s' toc_only_def)
  have rk: "rkey s' ?r = k" "r \<noteq> ?r \<Longrightarrow> rkey s' r = rkey s r" for r
    by (simp_all add: rkey_def sel rec_new_def)
  have f: "filed s' ?nb (tab s) (dom (recs s))"
    using inv(2) fr rk(2) unfolding filed_def
    by (auto simp: in_set_conv_nth) (metis UN_I domD nth_mem option.distinct(1))+
  have "filed s' ?nb (tab s') (insert ?r (dom (recs s)))"
    using filed_push [OF f inv(1) fr] rk(1) by (simp add: s')
  moreover have "dom (recs s') = insert ?r (dom (recs s))" by (auto simp: sel)
  moreover have "inj_on (rkey s') (insert ?r (dom (recs s)))"
  proof -
    have "inj_on (rkey s') (dom (recs s))" using inv(3) fr rk(2) by (metis inj_on_cong)
    moreover have "k \<notin> rkey s' ` dom (recs s)"
      using assms(3) toc_find_None [OF assms(2)] rk(2) fr by (metis (no_types, lifting) imageE)
    ultimately show ?thesis using fr rk(1) by auto
  qed
  moreover have "nrec s' = length (concat (tab s'))"
  proof -
    have "bucket ?nb k < ?nb" using inv(1) by simp
    from concat_update [OF this] concat_split [OF this] show ?thesis
      using inv(4) by (simp add: s')
  qed
  moreover have "\<forall>r\<in>dom (recs s'). r < fresh s'" using inv(5) by (simp add: sel less_Suc_eq domIff)
  ultimately show inv': "toc_inv s'" unfolding toc_inv_filed using inv(1) small sel(5) by simp
  show "ls_toc_find s' = (ls_toc_find s)(k \<mapsto> ?r)"
  proof (rule ext)
    fix k'
    show "ls_toc_find s' k' = ((ls_toc_find s)(k \<mapsto> ?r)) k'"
    proof (cases "k' = k")
      case True
      then show ?thesis using toc_find_iff [OF inv', of k ?r] rk(1) sel(1) by auto
    next
      case False
      have "r \<in> dom (recs s') \<and> rkey s' r = k' \<longleftrightarrow> r \<in> dom (recs s) \<and> rkey s r = k'" for r
        using False rk fr sel(1) by (cases "r = ?r") auto
      then have "ls_toc_find s' k' = ls_toc_find s k'" by (rule toc_find_ext [OF inv' assms(2)])
      then show ?thesis using False by simp
    qed
  qed
qed

text \<open>What \<open>ls_toc_insert\<close> does on a key that is not there: a fresh empty record under it, or
  nothing visible at all.\<close>

definition toc_added :: "ls_store \<Rightarrow> string \<Rightarrow> ls_store \<Rightarrow> nat option \<Rightarrow> bool" where
  "toc_added s k s' ro \<longleftrightarrow> toc_inv s' \<and> toc_only s s' \<and>
     (case ro of
        None \<Rightarrow> recs s' = recs s \<and> ls_toc_find s' = ls_toc_find s
      | Some r \<Rightarrow> r \<notin> dom (recs s) \<and> recs s' = (recs s)(r \<mapsto> rec_new k)
          \<and> ls_toc_find s' = (ls_toc_find s)(k \<mapsto> r))"

lemma toc_alloc_rec_spec:
  assumes "toc_alloc_rec s k = (s', ro)" "toc_inv s" "ls_toc_find s k = None"
  shows "toc_added s k s' ro" "oom (fd s) = [] \<Longrightarrow> ro \<noteq> None" "length (tab s') = length (tab s)"
    "nrec s' = (if ro = None then nrec s else nrec s + 1)"
proof -
  obtain ok1 s1 ok2 s2 where m: "st_malloc s = (ok1, s1)" "st_malloc s1 = (ok2, s2)" by fastforce
  note p = st_malloc_toc [OF m(1)] and q = st_malloc_toc [OF m(2)]
  have t2: "toc_only s s2" "toc_inv s2" "ls_toc_find s2 = ls_toc_find s" "recs s2 = recs s"
    using p q assms(2) toc_only_trans by auto
  obtain s3 r3 where l: "toc_link s2 k = (s3, r3)" by fastforce
  note ls = toc_link_spec [OF l t2(2)]
  have fr: "fresh s2 \<notin> dom (recs s)" using toc_invD(6) [OF t2(2)] t2(4) by auto
  have res: "(s', ro) = (if \<not> ok1 then (s1, None) else if \<not> ok2 then (s2, None) else (s3, r3))"
    using assms(1) m l by (auto simp: toc_alloc_rec_def)
  have quiet: "oom (fd s) = [] \<Longrightarrow> ok1 \<and> ok2"
    using p(6) q(6) p(1) by (auto simp: toc_only_def advances_def)
  show "toc_added s k s' ro"
    using res p q t2 ls assms(2,3) fr toc_only_trans [OF t2(1)]
    by (auto simp: toc_added_def split: if_splits)
  show "oom (fd s) = [] \<Longrightarrow> ro \<noteq> None" using quiet res ls(1) t2(3) assms(3) by auto
  show "length (tab s') = length (tab s)" "nrec s' = (if ro = None then nrec s else nrec s + 1)"
    using res p q ls t2(3) assms(3) by (auto split: if_splits)
qed

lemma ls_toc_insert_spec:
  assumes "ls_toc_insert s k = (s', ro)" "toc_inv s" "ls_toc_find s k = None"
  shows "toc_added s k s' ro" "oom (fd s) = [] \<Longrightarrow> length (tab s) * 16 < off_max \<Longrightarrow> ro \<noteq> None"
proof -
  let ?nb = "length (tab s)"
  have "toc_added s k s' ro \<and> (oom (fd s) = [] \<longrightarrow> length (tab s) * 16 < off_max \<longrightarrow> ro \<noteq> None)"
  proof (cases "?nb - ?nb div 4 < nrec s + 1")
    case True
    obtain s1 rc where g: "toc_grow s = (s1, rc)" by fastforce
    note gs = toc_grow_spec [OF g assms(2)]
    show ?thesis
    proof (cases "rc = LS_OK")
      case ok: True
      then have a: "toc_alloc_rec s1 k = (s', ro)"
        using assms(1) True g by (simp add: ls_toc_insert_def Let_def)
      have "ls_toc_find s1 k = None" using gs(4) assms(3) by simp
      note as = toc_alloc_rec_spec [OF a gs(1) this]
      have "oom (fd s) = [] \<longrightarrow> oom (fd s1) = []" using gs(3) by (auto simp: toc_only_def advances_def)
      then show ?thesis
        using as gs toc_only_trans [OF gs(3)] by (auto simp: toc_added_def split: option.splits)
    next
      case False
      then have "s' = s1" "ro = None" using assms(1) True g by (auto simp: ls_toc_insert_def Let_def)
      then show ?thesis using gs False by (auto simp: toc_added_def)
    qed
  next
    case False
    then have "toc_alloc_rec s k = (s', ro)" using assms(1) by (simp add: ls_toc_insert_def Let_def)
    then show ?thesis using toc_alloc_rec_spec assms(2,3) by blast
  qed
  then show "toc_added s k s' ro" "oom (fd s) = [] \<Longrightarrow> length (tab s) * 16 < off_max \<Longrightarrow> ro \<noteq> None" by auto
qed

subsection \<open>Removing\<close>

lemma alloc_only_free_extents: "alloc_only s (ls_free_extents s es)"
proof -
  have reserve: "alloc_only s (fst (fl_reserve s n))" for s n
  proof (cases "st_malloc s")
    case (Pair ok s1)
    have "s1 = s\<lparr>fd := fd s1\<rparr>" by (rule st_malloc_props(1) [OF Pair])
    then show ?thesis using Pair by (auto simp: fl_reserve_def Let_def alloc_only_def)
  qed
  have trim: "alloc_only s (fl_trim s)" for s
    by (auto simp: fl_trim_def alloc_only_def ls_report_def Let_def split: prod.splits sum.splits)
  have set_fl: "alloc_only s (s\<lparr>fl := hs\<rparr>)" for s hs by (simp add: alloc_only_def)
  have ins: "alloc_only s (fst (fl_insert s off n))" for s off n
    using reserve [of s "length (fl s) + 1"] alloc_only_trans [OF set_fl trim]
      alloc_only_trans [OF _ alloc_only_trans [OF set_fl trim]]
    by (auto simp: fl_insert_def Let_def split: prod.splits)
  have "alloc_only s (fl_insert_all s es)" for s
    by (induction es arbitrary: s) (auto intro: alloc_only_trans ins)
  then show ?thesis by (simp add: ls_free_extents_def)
qed

lemma filed_remove:
  assumes "filed s nb t rs" "pow2 nb" "r \<in> rs"
  shows "filed s nb (t[bucket nb (rkey s r) := remove1 r (t ! bucket nb (rkey s r))]) (rs - {r})"
    "r \<in> set (t ! bucket nb (rkey s r))"
    "Suc (length (concat (t[bucket nb (rkey s r) := remove1 r (t ! bucket nb (rkey s r))]))) = length (concat t)"
proof -
  let ?b = "bucket nb (rkey s r)"
  let ?t = "t[?b := remove1 r (t ! ?b)]"
  have b: "?b < length t" using assms by (simp add: filed_def)
  obtain c where "c \<in> set t" "r \<in> set c" using assms by (auto simp: filed_def)
  then obtain i where "i < nb" "r \<in> set (t ! i)" using assms(1) by (metis filed_def in_set_conv_nth)
  then show r: "r \<in> set (t ! ?b)" using assms(1) by (auto simp: filed_def)
  have m: "mset (concat t) = add_mset r (mset (concat ?t))"
    unfolding concat_update [OF b] concat_split [OF b] using r by simp
  then show len: "Suc (length (concat ?t)) = length (concat t)" by (metis size_add_mset size_mset)
  have "mset (concat t) = mset (r # concat ?t)" using m by simp
  then have "distinct (r # concat ?t)" "set (r # concat ?t) = rs"
    using assms(1) by (metis filed_def mset_eq_imp_distinct_iff, metis filed_def mset_eq_setD)
  then have "distinct (concat ?t)" "set (concat ?t) = rs - {r}" by auto
  moreover have home: "\<forall>i<nb. \<forall>x\<in>set (t ! i). bucket nb (rkey s x) = i" and "length t = nb"
    using assms(1) by (simp_all add: filed_def)
  moreover have "\<forall>x\<in>set (?t ! i). bucket nb (rkey s x) = i" if "i < nb" for i
  proof -
    have "set (?t ! i) \<subseteq> set (t ! i)"
      using set_remove1_subset [of r "t ! ?b"] b by (metis nth_list_update_eq nth_list_update_neq order_refl)
    then show ?thesis using home that by blast
  qed
  ultimately show "filed s nb ?t (rs - {r})" unfolding filed_def length_list_update by blast
qed

lemma ls_toc_unlink_spec:
  assumes "toc_inv s" "r \<in> dom (recs s)" "ls_toc_unlink s r = s'"
  shows "toc_only s s'" "recs s' = recs s" "fresh s' = fresh s" "fd s' = fd s"
    "filed s (length (tab s)) (tab s') (dom (recs s) - {r})" "length (tab s') = length (tab s)"
    "nrec s' = length (concat (tab s'))"
proof -
  have inv: "pow2 (length (tab s))" "filed s (length (tab s)) (tab s) (dom (recs s))"
    "nrec s = length (concat (tab s))"
    using assms(1) unfolding toc_inv_filed by auto
  note f = filed_remove [OF inv(2,1) assms(2)]
  let ?b = "bucket (length (tab s)) (rkey s r)"
  have s': "s' = s\<lparr>tab := (tab s)[?b := remove1 r (tab s ! ?b)], nrec := nrec s - 1\<rparr>"
    using assms(3) f(2) by (simp add: ls_toc_unlink_def Let_def)
  show "toc_only s s'" "recs s' = recs s" "fresh s' = fresh s" "fd s' = fd s"
    "length (tab s') = length (tab s)"
    by (simp_all add: s' toc_only_def)
  show "filed s (length (tab s)) (tab s') (dom (recs s) - {r})" using f(1) by (simp add: s')
  show "nrec s' = length (concat (tab s'))" using inv(3) f(3) by (simp add: s')
qed

lemma ls_rec_free_sel:
  assumes "ls_rec_free s r = s'" "recs s r = Some x"
  shows "recs s' = (recs s)(r := None)" "tab s' = tab s" "nrec s' = nrec s" "fresh s' = fresh s"
    "lru s' = lru s" "opts s' = opts s" "direct s' = direct s" "path s' = path s" "teardown s' = teardown s"
    "nretired s' = nretired s" "retcap s' = retcap s"
    "resident s' = (if mem x \<noteq> None \<and> mem_cap x \<le> resident s then resident s - mem_cap x else resident s)"
proof -
  define s1 where "s1 = (if mem x \<noteq> None \<and> mem_cap x \<le> resident s
                    then s\<lparr>resident := resident s - mem_cap x\<rparr> else s)"
  define s2 where "s2 = ls_free_extents s1 (ext x)"
  note sel = alloc_only_sel [OF alloc_only_free_extents [of s1 "ext x"], folded s2_def]
  have s': "s' = s2\<lparr>recs := (recs s2)(r := None)\<rparr>"
    using assms by (simp add: ls_rec_free_def s1_def s2_def Let_def)
  show "recs s' = (recs s)(r := None)" "tab s' = tab s" "nrec s' = nrec s" "fresh s' = fresh s"
    "lru s' = lru s" "opts s' = opts s" "direct s' = direct s" "path s' = path s" "teardown s' = teardown s"
    "nretired s' = nretired s" "retcap s' = retcap s"
    "resident s' = (if mem x \<noteq> None \<and> mem_cap x \<le> resident s then resident s - mem_cap x else resident s)"
    by (simp_all add: s' sel s1_def)
qed

text \<open>Unlinking a record and then freeing it removes its key and nothing else. In between the
  caller may change what is not part of the table.\<close>

lemma toc_removed:
  assumes "toc_inv s" "recs s r = Some x" "ls_toc_unlink s r = s1"
    and "recs s2 = recs s1" "tab s2 = tab s1" "nrec s2 = nrec s1" "fresh s2 = fresh s1"
    and "ls_rec_free s2 r = s'"
  shows "toc_inv s'" "recs s' = (recs s)(r := None)" "ls_toc_find s' = (ls_toc_find s)(key x := None)"
proof -
  have r: "r \<in> dom (recs s)" "rkey s r = key x" using assms(2) by (auto simp: rkey_def)
  note u = ls_toc_unlink_spec [OF assms(1) r(1) assms(3)]
  have "recs s2 r = Some x" using u(2) assms(2,4) by simp
  note f = ls_rec_free_sel [OF assms(8) this]
  show rs: "recs s' = (recs s)(r := None)" using f(1) u(2) assms(4) by simp
  have rk: "r' \<noteq> r \<Longrightarrow> rkey s' r' = rkey s r'" for r' by (simp add: rkey_def rs)
  have tb: "tab s' = tab s1" using f(2) assms(5) by simp
  have "filed s' (length (tab s')) (tab s') (dom (recs s'))"
  proof -
    have "set (tab s' ! b) \<subseteq> dom (recs s) - {r}" if "b < length (tab s')" for b
      using u(5) that unfolding tb filed_def by (metis UN_upper nth_mem set_concat)
    then show ?thesis
      using u(5,6) rk unfolding filed_def rs tb by (auto simp: subset_iff)
  qed
  moreover have "inj_on (rkey s') (dom (recs s'))"
  proof -
    have "inj_on (rkey s) (dom (recs s) - {r})"
      using toc_invD(2) [OF assms(1)] by (rule inj_on_subset) auto
    then show ?thesis using rk by (simp add: rs inj_on_def)
  qed
  ultimately show inv': "toc_inv s'"
    using assms(1) f(3,4) u(3,6,7) assms(6,7) unfolding toc_inv_filed tb by (auto simp: rs)
  show "ls_toc_find s' = (ls_toc_find s)(key x := None)"
  proof (rule ext)
    fix k
    show "ls_toc_find s' k = ((ls_toc_find s)(key x := None)) k"
    proof (cases "k = key x")
      case True
      have "rkey s' r' \<noteq> k" if "r' \<in> dom (recs s')" for r'
        using that True rk r inj_onD [OF toc_invD(2) [OF assms(1)], of r' r] by (auto simp: rs split: if_splits)
      then show ?thesis using True toc_find_None [OF inv'] by simp
    next
      case False
      have "r' \<in> dom (recs s') \<and> rkey s' r' = k \<longleftrightarrow> r' \<in> dom (recs s) \<and> rkey s r' = k" for r'
        using False rk r rs by (cases "r' = r") auto
      then have "ls_toc_find s' k = ls_toc_find s k" by (rule toc_find_ext [OF inv' assms(1)])
      then show ?thesis using False by simp
    qed
  qed
qed

subsection \<open>The table as a dictionary\<close>

text \<open>What the data path relies on. \<open>add\<close> is called on absent keys only, and may fail for lack of
  memory; \<open>del\<close> gets the value found under the key.\<close>

locale dict =
  fixes inv :: "'s \<Rightarrow> bool"
    and find :: "'s \<Rightarrow> string \<Rightarrow> 'v option"
    and add :: "'s \<Rightarrow> string \<Rightarrow> 's \<times> 'v option"
    and del :: "'s \<Rightarrow> 'v \<Rightarrow> 's"
  assumes add_ok: "inv s \<Longrightarrow> find s k = None \<Longrightarrow> add s k = (s', Some v) \<Longrightarrow>
      inv s' \<and> find s' = (find s)(k \<mapsto> v) \<and> v \<notin> ran (find s)"
    and add_fail: "inv s \<Longrightarrow> find s k = None \<Longrightarrow> add s k = (s', None) \<Longrightarrow> inv s' \<and> find s' = find s"
    and del_ok: "inv s \<Longrightarrow> find s k = Some v \<Longrightarrow> inv (del s v) \<and> find (del s v) = (find s)(k := None)"

text \<open>Histories of calls: a first write adds the key it does not find, an erase removes the one it
  finds. The second component is what the table should then contain.\<close>

inductive dict_run :: "('s \<Rightarrow> string \<Rightarrow> 'v option) \<Rightarrow> ('s \<Rightarrow> string \<Rightarrow> 's \<times> 'v option) \<Rightarrow>
    ('s \<Rightarrow> 'v \<Rightarrow> 's) \<Rightarrow> 's \<Rightarrow> 's \<Rightarrow> (string \<rightharpoonup> 'v) \<Rightarrow> bool"
  for find add del s0 where
  dict_start: "dict_run find add del s0 s0 (find s0)"
| dict_add: "dict_run find add del s0 s m \<Longrightarrow> find s k = None \<Longrightarrow> add s k = (s', Some v) \<Longrightarrow>
    dict_run find add del s0 s' (m(k \<mapsto> v))"
| dict_add_fail: "dict_run find add del s0 s m \<Longrightarrow> find s k = None \<Longrightarrow> add s k = (s', None) \<Longrightarrow>
    dict_run find add del s0 s' m"
| dict_del: "dict_run find add del s0 s m \<Longrightarrow> find s k = Some v \<Longrightarrow>
    dict_run find add del s0 (del s v) (m(k := None))"

context dict
begin

lemma run_refines:
  assumes "inv s0" "dict_run find add del s0 s m"
  shows "inv s \<and> find s = m"
  using assms(2)
proof (induction rule: dict_run.induct)
  case dict_start
  then show ?case using assms(1) by simp
next
  case (dict_add s m k s' v)
  then show ?case using add_ok by blast
next
  case (dict_add_fail s m k s')
  then show ?case using add_fail by blast
next
  case (dict_del s m k v)
  then show ?case using del_ok by blast
qed

lemma values_distinct:
  assumes "inv s0" "inj_on (find s0) (dom (find s0))" "dict_run find add del s0 s m"
  shows "inj_on m (dom m)"
  using assms(3)
proof (induction rule: dict_run.induct)
  case dict_start
  then show ?case using assms(2) by simp
next
  case (dict_add s m k s' v)
  have "find s = m" "inv s" using run_refines [OF assms(1) dict_add.hyps(1)] by auto
  then have "v \<notin> ran m" using add_ok dict_add.hyps by blast
  then show ?case using dict_add.IH by (auto simp: inj_on_def ran_def domI)
next
  case (dict_del s m k v)
  then show ?case by (auto simp: inj_on_def domI)
qed

end

definition toc_del :: "ls_store \<Rightarrow> nat \<Rightarrow> ls_store" where
  "toc_del s r = ls_rec_free (ls_toc_unlink s r) r"

interpretation toc: dict toc_inv ls_toc_find ls_toc_insert toc_del
proof
  fix s k s' v
  assume inv: "toc_inv s"
  {
    assume n: "ls_toc_find s k = None" and a: "ls_toc_insert s k = (s', Some v)"
    have added: "toc_added s k s' (Some v)" by (rule ls_toc_insert_spec(1) [OF a inv n])
    then have "v \<notin> ran (ls_toc_find s)"
      using toc_find_iff [OF inv] by (auto simp: toc_added_def ran_def)
    then show "toc_inv s' \<and> ls_toc_find s' = (ls_toc_find s)(k \<mapsto> v) \<and> v \<notin> ran (ls_toc_find s)"
      using added by (simp add: toc_added_def)
  }
  {
    assume n: "ls_toc_find s k = None" and a: "ls_toc_insert s k = (s', None)"
    show "toc_inv s' \<and> ls_toc_find s' = ls_toc_find s"
      using ls_toc_insert_spec(1) [OF a inv n] by (simp add: toc_added_def)
  }
  assume f: "ls_toc_find s k = Some v"
  then obtain x where x: "recs s v = Some x" "key x = k"
    using toc_find_iff [OF inv] by (auto simp: rkey_def split: option.splits)
  show "toc_inv (toc_del s v) \<and> ls_toc_find (toc_del s v) = (ls_toc_find s)(k := None)"
    using toc_removed [OF inv x(1) refl refl refl refl refl refl] x(2) by (simp add: toc_del_def)
qed

subsection \<open>Properties\<close>

text \<open>C11. The hash table is a finite map. Start from any table that satisfies the invariant and run
  any history of insertions of absent keys (each may fail for lack of memory, and the table
  may double on the way) and of removals: what \<open>ls_toc_find\<close> answers is the mathematical map
  those calls describe, no record is found under two keys, and \<open>nrec\<close> counts the keys.\<close>

theorem toc_refines_map:
  assumes "toc_inv s0" "dict_run ls_toc_find ls_toc_insert toc_del s0 s m"
  shows "ls_toc_find s = m \<and> inj_on m (dom m) \<and> nrec s = card (dom m)"
proof -
  have inv: "toc_inv s" "ls_toc_find s = m" using toc.run_refines [OF assms] by auto
  have inj: "inj_on (ls_toc_find s) (dom (ls_toc_find s))" if "toc_inv s" for s
  proof (rule inj_onI)
    fix k k' assume "k \<in> dom (ls_toc_find s)" "ls_toc_find s k = ls_toc_find s k'"
    then obtain r where "ls_toc_find s k = Some r" "ls_toc_find s k' = Some r" by (metis domD)
    then show "k = k'" using toc_find_iff [OF that] by simp
  qed
  have "dom (ls_toc_find s) = rkey s ` dom (recs s)"
    using toc_find_iff [OF inv(1)] by (auto simp: dom_def image_iff)
  then have "card (dom m) = card (dom (recs s))"
    using card_image [OF toc_invD(2) [OF inv(1)]] inv(2) by simp
  also have "\<dots> = nrec s" using inv(1) by (metis distinct_card toc_inv_def)
  finally show ?thesis using inv toc.values_distinct [OF assms(1) inj assms(2)] assms(1) by simp
qed

lemma bucket_64 [simp]: "bucket 64 k = unat (hash_of k) mod 64"
  using bucket_mod [of 6 k] by simp

lemma store_init_toc: "toc_inv (store_init w p o' d)"
proof -
  have "pow2 64" unfolding pow2_def by (rule exI [of _ 6]) simp
  moreover have "(512 :: nat) < off_max" by (simp add: off_max_def)
  ultimately show ?thesis by (simp add: toc_inv_def store_init_def)
qed

text \<open>Two keys added to an empty table, then the first removed.\<close>

theorem toc_refines_map_witness:
  "\<exists>s v. ls_toc_find s = (Map.empty(''b'' \<mapsto> v)) \<and> nrec s = 1"
proof -
  let ?s0 = "store_init (os_empty []) ''p'' opts_default False"
  have e: "ls_toc_find ?s0 = Map.empty"
    using toc_find_iff [OF store_init_toc] by (auto simp: fun_eq_iff store_init_def intro: option.exhaust)
  have start: "dict_run ls_toc_find ls_toc_insert toc_del ?s0 ?s0 Map.empty"
    using dict_start [of ls_toc_find ls_toc_insert toc_del ?s0] e by simp
  obtain s1 v1 where i1: "ls_toc_insert ?s0 ''a'' = (s1, Some v1)"
    by (simp add: ls_toc_insert_def toc_alloc_rec_def toc_link_def st_malloc_def os_malloc_def store_init_def Let_def)
  have r1: "dict_run ls_toc_find ls_toc_insert toc_del ?s0 s1 (Map.empty(''a'' \<mapsto> v1))"
    using dict_add [OF start _ i1] e by simp
  have f1: "ls_toc_find s1 = Map.empty(''a'' \<mapsto> v1)" "toc_inv s1"
    using toc.run_refines [OF store_init_toc r1] by auto
  have "length (tab s1) = 64 \<and> oom (fd s1) = []"
    using i1 by (auto simp: ls_toc_insert_def toc_alloc_rec_def toc_link_def st_malloc_def os_malloc_def store_init_def Let_def)
  moreover obtain s2 ro where i2: "ls_toc_insert s1 ''b'' = (s2, ro)" by fastforce
  moreover have "(64 :: nat) * 16 < off_max" by (simp add: off_max_def)
  ultimately obtain v2 where v2: "ro = Some v2"
    using ls_toc_insert_spec(2) [OF i2 f1(2)] f1(1) by auto
  have r2: "dict_run ls_toc_find ls_toc_insert toc_del ?s0 s2 (Map.empty(''a'' \<mapsto> v1, ''b'' \<mapsto> v2))"
    using dict_add [OF r1 _ i2 [unfolded v2]] f1 by simp
  have "ls_toc_find s2 ''a'' = Some v1" using toc.run_refines [OF store_init_toc r2] by simp
  from dict_del [OF r2 this] have r3: "dict_run ls_toc_find ls_toc_insert toc_del ?s0 (toc_del s2 v1)
      ((Map.empty(''a'' \<mapsto> v1, ''b'' \<mapsto> v2))(''a'' := None))" .
  moreover have "(Map.empty(''a'' \<mapsto> v1, ''b'' \<mapsto> v2))(''a'' := None) = Map.empty(''b'' \<mapsto> v2)" by auto
  ultimately have "dict_run ls_toc_find ls_toc_insert toc_del ?s0 (toc_del s2 v1) (Map.empty(''b'' \<mapsto> v2))" by simp
  from toc_refines_map [OF store_init_toc this] show ?thesis by auto
qed

end
