(* ===== verification/Lru.thy ===== *)
theory Lru
  imports Toc
begin

text \<open>
  The recency list of the memory tier (\<open>ls_lru_drop\<close>, \<open>ls_lru_touch\<close> and the victim search of
  \<open>ls_evict_to\<close> in \<open>src/store.c\<close>): a doubly linked list threaded through the records, most
  recently used first. The lemmas show that the pointer updates maintain a list, so that the
  victim is the least recently used record that may be evicted.
\<close>

subsection \<open>Definitions\<close>

definition lru_drop :: "lru_links \<Rightarrow> nat \<Rightarrow> lru_links" where
  "lru_drop l r =
     (let l1 = (case lru_prev l r of
                  Some p \<Rightarrow> l\<lparr>lru_next := (lru_next l)(p := lru_next l r)\<rparr>
                | None \<Rightarrow> if lru_head l = Some r then l\<lparr>lru_head := lru_next l r\<rparr> else l);
          l2 = (case lru_next l1 r of
                  Some q \<Rightarrow> l1\<lparr>lru_prev := (lru_prev l1)(q := lru_prev l1 r)\<rparr>
                | None \<Rightarrow> if lru_tail l1 = Some r then l1\<lparr>lru_tail := lru_prev l1 r\<rparr> else l1)
      in l2\<lparr>lru_prev := (lru_prev l2)(r := None), lru_next := (lru_next l2)(r := None)\<rparr>)"

definition lru_touch :: "lru_links \<Rightarrow> nat \<Rightarrow> lru_links" where
  "lru_touch l r =
     (if lru_head l = Some r then l
      else let l1 = lru_drop l r;
               l2 = l1\<lparr>lru_next := (lru_next l1)(r := lru_head l1)\<rparr>;
               l3 = (case lru_head l2 of
                       Some h \<Rightarrow> l2\<lparr>lru_prev := (lru_prev l2)(h := Some r)\<rparr> | None \<Rightarrow> l2);
               l4 = l3\<lparr>lru_head := Some r\<rparr>
           in if lru_tail l4 = None then l4\<lparr>lru_tail := Some r\<rparr> else l4)"

definition ls_lru_drop :: "ls_store \<Rightarrow> nat \<Rightarrow> ls_store" where
  "ls_lru_drop s r = s\<lparr>lru := lru_drop (lru s) r\<rparr>"

definition ls_lru_touch :: "ls_store \<Rightarrow> nat \<Rightarrow> ls_store" where
  "ls_lru_touch s r = s\<lparr>lru := lru_touch (lru s) r\<rparr>"

text \<open>The walk from the tail towards the head past the records that must stay. The outer \<open>None\<close>
  would be a walk that does not end.\<close>

partial_function (option) lru_walk :: "(nat \<Rightarrow> nat option) \<Rightarrow> (nat \<Rightarrow> bool) \<Rightarrow> nat option \<Rightarrow> nat option option" where
  "lru_walk prv skip v =
     (case v of None \<Rightarrow> Some None
      | Some r \<Rightarrow> if skip r then lru_walk prv skip (prv r) else Some (Some r))"

definition lru_victim :: "lru_links \<Rightarrow> (nat \<Rightarrow> bool) \<Rightarrow> nat option option" where
  "lru_victim l skip = lru_walk (lru_prev l) skip (lru_tail l)"

lemmas [code] = lru_walk.simps

subsection \<open>Lists behind the pointers\<close>

definition hd_opt :: "'a list \<Rightarrow> 'a option" where
  "hd_opt xs = (case xs of [] \<Rightarrow> None | x # _ \<Rightarrow> Some x)"

fun succ_in :: "'a list \<Rightarrow> 'a \<Rightarrow> 'a option" where
  "succ_in [] r = None"
| "succ_in (x # xs) r = (if r = x then hd_opt xs else succ_in xs r)"

definition lru_list :: "lru_links \<Rightarrow> nat list \<Rightarrow> bool" where
  "lru_list l xs \<longleftrightarrow> distinct xs \<and> lru_head l = hd_opt xs \<and> lru_tail l = hd_opt (rev xs)
     \<and> lru_next l = succ_in xs \<and> lru_prev l = succ_in (rev xs)"

lemma hd_opt_simps [simp]: "hd_opt [] = None" "hd_opt (x # xs) = Some x"
  "hd_opt (xs @ ys) = (if xs = [] then hd_opt ys else hd_opt xs)"
  by (auto simp: hd_opt_def split: list.splits)

lemma hd_opt_None_iff [simp]: "hd_opt xs = None \<longleftrightarrow> xs = []" "None = hd_opt xs \<longleftrightarrow> xs = []"
  by (cases xs; simp)+

lemma hd_opt_Some: "hd_opt xs = Some x \<Longrightarrow> x \<in> set xs"
  by (cases xs) auto

lemma succ_in_notin [simp]: "r \<notin> set xs \<Longrightarrow> succ_in xs r = None"
  by (induction xs) auto

lemma succ_in_append:
  "distinct (xs @ ys) \<Longrightarrow> succ_in (xs @ ys) r =
     (if r \<in> set xs then (case succ_in xs r of None \<Rightarrow> hd_opt ys | Some z \<Rightarrow> Some z) else succ_in ys r)"
  by (induction xs) (auto split: option.splits)

text \<open>Taking one element out of a list changes the successor of its left neighbour only.\<close>

lemma succ_in_remove:
  assumes "distinct (xs @ r # ys)"
  shows "succ_in (xs @ ys) = (case hd_opt (rev xs) of
           None \<Rightarrow> (succ_in (xs @ r # ys))(r := None)
         | Some p \<Rightarrow> (succ_in (xs @ r # ys))(p := hd_opt ys, r := None))"
proof (cases xs rule: rev_cases)
  case Nil
  then show ?thesis using assms by (auto simp: fun_eq_iff)
next
  case (snoc us p)
  have d: "distinct (us @ p # r # ys)" "distinct (us @ p # ys)" using assms snoc by auto
  show ?thesis
  proof (rule ext)
    fix z
    show "succ_in (xs @ ys) z = (case hd_opt (rev xs) of
           None \<Rightarrow> (succ_in (xs @ r # ys))(r := None)
         | Some p \<Rightarrow> (succ_in (xs @ r # ys))(p := hd_opt ys, r := None)) z"
      using d snoc succ_in_append [OF d(1), of z] succ_in_append [OF d(2), of z] by (auto split: option.splits)
  qed
qed

lemma succ_in_at:
  assumes "distinct (xs @ r # ys)"
  shows "succ_in (xs @ r # ys) r = hd_opt ys" "succ_in (rev (xs @ r # ys)) r = hd_opt (rev xs)"
proof -
  show "succ_in (xs @ r # ys) r = hd_opt ys" using assms by (simp add: succ_in_append)
  have "distinct (rev ys @ r # rev xs)" using assms by auto
  then show "succ_in (rev (xs @ r # ys)) r = hd_opt (rev xs)" by (simp add: succ_in_append)
qed

subsection \<open>The pointer operations on lists\<close>

lemma lru_drop_in:
  assumes "lru_list l (xs @ r # ys)"
  shows "lru_list (lru_drop l r) (xs @ ys)"
proof -
  let ?zs = "xs @ r # ys"
  have d: "distinct ?zs" "distinct (rev ys @ r # rev xs)" using assms by (auto simp: lru_list_def)
  have l: "lru_head l = hd_opt ?zs" "lru_tail l = hd_opt (rev ?zs)"
    "lru_next l = succ_in ?zs" "lru_prev l = succ_in (rev ?zs)"
    using assms by (simp_all add: lru_list_def)
  have at: "lru_next l r = hd_opt ys" "lru_prev l r = hd_opt (rev xs)"
    using succ_in_at [OF d(1)] l by simp_all
  have nx: "succ_in (xs @ ys) = (case hd_opt (rev xs) of
           None \<Rightarrow> (lru_next l)(r := None) | Some p \<Rightarrow> (lru_next l)(p := hd_opt ys, r := None))"
    unfolding l(3) by (rule succ_in_remove [OF d(1)])
  have rv: "rev ?zs = rev ys @ r # rev xs" by simp
  have pv: "succ_in (rev (xs @ ys)) = (case hd_opt ys of
           None \<Rightarrow> (lru_prev l)(r := None) | Some q \<Rightarrow> (lru_prev l)(q := hd_opt (rev xs), r := None))"
    unfolding l(4) rv using succ_in_remove [OF d(2)] by simp
  have neq: "hd_opt (rev xs) \<noteq> Some r" "hd_opt ys \<noteq> Some r"
    using d(1) hd_opt_Some [of "rev xs" r] hd_opt_Some [of ys r] by auto
  have hd: "xs = [] \<or> hd_opt xs \<noteq> Some r" "ys = [] \<or> hd_opt (rev ys) \<noteq> Some r"
    using d(1) hd_opt_Some [of xs r] hd_opt_Some [of "rev ys" r] by auto
  show ?thesis
    unfolding lru_list_def nx pv
    using d(1) at l(1,2) neq hd
    by (cases "hd_opt (rev xs)"; cases "hd_opt ys") (auto simp: lru_drop_def Let_def)
qed

lemma lru_drop_out:
  assumes "lru_list l xs" "r \<notin> set xs"
  shows "lru_drop l r = l"
proof -
  have "lru_next l r = None" "lru_prev l r = None" "lru_head l \<noteq> Some r" "lru_tail l \<noteq> Some r"
    using assms hd_opt_Some [of xs r] hd_opt_Some [of "rev xs" r] by (auto simp: lru_list_def)
  then show ?thesis by (simp add: lru_drop_def fun_upd_idem)
qed

lemma lru_drop_list:
  assumes "lru_list l xs"
  shows "lru_list (lru_drop l r) (remove1 r xs)"
proof (cases "r \<in> set xs")
  case True
  then obtain us vs where xs: "xs = us @ r # vs" by (meson split_list)
  then have "remove1 r xs = us @ vs" using assms by (auto simp: lru_list_def remove1_append)
  then show ?thesis using lru_drop_in assms xs by simp
next
  case False
  then show ?thesis using lru_drop_out [OF assms False] assms by (simp add: remove1_idem)
qed

lemma lru_push:
  assumes "lru_list l xs" "r \<notin> set xs"
  shows "lru_list (let l2 = l\<lparr>lru_next := (lru_next l)(r := lru_head l)\<rparr>;
               l3 = (case lru_head l2 of
                       Some h \<Rightarrow> l2\<lparr>lru_prev := (lru_prev l2)(h := Some r)\<rparr> | None \<Rightarrow> l2);
               l4 = l3\<lparr>lru_head := Some r\<rparr>
           in if lru_tail l4 = None then l4\<lparr>lru_tail := Some r\<rparr> else l4) (r # xs)"
proof (cases xs)
  case Nil
  then show ?thesis using assms by (auto simp: lru_list_def Let_def fun_eq_iff)
next
  case (Cons h ys)
  have "distinct (rev ys @ [h])" "distinct (rev (h # ys) @ [r])" using assms Cons by (auto simp: lru_list_def)
  then have "succ_in (rev (r # xs)) = (succ_in (rev xs))(h := Some r)"
    using Cons succ_in_append [of "rev ys @ [h]" "[r]"] succ_in_append [of "rev ys" "[h]"]
    by (auto simp: fun_eq_iff succ_in_append split: option.splits)
  moreover have "succ_in (r # xs) = (succ_in xs)(r := Some h)" using Cons by (auto simp: fun_eq_iff)
  ultimately show ?thesis using assms Cons by (auto simp: lru_list_def Let_def)
qed

lemma lru_touch_list:
  assumes "lru_list l xs"
  shows "lru_list (lru_touch l r) (r # remove1 r xs)"
proof (cases "lru_head l = Some r")
  case True
  then obtain ys where "xs = r # ys" using assms by (cases xs) (auto simp: lru_list_def)
  then show ?thesis using True assms by (simp add: lru_touch_def)
next
  case False
  have "lru_list (lru_drop l r) (remove1 r xs)" by (rule lru_drop_list [OF assms])
  moreover have "r \<notin> set (remove1 r xs)" using assms by (simp add: lru_list_def)
  ultimately show ?thesis using lru_push [of "lru_drop l r" "remove1 r xs" r] False
    by (simp add: lru_touch_def Let_def)
qed

lemma lru_walk_rev:
  "distinct xs \<Longrightarrow> prv = succ_in xs \<Longrightarrow> xs = us @ vs \<Longrightarrow>
     lru_walk prv skip (hd_opt vs) = Some (find (\<lambda>r. \<not> skip r) vs)"
proof (induction vs arbitrary: us)
  case Nil
  then show ?case by (subst lru_walk.simps) simp
next
  case (Cons v vs)
  have "prv v = hd_opt vs" using Cons.prems by (simp add: succ_in_append)
  then show ?case using Cons.IH [of "us @ [v]"] Cons.prems by (subst lru_walk.simps) simp
qed

lemma lru_victim_list:
  assumes "lru_list l xs"
  shows "lru_victim l skip = Some (find (\<lambda>r. \<not> skip r) (rev xs))"
  using assms lru_walk_rev [of "rev xs" "lru_prev l" "[]" "rev xs" skip]
  by (simp add: lru_victim_def lru_list_def)

subsection \<open>Recency as an interface\<close>

locale recency =
  fixes rep :: "'s \<Rightarrow> nat list \<Rightarrow> bool"
    and touch :: "'s \<Rightarrow> nat \<Rightarrow> 's"
    and drop_one :: "'s \<Rightarrow> nat \<Rightarrow> 's"
    and victim :: "'s \<Rightarrow> (nat \<Rightarrow> bool) \<Rightarrow> nat option option"
  assumes rep_touch: "rep s xs \<Longrightarrow> rep (touch s r) (r # remove1 r xs)"
    and rep_drop: "rep s xs \<Longrightarrow> rep (drop_one s r) (remove1 r xs)"
    and rep_victim: "rep s xs \<Longrightarrow> victim s skip = Some (find (\<lambda>r. \<not> skip r) (rev xs))"

lemma remdups_snoc: "remdups (xs @ [r]) = remove1 r (remdups xs) @ [r]"
proof (induction xs)
  case (Cons x xs)
  then show ?case by (cases "x = r") (auto simp: remove1_idem)
qed simp

text \<open>The head of \<open>remdups rs\<close> is the element whose last occurrence comes first.\<close>

lemma hd_remdups_split:
  "rs \<noteq> [] \<Longrightarrow> \<exists>us vs. rs = us @ hd (remdups rs) # vs \<and> hd (remdups rs) \<notin> set vs
     \<and> set us \<subseteq> insert (hd (remdups rs)) (set vs)"
proof (induction rs)
  case (Cons x rs)
  show ?case
  proof (cases "x \<in> set rs")
    case True
    then have "rs \<noteq> []" by auto
    from Cons.IH [OF this] obtain us vs where "rs = us @ hd (remdups rs) # vs"
      "hd (remdups rs) \<notin> set vs" "set us \<subseteq> insert (hd (remdups rs)) (set vs)" by blast
    moreover from this True have "x \<in> insert (hd (remdups rs)) (set vs)"
      by (metis Un_iff insert_iff list.set(2) set_append subsetD)
    moreover have "remdups (x # rs) = remdups rs" using True by simp
    ultimately show ?thesis by (intro exI [of _ "x # us"] exI [of _ vs]) simp
  next
    case False
    then show ?thesis by (intro exI [of _ "[]"] exI [of _ rs]) simp
  qed
qed simp

context recency
begin

lemma touched_order:
  "rep s [] \<Longrightarrow> rep (foldl touch s rs) (rev (remdups rs))"
proof (induction rs rule: rev_induct)
  case (snoc r rs)
  then have "rep (touch (foldl touch s rs) r) (r # remove1 r (rev (remdups rs)))" using rep_touch by blast
  moreover have "r # remove1 r (rev (remdups rs)) = rev (remdups (rs @ [r]))"
    by (simp add: remdups_snoc distinct_remove1_removeAll removeAll_filter_not_eq rev_filter)
  ultimately show ?case by simp
qed simp

lemma victim_least_recent:
  assumes "rep s []" "rs \<noteq> []"
  shows "\<exists>v us vs. victim (foldl touch s rs) (\<lambda>_. False) = Some (Some v)
     \<and> rs = us @ v # vs \<and> v \<notin> set vs \<and> set us \<subseteq> insert v (set vs)"
proof -
  have "victim (foldl touch s rs) (\<lambda>_. False) = Some (find (\<lambda>_. True) (remdups rs))"
    using rep_victim [OF touched_order [OF assms(1)], of rs "\<lambda>_. False"] by simp
  also have "find (\<lambda>_. True) (remdups rs) = Some (hd (remdups rs))"
    using assms(2) by (cases "remdups rs") auto
  finally show ?thesis using hd_remdups_split [OF assms(2)] by blast
qed

lemma victim_allowed:
  assumes "rep s xs"
  shows "victim s skip = Some None \<Longrightarrow> r \<in> set xs \<Longrightarrow> skip r"
    and "victim s skip = Some (Some v) \<Longrightarrow> v \<in> set xs \<and> \<not> skip v"
    and "\<exists>vo. victim s skip = Some vo"
  using rep_victim [OF assms, of skip] 
  by (auto simp: find_None_iff find_Some_iff) (metis length_rev nth_mem set_rev)

end

interpretation lru: recency lru_list lru_touch lru_drop lru_victim
  by unfold_locales (auto intro: lru_touch_list lru_drop_list lru_victim_list)

abbreviation lru_empty :: lru_links where
  "lru_empty \<equiv> \<lparr>lru_head = None, lru_tail = None, lru_prev = (\<lambda>_. None), lru_next = (\<lambda>_. None)\<rparr>"

lemma lru_empty_list [simp]: "lru_list lru_empty []"
  by (simp add: lru_list_def fun_eq_iff)

text \<open>The walk from the tail finds the least recently touched record. After any non-empty sequence of
  touches on an empty list, the walk from the tail ends, and the victim it picks was last
  touched before every other record in the sequence.\<close>

theorem victim_is_least_recent:
  assumes "rs \<noteq> []"
  shows "\<exists>v us vs. lru_victim (foldl lru_touch lru_empty rs) (\<lambda>_. False) = Some (Some v)
     \<and> rs = us @ v # vs \<and> v \<notin> set vs \<and> set us \<subseteq> insert v (set vs)"
  by (rule lru.victim_least_recent [OF lru_empty_list assms])

theorem victim_is_least_recent_witness:
  "lru_victim (foldl lru_touch lru_empty [1, 2, 1, 3]) (\<lambda>_. False) = Some (Some 2)"
proof -
  obtain v us vs where v: "lru_victim (foldl lru_touch lru_empty [1, 2, 1, 3]) (\<lambda>_. False) = Some (Some v)"
    "[1, 2, 1, 3] = us @ v # vs" "v \<notin> set vs" "set us \<subseteq> insert v (set vs)"
    using victim_is_least_recent [of "[1, 2, 1, 3]"] by blast
  then have "v = 2" by (auto simp: Cons_eq_append_conv)
  then show ?thesis using v(1) by simp
qed

end
