(* ===== verification/Scatter.thy ===== *)
theory Scatter
  imports Lru
begin

text \<open>
  Moving bytes between a caller's buffer and a record (\<open>ls_place_of\<close> and \<open>ls_scatter\<close> of
  \<open>src/store.c\<close>). The snapshot of a record's place is taken under the lock and used after it is
  released. A transfer through a snapshot whose buffer is gone, or past the buffer's end, has
  no defined result: \<open>None\<close>. The lemmas read a list of extents as the list \<open>locs\<close> of the file
  positions of the record's bytes.
\<close>

subsection \<open>Definitions\<close>

definition ls_place_of :: "nat \<Rightarrow> ls_rec \<Rightarrow> ls_place" where
  "ls_place_of r x = \<lparr>pmem = map_option (\<lambda>b. (r, baddr b)) (mem x), pext = ext x\<rparr>"

text \<open>The loop over the extents: \<open>base\<close> is the logical offset of the current extent, \<open>dn\<close> the number
  of bytes already moved. The result's last component is the final \<open>done\<close>, or what was read.\<close>

fun scatter_write :: "os \<Rightarrow> bool \<Rightarrow> ls_extent list \<Rightarrow> nat \<Rightarrow> nat \<Rightarrow> nat \<Rightarrow> byte list \<Rightarrow> nat \<Rightarrow> os \<times> int \<times> nat" where
  "scatter_write w d [] base off n buf dn = (w, LS_OK, dn)"
| "scatter_write w d (e # es) base off n buf dn =
     (if n \<le> dn then (w, LS_OK, dn)
      else let ehi = add64 base (elen e); pos = add64 off dn in
        if ehi \<le> pos then scatter_write w d es ehi off n buf dn
        else let within = sub64 pos base;
                 k = (if n - dn < sub64 ehi pos then n - dn else sub64 ehi pos)
             in case ls_pwrite_all w d (take k (drop dn buf)) (add64 (foff e) within) of (w', rc) \<Rightarrow>
                  if rc \<noteq> LS_OK then (w', rc, dn) else scatter_write w' d es ehi off n buf (dn + k))"

fun scatter_read :: "os \<Rightarrow> bool \<Rightarrow> ls_extent list \<Rightarrow> nat \<Rightarrow> nat \<Rightarrow> nat \<Rightarrow> byte list \<Rightarrow> os \<times> int \<times> byte list" where
  "scatter_read w d [] base off n out = (w, LS_OK, out)"
| "scatter_read w d (e # es) base off n out =
     (let dn = length out in
      if n \<le> dn then (w, LS_OK, out)
      else let ehi = add64 base (elen e); pos = add64 off dn in
        if ehi \<le> pos then scatter_read w d es ehi off n out
        else let within = sub64 pos base;
                 k = (if n - dn < sub64 ehi pos then n - dn else sub64 ehi pos)
             in case ls_pread_all w d k (add64 (foff e) within) of (w', rc, bs) \<Rightarrow>
                  if rc \<noteq> LS_OK then (w', rc, out @ bs) else scatter_read w' d es ehi off n (out @ bs))"

definition mem_at :: "ls_store \<Rightarrow> nat \<Rightarrow> nat \<Rightarrow> membuf option" where
  "mem_at s r a =
     (case recs s r of
        Some x \<Rightarrow> (case mem x of Some b \<Rightarrow> if baddr b = a then Some b else None | None \<Rightarrow> None)
      | None \<Rightarrow> None)"

definition ls_scatter ::
  "ls_store \<Rightarrow> ls_place \<Rightarrow> nat \<Rightarrow> nat \<Rightarrow> byte list \<Rightarrow> ls_op \<Rightarrow> (ls_store \<times> int \<times> byte list) option" where
  "ls_scatter s p off n wbuf op =
     (if n = 0 then Some (s, LS_OK, [])
      else case pmem p of
        Some (r, a) \<Rightarrow>
          (case mem_at s r a of
             None \<Rightarrow> None
           | Some b \<Rightarrow>
               if length (bdata b) < off + n then None
               else (case op of
                   LS_OP_WRITE \<Rightarrow>
                     Some (upd_rec s r (\<lambda>x. x\<lparr>mem := Some (b\<lparr>bdata := blit (bdata b) off (take n wbuf)\<rparr>)\<rparr>), LS_OK, [])
                 | LS_OP_READ \<Rightarrow> Some (s, LS_OK, part (bdata b) off n)))
      | None \<Rightarrow>
          (case op of
             LS_OP_WRITE \<Rightarrow>
               (case scatter_write (fd s) (direct s) (pext p) 0 off n wbuf 0 of (w, rc, dn) \<Rightarrow>
                  Some (s\<lparr>fd := w\<rparr>, if rc \<noteq> LS_OK then rc else if dn = n then LS_OK else neg_errno EIO, []))
           | LS_OP_READ \<Rightarrow>
               (case scatter_read (fd s) (direct s) (pext p) 0 off n [] of (w, rc, out) \<Rightarrow>
                  Some (s\<lparr>fd := w\<rparr>, if rc \<noteq> LS_OK then rc else if length out = n then LS_OK else neg_errno EIO, out))))"

subsection \<open>Positions\<close>

lemma part_locs_head:
  "o' + k \<le> elen e \<Longrightarrow> part (locs (e # es)) o' k = [foff e + o'..<foff e + o' + k]"
  by (rule nth_equalityI) (auto simp: Prelude.part_def locs_simps nth_append)

lemma part_locs_skip: "elen e \<le> o' \<Longrightarrow> part (locs (e # es)) o' m = part (locs es) (o' - elen e) m"
  by (simp add: Prelude.part_def locs_simps)

lemma part_locs_split:
  assumes "o' < elen e" "elen e \<le> o' + m"
  shows "part (locs (e # es)) o' m = [foff e + o'..<foff e + elen e] @ part (locs es) 0 (o' + m - elen e)"
proof -
  have "part (locs (e # es)) o' m = part (locs (e # es)) o' ((elen e - o') + (o' + m - elen e))"
    using assms by simp
  also have "\<dots> = part (locs (e # es)) o' (elen e - o') @ part (locs (e # es)) (o' + (elen e - o')) (o' + m - elen e)"
    by (rule part_append [symmetric])
  finally show ?thesis using assms by (simp add: part_locs_head part_locs_skip)
qed

lemma locs_nth_mem_part: "i < m \<Longrightarrow> o' + m \<le> length xs \<Longrightarrow> xs ! (o' + i) \<in> set (part xs o' m)"
  by (metis length_part nth_mem nth_part)

lemma set_part_subset: "set (part xs o' m) \<subseteq> set xs"
  unfolding Prelude.part_def by (meson set_drop_subset set_take_subset subset_trans)

text \<open>\<open>holds w ps bs\<close>: the bytes \<open>bs\<close> stand in the file at the positions \<open>ps\<close>.\<close>

definition holds :: "os \<Rightarrow> nat list \<Rightarrow> byte list \<Rightarrow> bool" where
  "holds w ps bs \<longleftrightarrow> map (fbytes w) ps = bs"

lemma holds_Nil [simp]: "holds w [] bs \<longleftrightarrow> bs = []"
  by (auto simp: holds_def)

lemma holds_append: "holds w ps as \<Longrightarrow> holds w qs bs \<Longrightarrow> holds w (ps @ qs) (as @ bs)"
  by (simp add: holds_def)

lemma holds_frame: "holds w ps bs \<Longrightarrow> file_frame w w' A \<Longrightarrow> set ps \<inter> A = {} \<Longrightarrow> holds w' ps bs"
  unfolding holds_def file_frame_def by (smt (verit) disjoint_iff map_eq_conv)

lemma holds_upt: "holds w [a..<a + length bs] bs \<longleftrightarrow> file_read w a (length bs) = bs"
  by (simp add: holds_def file_read_def)

subsection \<open>The loops meet their specification\<close>

lemma scatter_write_spec:
  assumes "scatter_write w d es base off n buf dn = (w', rc, dn')"
    and "io_ok w d" "distinct (locs es)" "\<forall>e\<in>set es. e_end e < u64_mod"
    and "base \<le> off + dn" "dn \<le> n" "n \<le> length buf" "off + n \<le> base + length (locs es)"
    and "base + length (locs es) < u64_mod"
  shows "file_frame w w' (set (part (locs es) (off + dn - base) (n - dn)))
    \<and> (rc = LS_OK \<longrightarrow> dn' = n \<and> holds w' (part (locs es) (off + dn - base) (n - dn)) (part buf dn (n - dn)))
    \<and> (quiet w \<and> (\<forall>e\<in>set es. e_end e + 4096 \<le> off_max) \<longrightarrow> rc = LS_OK)"
  using assms
proof (induction w d es base off n buf dn rule: scatter_write.induct)
  case (1 w d base off n buf dn)
  then show ?case by (auto simp: io_ok_def file_frame_refl)
next
  case (2 w d e es base off n buf dn)
  note ih = 2(1,2) and prems = 2(3-11)
  show ?case
  proof (cases "n \<le> dn")
    case True
    then show ?thesis using prems by (auto simp: io_ok_def file_frame_refl)
  next
    case False
    have len: "length (locs (e # es)) = elen e + length (locs es)" by (simp add: locs_simps)
    have bnd: "base + elen e + length (locs es) < u64_mod" using prems(9) len by simp
    then have ehi: "add64 base (elen e) = base + elen e" by (simp add: wrap_simps)
    have "off + dn < u64_mod" using prems(6,8,9) False by linarith
    then have pos: "add64 off dn = off + dn" by (simp add: wrap_simps)
    have dj: "distinct (locs es)" "set (locs es) \<inter> span_of e = {}" using prems(3) by (auto simp: locs_simps)
    show ?thesis
    proof (cases "base + elen e \<le> off + dn")
      case True
      then have "scatter_write w d es (base + elen e) off n buf dn = (w', rc, dn')"
        using prems(1) False by (simp add: ehi pos Let_def)
      from ih(1) [OF False ehi [symmetric] pos [symmetric] True this prems(2) dj(1)]
      show ?thesis using True prems len
        by (simp add: part_locs_skip)
    next
      case inside: False
      define o' where "o' = off + dn - base"
      define k where "k = (if n - dn < base + elen e - (off + dn) then n - dn else base + elen e - (off + dn))"
      have o': "o' < elen e" "off + dn = base + o'" using inside prems(5) by (auto simp: o'_def)
      have k: "0 < k" "o' + k \<le> elen e" "k \<le> n - dn" using False inside prems(5) by (auto simp: k_def o'_def)
      have e: "e_end e < u64_mod" using prems(4) by simp
      have sub: "sub64 (off + dn) base = o'" "sub64 (base + elen e) (off + dn) = base + elen e - (off + dn)"
        using o' bnd inside by (auto simp: wrap_simps)
      have at: "add64 (foff e) o' = foff e + o'" using e o'(1) by (simp add: wrap_simps)
      obtain v r where w: "ls_pwrite_all w d (take k (drop dn buf)) (foff e + o') = (v, r)" by fastforce
      have kb: "length (take k (drop dn buf)) = k" using k(3) prems(7) by simp
      have "foff e + o' + length (take k (drop dn buf)) < u64_mod" using kb k(2) e by linarith
      note ws = ls_pwrite_all_spec [OF w this prems(2), unfolded kb]
      have hd: "part (locs (e # es)) o' k = [foff e + o'..<foff e + o' + k]" using k(2) by (rule part_locs_head)
      have sub': "ival (foff e + o') k \<subseteq> set (part (locs (e # es)) o' (n - dn))"
        using hd k(3) part_append [of "locs (e # es)" o' k "n - dn - k"]
        by (metis Un_upper1 le_add_diff_inverse set_append set_upt_ival)
      have quiet_v: "quiet w \<Longrightarrow> quiet v" using ws(1) advances_quiet file_frameD(1) by blast
      have eqn: "(w', rc, dn') = (if r \<noteq> LS_OK then (v, r, dn) else scatter_write v d es (base + elen e) off n buf (dn + k))"
        using prems(1) False inside w unfolding k_def
        by (simp add: ehi pos sub at Let_def cong: if_cong)
      show ?thesis
      proof (cases "r = LS_OK")
        case False
        then have "w' = v" "rc = r" using eqn by auto
        moreover have "quiet w \<and> (\<forall>e\<in>set (e # es). e_end e + 4096 \<le> off_max) \<longrightarrow> r = LS_OK"
          using ws(4) k(2) by auto
        ultimately show ?thesis using ws(1) sub' False by (auto simp: o'_def [symmetric] intro: file_frame_mono)
      next
        case ok: True
        then have rec: "scatter_write v d es (base + elen e) off n buf (dn + k) = (w', rc, dn')" using eqn by simp
        have kk: "off + (dn + k) = base + elen e \<or> dn + k = n"
          using k o' by (auto simp: k_def split: if_splits)
        have pb: "part buf dn k = take k (drop dn buf)" by (simp add: Prelude.part_def)
        have hv: "holds v (part (locs (e # es)) o' k) (part buf dn k)"
          unfolding hd pb using ws(2) [OF ok] kb holds_upt [of v "foff e + o'" "take k (drop dn buf)"] by simp
        have io_v: "io_ok v d" using io_ok_frame ws(1) prems(2) by blast
        show ?thesis
        proof (cases "dn + k = n")
          case True
          have "w' = v \<and> rc = LS_OK \<and> dn' = n" using rec True by (cases es) auto
          moreover have "n - dn = k" using True by simp
          moreover note hv
          ultimately show ?thesis using ws(1) sub' by (auto simp: o'_def [symmetric] intro: file_frame_mono)
        next
          case more: False
          then have full: "off + (dn + k) = base + elen e" using kk by simp
          then have kel: "o' + k = elen e" using o'(2) by linarith
          have rest: "file_frame v w' (set (part (locs es) 0 (n - (dn + k))))
            \<and> (rc = LS_OK \<longrightarrow> dn' = n \<and> holds w' (part (locs es) 0 (n - (dn + k))) (part buf (dn + k) (n - (dn + k))))
            \<and> (quiet v \<and> (\<forall>e\<in>set es. e_end e + 4096 \<le> off_max) \<longrightarrow> rc = LS_OK)"
          proof -
            have fs: "base + elen e \<le> off + (dn + k)" "dn + k \<le> n" "\<forall>e\<in>set es. e_end e < u64_mod"
              "off + n \<le> base + elen e + length (locs es)"
              "(v, r) = ls_pwrite_all w d (take k (drop dn buf)) (add64 (foff e) o')" "\<not> r \<noteq> LS_OK"
              using full k(3) False prems len w ok at by auto
            from ih(2) [OF False ehi [symmetric] pos [symmetric] inside sub(1) [symmetric] k_def [folded sub(2)]
                fs(5,6) rec io_v dj(1) fs(3,1,2) prems(7) fs(4) bnd]
            show ?thesis using full by simp
          qed
          have split: "part (locs (e # es)) o' (n - dn) = part (locs (e # es)) o' k @ part (locs es) 0 (n - (dn + k))"
            using part_append [of "locs (e # es)" o' k "n - (dn + k)"] k(3) kel
            by (simp add: part_locs_skip diff_diff_left [symmetric] del: diff_diff_left)
          have "set (part (locs (e # es)) o' k) \<inter> set (part (locs es) 0 (n - (dn + k))) = {}"
            unfolding hd using dj(2) k(2) set_part_subset [of "locs es" 0 "n - (dn + k)"] by fastforce
          then have "holds w' (part (locs (e # es)) o' k) (part buf dn k)" using hv rest holds_frame by blast
          then have "rc = LS_OK \<longrightarrow> holds w' (part (locs (e # es)) o' (n - dn)) (part buf dn (n - dn))"
            unfolding split using rest holds_append part_append [of buf dn k "n - (dn + k)"] k(3)
            by (metis le_add_diff_inverse diff_diff_left)
          moreover have "file_frame w w' (set (part (locs (e # es)) o' (n - dn)))"
            unfolding split hd set_append set_upt_ival
            by (rule file_frame_trans [OF ws(1) conjunct1 [OF rest] order_refl])
          ultimately show ?thesis using rest quiet_v by (auto simp: o'_def [symmetric])
        qed
      qed
    qed
  qed
qed

lemma scatter_read_spec:
  assumes "scatter_read w d es base off n out = (w', rc, out')"
    and "io_ok w d" "\<forall>e\<in>set es. e_end e < u64_mod"
    and "base \<le> off + length out" "length out \<le> n" "off + n \<le> base + length (locs es)"
    and "base + length (locs es) < u64_mod"
  shows "file_frame w w' {} \<and> flen w' = flen w
    \<and> (rc = LS_OK \<longrightarrow> length out' = n \<and>
        holds w (part (locs es) (off + length out - base) (n - length out)) (drop (length out) out')
        \<and> take (length out) out' = out)
    \<and> (quiet w \<and> (\<forall>e\<in>set es. e_end e + 4096 \<le> off_max \<and> e_end e \<le> flen w) \<longrightarrow> rc = LS_OK)"
  using assms
proof (induction w d es base off n out rule: scatter_read.induct)
  case (1 w d base off n out)
  then show ?case by (auto simp: io_ok_def file_frame_refl)
next
  case (2 w d e es base off n out)
  note ih = 2(1,2) and prems = 2(3-9)
  let ?dn = "length out"
  show ?case
  proof (cases "n \<le> ?dn")
    case True
    then show ?thesis using prems by (auto simp: io_ok_def file_frame_refl)
  next
    case False
    have len: "length (locs (e # es)) = elen e + length (locs es)" by (simp add: locs_simps)
    have bnd: "base + elen e + length (locs es) < u64_mod" using prems(7) len by simp
    then have ehi: "add64 base (elen e) = base + elen e" by (simp add: wrap_simps)
    have "off + ?dn < u64_mod" using prems(6,7) False by linarith
    then have pos: "add64 off ?dn = off + ?dn" by (simp add: wrap_simps)
    show ?thesis
    proof (cases "base + elen e \<le> off + ?dn")
      case True
      then have "scatter_read w d es (base + elen e) off n out = (w', rc, out')"
        using prems(1) False by (simp add: ehi pos Let_def)
      from ih(1) [OF refl False ehi [symmetric] pos [symmetric] True this prems(2)]
      show ?thesis using True prems len by (simp add: part_locs_skip)
    next
      case inside: False
      define o' where "o' = off + ?dn - base"
      define k where "k = (if n - ?dn < base + elen e - (off + ?dn) then n - ?dn else base + elen e - (off + ?dn))"
      have o': "o' < elen e" "off + ?dn = base + o'" using inside prems(4) by (auto simp: o'_def)
      have k: "0 < k" "o' + k \<le> elen e" "k \<le> n - ?dn" using False inside prems(4) by (auto simp: k_def o'_def)
      have e: "e_end e < u64_mod" using prems(3) by simp
      have sub: "sub64 (off + ?dn) base = o'" "sub64 (base + elen e) (off + ?dn) = base + elen e - (off + ?dn)"
        using o' bnd inside by (auto simp: wrap_simps)
      have at: "add64 (foff e) o' = foff e + o'" using e o'(1) by (simp add: wrap_simps)
      obtain v r bs where w: "ls_pread_all w d k (foff e + o') = (v, r, bs)" by (metis prod_cases3)
      have "foff e + o' + k < u64_mod" using k(2) e by linarith
      note ws = ls_pread_all_spec [OF w this prems(2)]
      have quiet_v: "quiet w \<Longrightarrow> quiet v" using ws(1) advances_quiet file_frameD(1) by blast
      have eqn: "(w', rc, out') = (if r \<noteq> LS_OK then (v, r, out @ bs) else scatter_read v d es (base + elen e) off n (out @ bs))"
        using prems(1) False inside w unfolding k_def
        by (simp add: ehi pos sub at Let_def cong: if_cong)
      show ?thesis
      proof (cases "r = LS_OK")
        case False
        then have "w' = v" "rc = r" using eqn by auto
        moreover have "quiet w \<and> (\<forall>e\<in>set (e # es). e_end e + 4096 \<le> off_max \<and> e_end e \<le> flen w) \<longrightarrow> r = LS_OK"
          using ws(3) k(2) by auto
        ultimately show ?thesis using ws(1,4) False by auto
      next
        case ok: True
        then have rec: "scatter_read v d es (base + elen e) off n (out @ bs) = (w', rc, out')" using eqn by simp
        have bs: "bs = file_read w (foff e + o') k" "length bs = k" using ws(2) [OF ok] by auto
        have hb: "holds w (part (locs (e # es)) o' k) bs"
          unfolding part_locs_head [OF k(2)] bs(1) by (simp add: holds_def file_read_def)
        have kk: "off + (?dn + k) = base + elen e \<or> ?dn + k = n"
          using k o' by (auto simp: k_def split: if_splits)
        have io_v: "io_ok v d" using io_ok_frame ws(1) prems(2) by blast
        show ?thesis
        proof (cases "?dn + k = n")
          case True
          have "w' = v \<and> rc = LS_OK \<and> out' = out @ bs" using rec True bs(2) by (cases es) auto
          then show ?thesis using ws(1,4) hb True bs(2) by (auto simp: o'_def [symmetric])
        next
          case more: False
          then have full: "off + (?dn + k) = base + elen e" using kk by simp
          then have kel: "o' + k = elen e" using o'(2) by linarith
          have ln: "length (out @ bs) = ?dn + k" using bs(2) by simp
          have fs: "base + elen e \<le> off + length (out @ bs)" "length (out @ bs) \<le> n" "\<forall>e\<in>set es. e_end e < u64_mod"
            "off + n \<le> base + elen e + length (locs es)"
            "(r, bs) = (LS_OK, bs)" "(v, r, bs) = ls_pread_all w d k (add64 (foff e) o')"
            using full k(3) False prems len w ok at bs(2) by auto
          have rest: "file_frame v w' {} \<and> flen w' = flen v
            \<and> (rc = LS_OK \<longrightarrow> length out' = n \<and>
                holds v (part (locs es) 0 (n - (?dn + k))) (drop (?dn + k) out') \<and> take (?dn + k) out' = out @ bs)
            \<and> (quiet v \<and> (\<forall>e\<in>set es. e_end e + 4096 \<le> off_max \<and> e_end e \<le> flen v) \<longrightarrow> rc = LS_OK)"
          proof -
            have "\<not> r \<noteq> LS_OK" using ok by simp
            from ih(2) [OF refl False ehi [symmetric] pos [symmetric] inside sub(1) [symmetric] k_def [folded sub(2)]
                fs(6) refl this rec io_v fs(3,1,2,4) bnd]
            show ?thesis using full ln by simp
          qed
          have split: "part (locs (e # es)) o' (n - ?dn) = part (locs (e # es)) o' k @ part (locs es) 0 (n - (?dn + k))"
            using part_append [of "locs (e # es)" o' k "n - (?dn + k)"] k(3) kel
            by (simp add: part_locs_skip diff_diff_left [symmetric] del: diff_diff_left)
          have "holds w (part (locs es) 0 (n - (?dn + k))) (drop (?dn + k) out')" if "rc = LS_OK"
          proof -
            have "fbytes v = fbytes w" using ws(1) by (auto simp: file_frame_def fun_eq_iff)
            then show ?thesis using rest that by (simp add: holds_def)
          qed
          moreover have "drop ?dn out' = bs @ drop (?dn + k) out'" "take ?dn out' = out" if "rc = LS_OK"
          proof -
            have "take (?dn + k) out' = out @ bs" using rest that by simp
            then have "out' = (out @ bs) @ drop (?dn + k) out'" by (metis append_take_drop_id)
            then show "drop ?dn out' = bs @ drop (?dn + k) out'" "take ?dn out' = out"
              by (metis append_assoc append_eq_conv_conj)+
          qed
          ultimately have "rc = LS_OK \<longrightarrow> length out' = n \<and> holds w (part (locs (e # es)) o' (n - ?dn)) (drop ?dn out')
              \<and> take ?dn out' = out"
            unfolding split using rest holds_append [OF hb] by auto
          moreover have "file_frame w w' {}" using file_frame_trans [OF ws(1) conjunct1 [OF rest]] by simp
          ultimately show ?thesis using rest ws(4) quiet_v by (auto simp: o'_def [symmetric])
        qed
      qed
    qed
  qed
qed

lemmas scatter_write_start = scatter_write_spec [where base = 0 and dn = 0, simplified]
lemmas scatter_read_start = scatter_read_spec [where base = 0 and out = "[]", simplified]

end
