(* ===== verification/Capacity.thy ===== *)
theory Capacity
  imports Scatter "HOL-Library.Monad_Syntax"
begin

text \<open>
  Where a record's bytes live (\<open>src/store.c\<close>, the memory tier and capacity sections): growing a
  record's extent list, spilling a resident record to its extents, evicting until a budget is
  met, and choosing the tier for a record that needs more room. This theory holds the
  operations, the invariant of a whole store, and the lemmas about adding one extent; the
  theory \<open>Tier\<close> proves the rest.

  The operations return an option. \<open>None\<close> stands for a loop that does not end or for an access
  through a pointer that is not valid; the lemmas show that it does not occur on a
  well-formed store whose space fits 64 bits.
\<close>

subsection \<open>Definitions\<close>

definition ext_retire :: "ls_store \<Rightarrow> bool \<Rightarrow> ls_store \<times> int" where
  "ext_retire s old =
     (if \<not> old then (s, LS_OK)
      else if nretired s = retcap s then
        (case st_malloc s of (ok, s1) \<Rightarrow>
           if \<not> ok then (s1, neg_errno ENOMEM)
           else (s1\<lparr>retcap := (if retcap s1 = 0 then 8 else retcap s1 * 2), nretired := nretired s1 + 1\<rparr>, LS_OK))
      else (s\<lparr>nretired := nretired s + 1\<rparr>, LS_OK))"

definition ext_append :: "ls_store \<Rightarrow> nat \<Rightarrow> ls_extent \<Rightarrow> ls_store" where
  "ext_append s r e = upd_rec s r (\<lambda>x. x\<lparr>ext := ext x @ [e]\<rparr>)"

text \<open>The array pointer \<open>r->ext\<close> is NULL exactly when its capacity \<open>ncap\<close> is 0.\<close>

definition ext_push :: "ls_store \<Rightarrow> nat \<Rightarrow> ls_extent \<Rightarrow> (ls_store \<times> int) option" where
  "ext_push s r e = do {
     x \<leftarrow> recs s r;
     if length (ext x) = ncap x then
       (case st_malloc s of (ok, s1) \<Rightarrow>
          if \<not> ok then Some (s1, neg_errno ENOMEM)
          else (case ext_retire s1 (ncap x \<noteq> 0) of (s2, rc) \<Rightarrow>
            if rc \<noteq> LS_OK then Some (s2, neg_errno ENOMEM)
            else Some (ext_append (upd_rec s2 r (\<lambda>x. x\<lparr>ncap := (if ncap x = 0 then 4 else ncap x * 2)\<rparr>)) r e, LS_OK)))
     else Some (ext_append s r e, LS_OK)
   }"

definition pick_extent :: "ls_store \<Rightarrow> nat \<Rightarrow> nat \<Rightarrow> ls_store \<times> ls_extent" where
  "pick_extent s nx deficit =
     (case ls_alloc_best s deficit of
        (s1, Some e) \<Rightarrow> (s1, e)
      | (s1, None) \<Rightarrow>
          if LS_MAX_EXTENTS \<le> nx + 1 then ls_alloc_tail s1 deficit
          else (case ls_alloc_largest s1 (if LS_MIN_EXTENT < deficit then LS_MIN_EXTENT else deficit) of
                  (s2, Some e) \<Rightarrow> (s2, e)
                | (s2, None) \<Rightarrow> ls_alloc_tail s2 deficit))"

text \<open>One round of the loop of \<open>ensure_extents\<close>; on success the new extent is part of the record.\<close>

definition add_extent :: "ls_store \<Rightarrow> nat \<Rightarrow> nat \<Rightarrow> (ls_store \<times> int) option" where
  "add_extent s r deficit = do {
     x \<leftarrow> recs s r;
     case pick_extent s (length (ext x)) deficit of (s1, e) \<Rightarrow>
       (case zero_range (fd s1) (direct s1) (foff e) (elen e) of (w, rc) \<Rightarrow>
          if rc \<noteq> LS_OK then Some (ls_free_extents (s1\<lparr>fd := w\<rparr>) [e], rc)
          else do {
            (s3, rc) \<leftarrow> ext_push (s1\<lparr>fd := w\<rparr>) r e;
            if rc \<noteq> LS_OK then Some (ls_free_extents s3 [e], rc)
            else Some (upd_rec s3 r (\<lambda>x. x\<lparr>ext_total := add64 (ext_total x) (elen e)\<rparr>), LS_OK)
          })
   }"

partial_function (option) ensure_extents :: "ls_store \<Rightarrow> nat \<Rightarrow> nat \<Rightarrow> (ls_store \<times> int) option" where
  "ensure_extents s r need = do {
     x \<leftarrow> recs s r;
     if need \<le> ext_total x then Some (s, LS_OK)
     else do {
       (s1, rc) \<leftarrow> add_extent s r (need - ext_total x);
       if rc \<noteq> LS_OK then Some (s1, rc) else ensure_extents s1 r need
     }
   }"

text \<open>\<open>spill\<close>: the loop that scatters the buffer over the extents, then the release of the buffer.\<close>

fun spill_write :: "os \<Rightarrow> bool \<Rightarrow> ls_extent list \<Rightarrow> byte list \<Rightarrow> nat \<Rightarrow> nat \<Rightarrow> os \<times> int" where
  "spill_write w d [] buf pos left = (w, LS_OK)"
| "spill_write w d (e # es) buf pos left =
     (if left = 0 then (w, LS_OK)
      else let k = (if elen e < left then elen e else left) in
        case ls_pwrite_all w d (take k (drop pos buf)) (foff e) of (w', rc) \<Rightarrow>
          if rc \<noteq> LS_OK then (w', rc) else spill_write w' d es buf (pos + k) (left - k))"

definition drop_buffer :: "ls_store \<Rightarrow> nat \<Rightarrow> ls_rec \<Rightarrow> ls_store" where
  "drop_buffer s r x =
     ls_lru_drop (upd_rec (s\<lparr>resident := (if mem_cap x \<le> resident s then resident s - mem_cap x else resident s)\<rparr>)
       r (\<lambda>x. x\<lparr>mem := None, mem_cap := 0\<rparr>)) r"

definition spill :: "ls_store \<Rightarrow> nat \<Rightarrow> (ls_store \<times> int) option" where
  "spill s r = do {
     x \<leftarrow> recs s r;
     case mem x of
       None \<Rightarrow> Some (s, LS_OK)
     | Some _ \<Rightarrow> do {
         (s1, rc) \<leftarrow> ensure_extents s r (rsize x);
         if rc \<noteq> LS_OK then Some (s1, rc)
         else do {
           x1 \<leftarrow> recs s1 r;
           b1 \<leftarrow> mem x1;
           case spill_write (fd s1) (direct s1) (ext x1) (bdata b1) 0 (rsize x1) of (w, rc) \<Rightarrow>
             if rc \<noteq> LS_OK then Some (s1\<lparr>fd := w\<rparr>, rc)
             else Some (drop_buffer (s1\<lparr>fd := w\<rparr>) r x1, LS_OK)
         }
       }
   }"

definition is_busy :: "ls_store \<Rightarrow> nat \<Rightarrow> bool" where
  "is_busy s r = (case recs s r of Some x \<Rightarrow> busy x \<noteq> 0 | None \<Rightarrow> False)"

partial_function (option) ls_evict_to :: "ls_store \<Rightarrow> nat \<Rightarrow> nat option \<Rightarrow> (ls_store \<times> int) option" where
  "ls_evict_to s budget keep =
     (if budget < resident s then do {
        vo \<leftarrow> lru_victim (lru s) (\<lambda>v. Some v = keep \<or> is_busy s v);
        case vo of
          None \<Rightarrow> Some (s, LS_OK)
        | Some v \<Rightarrow> do {
            (s1, rc) \<leftarrow> spill s v;
            if rc \<noteq> LS_OK then Some (s1, rc) else ls_evict_to s1 budget keep
          }
      }
      else Some (s, LS_OK))"

definition ls_spill_all :: "ls_store \<Rightarrow> (ls_store \<times> int) option" where
  "ls_spill_all s = ls_evict_to s 0 None"

text \<open>\<open>realloc\<close> keeps the old bytes; the code zeroes the new ones.\<close>

definition grow_buffer :: "ls_store \<Rightarrow> nat \<Rightarrow> ls_rec \<Rightarrow> nat \<Rightarrow> ls_store" where
  "grow_buffer s r x need =
     (let cur = (if mem x \<noteq> None then mem_cap x else 0);
          old = (case mem x of None \<Rightarrow> [] | Some b \<Rightarrow> bdata b);
          new = take need old @ zeros (need - length old)
      in ls_lru_touch (upd_rec (s\<lparr>resident := add64 (sub64 (resident s) cur) need, fresh := fresh s + 1\<rparr>) r
           (\<lambda>x. x\<lparr>mem := Some \<lparr>baddr = fresh s, bdata = new\<rparr>, mem_cap := need\<rparr>)) r)"

text \<open>The second half of \<open>ensure_cap\<close>: the record goes to, or stays in, the file.\<close>

definition to_extents :: "ls_store \<Rightarrow> nat \<Rightarrow> nat \<Rightarrow> (ls_store \<times> int) option" where
  "to_extents s r need = do {
     x \<leftarrow> recs s r;
     if mem x \<noteq> None then do {
       (s1, rc) \<leftarrow> spill s r;
       if rc \<noteq> LS_OK then Some (s1, rc) else ensure_extents s1 r need
     }
     else ensure_extents s r need
   }"

definition ensure_cap :: "ls_store \<Rightarrow> nat \<Rightarrow> nat \<Rightarrow> (ls_store \<times> int) option" where
  "ensure_cap s r need = do {
     x \<leftarrow> recs s r;
     let budget = memory_budget (opts s);
     let cur = (if mem x \<noteq> None then mem_cap x else 0);
     if need \<le> mem_cap x \<and> mem x \<noteq> None then Some (s, LS_OK)
     else if need \<le> ext_total x \<and> mem x = None then Some (s, LS_OK)
     else if budget \<noteq> 0 \<and> ncap x = 0 \<and> need \<le> budget then do {
       (s1, _) \<leftarrow> (if budget < add64 (sub64 (resident s) cur) need
                   then ls_evict_to s (add64 (sub64 budget need) cur) (Some r) else Some (s, LS_OK));
       if add64 (sub64 (resident s1) cur) need \<le> budget then
         (case st_malloc s1 of (ok, s2) \<Rightarrow>
            if ok then do { x2 \<leftarrow> recs s2 r; Some (grow_buffer s2 r x2 need, LS_OK) }
            else to_extents s2 r need)
       else to_extents s1 r need
     }
     else to_extents s r need
   }"

subsection \<open>The store's invariant\<close>

text \<open>A record whose bytes are in the buffer or in the extents, with zeros behind the logical end
  in either place. A resident record may own extents from a spill that failed half way.\<close>

definition rec_ok :: "os \<Rightarrow> ls_rec \<Rightarrow> bool" where
  "rec_ok w x \<longleftrightarrow> length (ext x) \<le> ncap x \<and> (\<forall>e\<in>set (ext x). ext_ok e) \<and> distinct (locs (ext x))
     \<and> ext_total x = length (locs (ext x)) \<and> (\<forall>p\<in>set (locs (ext x)). p < flen w)
     \<and> (\<forall>i. rsize x \<le> i \<longrightarrow> i < length (locs (ext x)) \<longrightarrow> fbytes w (locs (ext x) ! i) = 0)
     \<and> length (attr x) = LS_ATTR_MAX \<and> attrlen x \<le> LS_ATTR_MAX \<and> rsize x < u64_mod
     \<and> (case mem x of
          None \<Rightarrow> rsize x \<le> length (locs (ext x)) \<and> mem_cap x = 0
        | Some b \<Rightarrow> length (bdata b) = mem_cap x \<and> 0 < mem_cap x \<and> rsize x \<le> mem_cap x
            \<and> (\<forall>i. rsize x \<le> i \<longrightarrow> i < mem_cap x \<longrightarrow> bdata b ! i = 0))"

definition content :: "os \<Rightarrow> ls_rec \<Rightarrow> byte list" where
  "content w x = (case mem x of
       Some b \<Rightarrow> take (rsize x) (bdata b)
     | None \<Rightarrow> map (fbytes w) (take (rsize x) (locs (ext x))))"

definition res_set :: "ls_store \<Rightarrow> nat set" where
  "res_set s = {r. \<exists>x. recs s r = Some x \<and> mem x \<noteq> None}"

definition rcap :: "ls_store \<Rightarrow> nat \<Rightarrow> nat" where
  "rcap s r = (case recs s r of Some x \<Rightarrow> mem_cap x | None \<Rightarrow> 0)"

definition tier_ok :: "ls_store \<Rightarrow> bool" where
  "tier_ok s \<longleftrightarrow> (\<exists>xs. lru_list (lru s) xs \<and> set xs = res_set s)
     \<and> resident s = (\<Sum>r\<in>res_set s. rcap s r)
     \<and> resident s \<le> memory_budget (opts s) \<and> memory_budget (opts s) < off_max"

definition used :: "ls_store \<Rightarrow> nat \<Rightarrow> nat set" where
  "used s r = (case recs s r of Some x \<Rightarrow> set (locs (ext x)) | None \<Rightarrow> {})"

definition store_inv :: "ls_store \<Rightarrow> bool" where
  "store_inv s \<longleftrightarrow> toc_inv s \<and> alloc_inv s \<and> io_ok (fd s) (direct s) \<and> tier_ok s \<and> \<not> teardown s
     \<and> (\<forall>r x. recs s r = Some x \<longrightarrow> rec_ok (fd s) x)
     \<and> (\<forall>r. used s r \<inter> free_set s = {}) \<and> (\<forall>r r'. r \<noteq> r' \<longrightarrow> used s r \<inter> used s r' = {})"

text \<open>The file space that spilling a resident record may take, an upper bound of the offsets that
  spilling all of them could reach, and the conditions that a request of \<open>n\<close> more bytes stays
  within 64 bits, or within the largest file.\<close>

definition share :: "ls_store \<Rightarrow> nat \<Rightarrow> nat" where
  "share s r = (if r \<in> res_set s then rcap s r + 4096 else 0)"

definition demand :: "ls_store \<Rightarrow> nat" where
  "demand s = file_end s + (\<Sum>r\<in>res_set s. share s r)"

definition fits :: "ls_store \<Rightarrow> nat \<Rightarrow> bool" where
  "fits s n \<longleftrightarrow> demand s + n + 4096 \<le> u64_mod"

definition roomy :: "ls_store \<Rightarrow> nat \<Rightarrow> bool" where
  "roomy s n \<longleftrightarrow> demand s + n + 8192 \<le> off_max"

text \<open>What housekeeping must not change of a record.\<close>

definition same_rec :: "os \<Rightarrow> ls_rec \<Rightarrow> os \<Rightarrow> ls_rec \<Rightarrow> bool" where
  "same_rec w x w' x' \<longleftrightarrow> key x' = key x \<and> rsize x' = rsize x \<and> busy x' = busy x \<and> attr x' = attr x
     \<and> attrlen x' = attrlen x \<and> map_addr x' = map_addr x \<and> map_len x' = map_len x
     \<and> content w' x' = content w x"

lemma store_invD:
  assumes "store_inv s"
  shows "toc_inv s" "alloc_inv s" "io_ok (fd s) (direct s)" "tier_ok s" "\<not> teardown s" "file_wf (fd s)"
    "recs s r = Some x \<Longrightarrow> rec_ok (fd s) x" "recs s r = Some x \<Longrightarrow> set (locs (ext x)) \<inter> free_set s = {}"
    "r \<noteq> r' \<Longrightarrow> used s r \<inter> used s r' = {}" "used s r \<inter> free_set s = {}"
proof -
  have u: "\<forall>r. used s r \<inter> free_set s = {}" using assms by (simp add: store_inv_def)
  show "recs s r = Some x \<Longrightarrow> set (locs (ext x)) \<inter> free_set s = {}" using u by (metis used_def option.simps(5))
  show "toc_inv s" "alloc_inv s" "io_ok (fd s) (direct s)" "tier_ok s" "\<not> teardown s" "file_wf (fd s)"
    "recs s r = Some x \<Longrightarrow> rec_ok (fd s) x" "r \<noteq> r' \<Longrightarrow> used s r \<inter> used s r' = {}" "used s r \<inter> free_set s = {}"
    using assms unfolding store_inv_def io_ok_def by blast+
qed

lemma io_ok_keeps: "os_keeps w w' P \<Longrightarrow> io_ok w d \<Longrightarrow> io_ok w' d"
  unfolding io_ok_def os_keeps_def using advances_no_short by blast

lemma same_rec_refl [simp]: "same_rec w x w x"
  by (simp add: same_rec_def)

lemma same_rec_trans: "same_rec w x v y \<Longrightarrow> same_rec v y u z \<Longrightarrow> same_rec w x u z"
  by (simp add: same_rec_def)

text \<open>A record whose own bytes in the file are kept stays well-formed and keeps its content.\<close>

lemma rec_ok_keeps:
  assumes "rec_ok w x" "os_keeps w w' P" "set (locs (ext x)) \<subseteq> P"
  shows "rec_ok w' x" "same_rec w x w' x"
proof -
  have keep: "fbytes w' p = fbytes w p" "p < flen w \<Longrightarrow> p < flen w'" if "p \<in> set (locs (ext x))" for p
    using os_keepsD [OF assms(2)] assms(3) that by blast+
  have "\<forall>i. rsize x \<le> i \<longrightarrow> i < length (locs (ext x)) \<longrightarrow> fbytes w' (locs (ext x) ! i) = 0"
    using assms(1) keep(1) nth_mem unfolding rec_ok_def by metis
  moreover have "\<forall>p\<in>set (locs (ext x)). p < flen w'" using assms(1) keep(2) unfolding rec_ok_def by blast
  ultimately show "rec_ok w' x" using assms(1) unfolding rec_ok_def by (simp split: option.splits)
  have "map (fbytes w') (take (rsize x) (locs (ext x))) = map (fbytes w) (take (rsize x) (locs (ext x)))"
    using keep(1) by (auto dest: in_set_takeD)
  then show "same_rec w x w' x" by (simp add: same_rec_def content_def split: option.splits)
qed

lemma tier_ok_cong:
  assumes "lru s' = lru s" "resident s' = resident s" "opts s' = opts s"
    "\<And>r. map_option (\<lambda>x. (mem x \<noteq> None, mem_cap x)) (recs s' r) = map_option (\<lambda>x. (mem x \<noteq> None, mem_cap x)) (recs s r)"
  shows "tier_ok s' = tier_ok s" "res_set s' = res_set s"
proof -
  have r: "r \<in> res_set s' \<longleftrightarrow> r \<in> res_set s" "rcap s' r = rcap s r" for r
    using assms(4) [of r] by (cases "recs s r"; cases "recs s' r"; simp add: res_set_def rcap_def)+
  then show "res_set s' = res_set s" by blast
  then show "tier_ok s' = tier_ok s" using assms(1-3) r(2) by (simp add: tier_ok_def)
qed

lemma toc_inv_recs:
  assumes "toc_inv s" "tab s' = tab s" "nrec s' = nrec s" "fresh s \<le> fresh s'"
    "dom (recs s') = dom (recs s)" "\<And>r. rkey s' r = rkey s r"
  shows "toc_inv s'" "ls_toc_find s' = ls_toc_find s"
proof -
  have k: "rkey s' = rkey s" using assms(6) by (rule ext)
  have "\<forall>r\<in>dom (recs s). r < fresh s'" using toc_invD(6) [OF assms(1)] assms(4) by fastforce
  then show inv: "toc_inv s'" using assms(1) unfolding toc_inv_def k assms(2,3,5) by blast
  show "ls_toc_find s' = ls_toc_find s"
    by (rule ext, rule toc_find_ext [OF inv assms(1)]) (simp add: assms(5) k)
qed

text \<open>One record changes, the file may change where no other record lives.\<close>

lemma store_inv_step:
  assumes inv: "store_inv s" and r: "recs s r = Some x"
    and rs: "recs s' = (recs s)(r \<mapsto> x')" and key: "key x' = key x"
    and fr: "tab s' = tab s" "nrec s' = nrec s" "fresh s \<le> fresh s'" "direct s' = direct s" "teardown s' = teardown s"
    and al: "alloc_inv s'" "free_set s' \<subseteq> free_set s \<union> set (locs (ext x))"
    and own: "set (locs (ext x')) \<inter> free_set s' = {}" "set (locs (ext x')) \<subseteq> set (locs (ext x)) \<union> free_set s"
    and disk: "os_keeps (fd s) (fd s') (\<Union>r'\<in>-{r}. used s r')"
    and ok: "rec_ok (fd s') x'" "tier_ok s'"
  shows "store_inv s'" "ls_toc_find s' = ls_toc_find s"
    "\<forall>r' y. r' \<noteq> r \<longrightarrow> recs s r' = Some y \<longrightarrow> recs s' r' = Some y \<and> same_rec (fd s) y (fd s') y"
proof -
  note i = store_invD [OF inv]
  have u: "used s r = set (locs (ext x))" "used s' r = set (locs (ext x'))" "r' \<noteq> r \<Longrightarrow> used s' r' = used s r'" for r'
    using r rs by (simp_all add: used_def)
  have others: "rec_ok (fd s') y" "same_rec (fd s) y (fd s') y" if "r' \<noteq> r" "recs s r' = Some y" for r' y
  proof -
    have "set (locs (ext y)) = used s r'" using that by (simp add: used_def)
    then have "set (locs (ext y)) \<subseteq> (\<Union>r'\<in>-{r}. used s r')" using that(1) by blast
    then show "rec_ok (fd s') y" "same_rec (fd s) y (fd s') y"
      using rec_ok_keeps [OF i(7) [OF that(2)] disk] by blast+
  qed
  have "dom (recs s') = dom (recs s)" using r rs by auto
  moreover have "rkey s' r' = rkey s r'" for r' using r rs key by (simp add: rkey_def)
  ultimately have toc: "toc_inv s'" "ls_toc_find s' = ls_toc_find s" using toc_inv_recs [OF i(1) fr(1-3)] by blast+
  have "used s' r' \<inter> free_set s' = {}" for r'
  proof (cases "r' = r")
    case False
    then have "used s r' \<inter> set (locs (ext x)) = {}" using i(9) [of r' r] u(1) by simp
    then show ?thesis using i(10) [of r'] al(2) u(3) [OF False] by blast
  qed (simp add: u own)
  moreover have "used s' a \<inter> used s' b = {}" if "a \<noteq> b" for a b
  proof -
    have "used s' r \<inter> used s' b = {}" if "b \<noteq> r" for b
      using that own(2) i(9) [of b r] i(10) [of b] u by auto
    then show ?thesis using that u(3) i(9) [of a b] by (metis inf_commute)
  qed
  moreover have "rec_ok (fd s') y" if "recs s' r' = Some y" for r' y
    using that ok(1) others(1) rs by (cases "r' = r") auto
  moreover have "io_ok (fd s') (direct s')" using io_ok_keeps [OF disk i(3)] fr(4) by simp
  ultimately show "store_inv s'" using toc(1) al(1) ok(2) i(5) fr(5) by (simp add: store_inv_def)
  show "ls_toc_find s' = ls_toc_find s" by (rule toc(2))
  show "\<forall>r' y. r' \<noteq> r \<longrightarrow> recs s r' = Some y \<longrightarrow> recs s' r' = Some y \<and> same_rec (fd s) y (fd s') y"
    using others(2) rs by simp
qed

text \<open>Housekeeping: the records and their contents are what they were, wherever they live now.\<close>

definition evolves :: "ls_store \<Rightarrow> ls_store \<Rightarrow> bool" where
  "evolves s s' \<longleftrightarrow> store_inv s' \<and> opts s' = opts s \<and> direct s' = direct s \<and> path s' = path s
     \<and> tab s' = tab s \<and> nrec s' = nrec s \<and> ls_toc_find s' = ls_toc_find s \<and> dom (recs s') = dom (recs s)
     \<and> advances (fd s) (fd s')
     \<and> (\<forall>r x. recs s r = Some x \<longrightarrow> (\<exists>x'. recs s' r = Some x' \<and> same_rec (fd s) x (fd s') x'))"

lemma evolves_refl: "store_inv s \<Longrightarrow> evolves s s"
  by (simp add: evolves_def)

lemma evolvesD:
  assumes "evolves s s'"
  shows "store_inv s'" "opts s' = opts s" "direct s' = direct s" "ls_toc_find s' = ls_toc_find s"
    "advances (fd s) (fd s')"
    "recs s r = Some x \<Longrightarrow> \<exists>x'. recs s' r = Some x' \<and> same_rec (fd s) x (fd s') x'"
    "recs s r = None \<Longrightarrow> recs s' r = None" "dom (recs s') = dom (recs s)"
  using assms by (auto simp: evolves_def)

lemma evolves_trans:
  assumes "evolves a b" "evolves b c"
  shows "evolves a c"
proof -
  have "\<exists>x'. recs c r = Some x' \<and> same_rec (fd a) x (fd c) x'" if ar: "recs a r = Some x" for r x
  proof -
    obtain y where y: "recs b r = Some y" "same_rec (fd a) x (fd b) y" using evolvesD(6) [OF assms(1) ar] by blast
    obtain z where "recs c r = Some z" "same_rec (fd b) y (fd c) z" using evolvesD(6) [OF assms(2) y(1)] by blast
    then show ?thesis using same_rec_trans [OF y(2)] by blast
  qed
  then show ?thesis using assms advances_trans [OF evolvesD(5) evolvesD(5)] by (simp add: evolves_def)
qed

text \<open>A step on one record that keeps its content.\<close>

lemma evolves_step:
  assumes "store_inv s" "recs s r = Some x" "recs s' = (recs s)(r \<mapsto> x')" "same_rec (fd s) x (fd s') x'"
    and "tab s' = tab s" "nrec s' = nrec s" "fresh s \<le> fresh s'" "direct s' = direct s" "teardown s' = teardown s"
      "opts s' = opts s" "path s' = path s"
    and "alloc_inv s'" "free_set s' \<subseteq> free_set s \<union> set (locs (ext x))"
    and "set (locs (ext x')) \<inter> free_set s' = {}" "set (locs (ext x')) \<subseteq> set (locs (ext x)) \<union> free_set s"
    and "os_keeps (fd s) (fd s') (\<Union>r'\<in>-{r}. used s r')" "rec_ok (fd s') x'" "tier_ok s'"
  shows "evolves s s'"
proof -
  have "key x' = key x" using assms(4) by (simp add: same_rec_def)
  note st = store_inv_step [OF assms(1-3) this assms(5-9) assms(12-18)]
  have "\<exists>y'. recs s' r' = Some y' \<and> same_rec (fd s) y (fd s') y'" if "recs s r' = Some y" for r' y
    using that st(3) assms(2-4) by (cases "r' = r") auto
  then show ?thesis
    using st(1,2) assms(2,3,5,6,8,10,11) os_keepsD(1) [OF assms(16)] by (auto simp: evolves_def)
qed

lemma others_disjoint:
  assumes "store_inv s" "recs s r = Some x"
  shows "(\<Union>r'\<in>-{r}. used s r') \<inter> (free_set s \<union> set (locs (ext x))) = {}"
proof -
  have "used s r' \<inter> free_set s = {}" "r' \<noteq> r \<Longrightarrow> used s r' \<inter> set (locs (ext x)) = {}" for r'
  proof -
    have "used s r = set (locs (ext x))" using assms(2) by (simp add: used_def)
    then show "used s r' \<inter> free_set s = {}" "r' \<noteq> r \<Longrightarrow> used s r' \<inter> set (locs (ext x)) = {}"
      using store_invD(9,10) [OF assms(1)] by metis+
  qed
  then show ?thesis by blast
qed

subsection \<open>Adding an extent\<close>

lemma round_up_le: "0 < n \<Longrightarrow> a + n + 4096 \<le> m \<Longrightarrow> m \<le> u64_mod \<Longrightarrow> a + round_up n < m"
  using round_up_small(2) [of n] by linarith

lemma ls_alloc_largest_shrinks:
  assumes "ls_alloc_largest s least = (s', Some e)"
  shows "length (fl s') < length (fl s)"
proof -
  obtain b where b: "largest_loop (fl s) 0 None = Some b" "fl s' = remove_at b (fl s)"
    using assms by (auto simp: ls_alloc_largest_def split: option.splits if_splits)
  then have "b < length (fl s)" using largest_loop_start [of "fl s"] by blast
  then show ?thesis using b(2) by simp
qed

lemma pick_extent_spec:
  assumes "pick_extent s nx deficit = (s1, e)" "alloc_inv s" "0 < deficit"
    and "file_end s + deficit + 4096 \<le> u64_mod"
  shows "took s s1 e" "e_end e \<le> file_end s1"
    "deficit \<le> elen e \<and> file_end s1 \<le> file_end s + round_up deficit
     \<or> length (fl s1) < length (fl s) \<and> file_end s1 = file_end s"
    "file_end s1 \<le> file_end s + round_up deficit"
proof -
  have d: "deficit + 4095 < u64_mod" "file_end s + round_up deficit < u64_mod"
    using assms(2-4) round_up_le by (auto simp: alloc_inv_def)
  note ru = round_up_small(1) [OF d(1)]
  have tail: "took s s1 e \<and> e_end e = file_end s1 \<and> deficit \<le> elen e \<and> file_end s1 = file_end s + round_up deficit"
    if "ls_alloc_tail s deficit = (s1, e)"
    using ls_alloc_tail_spec [OF that assms(2,3) d] ru by simp
  obtain s2 res where b: "ls_alloc_best s deficit = (s2, res)" by fastforce
  note bs = ls_alloc_best_spec [OF b assms(2) d(1)]
  have "took s s1 e \<and> e_end e \<le> file_end s1 \<and> file_end s1 \<le> file_end s + round_up deficit \<and>
    (deficit \<le> elen e \<or> length (fl s1) < length (fl s) \<and> file_end s1 = file_end s)"
  proof (cases res)
    case (Some e')
    then show ?thesis using assms(1) b bs ru by (auto simp: pick_extent_def)
  next
    case None
    then have s2: "s2 = s" using bs by simp
    let ?least = "if LS_MIN_EXTENT < deficit then LS_MIN_EXTENT else deficit"
    obtain s3 res' where l: "ls_alloc_largest s ?least = (s3, res')" by fastforce
    note ls = ls_alloc_largest_spec [OF l assms(2)]
    show ?thesis
    proof (cases "LS_MAX_EXTENTS \<le> nx + 1")
      case True
      then show ?thesis using assms(1) b None s2 tail by (auto simp: pick_extent_def)
    next
      case False
      then have eq: "(s1, e) = (case res' of Some e \<Rightarrow> (s3, e) | None \<Rightarrow> ls_alloc_tail s3 deficit)"
        using assms(1) b None s2 l by (simp add: pick_extent_def split: option.splits)
      show ?thesis
      proof (cases res')
        case (Some e')
        then show ?thesis using eq ls ls_alloc_largest_shrinks [of s ?least s3 e'] l by auto
      next
        case None
        then show ?thesis using eq ls tail by auto
      qed
    qed
  qed
  then show "took s s1 e" "e_end e \<le> file_end s1"
    "deficit \<le> elen e \<and> file_end s1 \<le> file_end s + round_up deficit
     \<or> length (fl s1) < length (fl s) \<and> file_end s1 = file_end s"
    "file_end s1 \<le> file_end s + round_up deficit" by auto
qed

lemma ext_retire_spec:
  assumes "ext_retire s old = (s', rc)"
  shows "s' = s\<lparr>fd := fd s', nretired := nretired s', retcap := retcap s'\<rparr>"
    "fbytes (fd s') = fbytes (fd s)" "flen (fd s') = flen (fd s)" "advances (fd s) (fd s')"
    "oom (fd s) = [] \<Longrightarrow> rc = LS_OK"
proof -
  obtain ok s1 where m: "st_malloc s = (ok, s1)" by fastforce
  note p = st_malloc_props [OF m]
  have "nretired s1 = nretired s" "retcap s1 = retcap s" by (subst p(1), simp)+
  then show "s' = s\<lparr>fd := fd s', nretired := nretired s', retcap := retcap s'\<rparr>"
    "fbytes (fd s') = fbytes (fd s)" "flen (fd s') = flen (fd s)" "advances (fd s) (fd s')"
    "oom (fd s) = [] \<Longrightarrow> rc = LS_OK"
    using assms m p by (auto simp: ext_retire_def split: if_splits)
qed

lemma ext_push_spec:
  assumes "ext_push s r e = res" "recs s r = Some x" "length (ext x) \<le> ncap x"
  shows "\<exists>s' rc nc. res = Some (s', rc)
     \<and> s' = s\<lparr>fd := fd s', recs := recs s', nretired := nretired s', retcap := retcap s'\<rparr>
     \<and> fbytes (fd s') = fbytes (fd s) \<and> flen (fd s') = flen (fd s) \<and> advances (fd s) (fd s')
     \<and> recs s' = (if rc = LS_OK then (recs s)(r \<mapsto> x\<lparr>ncap := nc, ext := ext x @ [e]\<rparr>) else recs s)
     \<and> length (ext x) < nc \<and> (oom (fd s) = [] \<longrightarrow> rc = LS_OK)"
proof (cases "length (ext x) = ncap x")
  case False
  then show ?thesis using assms
    by (auto simp: ext_push_def ext_append_def upd_rec_def intro!: exI [of _ "ncap x"])
next
  case True
  obtain ok s1 where m: "st_malloc s = (ok, s1)" by fastforce
  note p = st_malloc_props [OF m]
  obtain s2 rc where q: "ext_retire s1 (ncap x \<noteq> 0) = (s2, rc)" by fastforce
  note qs = ext_retire_spec [OF q]
  let ?nc = "if ncap x = 0 then 4 else ncap x * 2"
  have s2: "s2 = s\<lparr>fd := fd s2, nretired := nretired s2, retcap := retcap s2\<rparr>"
    by (subst qs(1), subst p(1)) simp
  have r2: "recs s2 = recs s" by (subst s2) simp
  have s1: "recs s1 = recs s" by (subst p(1)) simp
  let ?t = "ext_append (upd_rec s2 r (\<lambda>x. x\<lparr>ncap := (if ncap x = 0 then 4 else ncap x * 2)\<rparr>)) r e"
  have res: "res = (if \<not> ok then Some (s1, neg_errno ENOMEM) else if rc \<noteq> LS_OK then Some (s2, neg_errno ENOMEM)
      else Some (?t, LS_OK))"
    using assms(1,2) True m q by (auto simp: ext_push_def simp del: neq0_conv)
  have t: "recs ?t = (recs s)(r \<mapsto> x\<lparr>ncap := ?nc, ext := ext x @ [e]\<rparr>)" "fd ?t = fd s2"
    "?t = s2\<lparr>recs := recs ?t\<rparr>"
    using assms(2) by (simp_all add: ext_append_def upd_rec_def r2)
  have ts: "?t = s\<lparr>fd := fd ?t, recs := recs ?t, nretired := nretired ?t, retcap := retcap ?t\<rparr>"
    unfolding t(2) by (subst t(3), subst s2) (simp add: ext_append_def)
  have adv: "advances (fd s) (fd s2)" using p(4) qs(4) advances_trans by blast
  have quiet: "oom (fd s) = [] \<Longrightarrow> ok \<and> rc = LS_OK"
    using p(4,5) qs(5) by (auto simp: advances_def)
  have nc: "length (ext x) < ?nc" using True assms(3) by auto
  show ?thesis
  proof (cases "ok \<and> rc = LS_OK")
    case True
    then have "res = Some (?t, LS_OK)" using res by simp
    then show ?thesis using t ts adv nc p qs by (intro exI [of _ ?t] exI [of _ LS_OK] exI [of _ ?nc]) simp
  next
    case False
    then obtain v where v: "res = Some (v, neg_errno ENOMEM)" "v = s1 \<or> v = s2" using res by (auto split: if_splits)
    have "s1 = s\<lparr>fd := fd s1, recs := recs s1, nretired := nretired s1, retcap := retcap s1\<rparr>"
    proof -
      have "nretired s1 = nretired s" "retcap s1 = retcap s" by (subst p(1), simp)+
      then show ?thesis by (subst p(1)) (simp add: s1)
    qed
    moreover have "s2 = s\<lparr>fd := fd s2, recs := recs s2, nretired := nretired s2, retcap := retcap s2\<rparr>"
      by (subst s2) (simp add: r2)
    ultimately show ?thesis
      using v False quiet p qs adv r2 s1 nc
      by (intro exI [of _ v] exI [of _ "neg_errno ENOMEM"] exI [of _ ?nc]) auto
  qed
qed

text \<open>What the extents do to a record when one more, zeroed, is appended.\<close>

lemma rec_ok_push:
  assumes "rec_ok w x" "ext_ok e" "span_of e \<inter> set (locs (ext x)) = {}" "zeroed w (foff e) (elen e)"
    "length (ext x) < nc" "length (locs (ext x)) + elen e < u64_mod"
    "x' = x\<lparr>ncap := nc, ext := ext x @ [e], ext_total := add64 (ext_total x) (elen e)\<rparr>"
  shows "rec_ok w x'" "same_rec w x w x'" "set (locs (ext x')) = set (locs (ext x)) \<union> span_of e"
    "ext_total x' = ext_total x + elen e"
proof -
  have l: "locs (ext x') = locs (ext x) @ [foff e..<e_end e]" by (simp add: assms(7) locs_simps)
  then show "set (locs (ext x')) = set (locs (ext x)) \<union> span_of e" by auto
  show tot: "ext_total x' = ext_total x + elen e"
    using assms(1,6,7) by (simp add: rec_ok_def wrap_simps)
  have z: "fbytes w p = 0" "p < flen w" if "p \<in> span_of e" for p
    using assms(4) that by (auto simp: zeroed_def)
  have "fbytes w (locs (ext x') ! i) = 0" if "rsize x \<le> i" "i < length (locs (ext x'))" for i
  proof (cases "i < length (locs (ext x))")
    case True
    then show ?thesis using assms(1) that(1) unfolding l by (simp add: rec_ok_def nth_append)
  next
    case False
    then have "locs (ext x') ! i \<in> span_of e" using that(2) unfolding l by (simp add: nth_append) linarith
    then show ?thesis by (rule z(1))
  qed
  then show "rec_ok w x'"
    using assms(1,2,3,5) z(2) tot unfolding rec_ok_def l
    by (auto simp: assms(7) split: option.splits)
  show "same_rec w x w x'"
    using assms(1) by (auto simp: same_rec_def content_def locs_simps assms(7) rec_ok_def split: option.splits)
qed

lemma took_free_os:
  assumes "took s s1 e" "alloc_only s s1" "file_frame (fd s1) w (span_of e)"
    "alloc_inv t" "free_set t = free_set s1" "os_keeps w (fd t) UNIV"
    "ls_free_extents t [e] = s'" "\<not> teardown t"
  shows "alloc_inv s'" "alloc_only t s'" "free_set s' \<subseteq> free_set s" "os_keeps (fd s) (fd s') (- free_set s)"
    "file_end s' \<le> file_end t"
proof -
  have tk: "fd s1 = fd s" "ext_ok e" "span_of e \<subseteq> free_set s" "free_set s1 = free_set s - span_of e"
    using assms(1) by (auto simp: took_def)
  have l: "set (locs [e]) = span_of e" "distinct (locs [e])" by (auto simp: locs_simps)
  have "file_wf (fd t)" using assms(6) os_keepsD(2) by blast
  moreover have "\<forall>e\<in>set [e]. ext_ok e" "span_of e \<inter> free_set t = {}" using tk assms(5) by auto
  ultimately have f: "alloc_inv s'" "alloc_only t s'" "os_keeps (fd t) (fd s') (- free_set s')"
    "file_end s' \<le> file_end t" "free_set s' \<subseteq> free_set t \<union> span_of e"
    using ls_free_extents_spec [OF assms(4) _ _ _ l(2) assms(7), unfolded l(1)] by blast+
  show "alloc_inv s'" "alloc_only t s'" "file_end s' \<le> file_end t" using f by auto
  show sub: "free_set s' \<subseteq> free_set s" using f(5) tk(3,4) assms(5) by blast
  have "os_keeps (fd s) w (- span_of e)" using os_keeps_frame [OF assms(3), of "- span_of e"] tk(1) by simp
  then have "os_keeps (fd s) (fd t) (- span_of e)" using os_keeps_trans [OF _ assms(6)] by blast
  then show "os_keeps (fd s) (fd s') (- free_set s)"
    by (rule os_keeps_trans [OF _ f(3)]) (use tk(3) sub in blast)
qed

lemma add_extent_spec:
  assumes inv: "store_inv s" and r: "recs s r = Some x" and d: "0 < deficit" "file_end s + deficit + 4096 \<le> u64_mod"
  shows "\<exists>s' rc x'. add_extent s r deficit = Some (s', rc) \<and> evolves s s' \<and> recs s' = (recs s)(r \<mapsto> x')
     \<and> lru s' = lru s \<and> resident s' = resident s \<and> mem x' = mem x \<and> mem_cap x' = mem_cap x
     \<and> file_end s' \<le> file_end s + round_up deficit \<and> ext_total x \<le> ext_total x'
     \<and> (rc = LS_OK \<longrightarrow> ext_total x + deficit \<le> ext_total x'
          \<or> length (fl s') < length (fl s) \<and> file_end s' = file_end s)
     \<and> (quiet (fd s) \<and> file_end s + deficit + 8192 \<le> off_max \<longrightarrow> rc = LS_OK)"
proof -
  note i = store_invD [OF inv]
  have ok: "rec_ok (fd s) x" and dj: "set (locs (ext x)) \<inter> free_set s = {}" using i(7,8) [OF r] by auto
  obtain s1 e where pk: "pick_extent s (length (ext x)) deficit = (s1, e)" by fastforce
  note p = pick_extent_spec [OF pk i(2) d]
  have tk: "alloc_inv s1" "alloc_only s s1" "fd s1 = fd s" "ext_ok e" "span_of e \<subseteq> free_set s"
    "free_set s1 = free_set s - span_of e"
    using p(1) by (auto simp: took_def)
  note sel = alloc_only_sel [OF tk(2)]
  have bnd: "e_end e < u64_mod" using p(2,4) round_up_le [OF d(1,2)] by simp
  obtain w rc where z: "zero_range (fd s1) (direct s1) (foff e) (elen e) = (w, rc)" by fastforce
  have "io_ok (fd s1) (direct s1)" using i(3) tk(3) sel(3) by simp
  note zs = zero_range_spec [OF z bnd this]
  have fw: "file_frame (fd s1) w (span_of e)" "file_wf w" using zs file_frameD(2) by blast+
  have quiet_z: "quiet (fd s) \<and> file_end s + deficit + 8192 \<le> off_max \<longrightarrow> rc = LS_OK"
  proof -
    have "deficit + 4095 < u64_mod" using d(2) i(2) by (simp add: alloc_inv_def)
    from round_up_small(2) [OF this] show ?thesis using zs p(2,4) tk(3) by auto
  qed
  define s2 where "s2 = s1\<lparr>fd := w\<rparr>"
  have s2: "recs s2 = recs s" "fd s2 = w" "alloc_inv s2" "free_set s2 = free_set s1" "file_end s2 = file_end s1"
    "fl s2 = fl s1" "teardown s2 = teardown s"
    using tk(1) sel by (simp_all add: s2_def alloc_inv_def free_set_def)
  have adv_w: "advances (fd s) w" using file_frameD(1) [OF fw(1)] tk(3) by simp
  have undo_take: "evolves s s' \<and> recs s' = (recs s)(r \<mapsto> x) \<and> lru s' = lru s \<and> resident s' = resident s
      \<and> file_end s' \<le> file_end s + round_up deficit"
    if t: "t = s1\<lparr>fd := fd t, nretired := nretired t, retcap := retcap t\<rparr>" "os_keeps w (fd t) UNIV"
      and s': "ls_free_extents t [e] = s'" for t s'
  proof -
    have ts: "recs t = recs s" "lru t = lru s" "resident t = resident s" "file_end t = file_end s1" "fl t = fl s1"
      "tab t = tab s" "nrec t = nrec s" "fresh t = fresh s" "direct t = direct s" "teardown t = teardown s"
      "opts t = opts s" "path t = path s"
      by (subst t(1), simp add: sel)+
    have "alloc_inv t" "free_set t = free_set s1" using tk(1) ts by (simp_all add: alloc_inv_def free_set_def)
    note f = took_free_os [OF p(1) tk(2) fw(1) this t(2) s' i(5) [folded ts(10)]]
    note fs = alloc_only_sel [OF f(2)]
    have k: "os_keeps (fd s) (fd s') (\<Union>r'\<in>-{r}. used s r')" "os_keeps (fd s) (fd s') (set (locs (ext x)))"
      using others_disjoint [OF inv r] dj by (auto intro!: os_keeps_mono [OF f(4)])
    have own: "rec_ok (fd s') x" "same_rec (fd s) x (fd s') x"
      using rec_ok_keeps [OF ok k(2) order_refl] by auto
    have "tier_ok s'" using tier_ok_cong(1) [of s' s] i(4) fs ts by simp
    then have "evolves s s'"
      using r own dj f(1,3) k(1) fs ts
      by (intro evolves_step [OF inv r, of s' x]) auto
    then show ?thesis using fs ts f(5) p(4) r by auto
  qed
  show ?thesis
  proof (cases "rc = LS_OK")
    case False
    then have "add_extent s r deficit = Some (ls_free_extents s2 [e], rc)"
      using r pk z by (simp add: add_extent_def s2_def)
    moreover have "s2 = s1\<lparr>fd := fd s2, nretired := nretired s2, retcap := retcap s2\<rparr>" by (simp add: s2_def)
    moreover have "os_keeps w (fd s2) UNIV" using fw(2) s2(2) by (simp add: os_keeps_refl)
    ultimately show ?thesis using undo_take [of s2] False quiet_z by blast
  next
    case ok_z: True
    have r2: "recs s2 r = Some x" using r s2(1) by simp
    have "length (ext x) \<le> ncap x" using ok by (simp add: rec_ok_def)
    from ext_push_spec [OF refl r2 this, of e, unfolded s2(1,2)] obtain s3 rc3 nc
      where ps: "ext_push s2 r e = Some (s3, rc3)"
        "s3 = s2\<lparr>fd := fd s3, recs := recs s3, nretired := nretired s3, retcap := retcap s3\<rparr>"
        "fbytes (fd s3) = fbytes w" "flen (fd s3) = flen w" "advances w (fd s3)"
        "recs s3 = (if rc3 = LS_OK then (recs s)(r \<mapsto> x\<lparr>ncap := nc, ext := ext x @ [e]\<rparr>) else recs s)"
        "length (ext x) < nc" "oom w = [] \<longrightarrow> rc3 = LS_OK"
      by blast
    have k3: "os_keeps w (fd s3) UNIV" using ps(3-5) fw(2) by (auto intro: os_keeps_same)
    show ?thesis
    proof (cases "rc3 = LS_OK")
      case False
      have "s3 = s1\<lparr>fd := fd s3, nretired := nretired s3, retcap := retcap s3\<rparr>"
        by (subst ps(2)) (simp add: s2_def ps(6) False sel(4) [symmetric])
      moreover have "add_extent s r deficit = Some (ls_free_extents s3 [e], rc3)"
        using r pk z ok_z ps(1) False by (simp add: add_extent_def s2_def)
      moreover have "\<not> (quiet (fd s) \<and> file_end s + deficit + 8192 \<le> off_max)"
        using False ps(8) advances_quiet [OF adv_w] by (auto simp: quiet_def)
      ultimately show ?thesis using undo_take [of s3, OF _ k3] False by blast
    next
      case ok_p: True
      define x' where "x' = x\<lparr>ncap := nc, ext := ext x @ [e], ext_total := add64 (ext_total x) (elen e)\<rparr>"
      define s' where "s' = upd_rec s3 r (\<lambda>x. x\<lparr>ext_total := add64 (ext_total x) (elen e)\<rparr>)"
      have res: "add_extent s r deficit = Some (s', LS_OK)"
        using r pk z ok_z ps(1) ok_p by (simp add: add_extent_def s2_def s'_def)
      have rs: "recs s' = (recs s)(r \<mapsto> x')" using ps(6) ok_p by (simp add: s'_def recs_upd_rec x'_def)
      have fs: "lru s' = lru s" "resident s' = resident s" "file_end s' = file_end s1" "fl s' = fl s1" "fd s' = fd s3"
        "tab s' = tab s" "nrec s' = nrec s" "fresh s' = fresh s" "direct s' = direct s" "teardown s' = teardown s"
        "opts s' = opts s" "path s' = path s"
        by (simp_all add: s'_def) (subst ps(2), simp add: s2_def sel)+
      have al: "alloc_inv s'" "free_set s' = free_set s - span_of e"
        using tk fs by (simp_all add: alloc_inv_def free_set_def)
      have kw: "os_keeps (fd s) (fd s') (- span_of e)"
        using os_keeps_trans [OF os_keeps_frame [OF fw(1), of "- span_of e"] k3, of "- span_of e"] tk(3) fs(5) by simp
      have k: "os_keeps (fd s) (fd s') (\<Union>r'\<in>-{r}. used s r')" "os_keeps (fd s) (fd s') (set (locs (ext x)))"
        using others_disjoint [OF inv r] dj tk(5) by (auto intro!: os_keeps_mono [OF kw])
      have "zeroed (fd s') (foff e) (elen e)" using zs ok_z ps(3,4) fs(5) by (simp add: zeroed_def)
      moreover have "length (locs (ext x)) + elen e < u64_mod"
      proof -
        have "set (locs (ext x)) \<union> span_of e \<subseteq> {..<file_end s1}"
          using dj p(2) tk(6) dj by (auto simp: free_set_def)
        then have "card (set (locs (ext x)) \<union> span_of e) \<le> file_end s1"
          by (metis card_lessThan card_mono finite_lessThan)
        moreover have "card (set (locs (ext x)) \<union> span_of e) = length (locs (ext x)) + elen e"
          using ok dj tk(5) by (subst card_Un_disjoint) (auto simp: rec_ok_def distinct_card)
        ultimately show ?thesis using tk(1) by (simp add: alloc_inv_def)
      qed
      moreover have own: "rec_ok (fd s') x" "same_rec (fd s) x (fd s') x"
        using rec_ok_keeps [OF ok k(2) order_refl] by auto
      moreover have "span_of e \<inter> set (locs (ext x)) = {}" using dj tk(5) by blast
      ultimately have x': "rec_ok (fd s') x'" "same_rec (fd s') x (fd s') x'"
        "set (locs (ext x')) = set (locs (ext x)) \<union> span_of e" "ext_total x' = ext_total x + elen e"
        using rec_ok_push [of "fd s'" x e nc x'] tk(4) ps(7) x'_def by blast+
      have "tier_ok s'" using tier_ok_cong(1) [of s' s] i(4) fs rs r by (auto simp: x'_def)
      then have "evolves s s'"
        using x' own same_rec_trans [OF own(2) x'(2)] dj tk(5) al k(1) fs rs
        by (intro evolves_step [OF inv r rs]) auto
      then show ?thesis using res rs fs x'(4) p(3,4)
        by (intro exI [of _ s'] exI [of _ LS_OK] exI [of _ x']) (auto simp: x'_def)
    qed
  qed
qed

end
