(* ===== verification/Tier.thy ===== *)
theory Tier
  imports Capacity
begin

text \<open>
  The capacity operations keep the store: \<open>ensure_extents\<close>, \<open>spill\<close>, \<open>ls_evict_to\<close> and
  \<open>ensure_cap\<close> always return on a well-formed store that fits 64 bits, preserve its invariant and
  every record's content, and provide the capacity they promise. The memory tier never
  exceeds its budget.
\<close>

subsection \<open>Growing a record in the file\<close>

lemma ensure_extents_spec:
  assumes "store_inv s" "recs s r = Some x" "file_end s + (need - ext_total x) + 4096 \<le> u64_mod"
  shows "\<exists>s' rc x'. ensure_extents s r need = Some (s', rc) \<and> evolves s s' \<and> recs s' = (recs s)(r \<mapsto> x')
     \<and> lru s' = lru s \<and> resident s' = resident s \<and> mem x' = mem x \<and> mem_cap x' = mem_cap x
     \<and> file_end s' \<le> file_end s + (need - ext_total x) + 4095
     \<and> (rc = LS_OK \<longrightarrow> need \<le> ext_total x')
     \<and> (quiet (fd s) \<and> file_end s + (need - ext_total x) + 8192 \<le> off_max \<longrightarrow> rc = LS_OK)"
  using assms
proof (induction "length (fl s)" arbitrary: s x rule: less_induct)
  case less
  show ?case
  proof (cases "need \<le> ext_total x")
    case True
    have "ensure_extents s r need = Some (s, LS_OK)"
      using True less.prems(2) by (subst ensure_extents.simps) simp
    then show ?thesis using True less.prems evolves_refl
      by (intro exI [of _ s] exI [of _ LS_OK] exI [of _ x]) auto
  next
    case False
    let ?d = "need - ext_total x"
    have d: "0 < ?d" using False by simp
    obtain s1 rc x1 where a: "add_extent s r ?d = Some (s1, rc)" "evolves s s1" "recs s1 = (recs s)(r \<mapsto> x1)"
      "lru s1 = lru s" "resident s1 = resident s" "mem x1 = mem x" "mem_cap x1 = mem_cap x"
      "file_end s1 \<le> file_end s + round_up ?d" "ext_total x \<le> ext_total x1"
      "rc = LS_OK \<longrightarrow> ext_total x + ?d \<le> ext_total x1
          \<or> length (fl s1) < length (fl s) \<and> file_end s1 = file_end s"
      "quiet (fd s) \<and> file_end s + ?d + 8192 \<le> off_max \<longrightarrow> rc = LS_OK"
      using add_extent_spec [OF less.prems(1,2) d less.prems(3)] by blast
    have "?d + 4095 < u64_mod" using less.prems(1,3) store_invD(2) by (fastforce simp: alloc_inv_def)
    from round_up_small(2) [OF this] have fe: "file_end s1 \<le> file_end s + ?d + 4095" using a(8) by simp
    have step: "ensure_extents s r need = (if rc \<noteq> LS_OK then Some (s1, rc) else ensure_extents s1 r need)"
      using less.prems(2) False a(1) by (subst ensure_extents.simps) simp
    show ?thesis
    proof (cases "rc = LS_OK")
      case nok: False
      then show ?thesis using step a fe by (intro exI [of _ s1] exI [of _ rc] exI [of _ x1]) auto
    next
      case ok: True
      have r1: "recs s1 r = Some x1" using a(3) by simp
      show ?thesis
      proof (cases "need \<le> ext_total x1")
        case True
        have "ensure_extents s1 r need = Some (s1, LS_OK)"
          using True r1 by (subst ensure_extents.simps) simp
        then show ?thesis using step ok True a fe by (intro exI [of _ s1] exI [of _ LS_OK] exI [of _ x1]) auto
      next
        case more: False
        then have sh: "length (fl s1) < length (fl s)" "file_end s1 = file_end s" using a(10) ok by auto
        have "file_end s1 + (need - ext_total x1) + 4096 \<le> u64_mod" using less.prems(3) sh(2) a(9) by linarith
        from less.hyps [OF sh(1) evolvesD(1) [OF a(2)] r1 this] obtain s' rc' x' where
          b: "ensure_extents s1 r need = Some (s', rc')" "evolves s1 s'" "recs s' = (recs s1)(r \<mapsto> x')"
          "lru s' = lru s1" "resident s' = resident s1" "mem x' = mem x1" "mem_cap x' = mem_cap x1"
          "file_end s' \<le> file_end s1 + (need - ext_total x1) + 4095" "rc' = LS_OK \<longrightarrow> need \<le> ext_total x'"
          "quiet (fd s1) \<and> file_end s1 + (need - ext_total x1) + 8192 \<le> off_max \<longrightarrow> rc' = LS_OK" by blast
        have "quiet (fd s) \<Longrightarrow> quiet (fd s1)" using evolvesD(5) [OF a(2)] advances_quiet by blast
        moreover have "file_end s1 + (need - ext_total x1) \<le> file_end s + ?d" using sh(2) a(9) by linarith
        ultimately show ?thesis using step ok a b evolves_trans [OF a(2) b(2)]
          by (intro exI [of _ s'] exI [of _ rc'] exI [of _ x']) auto
      qed
    qed
  qed
qed

subsection \<open>Spilling\<close>

lemma take_locs_head: "k \<le> elen e \<Longrightarrow> take k (locs (e # es)) = [foff e..<foff e + k]"
  by (simp add: locs_simps)

lemma take_locs_more: "elen e \<le> k \<Longrightarrow> take k (locs (e # es)) = [foff e..<e_end e] @ take (k - elen e) (locs es)"
  by (simp add: locs_simps)

lemma spill_write_spec:
  assumes "spill_write w d es buf pos left = (w', rc)" "io_ok w d" "distinct (locs es)"
    and "\<forall>e\<in>set es. e_end e < u64_mod" "left \<le> length (locs es)" "pos + left \<le> length buf"
  shows "file_frame w w' (set (take left (locs es)))
    \<and> (rc = LS_OK \<longrightarrow> holds w' (take left (locs es)) (part buf pos left))
    \<and> (quiet w \<and> (\<forall>e\<in>set es. e_end e + 4096 \<le> off_max) \<longrightarrow> rc = LS_OK)"
  using assms
proof (induction w d es buf pos left rule: spill_write.induct)
  case (1 w d buf pos left)
  then show ?case by (auto simp: io_ok_def file_frame_refl)
next
  case (2 w d e es buf pos left)
  note ih = 2(1) and prems = 2(2-7)
  show ?case
  proof (cases "left = 0")
    case True
    then show ?thesis using prems by (auto simp: io_ok_def file_frame_refl)
  next
    case False
    define k where "k = (if elen e < left then elen e else left)"
    obtain v r where w: "ls_pwrite_all w d (take k (drop pos buf)) (foff e) = (v, r)" by fastforce
    have kb: "length (take k (drop pos buf)) = k" "k \<le> elen e" "k \<le> left" using prems(6) by (auto simp: k_def)
    have "foff e + length (take k (drop pos buf)) < u64_mod" using kb prems(4) by auto
    note ws = ls_pwrite_all_spec [OF w this prems(2), unfolded kb(1)]
    have eqn: "(w', rc) = (if r \<noteq> LS_OK then (v, r) else spill_write v d es buf (pos + k) (left - k))"
      using prems(1) False w unfolding k_def by (simp add: Let_def cong: if_cong)
    have tk: "take left (locs (e # es)) = [foff e..<foff e + k] @ take (left - k) (locs es)"
      unfolding k_def by (simp add: locs_simps)
    have dj: "distinct (locs es)" "span_of e \<inter> set (locs es) = {}" using prems(3) by (auto simp: locs_simps)
    have quiet_v: "quiet w \<Longrightarrow> quiet v" using ws(1) advances_quiet file_frameD(1) by blast
    show ?thesis
    proof (cases "r = LS_OK")
      case False
      then have "w' = v" "rc = r" using eqn by auto
      then show ?thesis using ws(1,4) kb(2) False unfolding tk
        by (auto intro: file_frame_mono)
    next
      case ok: True
      then have rec: "spill_write v d es buf (pos + k) (left - k) = (w', rc)" using eqn by simp
      have io: "io_ok v d" using ws(1) prems(2) io_ok_frame by blast
      have "left - k \<le> length (locs es)" using prems(5) by (auto simp: k_def locs_simps)
      moreover have "pos + k + (left - k) \<le> length buf" using prems(6) kb(3) by linarith
      moreover have "(v, r) = ls_pwrite_all w d (take k (drop pos buf)) (foff e)" "\<not> r \<noteq> LS_OK" using w ok by auto
      moreover have "\<forall>e\<in>set es. e_end e < u64_mod" using prems(4) by simp
      ultimately have rest: "file_frame v w' (set (take (left - k) (locs es)))
        \<and> (rc = LS_OK \<longrightarrow> holds w' (take (left - k) (locs es)) (part buf (pos + k) (left - k)))
        \<and> (quiet v \<and> (\<forall>e\<in>set es. e_end e + 4096 \<le> off_max) \<longrightarrow> rc = LS_OK)"
        using ih [OF False k_def _ _ rec io dj(1)] by blast
      have hv: "holds v [foff e..<foff e + k] (part buf pos k)"
        using ws(2) [OF ok] holds_upt [of v "foff e" "part buf pos k"] kb(1) by (simp add: Prelude.part_def)
      have "set [foff e..<foff e + k] \<inter> set (take (left - k) (locs es)) = {}"
        using dj(2) kb(2) set_take_subset [of "left - k" "locs es"] by fastforce
      then have "holds w' [foff e..<foff e + k] (part buf pos k)" using hv rest holds_frame by blast
      then have "rc = LS_OK \<longrightarrow> holds w' (take left (locs (e # es))) (part buf pos left)"
        unfolding tk using rest holds_append part_append [of buf pos k "left - k"] kb(3) by fastforce
      moreover have "file_frame w w' (set (take left (locs (e # es))))"
        unfolding tk set_append set_upt_ival by (rule file_frame_trans [OF ws(1) conjunct1 [OF rest] order_refl])
      ultimately show ?thesis using rest quiet_v by auto
    qed
  qed
qed

lemma nth_notin_take: "distinct xs \<Longrightarrow> k \<le> i \<Longrightarrow> i < length xs \<Longrightarrow> xs ! i \<notin> set (take k xs)"
  by (auto simp: in_set_conv_nth nth_eq_iff_index_eq)

lemma ext_below:
  assumes "store_inv s" "recs s r = Some x" "e \<in> set (ext x)"
  shows "e_end e \<le> file_end s" "e_end e \<le> flen (fd s)" "e_end e < u64_mod"
proof -
  have "ext_ok e" and fl: "\<forall>p\<in>set (locs (ext x)). p < flen (fd s)"
    using store_invD(7) [OF assms(1,2)] assms(3) by (auto simp: rec_ok_def)
  then have last: "e_end e - 1 \<in> span_of e" "0 < elen e" by (auto simp: ext_ok_def)
  then have "e_end e - 1 \<in> set (locs (ext x))" using assms(3) by (auto simp: set_locs)
  then have "e_end e - 1 < flen (fd s)" "e_end e - 1 \<notin> free_set s"
    using fl store_invD(8) [OF assms(1,2)] by blast+
  then show "e_end e \<le> file_end s" "e_end e \<le> flen (fd s)" using last(2) by (auto simp: free_set_def)
  then show "e_end e < u64_mod" using store_invD(2) [OF assms(1)] by (simp add: alloc_inv_def)
qed

lemma finite_res_set: "store_inv s \<Longrightarrow> finite (res_set s)"
proof -
  assume "store_inv s"
  then have "finite (dom (recs s))" using store_invD(1) unfolding toc_inv_def by (metis List.finite_set)
  moreover have "res_set s \<subseteq> dom (recs s)" by (auto simp: res_set_def)
  ultimately show ?thesis using finite_subset by blast
qed

lemma res_set_iff: "recs s r = Some x \<Longrightarrow> r \<in> res_set s \<longleftrightarrow> mem x \<noteq> None"
  by (simp add: res_set_def)

lemma share_cong: "recs s' = recs s \<Longrightarrow> res_set s' = res_set s \<and> share s' = share s"
  by (simp add: res_set_def share_def rcap_def fun_eq_iff)

lemma rcap_eq [simp]: "recs s r = Some x \<Longrightarrow> rcap s r = mem_cap x"
  by (simp add: rcap_def)

text \<open>One record leaves the tier.\<close>

lemma tier_ok_leave:
  assumes "tier_ok s" "finite (res_set s)" "recs s r = Some x" "mem x \<noteq> None"
    and "recs s' = (recs s)(r \<mapsto> x')" "mem x' = None" "lru s' = lru_drop (lru s) r"
    and "resident s' = resident s - mem_cap x" "opts s' = opts s"
  shows "tier_ok s'" "res_set s' = res_set s - {r}" "mem_cap x \<le> resident s"
    "r' \<noteq> r \<Longrightarrow> share s' r' = share s r'" "share s' r = 0"
proof -
  have r: "r \<in> res_set s" using assms(3,4) by (simp add: res_set_def)
  show rs: "res_set s' = res_set s - {r}" using assms(5,6) by (auto simp: res_set_def)
  have cap: "rcap s' r' = rcap s r'" if "r' \<noteq> r" for r' using assms(5) that by (simp add: rcap_def)
  obtain xs where xs: "lru_list (lru s) xs" "set xs = res_set s" using assms(1) by (auto simp: tier_ok_def)
  have "lru_list (lru s') (remove1 r xs)" using lru_drop_list [OF xs(1)] assms(7) by simp
  moreover have "set (remove1 r xs) = res_set s'" using xs rs by (simp add: lru_list_def)
  moreover have sum: "resident s = rcap s r + (\<Sum>r'\<in>res_set s - {r}. rcap s r')"
    using assms(1,2) r by (simp add: tier_ok_def sum.remove)
  moreover have "(\<Sum>r'\<in>res_set s'. rcap s' r') = (\<Sum>r'\<in>res_set s - {r}. rcap s r')"
    unfolding rs by (rule sum.cong) (auto simp: cap)
  ultimately show "tier_ok s'" using assms(1,3,8,9) unfolding tier_ok_def by auto
  show "mem_cap x \<le> resident s" using sum assms(3) by simp
  show "r' \<noteq> r \<Longrightarrow> share s' r' = share s r'" "share s' r = 0" using rs cap by (auto simp: share_def)
qed

lemma spill_spec:
  assumes inv: "store_inv s" and r: "recs s r = Some x" and fit: "file_end s + share s r \<le> u64_mod"
  shows "\<exists>s' rc x'. spill s r = Some (s', rc) \<and> evolves s s' \<and> recs s' = (recs s)(r \<mapsto> x')
     \<and> file_end s' \<le> file_end s + share s r \<and> (\<forall>r'. r' \<noteq> r \<longrightarrow> share s' r' = share s r')
     \<and> resident s' \<le> resident s
     \<and> (rc = LS_OK \<longrightarrow> mem x' = None \<and> res_set s' = res_set s - {r} \<and> file_end s' + 1 \<le> file_end s + share s r + (if mem x = None then 1 else 0))
     \<and> (rc \<noteq> LS_OK \<longrightarrow> res_set s' = res_set s)
     \<and> (quiet (fd s) \<and> file_end s + share s r + 4096 \<le> off_max \<longrightarrow> rc = LS_OK)
     \<and> (mem x \<noteq> None \<longrightarrow> (if rc = LS_OK then lru s' = lru_drop (lru s) r \<and> resident s' = resident s - mem_cap x
          else lru s' = lru s \<and> resident s' = resident s))"
proof (cases "mem x")
  case None
  then have "spill s r = Some (s, LS_OK)" "res_set s - {r} = res_set s" using r by (auto simp: spill_def res_set_def)
  then show ?thesis using r None evolves_refl [OF inv]
    by (intro exI [of _ s] exI [of _ LS_OK] exI [of _ x]) (auto simp: fun_upd_idem)
next
  case (Some b)
  have res: "r \<in> res_set s" and sh: "share s r = mem_cap x + 4096" using r Some by (auto simp: share_def res_set_def)
  have ok: "rec_ok (fd s) x" by (rule store_invD(7) [OF inv r])
  then have b: "length (bdata b) = mem_cap x" "rsize x \<le> mem_cap x" using Some by (auto simp: rec_ok_def)
  have "file_end s + (rsize x - ext_total x) + 4096 \<le> u64_mod" using fit sh b(2) by linarith
  from ensure_extents_spec [OF inv r this] obtain s1 rc1 x1 where
    e: "ensure_extents s r (rsize x) = Some (s1, rc1)" "evolves s s1" "recs s1 = (recs s)(r \<mapsto> x1)"
      "lru s1 = lru s" "resident s1 = resident s" "mem x1 = Some b" "mem_cap x1 = mem_cap x"
      "file_end s1 \<le> file_end s + (rsize x - ext_total x) + 4095"
      "rc1 = LS_OK \<longrightarrow> rsize x \<le> ext_total x1"
      "quiet (fd s) \<and> file_end s + (rsize x - ext_total x) + 8192 \<le> off_max \<longrightarrow> rc1 = LS_OK"
    using Some by auto
  have fe: "file_end s1 + 1 \<le> file_end s + share s r" using e(8) sh b(2) by linarith
  have inv1: "store_inv s1" using evolvesD(1) [OF e(2)] .
  have r1: "recs s1 r = Some x1" using e(3) by simp
  have sz: "rsize x1 = rsize x" using evolvesD(6) [OF e(2) r] r1 by (auto simp: same_rec_def)
  have tier1: "res_set s1 = res_set s" "share s1 r' = share s r'" for r'
  proof -
    show rs: "res_set s1 = res_set s" using e(3,6) Some r by (auto simp: res_set_def)
    show "share s1 r' = share s r'" using e(3,7) r by (simp add: share_def rs rcap_def)
  qed
  show ?thesis
  proof (cases "rc1 = LS_OK")
    case False
    then have "spill s r = Some (s1, rc1)" using r Some e(1) by (simp add: spill_def)
    moreover have "\<not> (quiet (fd s) \<and> file_end s + share s r + 4096 \<le> off_max)"
      using e(10) False sh b(2) by auto
    ultimately show ?thesis using e fe tier1 False by (intro exI [of _ s1] exI [of _ rc1] exI [of _ x1]) auto
  next
    case ok1: True
    have okx: "rec_ok (fd s1) x1" by (rule store_invD(7) [OF inv1 r1])
    then have cov: "rsize x \<le> length (locs (ext x1))" using e(9) ok1 by (simp add: rec_ok_def)
    obtain w rc where sw: "spill_write (fd s1) (direct s1) (ext x1) (bdata b) 0 (rsize x) = (w, rc)" by fastforce
    have "distinct (locs (ext x1))" "\<forall>e\<in>set (ext x1). e_end e < u64_mod" "0 + rsize x \<le> length (bdata b)"
      using okx ext_below(3) [OF inv1 r1] b by (auto simp: rec_ok_def)
    note ws = spill_write_spec [OF sw store_invD(3) [OF inv1] this(1,2) cov this(3)]
    have quiet_ok: "quiet (fd s) \<and> file_end s + share s r + 4096 \<le> off_max \<longrightarrow> rc = LS_OK"
    proof (intro impI)
      assume q: "quiet (fd s) \<and> file_end s + share s r + 4096 \<le> off_max"
      then have "quiet (fd s1)" using evolvesD(5) [OF e(2)] advances_quiet by blast
      moreover have "\<forall>e\<in>set (ext x1). e_end e + 4096 \<le> off_max"
        using ext_below(1) [OF inv1 r1] fe q by fastforce
      ultimately show "rc = LS_OK" using ws by blast
    qed
    define s2 where "s2 = s1\<lparr>fd := w\<rparr>"
    have own: "set (take (rsize x) (locs (ext x1))) \<subseteq> set (locs (ext x1))" by (rule set_take_subset)
    have keep: "os_keeps (fd s1) w (\<Union>r'\<in>-{r}. used s1 r')"
      using os_keeps_frame [OF conjunct1 [OF ws]] others_disjoint [OF inv1 r1] own by blast
    have tail: "fbytes w (locs (ext x1) ! i) = 0" if "rsize x \<le> i" "i < length (locs (ext x1))" for i
    proof -
      have "locs (ext x1) ! i \<notin> set (take (rsize x) (locs (ext x1)))"
        using okx that by (intro nth_notin_take) (auto simp: rec_ok_def)
      then have "fbytes w (locs (ext x1) ! i) = fbytes (fd s1) (locs (ext x1) ! i)"
        using ws file_frameD(4) by blast
      then show ?thesis using okx that sz by (simp add: rec_ok_def)
    qed
    have fl: "flen (fd s1) \<le> flen w" using ws file_frameD(3) by blast
    have inside: "\<forall>p\<in>set (locs (ext x1)). p < flen w" using okx fl by (fastforce simp: rec_ok_def)
    have rok: "rec_ok w x1" using okx tail inside sz by (simp add: rec_ok_def)
    have dj1: "set (locs (ext x1)) \<inter> free_set s1 = {}" by (rule store_invD(8) [OF inv1 r1])
    have sp: "spill s r = (if rc \<noteq> LS_OK then Some (s2, rc) else Some (drop_buffer s2 r x1, LS_OK))"
      using r Some e(1,6) ok1 r1 sw sz by (simp add: spill_def s2_def)
    have al2: "alloc_inv s2" "free_set s2 = free_set s1"
      using store_invD(2) [OF inv1] by (simp_all add: s2_def alloc_inv_def free_set_def)
    show ?thesis
    proof (cases "rc = LS_OK")
      case False
      have "evolves s1 s2"
      proof (rule evolves_step [OF inv1 r1])
        show "recs s2 = (recs s1)(r \<mapsto> x1)" using r1 by (simp add: s2_def fun_upd_idem)
        show "same_rec (fd s1) x1 (fd s2) x1" using e(6) by (simp add: same_rec_def content_def)
        show "tier_ok s2" using tier_ok_cong(1) [of s2 s1] store_invD(4) [OF inv1] by (simp add: s2_def)
      qed (use al2 dj1 keep rok in \<open>auto simp: s2_def\<close>)
      moreover have "res_set s2 = res_set s" "share s2 r' = share s r'" for r'
        using tier1 share_cong [of s2 s1] by (simp_all add: s2_def)
      ultimately show ?thesis using sp False quiet_ok e(3,4,5) fe evolves_trans [OF e(2)]
        by (intro exI [of _ s2] exI [of _ rc] exI [of _ x1]) (auto simp: s2_def)
    next
      case ok: True
      define x' where "x' = x1\<lparr>mem := None, mem_cap := 0\<rparr>"
      define s' where "s' = drop_buffer s2 r x1"
      have rs': "recs s' = (recs s1)(r \<mapsto> x')"
        using r1 by (simp add: s'_def drop_buffer_def ls_lru_drop_def recs_upd_rec s2_def x'_def)
      have lv: "tier_ok s1" "finite (res_set s1)" "mem x1 \<noteq> None" "mem x' = None"
        using store_invD(4) [OF inv1] finite_res_set [OF inv1] e(6) by (simp_all add: x'_def)
      have capr: "mem_cap x1 \<le> resident s1"
      proof -
        have "r \<in> res_set s1" using r1 lv(3) by (simp add: res_set_def)
        then have "rcap s1 r \<le> (\<Sum>r\<in>res_set s1. rcap s1 r)" using lv(2) by (intro member_le_sum) auto
        then show ?thesis using lv(1) r1 by (simp add: tier_ok_def)
      qed
      have fs: "lru s' = lru_drop (lru s1) r" "resident s' = resident s1 - mem_cap x1" "opts s' = opts s1"
        "fd s' = w" "tab s' = tab s1" "nrec s' = nrec s1" "fresh s' = fresh s1" "direct s' = direct s1"
        "teardown s' = teardown s1" "path s' = path s1" "fl s' = fl s1" "file_end s' = file_end s1"
        using capr by (simp_all add: s'_def drop_buffer_def ls_lru_drop_def s2_def)
      note tl = tier_ok_leave [OF lv(1,2) r1 lv(3) rs' lv(4) fs(1-3)]
      have al': "alloc_inv s'" "free_set s' = free_set s1"
        using store_invD(2) [OF inv1] fs by (simp_all add: alloc_inv_def free_set_def)
      have "map (fbytes w) (take (rsize x) (locs (ext x1))) = take (rsize x) (bdata b)"
        using ws ok by (simp add: holds_def Prelude.part_def)
      then have same: "same_rec (fd s1) x1 (fd s') x'"
        using e(6) sz fs(4) by (simp add: same_rec_def content_def x'_def)
      have "rec_ok (fd s') x'" using rok cov sz fs(4) by (simp add: rec_ok_def x'_def)
      then have ev: "evolves s1 s'"
        using al' dj1 keep fs tl(1) same by (intro evolves_step [OF inv1 r1 rs']) (auto simp: x'_def)
      have "res_set s' = res_set s - {r}" "\<forall>r'. r' \<noteq> r \<longrightarrow> share s' r' = share s r'"
        using tl(2,4) tier1 by auto
      then show ?thesis using sp ok rs' e(3,4,5,7) fs(1,2,12) fe evolves_trans [OF e(2) ev] lv(4) Some
        by (intro exI [of _ s'] exI [of _ LS_OK] exI [of _ x']) (auto simp: s'_def [symmetric])
    qed
  qed
qed

subsection \<open>Eviction\<close>

lemma demand_split: "finite (res_set s) \<Longrightarrow> r \<in> res_set s \<Longrightarrow>
    demand s = file_end s + share s r + (\<Sum>r'\<in>res_set s - {r}. share s r')"
  by (simp add: demand_def sum.remove)

lemma demand_ge: "finite (res_set s) \<Longrightarrow> file_end s + share s r \<le> demand s"
  by (cases "r \<in> res_set s") (auto simp: demand_split, auto simp: demand_def share_def)

lemma demand_ge2:
  assumes "finite (res_set s)" "r \<noteq> r'"
  shows "file_end s + share s r + share s r' \<le> demand s"
proof (cases "r \<in> res_set s \<and> r' \<in> res_set s")
  case True
  then have "share s r' \<le> (\<Sum>r'\<in>res_set s - {r}. share s r')"
    using assms by (intro member_le_sum) auto
  then show ?thesis using demand_split [OF assms(1), of r] True by simp
next
  case False
  then show ?thesis using demand_ge [OF assms(1), of r] demand_ge [OF assms(1), of r'] by (auto simp: share_def)
qed

lemma evict_spec:
  assumes "store_inv s" "demand s \<le> u64_mod"
  shows "\<exists>s' rc. ls_evict_to s budget keep = Some (s', rc) \<and> evolves s s' \<and> resident s' \<le> resident s
     \<and> (\<forall>r. Some r = keep \<longrightarrow> recs s' r = recs s r \<and> file_end s' + share s r \<le> demand s)
     \<and> (keep = None \<longrightarrow> file_end s' \<le> demand s)
     \<and> (rc = LS_OK \<longrightarrow> resident s' \<le> budget \<or> (\<forall>r\<in>res_set s'. Some r = keep \<or> is_busy s' r))
     \<and> (quiet (fd s) \<and> demand s + 4096 \<le> off_max \<longrightarrow> rc = LS_OK)"
  using assms
proof (induction "card (res_set s)" arbitrary: s rule: less_induct)
  case less
  have fin: "finite (res_set s)" by (rule finite_res_set [OF less.prems(1)])
  have here: "\<forall>r. file_end s + share s r \<le> demand s" "file_end s \<le> demand s"
    using demand_ge [OF fin] by (auto simp: demand_def)
  show ?case
  proof (cases "budget < resident s")
    case False
    then have "ls_evict_to s budget keep = Some (s, LS_OK)" by (subst ls_evict_to.simps) simp
    then show ?thesis using False here evolves_refl [OF less.prems(1)] by auto
  next
    case True
    let ?skip = "\<lambda>v. Some v = keep \<or> is_busy s v"
    obtain xs where xs: "lru_list (lru s) xs" "set xs = res_set s"
      using store_invD(4) [OF less.prems(1)] by (auto simp: tier_ok_def)
    obtain vo where vo: "lru_victim (lru s) ?skip = Some vo" using lru.victim_allowed(3) [OF xs(1)] by blast
    show ?thesis
    proof (cases vo)
      case None
      then have "ls_evict_to s budget keep = Some (s, LS_OK)" using True vo by (subst ls_evict_to.simps) simp
      moreover have "\<forall>r\<in>res_set s. ?skip r" using lru.victim_allowed(1) [OF xs(1)] vo None xs(2) by blast
      ultimately show ?thesis using here evolves_refl [OF less.prems(1)] by auto
    next
      case (Some v)
      have v: "v \<in> res_set s" "\<not> ?skip v" using lru.victim_allowed(2) [OF xs(1)] vo Some xs(2) by blast+
      then obtain x where x: "recs s v = Some x" by (auto simp: res_set_def)
      have "file_end s + share s v \<le> u64_mod" using here(1) less.prems(2) le_trans by blast
      from spill_spec [OF less.prems(1) x this] obtain s1 rc1 x1 where
        p: "spill s v = Some (s1, rc1)" "evolves s s1" "recs s1 = (recs s)(v \<mapsto> x1)"
        "file_end s1 \<le> file_end s + share s v" "\<forall>r'. r' \<noteq> v \<longrightarrow> share s1 r' = share s r'"
        "resident s1 \<le> resident s" "rc1 = LS_OK \<longrightarrow> res_set s1 = res_set s - {v}"
        "quiet (fd s) \<and> file_end s + share s v + 4096 \<le> off_max \<longrightarrow> rc1 = LS_OK" by metis
      have step: "ls_evict_to s budget keep = (if rc1 \<noteq> LS_OK then Some (s1, rc1) else ls_evict_to s1 budget keep)"
        using True vo Some p(1) by (subst ls_evict_to.simps) simp
      have kept: "recs s1 r = recs s r" "share s1 r = share s r" "file_end s1 + share s r \<le> demand s"
        if "Some r = keep" for r
      proof -
        have "v \<noteq> r" using that v(2) by auto
        then show "recs s1 r = recs s r" "share s1 r = share s r" "file_end s1 + share s r \<le> demand s"
          using p(3,4,5) demand_ge2 [OF fin, of v r] by auto
      qed
      have fe: "file_end s1 \<le> demand s" using p(4) here(1) le_trans by blast
      show ?thesis
      proof (cases "rc1 = LS_OK")
        case False
        then have "\<not> (quiet (fd s) \<and> demand s + 4096 \<le> off_max)"
          using p(8) here(1) by (metis add_le_cancel_right le_trans)
        then show ?thesis using step False p kept fe
          by (intro exI [of _ s1] exI [of _ rc1]) auto
      next
        case ok: True
        have inv1: "store_inv s1" using evolvesD(1) [OF p(2)] .
        have rs1: "res_set s1 = res_set s - {v}" using p(7) ok by simp
        then have lt: "card (res_set s1) < card (res_set s)" using v(1) fin by (metis card_Diff1_less)
        have "(\<Sum>r\<in>res_set s1. share s1 r) = (\<Sum>r\<in>res_set s - {v}. share s r)"
          unfolding rs1 by (rule sum.cong) (use p(5) in auto)
        then have dem: "demand s1 \<le> demand s" using demand_split [OF fin v(1)] p(4) by (simp add: demand_def)
        then have "demand s1 \<le> u64_mod" using less.prems(2) by simp
        from less.hyps [OF lt inv1 this] obtain s' rc where
          h: "ls_evict_to s1 budget keep = Some (s', rc)" "evolves s1 s'" "resident s' \<le> resident s1"
          "\<forall>r. Some r = keep \<longrightarrow> recs s' r = recs s1 r \<and> file_end s' + share s1 r \<le> demand s1"
          "keep = None \<longrightarrow> file_end s' \<le> demand s1"
          "rc = LS_OK \<longrightarrow> resident s' \<le> budget \<or> (\<forall>r\<in>res_set s'. Some r = keep \<or> is_busy s' r)"
          "quiet (fd s1) \<and> demand s1 + 4096 \<le> off_max \<longrightarrow> rc = LS_OK" by blast
        have "quiet (fd s) \<Longrightarrow> quiet (fd s1)" using evolvesD(5) [OF p(2)] advances_quiet by blast
        moreover have "\<forall>r. Some r = keep \<longrightarrow> recs s' r = recs s r \<and> file_end s' + share s r \<le> demand s"
          using h(4) kept(1,2) dem by fastforce
        ultimately show ?thesis using step ok h dem evolves_trans [OF p(2) h(2)] p(6)
          by (intro exI [of _ s'] exI [of _ rc]) auto
      qed
    qed
  qed
qed

text \<open>The order of eviction: one victim leaves the list of recency, and the others keep their places.\<close>

lemma evict_one:
  assumes "store_inv s" "demand s \<le> u64_mod" "v \<in> res_set s"
  shows "\<exists>s1 rc. spill s v = Some (s1, rc) \<and> store_inv s1 \<and> is_busy s1 = is_busy s
     \<and> (\<forall>r. r \<noteq> v \<longrightarrow> rcap s1 r = rcap s r)
     \<and> (if rc = LS_OK then demand s1 \<le> demand s \<and> lru s1 = lru_drop (lru s) v \<and> resident s1 = resident s - rcap s v
            \<and> res_set s1 = res_set s - {v}
        else lru s1 = lru s \<and> resident s1 = resident s \<and> res_set s1 = res_set s)
     \<and> (quiet (fd s) \<longrightarrow> quiet (fd s1)) \<and> (quiet (fd s) \<and> demand s + 4096 \<le> off_max \<longrightarrow> rc = LS_OK)"
proof -
  have fin: "finite (res_set s)" by (rule finite_res_set [OF assms(1)])
  have fe: "file_end s + share s v \<le> demand s" by (rule demand_ge [OF fin])
  obtain x where x: "recs s v = Some x" "mem x \<noteq> None" using assms(3) by (auto simp: res_set_def)
  obtain s1 rc x1 where p: "spill s v = Some (s1, rc)" "evolves s s1" "recs s1 = (recs s)(v \<mapsto> x1)"
    "file_end s1 \<le> file_end s + share s v" "\<forall>r'. r' \<noteq> v \<longrightarrow> share s1 r' = share s r'"
    "rc = LS_OK \<longrightarrow> mem x1 = None \<and> res_set s1 = res_set s - {v}
       \<and> file_end s1 + 1 \<le> file_end s + share s v + (if mem x = None then 1 else 0)" "rc \<noteq> LS_OK \<longrightarrow> res_set s1 = res_set s"
    "quiet (fd s) \<and> file_end s + share s v + 4096 \<le> off_max \<longrightarrow> rc = LS_OK"
    "mem x \<noteq> None \<longrightarrow> (if rc = LS_OK then lru s1 = lru_drop (lru s) v \<and> resident s1 = resident s - mem_cap x
          else lru s1 = lru s \<and> resident s1 = resident s)"
    using spill_spec [OF assms(1) x(1) order.trans [OF fe assms(2)]] by blast
  have "is_busy s1 r = is_busy s r" for r
  proof (cases "recs s r")
    case None
    then show ?thesis using evolvesD(7) [OF p(2)] by (simp add: is_busy_def)
  next
    case (Some y)
    then show ?thesis using evolvesD(6) [OF p(2) Some] by (auto simp: is_busy_def same_rec_def)
  qed
  then have busy: "is_busy s1 = is_busy s" by blast
  have "demand s1 \<le> demand s" if "rc = LS_OK"
  proof -
    have "(\<Sum>r\<in>res_set s1. share s1 r) = (\<Sum>r\<in>res_set s - {v}. share s r)"
      using p(5,6) that by (intro sum.cong) auto
    then show ?thesis using demand_split [OF fin assms(3)] p(4) by (simp add: demand_def)
  qed
  moreover have "\<forall>r. r \<noteq> v \<longrightarrow> rcap s1 r = rcap s r" using p(3) by (simp add: rcap_def)
  moreover have "quiet (fd s) \<longrightarrow> quiet (fd s1)" using evolvesD(5) [OF p(2)] advances_quiet by blast
  moreover have "quiet (fd s) \<and> demand s + 4096 \<le> off_max \<longrightarrow> rc = LS_OK" using p(8) fe by linarith
  ultimately show ?thesis using p(1,6,7,9) busy evolvesD(1) [OF p(2)] x by auto
qed

lemma lru_list_set: "lru_list l xs \<Longrightarrow> lru_list l ys \<Longrightarrow> set xs = set ys"
proof -
  have "r \<in> set xs \<longleftrightarrow> lru_victim l (\<lambda>v. v \<noteq> r) \<noteq> Some None" if "lru_list l xs" for r xs
    using lru_victim_list [OF that, of "\<lambda>v. v \<noteq> r"] by (auto simp: find_None_iff)
  then show "lru_list l xs \<Longrightarrow> lru_list l ys \<Longrightarrow> set xs = set ys" by blast
qed

lemma find_filter: "find P xs = Some v \<Longrightarrow> \<exists>zs. filter P xs = v # zs"
  by (induction xs) (auto split: if_splits)

lemma filter_victim:
  assumes "distinct xs" "filter P (rev xs) = v # zs"
  shows "filter P (rev (remove1 v xs)) = zs" "filter (\<lambda>r. r \<notin> set vs) (remove1 v xs) = filter (\<lambda>r. r \<notin> set (v # vs)) xs"
proof -
  have ys: "remove1 v xs = filter (\<lambda>r. v \<noteq> r) xs" using assms(1) by (simp add: distinct_remove1_removeAll removeAll_filter_not_eq)
  have "v \<notin> set zs" using assms distinct_filter [of "rev xs" P] by simp
  moreover have "filter P (rev (remove1 v xs)) = filter (\<lambda>r. v \<noteq> r) (v # zs)"
    unfolding ys assms(2) [symmetric] by (simp add: rev_filter conj_commute)
  ultimately show "filter P (rev (remove1 v xs)) = zs" by (auto intro: filter_True)
  show "filter (\<lambda>r. r \<notin> set vs) (remove1 v xs) = filter (\<lambda>r. r \<notin> set (v # vs)) xs" unfolding ys by (auto intro!: filter_cong)
qed

lemma evict_order:
  assumes "store_inv s" "demand s \<le> u64_mod" "lru_list (lru s) xs"
  shows "\<exists>s' rc vs zs. ls_evict_to s budget keep = Some (s', rc)
     \<and> filter (\<lambda>r. Some r \<noteq> keep \<and> \<not> is_busy s r) (rev xs) = vs @ zs
     \<and> lru_list (lru s') (filter (\<lambda>r. r \<notin> set vs) xs) \<and> res_set s' = res_set s - set vs
     \<and> resident s' = resident s - sum_list (map (rcap s) vs)
     \<and> (\<forall>k<length vs. budget + sum_list (map (rcap s) (take k vs)) < resident s)
     \<and> (rc = LS_OK \<longrightarrow> resident s' \<le> budget \<or> zs = [])
     \<and> (quiet (fd s) \<and> demand s + 4096 \<le> off_max \<longrightarrow> rc = LS_OK)"
  using assms
proof (induction "length xs" arbitrary: s xs rule: less_induct)
  case less
  let ?ev = "\<lambda>r. Some r \<noteq> keep \<and> \<not> is_busy s r"
  have set: "set xs = res_set s" "distinct xs"
    using store_invD(4) [OF less.prems(1)] lru_list_set [OF less.prems(3)] less.prems(3) by (auto simp: tier_ok_def lru_list_def)
  have stay: "\<exists>s' rc vs zs. Some (s, LS_OK) = Some (s', rc) \<and> filter ?ev (rev xs) = vs @ zs
     \<and> lru_list (lru s') (filter (\<lambda>r. r \<notin> set vs) xs) \<and> res_set s' = res_set s - set vs
     \<and> resident s' = resident s - sum_list (map (rcap s) vs)
     \<and> (\<forall>k<length vs. budget + sum_list (map (rcap s) (take k vs)) < resident s)
     \<and> (rc = LS_OK \<longrightarrow> resident s' \<le> budget \<or> zs = []) \<and> (quiet (fd s) \<and> demand s + 4096 \<le> off_max \<longrightarrow> rc = LS_OK)"
    if "resident s \<le> budget \<or> filter ?ev (rev xs) = []"
    using that less.prems(3) by (intro exI [of _ s] exI [of _ LS_OK] exI [of _ "[]"] exI [of _ "filter ?ev (rev xs)"]) auto
  have vic: "lru_victim (lru s) (\<lambda>v. Some v = keep \<or> is_busy s v) = Some (find ?ev (rev xs))"
    using lru_victim_list [OF less.prems(3)] by simp
  show ?case
  proof (cases "budget < resident s \<and> filter ?ev (rev xs) \<noteq> []")
    case False
    have "find ?ev (rev xs) = None" if "filter ?ev (rev xs) = []" using that by (auto simp: find_None_iff filter_empty_conv)
    then have "ls_evict_to s budget keep = Some (s, LS_OK)"
      using vic False by (subst ls_evict_to.simps) auto
    moreover have "resident s \<le> budget \<or> filter ?ev (rev xs) = []" using False by linarith
    ultimately show ?thesis using stay by simp
  next
    case True
    then obtain v where v: "find ?ev (rev xs) = Some v" by (cases "find ?ev (rev xs)") (auto simp: find_None_iff filter_empty_conv)
    obtain zs where zs: "filter ?ev (rev xs) = v # zs" using find_filter [OF v] by blast
    have vx: "v \<in> set xs" using zs by (metis filter_is_subset list.set_intros(1) set_rev subsetD)
    have dz: "v \<notin> set zs" "distinct zs" using set(2) distinct_filter [of "rev xs" ?ev] zs by auto
    obtain s1 rc where p: "spill s v = Some (s1, rc)" "store_inv s1" "is_busy s1 = is_busy s" "\<forall>r. r \<noteq> v \<longrightarrow> rcap s1 r = rcap s r"
      "if rc = LS_OK then demand s1 \<le> demand s \<and> lru s1 = lru_drop (lru s) v \<and> resident s1 = resident s - rcap s v
            \<and> res_set s1 = res_set s - {v}
        else lru s1 = lru s \<and> resident s1 = resident s \<and> res_set s1 = res_set s"
      "quiet (fd s) \<longrightarrow> quiet (fd s1)" "quiet (fd s) \<and> demand s + 4096 \<le> off_max \<longrightarrow> rc = LS_OK"
      using evict_one [OF less.prems(1,2)] vx set(1) by blast
    have step: "ls_evict_to s budget keep = (if rc \<noteq> LS_OK then Some (s1, rc) else ls_evict_to s1 budget keep)"
      using True vic v p(1) by (subst ls_evict_to.simps) simp
    show ?thesis
    proof (cases "rc = LS_OK")
      case False
      then show ?thesis using step p(5,7) less.prems(3) zs
        by (intro exI [of _ s1] exI [of _ rc] exI [of _ "[]"] exI [of _ "v # zs"]) auto
    next
      case ok: True
      let ?ys = "remove1 v xs"
      note left = filter_victim [OF set(2) zs]
      have l: "lru_list (lru s1) ?ys" using lru_drop_list [OF less.prems(3)] p(5) ok by simp
      have lt: "length ?ys < length xs" using vx length_pos_if_in_set [OF vx] by (simp add: length_remove1)
      have d1: "demand s1 \<le> u64_mod" using p(5) ok less.prems(2) by simp
      obtain s' rc' vs ws where h: "ls_evict_to s1 budget keep = Some (s', rc')" "zs = vs @ ws"
        "lru_list (lru s') (filter (\<lambda>r. r \<notin> set vs) ?ys)" "res_set s' = res_set s1 - set vs"
        "resident s' = resident s1 - sum_list (map (rcap s1) vs)"
        "\<forall>k<length vs. budget + sum_list (map (rcap s1) (take k vs)) < resident s1"
        "rc' = LS_OK \<longrightarrow> resident s' \<le> budget \<or> ws = []" "quiet (fd s1) \<and> demand s1 + 4096 \<le> off_max \<longrightarrow> rc' = LS_OK"
        using less.hyps [OF lt p(2) d1 l, unfolded p(3) left(1)] by blast
      have caps: "map (rcap s1) us = map (rcap s) us" if "set us \<subseteq> set vs" for us using that p(4) dz(1) h(2) by auto
      have early: "\<forall>k<length (v # vs). budget + sum_list (map (rcap s) (take k (v # vs))) < resident s"
      proof (intro allI impI)
        fix k assume k: "k < length (v # vs)"
        show "budget + sum_list (map (rcap s) (take k (v # vs))) < resident s"
        proof (cases k)
          case (Suc j)
          then have "budget + sum_list (map (rcap s) (take j vs)) < resident s1" using h(6) k caps [OF set_take_subset] by simp
          then show ?thesis using Suc p(5) ok by simp
        qed (use True in simp)
      qed
      have order: "lru_list (lru s') (filter (\<lambda>r. r \<notin> set (v # vs)) xs)" using h(3) left(2) [of vs] by simp
      have out: "res_set s' = res_set s - set (v # vs)" using h(4) p(5) ok by auto
      have size: "resident s' = resident s - sum_list (map (rcap s) (v # vs))" using h(5) p(5) ok caps [of vs] by simp
      have eq: "filter ?ev (rev xs) = (v # vs) @ ws" "ls_evict_to s budget keep = Some (s', rc')" using zs h(1,2) step ok by simp_all
      have calm: "quiet (fd s) \<and> demand s + 4096 \<le> off_max \<longrightarrow> rc' = LS_OK" using h(8) p(5,6) ok by auto
      show ?thesis
        by (rule exI [of _ s'], rule exI [of _ rc'], rule exI [of _ "v # vs"], rule exI [of _ ws], intro conjI)
          (fact eq order out size early h(7) calm)+
    qed
  qed
qed

subsection \<open>Growing a record in memory\<close>

lemma tierD: "tier_ok s \<Longrightarrow> resident s \<le> memory_budget (opts s)" "tier_ok s \<Longrightarrow> memory_budget (opts s) < off_max"
  by (auto simp: tier_ok_def)

lemma tier_ok_join:
  assumes "tier_ok s" "finite (res_set s)" "recs s r = Some x" "cur = (if mem x \<noteq> None then mem_cap x else 0)"
    and "recs s' = (recs s)(r \<mapsto> x')" "mem x' \<noteq> None" "mem_cap x' = need" "lru s' = lru_touch (lru s) r"
    and "resident s' = resident s - cur + need" "opts s' = opts s" "resident s - cur + need \<le> memory_budget (opts s)"
  shows "tier_ok s'"
proof -
  have rs: "res_set s' = insert r (res_set s)" using assms(5,6) by (auto simp: res_set_def)
  have cap: "rcap s' r = need" "r' \<noteq> r \<Longrightarrow> rcap s' r' = rcap s r'" for r'
    using assms(5,7) by (simp_all add: rcap_def)
  obtain xs where xs: "lru_list (lru s) xs" "set xs = res_set s" using assms(1) by (auto simp: tier_ok_def)
  have "lru_list (lru s') (r # remove1 r xs)" using lru_touch_list [OF xs(1)] assms(8) by simp
  moreover have "set (r # remove1 r xs) = res_set s'" using xs rs by (auto simp: lru_list_def)
  moreover have "resident s - cur = (\<Sum>r'\<in>res_set s - {r}. rcap s r')"
  proof (cases "r \<in> res_set s")
    case True
    then have "cur = rcap s r" using assms(3,4) by (auto simp: res_set_def)
    moreover have "resident s = rcap s r + (\<Sum>r'\<in>res_set s - {r}. rcap s r')"
      using assms(1,2) True by (simp add: tier_ok_def sum.remove)
    ultimately show ?thesis by simp
  next
    case False
    then show ?thesis using assms(1,3,4) by (auto simp: tier_ok_def res_set_def)
  qed
  moreover have "(\<Sum>r'\<in>res_set s'. rcap s' r') = need + (\<Sum>r'\<in>res_set s - {r}. rcap s' r')"
    unfolding rs using assms(2) cap(1) by (simp add: sum.insert_remove)
  moreover have "(\<Sum>r'\<in>res_set s - {r}. rcap s' r') = (\<Sum>r'\<in>res_set s - {r}. rcap s r')"
    by (rule sum.cong) (auto simp: cap)
  ultimately show ?thesis using assms(1,9-11) unfolding tier_ok_def by auto
qed

lemma grow_buffer_spec:
  assumes inv: "store_inv s" and r: "recs s r = Some x" and cur: "cur = (if mem x \<noteq> None then mem_cap x else 0)"
    and n: "0 < need" "cur \<le> need" "ncap x = 0" "resident s - cur + need \<le> memory_budget (opts s)"
  shows "\<exists>x'. evolves s (grow_buffer s r x need) \<and> recs (grow_buffer s r x need) = (recs s)(r \<mapsto> x')
     \<and> mem x' \<noteq> None \<and> mem_cap x' = need"
proof -
  let ?s' = "grow_buffer s r x need"
  note i = store_invD [OF inv]
  have ok: "rec_ok (fd s) x" by (rule i(7) [OF r])
  then have ext: "ext x = []" using n(3) by (simp add: rec_ok_def)
  define old where "old = (case mem x of None \<Rightarrow> [] | Some b \<Rightarrow> bdata b)"
  have old: "length old = cur" using ok cur by (auto simp: old_def rec_ok_def split: option.splits)
  define b' where "b' = \<lparr>baddr = fresh s, bdata = old @ zeros (need - cur)\<rparr>"
  define x' where "x' = x\<lparr>mem := Some b', mem_cap := need\<rparr>"
  have curle: "cur \<le> resident s"
  proof (cases "mem x = None")
    case False
    then have "r \<in> res_set s" using r by (auto simp: res_set_def)
    then have "rcap s r \<le> (\<Sum>r\<in>res_set s. rcap s r)" using finite_res_set [OF inv] by (intro member_le_sum) auto
    then show ?thesis using i(4) r cur False by (simp add: tier_ok_def)
  qed (simp add: cur)
  have "resident s < u64_mod" "resident s - cur + need < u64_mod"
    using tierD [OF i(4)] n(4) off_max_less by linarith+
  then have wrap: "add64 (sub64 (resident s) cur) need = resident s - cur + need"
    using curle by (simp add: wrap_simps)
  have "take need old = old" using old n(2) by simp
  then have s': "?s' = ls_lru_touch (upd_rec (s\<lparr>resident := resident s - cur + need, fresh := fresh s + 1\<rparr>) r
      (\<lambda>x. x\<lparr>mem := Some b', mem_cap := need\<rparr>)) r"
    using wrap unfolding grow_buffer_def Let_def cur [symmetric] old_def [symmetric] by (simp add: b'_def old)
  have rs: "recs ?s' = (recs s)(r \<mapsto> x')" using r by (simp add: s' ls_lru_touch_def recs_upd_rec x'_def)
  have fs: "lru ?s' = lru_touch (lru s) r" "resident ?s' = resident s - cur + need" "opts ?s' = opts s"
    "fd ?s' = fd s" "tab ?s' = tab s" "nrec ?s' = nrec s" "fresh s \<le> fresh ?s'" "direct ?s' = direct s"
    "teardown ?s' = teardown s" "path ?s' = path s" "fl ?s' = fl s" "file_end ?s' = file_end s"
    by (simp_all add: s' ls_lru_touch_def)
  have "tier_ok ?s'"
    using tier_ok_join [OF i(4) finite_res_set [OF inv] r cur rs _ _ fs(1-3) n(4)] by (simp add: x'_def)
  moreover have sz: "rsize x \<le> cur" using ok cur ext by (auto simp: rec_ok_def split: option.splits)
  have "content (fd s) x' = content (fd s) x"
    using sz old ext cur by (auto simp: content_def x'_def b'_def old_def split: option.splits)
  then have "same_rec (fd s) x (fd ?s') x'" using fs(4) by (simp add: same_rec_def x'_def)
  moreover have "rec_ok (fd ?s') x'"
  proof -
    have "bdata b' ! j = 0" if "rsize x \<le> j" "j < need" for j
      using that old ok cur by (auto simp: b'_def nth_append old_def rec_ok_def split: option.splits)
    moreover have "length (bdata b') = need" using old n(2) by (simp add: b'_def)
    ultimately show ?thesis using ok ext sz n(1,2) fs(4) by (auto simp: rec_ok_def x'_def)
  qed
  moreover have "alloc_inv ?s'" "free_set ?s' = free_set s" using i(2) fs by (simp_all add: alloc_inv_def free_set_def)
  moreover have "os_keeps (fd s) (fd ?s') P" for P using i(6) fs(4) by (simp add: os_keeps_refl)
  ultimately have "evolves s ?s'" using fs ext by (intro evolves_step [OF inv r rs]) (auto simp: x'_def)
  then show ?thesis using rs by (intro exI [of _ x']) (simp add: x'_def)
qed

subsection \<open>Choosing the tier\<close>

definition cap_of :: "ls_rec \<Rightarrow> nat" where
  "cap_of x = (case mem x of Some _ \<Rightarrow> mem_cap x | None \<Rightarrow> ext_total x)"

lemma to_extents_spec:
  assumes inv: "store_inv s" and r: "recs s r = Some x" and fit: "file_end s + share s r + need + 4096 \<le> u64_mod"
  shows "\<exists>s' rc x'. to_extents s r need = Some (s', rc) \<and> evolves s s' \<and> recs s' r = Some x'
     \<and> file_end s' \<le> file_end s + share s r + need + 4095 \<and> (rc = LS_OK \<longrightarrow> need \<le> cap_of x')
     \<and> (quiet (fd s) \<and> file_end s + share s r + need + 8192 \<le> off_max \<longrightarrow> rc = LS_OK)"
proof -
  have grow: "\<exists>s' rc x'. ensure_extents t r need = Some (s', rc) \<and> evolves t s' \<and> recs s' r = Some x'
     \<and> file_end s' \<le> file_end t + need + 4095 \<and> (rc = LS_OK \<longrightarrow> need \<le> cap_of x')
     \<and> (quiet (fd t) \<and> file_end t + need + 8192 \<le> off_max \<longrightarrow> rc = LS_OK)"
    if t: "store_inv t" "recs t r = Some y" "mem y = None" "file_end t + need + 4096 \<le> u64_mod" for t y
  proof -
    have "file_end t + (need - ext_total y) + 4096 \<le> u64_mod" using t(4) by linarith
    from ensure_extents_spec [OF t(1,2) this] obtain s' rc x' where
      e: "ensure_extents t r need = Some (s', rc)" "evolves t s'" "recs s' = (recs t)(r \<mapsto> x')" "mem x' = mem y"
      "file_end s' \<le> file_end t + (need - ext_total y) + 4095" "rc = LS_OK \<longrightarrow> need \<le> ext_total x'"
      "quiet (fd t) \<and> file_end t + (need - ext_total y) + 8192 \<le> off_max \<longrightarrow> rc = LS_OK" by blast
    then show ?thesis using t(3) by (intro exI [of _ s'] exI [of _ rc] exI [of _ x']) (auto simp: cap_of_def)
  qed
  show ?thesis
  proof (cases "mem x = None")
    case True
    then have "to_extents s r need = ensure_extents s r need" using r by (simp add: to_extents_def)
    moreover have "file_end s + need + 4096 \<le> u64_mod" using fit by linarith
    ultimately show ?thesis using grow [OF inv r True] by fastforce
  next
    case False
    have "file_end s + share s r \<le> u64_mod" using fit by linarith
    from spill_spec [OF inv r this] obtain s1 rc1 x1 where
      p: "spill s r = Some (s1, rc1)" "evolves s s1" "recs s1 = (recs s)(r \<mapsto> x1)"
      "file_end s1 \<le> file_end s + share s r" "rc1 = LS_OK \<longrightarrow> mem x1 = None"
      "quiet (fd s) \<and> file_end s + share s r + 4096 \<le> off_max \<longrightarrow> rc1 = LS_OK" by blast
    have step: "to_extents s r need = (if rc1 \<noteq> LS_OK then Some (s1, rc1) else ensure_extents s1 r need)"
      using r False p(1) by (auto simp: to_extents_def)
    show ?thesis
    proof (cases "rc1 = LS_OK")
      case nok: False
      then show ?thesis using step p by (intro exI [of _ s1] exI [of _ rc1] exI [of _ x1]) auto
    next
      case ok: True
      have r1: "recs s1 r = Some x1" "mem x1 = None" using p(3,5) ok by auto
      have "file_end s1 + need + 4096 \<le> u64_mod" using p(4) fit by linarith
      from grow [OF evolvesD(1) [OF p(2)] r1 this] obtain s' rc x' where
        e: "ensure_extents s1 r need = Some (s', rc)" "evolves s1 s'" "recs s' r = Some x'"
        "file_end s' \<le> file_end s1 + need + 4095" "rc = LS_OK \<longrightarrow> need \<le> cap_of x'" "quiet (fd s1) \<and> file_end s1 + need + 8192 \<le> off_max \<longrightarrow> rc = LS_OK"
        by blast
      have "quiet (fd s) \<Longrightarrow> quiet (fd s1)" using evolvesD(5) [OF p(2)] advances_quiet by blast
      then show ?thesis using step ok e evolves_trans [OF p(2) e(2)] p(4)
        by (intro exI [of _ s'] exI [of _ rc] exI [of _ x']) auto
    qed
  qed
qed

text \<open>Steps that leave records, allocator and tier alone, such as an allocation or a report.\<close>

lemma evolves_same:
  assumes inv: "store_inv s" and same: "recs s' = recs s" "tab s' = tab s" "nrec s' = nrec s" "fresh s' = fresh s"
      "direct s' = direct s" "teardown s' = teardown s" "opts s' = opts s" "path s' = path s" "fl s' = fl s"
      "file_end s' = file_end s" "lru s' = lru s" "resident s' = resident s"
    and keep: "os_keeps (fd s) (fd s') UNIV"
  shows "evolves s s'" "share s' = share s" "demand s' = demand s"
proof -
  note i = store_invD [OF inv]
  have sh: "res_set s' = res_set s" "share s' = share s" using share_cong [OF same(1)] by blast+
  then show "share s' = share s" "demand s' = demand s" using same(10) by (simp_all add: demand_def)
  have toc: "toc_inv s'" "ls_toc_find s' = ls_toc_find s"
    using toc_inv_cong [of s' s] ls_toc_find_cong [of s' s] same(1-4) i(1) by simp_all
  have u: "used s' = used s" "free_set s' = free_set s" using same by (simp_all add: used_def free_set_def fun_eq_iff)
  have recs: "rec_ok (fd s') x" "same_rec (fd s) x (fd s') x" if "recs s r = Some x" for r x
    using rec_ok_keeps [OF i(7) [OF that] keep] by auto
  have tier: "tier_ok s'" using tier_ok_cong(1) [of s' s] same(1,7,11,12) i(4) by simp
  have al: "alloc_inv s'" using i(2) same(9,10) by (simp add: alloc_inv_def)
  have io: "io_ok (fd s') (direct s')" using io_ok_keeps [OF keep i(3)] same(5) by simp
  have "\<forall>r x. recs s' r = Some x \<longrightarrow> rec_ok (fd s') x" using recs(1) same(1) by simp
  moreover have "\<forall>r. used s' r \<inter> free_set s' = {}" "\<forall>r r'. r \<noteq> r' \<longrightarrow> used s' r \<inter> used s' r' = {}"
    using i(9,10) unfolding u by blast+
  ultimately have "store_inv s'" using toc(1) al io tier i(5) same(6) unfolding store_inv_def by simp
  then show "evolves s s'"
    using same toc(2) recs(2) os_keepsD(1) [OF keep] by (simp add: evolves_def)
qed

lemma st_malloc_evolves:
  assumes "st_malloc s = (ok, s')" "store_inv s"
  shows "evolves s s'" "recs s' = recs s" "share s' = share s" "demand s' = demand s" "file_end s' = file_end s"
    "resident s' = resident s" "quiet (fd s) \<Longrightarrow> ok"
proof -
  note p = st_malloc_props [OF assms(1)]
  have sel: "recs s' = recs s" "tab s' = tab s" "nrec s' = nrec s" "fresh s' = fresh s"
      "direct s' = direct s" "teardown s' = teardown s" "opts s' = opts s" "path s' = path s" "fl s' = fl s"
      "file_end s' = file_end s" "lru s' = lru s" "resident s' = resident s"
    by (subst p(1), simp)+
  have "os_keeps (fd s) (fd s') UNIV" using p store_invD(6) [OF assms(2)] by (auto intro: os_keeps_same)
  note ev = evolves_same [OF assms(2) sel this]
  show "evolves s s'" "share s' = share s" "demand s' = demand s" by (fact ev)+
  show "recs s' = recs s" "file_end s' = file_end s" "resident s' = resident s" by (fact sel)+
  show "quiet (fd s) \<Longrightarrow> ok" using p(5) by (simp add: quiet_def)
qed

lemma ensure_cap_spec:
  assumes inv: "store_inv s" and r: "recs s r = Some x" and fit: "fits s need"
  shows "\<exists>s' rc x'. ensure_cap s r need = Some (s', rc) \<and> evolves s s' \<and> recs s' r = Some x'
     \<and> file_end s' \<le> demand s + need + 4095
     \<and> (rc = LS_OK \<longrightarrow> need \<le> cap_of x') \<and> (quiet (fd s) \<and> roomy s need \<longrightarrow> rc = LS_OK)"
proof -
  let ?b = "memory_budget (opts s)"
  define cur where "cur = (if mem x \<noteq> None then mem_cap x else 0)"
  have fin: "finite (res_set s)" by (rule finite_res_set [OF inv])
  have dem: "demand s \<le> u64_mod" "file_end s + share s r \<le> demand s" using fit demand_ge [OF fin] by (auto simp: fits_def)
  have tail: "\<exists>s' rc x'. to_extents t r need = Some (s', rc) \<and> evolves s s' \<and> recs s' r = Some x'
     \<and> file_end s' \<le> demand s + need + 4095
     \<and> (rc = LS_OK \<longrightarrow> need \<le> cap_of x') \<and> (quiet (fd s) \<and> roomy s need \<longrightarrow> rc = LS_OK)"
    if t: "evolves s t" "recs t r = Some x" "file_end t + share t r \<le> demand s" for t
  proof -
    have "file_end t + share t r + need + 4096 \<le> u64_mod" using t(3) fit by (simp add: fits_def)
    from to_extents_spec [OF evolvesD(1) [OF t(1)] t(2) this] obtain s' rc x' where
      e: "to_extents t r need = Some (s', rc)" "evolves t s'" "recs s' r = Some x'"
      "file_end s' \<le> file_end t + share t r + need + 4095" "rc = LS_OK \<longrightarrow> need \<le> cap_of x'"
      "quiet (fd t) \<and> file_end t + share t r + need + 8192 \<le> off_max \<longrightarrow> rc = LS_OK" by blast
    moreover have "quiet (fd s) \<Longrightarrow> quiet (fd t)" using evolvesD(5) [OF t(1)] advances_quiet by blast
    ultimately show ?thesis using evolves_trans [OF t(1) e(2)] t(3)
      by (intro exI [of _ s'] exI [of _ rc] exI [of _ x']) (auto simp: roomy_def)
  qed
  have plain: "\<exists>s' rc x'. Some (s, LS_OK) = Some (s', rc) \<and> evolves s s' \<and> recs s' r = Some x'
     \<and> file_end s' \<le> demand s + need + 4095
     \<and> (rc = LS_OK \<longrightarrow> need \<le> cap_of x') \<and> (quiet (fd s) \<and> roomy s need \<longrightarrow> rc = LS_OK)" if "need \<le> cap_of x"
    using that r evolves_refl [OF inv] dem(2) by (intro exI [of _ s] exI [of _ LS_OK] exI [of _ x]) simp
  consider (have_mem) "need \<le> mem_cap x \<and> mem x \<noteq> None" | (have_ext) "\<not> (need \<le> mem_cap x \<and> mem x \<noteq> None)" "need \<le> ext_total x \<and> mem x = None"
    | (mem) "\<not> (need \<le> mem_cap x \<and> mem x \<noteq> None)" "\<not> (need \<le> ext_total x \<and> mem x = None)" "?b \<noteq> 0 \<and> ncap x = 0 \<and> need \<le> ?b"
    | (ext) "\<not> (need \<le> mem_cap x \<and> mem x \<noteq> None)" "\<not> (need \<le> ext_total x \<and> mem x = None)" "\<not> (?b \<noteq> 0 \<and> ncap x = 0 \<and> need \<le> ?b)" by blast
  then show ?thesis
  proof cases
    case have_mem
    then have "ensure_cap s r need = Some (s, LS_OK)" using r by (simp add: ensure_cap_def)
    moreover have "need \<le> cap_of x" using have_mem by (auto simp: cap_of_def)
    ultimately show ?thesis using plain by simp
  next
    case have_ext
    then have "ensure_cap s r need = Some (s, LS_OK)" using r by (simp add: ensure_cap_def)
    moreover have "need \<le> cap_of x" using have_ext by (auto simp: cap_of_def)
    ultimately show ?thesis using plain by simp
  next
    case ext
    then have "ensure_cap s r need = to_extents s r need" using r by (auto simp: ensure_cap_def Let_def)
    then show ?thesis using tail [OF evolves_refl [OF inv] r dem(2)] by simp
  next
    case mem
    obtain s1 rc1 where ev: "(if ?b < add64 (sub64 (resident s) cur) need
                   then ls_evict_to s (add64 (sub64 ?b need) cur) (Some r) else Some (s, LS_OK)) = Some (s1, rc1)"
      "evolves s s1" "recs s1 r = Some x" "file_end s1 + share s r \<le> demand s"
      using evict_spec [OF inv dem(1), of "add64 (sub64 ?b need) cur" "Some r"] evolves_refl [OF inv] r dem(2)
      by (cases "?b < add64 (sub64 (resident s) cur) need") auto
    have sh: "share s1 r = share s r" using r ev(3) by (simp add: share_def res_set_def)
    have ob: "opts s1 = opts s" using evolvesD(2) [OF ev(2)] .
    obtain ok s2 where m: "st_malloc s1 = (ok, s2)" by fastforce
    note ms = st_malloc_evolves [OF m evolvesD(1) [OF ev(2)]]
    have r2: "recs s2 r = Some x" using ms(2) ev(3) by simp
    have ev2: "evolves s s2" using evolves_trans [OF ev(2) ms(1)] .
    have eq: "ensure_cap s r need =
       (if add64 (sub64 (resident s1) cur) need \<le> ?b then
          (if ok then Some (grow_buffer s2 r x need, LS_OK) else to_extents s2 r need)
        else to_extents s1 r need)"
      using r mem ev(1) m r2 unfolding ensure_cap_def Let_def cur_def by auto
    have fe: "file_end s1 + share s1 r \<le> demand s" "file_end s2 + share s2 r \<le> demand s"
      using ev(4) sh ms(3,5) by simp_all
    show ?thesis
    proof (cases "add64 (sub64 (resident s1) cur) need \<le> ?b \<and> ok")
      case False
      then show ?thesis using eq tail [OF ev(2,3) fe(1)] tail [OF ev2 r2 fe(2)] by (auto split: if_splits)
    next
      case True
      have inv1: "store_inv s1" and inv2: "store_inv s2" using evolvesD(1) ev(2) ev2 by blast+
      have curle: "cur \<le> resident s1"
      proof (cases "mem x = None")
        case False
        then have "r \<in> res_set s1" using ev(3) by (auto simp: res_set_def)
        then have "rcap s1 r \<le> (\<Sum>r\<in>res_set s1. rcap s1 r)" using finite_res_set [OF inv1] by (intro member_le_sum) auto
        then show ?thesis using store_invD(4) [OF inv1] ev(3) False by (simp add: tier_ok_def cur_def)
      qed (simp add: cur_def)
      have small: "resident s1 < off_max" "need < off_max"
        using tierD [OF store_invD(4) [OF inv1]] ob mem(3) tierD(2) [OF store_invD(4) [OF inv]] by auto
      then have "resident s1 < u64_mod" "resident s1 - cur + need < u64_mod" using off_max_double by linarith+
      then have "add64 (sub64 (resident s1) cur) need = resident s1 - cur + need"
        using curle by (simp add: wrap_simps)
      then have bud: "resident s2 - cur + need \<le> memory_budget (opts s2)"
        using True ms(6) ob evolvesD(2) [OF ms(1)] by simp
      have n: "0 < need" "cur \<le> need" using mem(1,2) by (auto simp: cur_def)
      have "ncap x = 0" using mem(3) by simp
      from grow_buffer_spec [OF inv2 r2 cur_def n this bud] obtain x' where
        g: "evolves s2 (grow_buffer s2 r x need)" "recs (grow_buffer s2 r x need) = (recs s2)(r \<mapsto> x')"
        "mem x' \<noteq> None" "mem_cap x' = need" by blast
      have "need \<le> cap_of x'" using g(3,4) by (auto simp: cap_of_def)
      moreover have "file_end (grow_buffer s2 r x need) = file_end s2"
        by (simp add: grow_buffer_def ls_lru_touch_def Let_def)
      ultimately show ?thesis using eq True g(2) evolves_trans [OF ev2 g(1)] fe(2)
        by (intro exI [of _ "grow_buffer s2 r x need"] exI [of _ LS_OK] exI [of _ x']) simp
    qed
  qed
qed

subsection \<open>Properties\<close>

text \<open>C13. Eviction is safe and complete. On a well-formed store that fits 64 bits \<open>ls_evict_to\<close> returns,
  whatever the system calls do; every record keeps its key, size, attributes and bytes, and the
  store stays well-formed. When it reports success, the tier is within the requested budget
  or everything still resident is pinned or is the record to keep.\<close>

theorem evict_preserves:
  assumes "store_inv s" "demand s \<le> u64_mod"
  shows "\<exists>s' rc. ls_evict_to s budget keep = Some (s', rc) \<and> store_inv s' \<and> dom (recs s') = dom (recs s)
     \<and> (\<forall>r x. recs s r = Some x \<longrightarrow> (\<exists>x'. recs s' r = Some x' \<and> key x' = key x \<and> rsize x' = rsize x
          \<and> attr x' = attr x \<and> attrlen x' = attrlen x \<and> content (fd s') x' = content (fd s) x))
     \<and> (rc = LS_OK \<longrightarrow> resident s' \<le> budget \<or> (\<forall>r\<in>res_set s'. Some r = keep \<or> is_busy s' r))"
proof -
  obtain s' rc where e: "ls_evict_to s budget keep = Some (s', rc)" "evolves s s'"
    "rc = LS_OK \<longrightarrow> resident s' \<le> budget \<or> (\<forall>r\<in>res_set s'. Some r = keep \<or> is_busy s' r)"
    using evict_spec [OF assms] by blast
  have "\<exists>x'. recs s' r = Some x' \<and> key x' = key x \<and> rsize x' = rsize x \<and> attr x' = attr x \<and> attrlen x' = attrlen x
      \<and> content (fd s') x' = content (fd s) x"
    if "recs s r = Some x" for r x
    using evolvesD(6) [OF e(2) that] by (auto simp: same_rec_def)
  then show ?thesis using e(1,3) evolvesD(1,8) [OF e(2)] by blast
qed

text \<open>C12. Eviction follows recency. Let \<open>xs\<close> be the records of the memory tier from the most to the least recently
  touched; a touch moves a record to the front. \<open>ls_evict_to\<close> returns, and the records \<open>vs\<close> it moved out are
  the least recently touched ones among those it may move, in that order: the record to keep and pinned
  records are passed over, and nothing is moved once the budget is met. The others stay
  in memory in their old order. On success the budget is met or nothing is left that may be moved, and
  when nothing fails it succeeds.\<close>

theorem evicts_least_recent:
  assumes "store_inv s" "demand s \<le> u64_mod" "lru_list (lru s) xs"
  shows "\<exists>s' rc vs zs. ls_evict_to s budget keep = Some (s', rc)
     \<and> filter (\<lambda>r. Some r \<noteq> keep \<and> \<not> is_busy s r) (rev xs) = vs @ zs
     \<and> lru_list (lru s') (filter (\<lambda>r. r \<notin> set vs) xs) \<and> res_set s' = res_set s - set vs
     \<and> resident s' = resident s - sum_list (map (rcap s) vs)
     \<and> (\<forall>k<length vs. budget + sum_list (map (rcap s) (take k vs)) < resident s)
     \<and> (rc = LS_OK \<longrightarrow> resident s' \<le> budget \<or> zs = [])
     \<and> (quiet (fd s) \<and> demand s + 4096 \<le> off_max \<longrightarrow> rc = LS_OK)
     \<and> (\<forall>r. lru_list (lru (ls_lru_touch s r)) (r # remove1 r xs))"
proof -
  have "lru_list (lru (ls_lru_touch s r)) (r # remove1 r xs)" for r
    using lru_touch_list [OF assms(3)] by (simp add: ls_lru_touch_def)
  then show ?thesis using evict_order [OF assms, of budget keep] by blast
qed

text \<open>\<open>ensure_cap\<close> provides capacity without losing anything: it returns, all contents are kept
  (also when other records are evicted, or the record itself moves from memory to the file), and
  on success the record has room for \<open>need\<close> bytes in the tier it is in. When nothing fails and
  the file may grow that far, it succeeds.\<close>

theorem ensure_cap_provides:
  assumes "store_inv s" "recs s r = Some x" "fits s need"
  shows "\<exists>s' rc x'. ensure_cap s r need = Some (s', rc) \<and> store_inv s' \<and> recs s' r = Some x'
     \<and> (rc = LS_OK \<longrightarrow> need \<le> cap_of x') \<and> (quiet (fd s) \<and> roomy s need \<longrightarrow> rc = LS_OK)
     \<and> (\<forall>r y. recs s r = Some y \<longrightarrow> (\<exists>y'. recs s' r = Some y' \<and> content (fd s') y' = content (fd s) y))"
proof -
  obtain s' rc x' where e: "ensure_cap s r need = Some (s', rc)" "evolves s s'" "recs s' r = Some x'"
    "rc = LS_OK \<longrightarrow> need \<le> cap_of x'" "quiet (fd s) \<and> roomy s need \<longrightarrow> rc = LS_OK"
    using ensure_cap_spec [OF assms] by blast
  have "\<exists>y'. recs s' r = Some y' \<and> content (fd s') y' = content (fd s) y" if "recs s r = Some y" for r y
    using evolvesD(6) [OF e(2) that] by (auto simp: same_rec_def)
  then show ?thesis using e evolvesD(1) [OF e(2)] by blast
qed

text \<open>The state in which the rounding of a request wraps to zero.\<close>

definition wraps :: "ls_store \<Rightarrow> nat \<Rightarrow> nat \<Rightarrow> bool" where
  "wraps s r need \<longleftrightarrow> (\<exists>x. recs s r = Some x \<and> length (ext x) \<le> ncap x \<and> ext_total x < need \<and> need < u64_mod
     \<and> u64_mod \<le> need - ext_total x + 4095) \<and> fl s = [] \<and> oom (fd s) = []"

lemma wraps_step:
  assumes "wraps s r need" "recs s r = Some x"
  shows "\<exists>s1. add_extent s r (need - ext_total x) = Some (s1, LS_OK) \<and> wraps s1 r need"
proof -
  let ?d = "need - ext_total x"
  have w: "length (ext x) \<le> ncap x" "ext_total x < need" "need < u64_mod" "u64_mod \<le> ?d + 4095" "fl s = []" "oom (fd s) = []"
    using assms by (auto simp: wraps_def)
  have ru: "round_up ?d = 0" using w by (intro round_up_wraps) auto
  have big: "round_up (if LS_MIN_EXTENT < ?d then LS_MIN_EXTENT else ?d) = round_up LS_MIN_EXTENT"
  proof -
    have "(65536 :: nat) + 4095 < u64_mod" by (simp add: u64_mod_def)
    then have "65536 < ?d" using w(4) by linarith
    then show ?thesis by (simp add: LS_MIN_EXTENT_def)
  qed
  define e where "e = \<lparr>foff = file_end s, elen = 0\<rparr>"
  define s1 where "s1 = s\<lparr>file_end := add64 (file_end s) 0\<rparr>"
  have pk: "pick_extent s (length (ext x)) ?d = (s1, e)"
    unfolding pick_extent_def s1_def e_def
    by (simp add: ls_alloc_best_def ls_alloc_largest_def ls_alloc_tail_def ru w(5) largest_loop.simps Let_def)
  have s1: "recs s1 r = Some x" "fl s1 = []" "oom (fd s1) = []" using assms(2) w by (simp_all add: s1_def)
  from ext_push_spec [OF refl s1(1) w(1), of e] obtain s2 rc nc where
    p: "ext_push s1 r e = Some (s2, rc)"
    "s2 = s1\<lparr>fd := fd s2, recs := recs s2, nretired := nretired s2, retcap := retcap s2\<rparr>"
    "advances (fd s1) (fd s2)"
    "recs s2 = (if rc = LS_OK then (recs s1)(r \<mapsto> x\<lparr>ncap := nc, ext := ext x @ [e]\<rparr>) else recs s1)"
    "length (ext x) < nc" "oom (fd s1) = [] \<longrightarrow> rc = LS_OK" by blast
  have ok: "rc = LS_OK" using p(6) s1(3) by simp
  define s' where "s' = upd_rec s2 r (\<lambda>x. x\<lparr>ext_total := add64 (ext_total x) (elen e)\<rparr>)"
  have "add_extent s r ?d = Some (s', LS_OK)"
    using assms(2) pk p(1) ok by (simp add: add_extent_def zero_range_def e_def s'_def s1_def)
  moreover have "recs s' r = Some (x\<lparr>ncap := nc, ext := ext x @ [e], ext_total := ext_total x\<rparr>)"
    using p(4) ok w by (simp add: s'_def recs_upd_rec e_def add64_def)
  moreover have "fl s' = []" "oom (fd s') = []"
  proof -
    have "fl s2 = []" by (subst p(2)) (simp add: s1(2))
    then show "fl s' = []" by (simp add: s'_def)
    show "oom (fd s') = []" using p(3) s1(3) by (auto simp: s'_def advances_def)
  qed
  ultimately show ?thesis using w p(5) by (auto simp: wraps_def)
qed

text \<open>C15. Requests close to \<open>2 ^ 64\<close> do not return. If the bytes still missing are within 4095 of
  \<open>2 ^ 64\<close>, rounding them up wraps to zero; with no hole to take, \<open>ensure_extents\<close> then adds empty
  extents for as long as memory allocation succeeds, and never returns. The size guard of the
  callers only excludes sums that themselves wrap.\<close>

theorem ensure_extents_wraps_forever:
  assumes "store_inv s" "recs s r = Some x" "fl s = []" "oom (fd s) = []" "need < u64_mod"
    and "ext_total x + u64_mod \<le> need + 4095"
  shows "ensure_extents s r need = None"
proof -
  have "ext_total x < need" using assms(6) u64_mod_pos(2) by linarith
  then have wr: "wraps s r need"
    using assms store_invD(7) [OF assms(1,2)] by (auto simp: wraps_def rec_ok_def)
  have "\<not> wraps s r need" if ret: "ensure_extents s r need = Some y" for s r need y
  proof (rule ensure_extents.raw_induct [where P = "\<lambda>s r need y. \<not> wraps s r need", OF _ ret])
    fix f s r need y
    assume ih: "\<And>s r need y. f s r need = Some y \<Longrightarrow> \<not> wraps s r need"
      and body: "recs s r \<bind> (\<lambda>x. if need \<le> ext_total x then Some (s, LS_OK)
          else add_extent s r (need - ext_total x) \<bind> (\<lambda>(s1, rc). if rc \<noteq> LS_OK then Some (s1, rc) else f s1 r need)) = Some y"
    show "\<not> wraps s r need"
    proof
      assume w: "wraps s r need"
      then obtain x where x: "recs s r = Some x" "ext_total x < need" by (auto simp: wraps_def)
      obtain s1 where s1: "add_extent s r (need - ext_total x) = Some (s1, LS_OK)" "wraps s1 r need"
        using wraps_step [OF w x(1)] by blast
      then have "f s1 r need = Some y" using body x by simp
      then show False using ih s1(2) by blast
    qed
  qed
  then show ?thesis using wr by (cases "ensure_extents s r need") auto
qed

end
