(* ===== verification/Store.thy ===== *)
theory Store
  imports Tier
begin

text \<open>
  The public data path (\<open>src/store.c\<close>): reading, writing, appending, vectored transfers,
  attributes, accumulation, and the table-of-contents calls. Every call is written the way the
  code has it: argument checks, the part under the table lock, the transfer through the
  snapshot, the closing part. The library is the build without HDF5, so the dispatch macro
  \<open>LS_IF_HDF5\<close> expands to nothing.

  Arguments: a key is \<open>None\<close> for NULL; a source buffer is \<open>None\<close> for NULL; \<open>outp\<close> says whether a
  destination pointer is not NULL. \<open>None\<close> as the result of a call means that it has no defined
  outcome (it does not return, or it follows a dangling pointer).
\<close>

text \<open>One segment of a vectored transfer.\<close>

record ls_seg =
  soff :: nat
  slen :: nat
  sbuf :: "byte list option"

subsection \<open>Shared steps\<close>

definition pin :: "ls_store \<Rightarrow> nat \<Rightarrow> (ls_store \<times> ls_place) option" where
  "pin s r = do {
     x \<leftarrow> recs s r;
     let s1 = (if mem x \<noteq> None then ls_lru_touch s r else s);
     Some (upd_rec s1 r (\<lambda>x. x\<lparr>busy := busy x + 1\<rparr>), ls_place_of r x)
   }"

definition unpin :: "ls_store \<Rightarrow> nat \<Rightarrow> ls_store" where
  "unpin s r = upd_rec s r (\<lambda>x. x\<lparr>busy := busy x - 1\<rparr>)"

definition extend :: "ls_store \<Rightarrow> nat \<Rightarrow> nat \<Rightarrow> ls_store" where
  "extend s r hi = upd_rec s r (\<lambda>x. if rsize x < hi then x\<lparr>rsize := hi\<rparr> else x)"

definition find_or_insert :: "ls_store \<Rightarrow> string \<Rightarrow> ls_store \<times> nat option" where
  "find_or_insert s k = (case ls_toc_find s k of Some r \<Rightarrow> (s, Some r) | None \<Rightarrow> ls_toc_insert s k)"

definition frozen :: "ls_store \<Rightarrow> string \<Rightarrow> nat \<Rightarrow> bool" where
  "frozen s k hi \<longleftrightarrow> parallel (opts s) = LS_SHARED \<and>
     (case ls_toc_find s k of None \<Rightarrow> True
      | Some r \<Rightarrow> (case recs s r of None \<Rightarrow> True | Some x \<Rightarrow> rsize x < hi))"

definition frozen_msg :: string where
  "frozen_msg = ''a shared store's layout is frozen; reserve it before sharing''"

text \<open>The locked part of a write: the record, the capacity, the size, the pin. \<open>(off, n, msg)\<close> is what
  a failure of \<open>ensure_cap\<close> is reported with.\<close>

definition write_begin ::
  "ls_store \<Rightarrow> string \<Rightarrow> nat \<Rightarrow> nat \<times> nat \<times> string \<Rightarrow> (ls_store \<times> (int + nat \<times> ls_place)) option" where
  "write_begin s k hi info =
     (case find_or_insert s k of
        (s1, None) \<Rightarrow> Some (s1, Inl (neg_errno ENOMEM))
      | (s1, Some r) \<Rightarrow> do {
          (s2, rc) \<leftarrow> ensure_cap s1 r hi;
          if rc \<noteq> LS_OK then
            Some (ls_report s2 rc (Some k) (fst info) (fst (snd info)) (snd (snd info)), Inl rc)
          else do { (s3, pl) \<leftarrow> pin (extend s2 r hi) r; Some (s3, Inr (r, pl)) }
        })"

definition read_begin ::
  "ls_store \<Rightarrow> string \<Rightarrow> nat \<Rightarrow> nat \<times> nat \<times> string \<Rightarrow> (ls_store \<times> (int + nat \<times> ls_place)) option" where
  "read_begin s k hi info =
     (case ls_toc_find s k of
        None \<Rightarrow> Some (ls_report s LS_ERR_NOKEY (Some k) (fst info) (fst (snd info)) (snd (snd info)), Inl LS_ERR_NOKEY)
      | Some r \<Rightarrow> do {
          x \<leftarrow> recs s r;
          if rsize x < hi then
            Some (ls_report s LS_ERR_RANGE (Some k) (fst info) (fst (snd info)) (snd (snd info)), Inl LS_ERR_RANGE)
          else do { (s1, pl) \<leftarrow> pin s r; Some (s1, Inr (r, pl)) }
        })"

subsection \<open>\<open>ls_rw\<close>, \<open>ls_write\<close>, \<open>ls_read\<close>\<close>

definition ls_rw ::
  "ls_store \<Rightarrow> string option \<Rightarrow> nat \<Rightarrow> nat \<Rightarrow> bool \<Rightarrow> byte list option \<Rightarrow> ls_op \<Rightarrow> (ls_store \<times> int \<times> byte list) option" where
  "ls_rw s ko off n outp wbuf op =
     (if \<not> ls_key_ok ko \<or> (n \<noteq> 0 \<and> \<not> (case op of LS_OP_WRITE \<Rightarrow> wbuf \<noteq> None | LS_OP_READ \<Rightarrow> outp))
      then Some (s, LS_ERR_INVAL, [])
      else if add64 off n < off then Some (s, LS_ERR_RANGE, [])
      else let k = the ko; hi = add64 off n in
        if op = LS_OP_WRITE \<and> frozen s k hi then
          Some (ls_report s LS_ERR_MODE ko off n frozen_msg, LS_ERR_MODE, [])
        else do {
          (s1, b) \<leftarrow> (case op of LS_OP_READ \<Rightarrow> read_begin s k hi (off, n, ''read'')
                       | LS_OP_WRITE \<Rightarrow> write_begin s k hi (off, n, ''reserving space for write''));
          case b of
            Inl rc \<Rightarrow> Some (s1, rc, [])
          | Inr (r, pl) \<Rightarrow> do {
              (s2, rc, out) \<leftarrow> ls_scatter s1 pl off n (case wbuf of None \<Rightarrow> [] | Some bs \<Rightarrow> bs) op;
              let s3 = unpin s2 r;
              Some (if rc \<noteq> LS_OK
                    then ls_report s3 rc ko off n (case op of LS_OP_WRITE \<Rightarrow> ''write'' | LS_OP_READ \<Rightarrow> ''read'')
                    else s3, rc, out)
            }
        })"

definition ls_write :: "ls_store \<Rightarrow> string option \<Rightarrow> nat \<Rightarrow> nat \<Rightarrow> byte list option \<Rightarrow> (ls_store \<times> int) option" where
  "ls_write s ko off n buf =
     (if \<not> ls_key_ok ko \<or> (n \<noteq> 0 \<and> buf = None) then Some (s, LS_ERR_INVAL)
      else do { (s', rc, _) \<leftarrow> ls_rw s ko off n False buf LS_OP_WRITE; Some (s', rc) })"

definition ls_read :: "ls_store \<Rightarrow> string option \<Rightarrow> nat \<Rightarrow> nat \<Rightarrow> bool \<Rightarrow> (ls_store \<times> int \<times> byte list) option" where
  "ls_read s ko off n outp =
     (if \<not> ls_key_ok ko \<or> (n \<noteq> 0 \<and> \<not> outp) then Some (s, LS_ERR_INVAL, [])
      else ls_rw s ko off n outp None LS_OP_READ)"

subsection \<open>The table-of-contents calls\<close>

definition ls_exists :: "ls_store \<Rightarrow> string option \<Rightarrow> bool \<Rightarrow> int \<times> bool option" where
  "ls_exists s ko outp =
     (if \<not> outp \<or> \<not> ls_key_ok ko then (LS_ERR_INVAL, None)
      else (LS_OK, Some (ls_toc_find s (the ko) \<noteq> None)))"

definition ls_size :: "ls_store \<Rightarrow> string option \<Rightarrow> bool \<Rightarrow> int \<times> nat option" where
  "ls_size s ko outp =
     (if \<not> outp \<or> \<not> ls_key_ok ko then (LS_ERR_INVAL, None)
      else (case ls_toc_find s (the ko) of
          None \<Rightarrow> (LS_ERR_NOKEY, None)
        | Some r \<Rightarrow> (LS_OK, map_option rsize (recs s r))))"

definition ls_erase :: "ls_store \<Rightarrow> string option \<Rightarrow> ls_store \<times> int" where
  "ls_erase s ko =
     (if \<not> ls_key_ok ko then (s, LS_ERR_INVAL)
      else if parallel (opts s) = LS_SHARED then (s, LS_ERR_MODE)
      else (case ls_toc_find s (the ko) of
          None \<Rightarrow> (s, LS_ERR_NOKEY)
        | Some r \<Rightarrow> (ls_rec_free (ls_lru_drop (ls_toc_unlink s r) r) r, LS_OK)))"

definition ls_reserve :: "ls_store \<Rightarrow> string option \<Rightarrow> nat \<Rightarrow> (ls_store \<times> int) option" where
  "ls_reserve s ko nbytes =
     (if \<not> ls_key_ok ko then Some (s, LS_ERR_INVAL)
      else if parallel (opts s) = LS_SHARED then Some (s, LS_ERR_MODE)
      else (case find_or_insert s (the ko) of
          (s1, None) \<Rightarrow> Some (s1, neg_errno ENOMEM)
        | (s1, Some r) \<Rightarrow> do {
            (s2, rc) \<leftarrow> ensure_cap s1 r nbytes;
            if rc \<noteq> LS_OK then Some (ls_report s2 rc ko 0 0 ''reserve'', rc)
            else Some (extend s2 r nbytes, LS_OK)
          }))"

text \<open>\<open>ls_keys\<close>: one array, then one copy per key; the copies made so far are freed on failure.\<close>

fun dup_keys :: "ls_store \<Rightarrow> nat list \<Rightarrow> string list \<Rightarrow> ls_store \<times> string list option" where
  "dup_keys s [] out = (s, Some out)"
| "dup_keys s (r # rs) out =
     (case st_malloc s of (ok, s1) \<Rightarrow>
        if ok then dup_keys s1 rs (out @ [rkey s r]) else (s1, None))"

definition ls_keys :: "ls_store \<Rightarrow> bool \<Rightarrow> ls_store \<times> int \<times> string list" where
  "ls_keys s outp =
     (if \<not> outp then (s, LS_ERR_INVAL, [])
      else (case st_malloc s of (ok, s1) \<Rightarrow>
        if \<not> ok then (s1, neg_errno ENOMEM, [])
        else (case dup_keys s1 (concat (tab s1)) [] of
            (s2, Some out) \<Rightarrow> (s2, LS_OK, out)
          | (s2, None) \<Rightarrow> (s2, neg_errno ENOMEM, []))))"

subsection \<open>Append\<close>

definition ls_append ::
  "ls_store \<Rightarrow> string option \<Rightarrow> nat \<Rightarrow> byte list option \<Rightarrow> (ls_store \<times> int \<times> nat option) option" where
  "ls_append s ko n buf =
     (if \<not> ls_key_ok ko \<or> (n \<noteq> 0 \<and> buf = None) then Some (s, LS_ERR_INVAL, None)
      else if parallel (opts s) = LS_SHARED then Some (s, LS_ERR_MODE, None)
      else (case find_or_insert s (the ko) of
          (s1, None) \<Rightarrow> Some (s1, neg_errno ENOMEM, None)
        | (s1, Some r) \<Rightarrow> do {
            x \<leftarrow> recs s1 r;
            let off = rsize x;
            if add64 off n < off then Some (s1, LS_ERR_RANGE, None)
            else do {
              (s2, rc) \<leftarrow> ensure_cap s1 r (off + n);
              if rc \<noteq> LS_OK then Some (ls_report s2 rc ko off n ''reserving space for append'', rc, None)
              else do {
                (s3, pl) \<leftarrow> pin (upd_rec s2 r (\<lambda>x. x\<lparr>rsize := off + n\<rparr>)) r;
                (s4, rc, _) \<leftarrow> ls_scatter s3 pl off n (case buf of None \<Rightarrow> [] | Some bs \<Rightarrow> bs) LS_OP_WRITE;
                let s5 = unpin s4 r;
                Some (if rc \<noteq> LS_OK then (ls_report s5 rc ko off n ''append'', rc, None)
                      else (s5, LS_OK, Some off))
              }
            }
          }))"

subsection \<open>Attributes\<close>

definition ls_set_attr :: "ls_store \<Rightarrow> string option \<Rightarrow> byte list option \<Rightarrow> nat \<Rightarrow> ls_store \<times> int" where
  "ls_set_attr s ko blob n =
     (if \<not> ls_key_ok ko then (s, LS_ERR_INVAL)
      else if LS_ATTR_MAX < n \<or> (n \<noteq> 0 \<and> blob = None) then (s, LS_ERR_INVAL)
      else if parallel (opts s) = LS_SHARED then (s, LS_ERR_MODE)
      else (case find_or_insert s (the ko) of
          (s1, None) \<Rightarrow> (s1, neg_errno ENOMEM)
        | (s1, Some r) \<Rightarrow>
            (upd_rec s1 r (\<lambda>x. x\<lparr>attr := (if n \<noteq> 0 then blit (attr x) 0 (take n (the blob)) else attr x),
                                 attrlen := n\<rparr>), LS_OK)))"

text \<open>The result is the return code, the new value of \<open>*n\<close>, and the bytes stored through \<open>blob\<close>.\<close>

definition ls_get_attr :: "ls_store \<Rightarrow> string option \<Rightarrow> bool \<Rightarrow> nat option \<Rightarrow> int \<times> nat option \<times> byte list" where
  "ls_get_attr s ko blob no =
     (if \<not> ls_key_ok ko \<or> no = None then (LS_ERR_INVAL, no, [])
      else (case ls_toc_find s (the ko) of
          None \<Rightarrow> (LS_ERR_NOKEY, no, [])
        | Some r \<Rightarrow>
            (case recs s r of
               None \<Rightarrow> (LS_ERR_NOKEY, no, [])
             | Some x \<Rightarrow>
                 if \<not> blob then (LS_OK, Some (attrlen x), [])
                 else if the no < attrlen x then (LS_ERR_RANGE, Some (attrlen x), [])
                 else (LS_OK, Some (attrlen x), take (attrlen x) (attr x)))))"

subsection \<open>Vectored transfers\<close>

text \<open>The checks over the list, with the highest end so far.\<close>

fun seg_check :: "ls_seg list \<Rightarrow> nat \<Rightarrow> int + nat" where
  "seg_check [] hi = Inr hi"
| "seg_check (g # gs) hi =
     (if slen g \<noteq> 0 \<and> sbuf g = None then Inl LS_ERR_INVAL
      else if add64 (soff g) (slen g) < soff g then Inl LS_ERR_RANGE
      else seg_check gs (if hi < add64 (soff g) (slen g) then add64 (soff g) (slen g) else hi))"

definition seg_bytes :: "ls_seg \<Rightarrow> byte list" where
  "seg_bytes g = (case sbuf g of None \<Rightarrow> [] | Some bs \<Rightarrow> bs)"

fun seg_loop :: "ls_store \<Rightarrow> ls_place \<Rightarrow> ls_seg list \<Rightarrow> ls_op \<Rightarrow> byte list list \<Rightarrow> (ls_store \<times> int \<times> byte list list) option" where
  "seg_loop s pl [] op outs = Some (s, LS_OK, outs)"
| "seg_loop s pl (g # gs) op outs = do {
     (s1, rc, out) \<leftarrow> ls_scatter s pl (soff g) (slen g) (seg_bytes g) op;
     if rc \<noteq> LS_OK then Some (s1, rc, outs) else seg_loop s1 pl gs op (outs @ [out])
   }"

definition segv ::
  "ls_store \<Rightarrow> string option \<Rightarrow> ls_seg list option \<Rightarrow> nat \<Rightarrow> ls_op \<Rightarrow> (ls_store \<times> int \<times> byte list list) option" where
  "segv s ko segs nseg op =
     (if \<not> ls_key_ok ko \<or> (nseg \<noteq> 0 \<and> segs = None) then Some (s, LS_ERR_INVAL, [])
      else if nseg = 0 then Some (s, LS_OK, [])
      else let gs = take nseg (the segs); k = the ko in
        case seg_check gs 0 of
          Inl rc \<Rightarrow> Some (s, rc, [])
        | Inr hi \<Rightarrow>
            if op = LS_OP_WRITE \<and> frozen s k hi then
              Some (ls_report s LS_ERR_MODE ko 0 hi frozen_msg, LS_ERR_MODE, [])
            else do {
              (s1, b) \<leftarrow> (case op of LS_OP_READ \<Rightarrow> read_begin s k hi (0, 0, ''readv'')
                           | LS_OP_WRITE \<Rightarrow> write_begin s k hi (0, 0, ''reserving space for writev''));
              case b of
                Inl rc \<Rightarrow> Some (s1, rc, [])
              | Inr (r, pl) \<Rightarrow> do {
                  (s2, rc, outs) \<leftarrow> seg_loop s1 pl gs op [];
                  let s3 = unpin s2 r;
                  Some (if rc \<noteq> LS_OK
                        then ls_report s3 rc ko 0 0 (case op of LS_OP_READ \<Rightarrow> ''readv'' | LS_OP_WRITE \<Rightarrow> ''writev'')
                        else s3, rc, outs)
                }
            })"

definition ls_readv :: "ls_store \<Rightarrow> string option \<Rightarrow> ls_seg list option \<Rightarrow> nat \<Rightarrow> (ls_store \<times> int \<times> byte list list) option" where
  "ls_readv s ko segs nseg = segv s ko segs nseg LS_OP_READ"

definition ls_writev :: "ls_store \<Rightarrow> string option \<Rightarrow> ls_seg list option \<Rightarrow> nat \<Rightarrow> (ls_store \<times> int \<times> byte list list) option" where
  "ls_writev s ko segs nseg = segv s ko segs nseg LS_OP_WRITE"

subsection \<open>Accumulation\<close>

text \<open>A reduction is a function from the destination and source bytes to the new destination bytes.
  \<open>ls_add_f64\<close> and \<open>ls_add_f32\<close> go through whole elements and leave a shorter rest alone; the
  machine's addition on one element (scaled or not) is the argument \<open>add\<close>.\<close>

type_synonym ls_reduce = "byte list \<Rightarrow> byte list \<Rightarrow> byte list"

fun add_elements :: "nat \<Rightarrow> ls_reduce \<Rightarrow> nat \<Rightarrow> ls_reduce" where
  "add_elements w add 0 dst src = dst"
| "add_elements w add (Suc n) dst src =
     add (take w dst) (take w src) @ add_elements w add n (drop w dst) (drop w src)"

definition ls_add_f64 :: "ls_reduce \<Rightarrow> ls_reduce" where
  "ls_add_f64 add dst src = add_elements 8 add (length src div 8) dst src"

definition ls_add_f32 :: "ls_reduce \<Rightarrow> ls_reduce" where
  "ls_add_f32 add dst src = add_elements 4 add (length src div 4) dst src"

definition ACC_CHUNK :: nat where "ACC_CHUNK = 2 ^ 20"

function accum_loop ::
  "ls_store \<Rightarrow> ls_place \<Rightarrow> nat \<Rightarrow> nat \<Rightarrow> byte list \<Rightarrow> ls_reduce \<Rightarrow> nat \<Rightarrow> (ls_store \<times> int) option" where
  "accum_loop s pl off n buf red dn =
     (if dn < n then do {
        let k = (if n - dn < ACC_CHUNK then n - dn else ACC_CHUNK);
        (s1, rc, tmp) \<leftarrow> ls_scatter s pl (off + dn) k [] LS_OP_READ;
        if rc \<noteq> LS_OK then Some (s1, rc)
        else do {
          (s2, rc2, _) \<leftarrow> ls_scatter s1 pl (off + dn) k (red tmp (take k (drop dn buf))) LS_OP_WRITE;
          if rc2 \<noteq> LS_OK then Some (s2, rc2) else accum_loop s2 pl off n buf red (dn + k)
        }
      }
      else Some (s, LS_OK))"
  by pat_completeness auto
termination
  by (relation "measure (\<lambda>(s, pl, off, n, buf, red, dn). n - dn)") (auto simp: ACC_CHUNK_def split: if_splits)

text \<open>The resident case: the reduction runs in place, in the buffer of the snapshot.\<close>

definition accum_mem :: "ls_store \<Rightarrow> nat \<Rightarrow> nat \<Rightarrow> nat \<Rightarrow> nat \<Rightarrow> byte list \<Rightarrow> ls_reduce \<Rightarrow> (ls_store \<times> int) option" where
  "accum_mem s r a off n buf red = do {
     b \<leftarrow> mem_at s r a;
     if length (bdata b) < off + n then None
     else Some (upd_rec s r (\<lambda>x. x\<lparr>mem := Some (b\<lparr>bdata := blit (bdata b) off (red (part (bdata b) off n) (take n buf))\<rparr>)\<rparr>), LS_OK)
   }"

definition ls_accumulate ::
  "ls_store \<Rightarrow> string option \<Rightarrow> nat \<Rightarrow> nat \<Rightarrow> byte list option \<Rightarrow> ls_reduce option \<Rightarrow> (ls_store \<times> int) option" where
  "ls_accumulate s ko off n buf op =
     (if \<not> ls_key_ok ko \<or> op = None \<or> (n \<noteq> 0 \<and> buf = None) then Some (s, LS_ERR_INVAL)
      else if mode (opts s) \<noteq> LS_EXPLICIT then Some (s, LS_ERR_MODE)
      else if add64 off n < off then Some (s, LS_ERR_RANGE)
      else if n = 0 then Some (s, LS_OK)
      else let k = the ko; hi = add64 off n in
        if frozen s k hi then Some (ls_report s LS_ERR_MODE ko off n frozen_msg, LS_ERR_MODE)
        else do {
          (s1, b) \<leftarrow> write_begin s k hi (off, n, ''reserving space for accumulate'');
          case b of
            Inl rc \<Rightarrow> Some (s1, rc)
          | Inr (r, pl) \<Rightarrow> do {
              (s2, rc) \<leftarrow> (case pmem pl of
                   Some (q, a) \<Rightarrow> accum_mem s1 q a off n (the buf) (the op)
                 | None \<Rightarrow> (case st_malloc s1 of (ok, s2) \<Rightarrow>
                     if \<not> ok then Some (s2, neg_errno ENOMEM)
                     else accum_loop s2 pl off n (the buf) (the op) 0));
              let s3 = unpin s2 r;
              Some (if rc \<noteq> LS_OK then ls_report s3 rc ko off n ''accumulate'' else s3, rc)
            }
        })"

end
