(* ===== verification/Refine.thy ===== *)
theory Refine
  imports Store
begin

text \<open>
  The store as a map from keys to byte strings. \<open>store_abs\<close> forgets the tiers, extents, hash
  chains and pointers; the lemmas show that each public call acts on it as its documentation
  says, on success and on every error path, and preserves the invariant \<open>store_inv\<close>.
\<close>

subsection \<open>The abstract store\<close>

type_synonym kv = "string \<rightharpoonup> byte list \<times> byte list"

definition attr_of :: "ls_rec \<Rightarrow> byte list" where
  "attr_of x = take (attrlen x) (attr x)"

definition store_abs :: "ls_store \<Rightarrow> kv" where
  "store_abs s k = (case ls_toc_find s k of
       None \<Rightarrow> None
     | Some r \<Rightarrow> map_option (\<lambda>x. (content (fd s) x, attr_of x)) (recs s r))"

definition kv_get :: "kv \<Rightarrow> string \<Rightarrow> byte list \<times> byte list" where
  "kv_get m k = (case m k of None \<Rightarrow> ([], []) | Some v \<Rightarrow> v)"

text \<open>Growing a byte string with zeros, and writing into it at an offset.\<close>

definition grown :: "byte list \<Rightarrow> nat \<Rightarrow> byte list" where
  "grown c n = c @ zeros (n - length c)"

definition patch :: "byte list \<Rightarrow> nat \<Rightarrow> byte list \<Rightarrow> byte list" where
  "patch c off bs = blit (grown c (off + length bs)) off bs"

lemma length_grown [simp]: "length (grown c n) = max (length c) n"
  by (simp add: grown_def)

lemma length_patch [simp]: "length (patch c off bs) = max (length c) (off + length bs)"
  by (simp add: patch_def)

lemma part_take: "off + n \<le> m \<Longrightarrow> part (take m xs) off n = part xs off n"
  by (simp add: Prelude.part_def drop_take min_absorb1)

lemma part_patch [simp]: "part (patch c off bs) off (length bs) = bs"
  by (simp add: patch_def)

subsection \<open>Changing one record\<close>

lemma length_content: "rec_ok w x \<Longrightarrow> length (content w x) = rsize x"
  by (auto simp: content_def rec_ok_def split: option.splits)

lemma found:
  assumes "store_inv s" "ls_toc_find s k = Some r"
  obtains x where "recs s r = Some x" "key x = k"
  using toc_find_iff [OF store_invD(1) [OF assms(1)], of k r] assms(2) by (auto simp: rkey_def)

lemma store_abs_Some:
  "ls_toc_find s k = Some r \<Longrightarrow> recs s r = Some x \<Longrightarrow> store_abs s k = Some (content (fd s) x, attr_of x)"
  by (simp add: store_abs_def)

lemma same_rec_view: "same_rec w x w' x' \<Longrightarrow> content w' x' = content w x \<and> attr_of x' = attr_of x"
  by (simp add: same_rec_def attr_of_def)

lemma evolves_abs:
  assumes "store_inv s" "evolves s s'"
  shows "store_abs s' = store_abs s"
proof (rule ext)
  fix k
  show "store_abs s' k = store_abs s k"
  proof (cases "ls_toc_find s k")
    case None
    then show ?thesis using evolvesD(4) [OF assms(2)] by (simp add: store_abs_def)
  next
    case (Some r)
    obtain x where x: "recs s r = Some x" using found [OF assms(1) Some] by blast
    obtain x' where x': "recs s' r = Some x'" "same_rec (fd s) x (fd s') x'"
      using evolvesD(6) [OF assms(2) x] by blast
    then show ?thesis
      using Some x evolvesD(4) [OF assms(2)] same_rec_view [OF x'(2)] by (simp add: store_abs_def)
  qed
qed

text \<open>A step on one record changes the abstract store under its key only.\<close>

lemma step_abs:
  assumes inv: "store_inv s" and r: "recs s r = Some x" and r': "recs s' r = Some x'"
    and find: "ls_toc_find s' = ls_toc_find s"
    and others: "\<forall>r' y. r' \<noteq> r \<longrightarrow> recs s r' = Some y \<longrightarrow> recs s' r' = Some y \<and> same_rec (fd s) y (fd s') y"
  shows "store_abs s' = (store_abs s)(key x \<mapsto> (content (fd s') x', attr_of x'))"
proof (rule ext)
  fix k
  have fr: "ls_toc_find s (key x) = Some r"
    using toc_find_iff [OF store_invD(1) [OF inv]] r by (auto simp: rkey_def)
  show "store_abs s' k = ((store_abs s)(key x \<mapsto> (content (fd s') x', attr_of x'))) k"
  proof (cases "k = key x")
    case True
    then show ?thesis using fr find r' by (simp add: store_abs_def)
  next
    case False
    show ?thesis
    proof (cases "ls_toc_find s k")
      case None
      then show ?thesis using False find by (simp add: store_abs_def)
    next
      case (Some q)
      obtain y where y: "recs s q = Some y" "key y = k" using found [OF inv Some] by blast
      then have "q \<noteq> r" using False r by auto
      then have q: "recs s' q = Some y" "same_rec (fd s) y (fd s') y" using others y(1) by blast+
      then show ?thesis using False Some y(1) find same_rec_view [OF q(2)] by (simp add: store_abs_def)
    qed
  qed
qed

lemma upd_rec_inv:
  assumes inv: "store_inv s" and r: "recs s r = Some x"
    and f: "key (f x) = key x" "ext (f x) = ext x" "(mem (f x) = None) = (mem x = None)" "mem_cap (f x) = mem_cap x"
    and ok: "rec_ok (fd s) (f x)"
  shows "store_inv (upd_rec s r f)" "ls_toc_find (upd_rec s r f) = ls_toc_find s"
    "store_abs (upd_rec s r f) = (store_abs s)(key x \<mapsto> (content (fd s) (f x), attr_of (f x)))"
    "share (upd_rec s r f) = share s" "demand (upd_rec s r f) = demand s"
proof -
  let ?s' = "upd_rec s r f"
  note i = store_invD [OF inv]
  have rs: "recs ?s' = (recs s)(r \<mapsto> f x)" using r by (simp add: recs_upd_rec)
  have tier: "tier_ok ?s' = tier_ok s" "res_set ?s' = res_set s"
    using tier_ok_cong [of ?s' s] rs r f(3,4) by auto
  have al: "alloc_inv ?s'" "free_set ?s' = free_set s" using i(2) by (simp_all add: alloc_inv_def free_set_def)
  have "os_keeps (fd s) (fd ?s') P" for P using i(6) by (simp add: os_keeps_refl)
  moreover have "free_set ?s' \<subseteq> free_set s \<union> set (locs (ext x))" "set (locs (ext (f x))) \<inter> free_set ?s' = {}"
    "set (locs (ext (f x))) \<subseteq> set (locs (ext x)) \<union> free_set s" "rec_ok (fd ?s') (f x)" "tier_ok ?s'"
    using al(2) f(2) i(4) i(8) [OF r] ok tier(1) by auto
  moreover have "tab ?s' = tab s" "nrec ?s' = nrec s" "fresh s \<le> fresh ?s'" "direct ?s' = direct s" "teardown ?s' = teardown s"
    by simp_all
  ultimately have all: "store_inv ?s'" "ls_toc_find ?s' = ls_toc_find s"
     "\<forall>r' y. r' \<noteq> r \<longrightarrow> recs s r' = Some y \<longrightarrow> recs ?s' r' = Some y \<and> same_rec (fd s) y (fd ?s') y"
    using store_inv_step [OF inv r rs f(1)] al(1) by blast+
  then show "store_inv ?s'" "ls_toc_find ?s' = ls_toc_find s" by auto
  have "recs ?s' r = Some (f x)" using rs by simp
  from step_abs [OF inv r this all(2,3)]
  show "store_abs ?s' = (store_abs s)(key x \<mapsto> (content (fd s) (f x), attr_of (f x)))" by simp
  have "rcap ?s' r' = rcap s r'" for r' using rs r f(4) by (simp add: rcap_def)
  then show sh: "share ?s' = share s" using tier(2) by (simp add: share_def fun_eq_iff)
  then show "demand ?s' = demand s" using tier(2) by (simp add: demand_def)
qed

lemma ls_report_evolves:
  assumes "store_inv s"
  shows "evolves s (ls_report s e k off n m)" "share (ls_report s e k off n m) = share s"
    "demand (ls_report s e k off n m) = demand s"
  using evolves_same [of s "ls_report s e k off n m"] assms store_invD(6) [OF assms]
  by (auto simp: os_keeps_refl)

subsection \<open>Extending, pinning\<close>

lemma rec_ok_busy [simp]: "rec_ok w (x\<lparr>busy := n\<rparr>) = rec_ok w x"
  by (simp add: rec_ok_def split: option.splits)

lemma view_busy [simp]: "content w (x\<lparr>busy := n\<rparr>) = content w x" "attr_of (x\<lparr>busy := n\<rparr>) = attr_of x"
  by (simp_all add: content_def attr_of_def split: option.splits)

lemma rec_ok_grow:
  assumes "rec_ok w x" "rsize x \<le> hi" "hi \<le> cap_of x" "hi < u64_mod"
  shows "rec_ok w (x\<lparr>rsize := hi\<rparr>)" "content w (x\<lparr>rsize := hi\<rparr>) = grown (content w x) hi"
proof -
  show ok: "rec_ok w (x\<lparr>rsize := hi\<rparr>)" using assms by (auto simp: rec_ok_def cap_of_def split: option.splits)
  show "content w (x\<lparr>rsize := hi\<rparr>) = grown (content w x) hi"
  proof (rule nth_equalityI)
    show "length (content w (x\<lparr>rsize := hi\<rparr>)) = length (grown (content w x) hi)"
      using length_content [OF ok] length_content [OF assms(1)] assms(2) by simp
    fix j assume "j < length (content w (x\<lparr>rsize := hi\<rparr>))"
    then have j: "j < hi" using length_content [OF ok] by simp
    show "content w (x\<lparr>rsize := hi\<rparr>) ! j = grown (content w x) hi ! j"
    proof (cases "mem x")
      case None
      then have "hi \<le> length (locs (ext x))" using assms(1,3) by (simp add: cap_of_def rec_ok_def)
      then show ?thesis using j None assms(1,2) by (auto simp: content_def grown_def nth_append rec_ok_def)
    next
      case (Some b)
      then have "hi \<le> length (bdata b)" using assms(1,3) by (simp add: cap_of_def rec_ok_def)
      then show ?thesis using j Some assms(1,2) by (auto simp: content_def grown_def nth_append rec_ok_def)
    qed
  qed
qed

lemma grown_id [simp]: "n \<le> length c \<Longrightarrow> grown c n = c"
  by (simp add: grown_def)

lemma extend_spec:
  assumes "store_inv s" "recs s r = Some x" "hi \<le> cap_of x" "hi < u64_mod"
  shows "store_inv (extend s r hi)" "ls_toc_find (extend s r hi) = ls_toc_find s"
    "store_abs (extend s r hi) = (store_abs s)(key x \<mapsto> (grown (content (fd s) x) hi, attr_of x))"
    "recs (extend s r hi) r = Some (x\<lparr>rsize := max (rsize x) hi\<rparr>)" "fd (extend s r hi) = fd s"
    "content (fd s) (x\<lparr>rsize := max (rsize x) hi\<rparr>) = grown (content (fd s) x) hi"
proof -
  let ?f = "\<lambda>x. if rsize x < hi then x\<lparr>rsize := hi\<rparr> else x"
  have ok: "rec_ok (fd s) x" by (rule store_invD(7) [OF assms(1,2)])
  have f: "?f x = x\<lparr>rsize := max (rsize x) hi\<rparr>" by (simp add: max_def)
  have fx: "rec_ok (fd s) (?f x)" "content (fd s) (?f x) = grown (content (fd s) x) hi" "attr_of (?f x) = attr_of x"
    using rec_ok_grow [OF ok _ assms(3,4)] ok length_content [OF ok] by (auto simp: attr_of_def)
  note u = upd_rec_inv [OF assms(1,2), of ?f, folded extend_def]
  show "store_inv (extend s r hi)" "ls_toc_find (extend s r hi) = ls_toc_find s"
    "store_abs (extend s r hi) = (store_abs s)(key x \<mapsto> (grown (content (fd s) x) hi, attr_of x))"
    using u fx by auto
  show "recs (extend s r hi) r = Some (x\<lparr>rsize := max (rsize x) hi\<rparr>)"
    using assms(2) by (simp add: extend_def recs_upd_rec f)
  show "fd (extend s r hi) = fd s" by (simp add: extend_def)
  show "content (fd s) (x\<lparr>rsize := max (rsize x) hi\<rparr>) = grown (content (fd s) x) hi" using fx(2) f by simp
qed

lemma touch_evolves:
  assumes "store_inv s" "recs s r = Some x" "mem x \<noteq> None"
  shows "evolves s (ls_lru_touch s r)" "recs (ls_lru_touch s r) = recs s" "fd (ls_lru_touch s r) = fd s"
    "share (ls_lru_touch s r) = share s" "demand (ls_lru_touch s r) = demand s"
proof -
  let ?s' = "ls_lru_touch s r"
  note i = store_invD [OF assms(1)]
  show rs: "recs ?s' = recs s" and fd: "fd ?s' = fd s" by (simp_all add: ls_lru_touch_def)
  have sh: "res_set ?s' = res_set s" "share ?s' = share s" using share_cong [OF rs] by blast+
  then show "share ?s' = share s" "demand ?s' = demand s" by (simp_all add: demand_def ls_lru_touch_def)
  have "tier_ok ?s'"
  proof -
    obtain xs where xs: "lru_list (lru s) xs" "set xs = res_set s" using i(4) by (auto simp: tier_ok_def)
    have "r \<in> res_set s" using assms(2,3) by (auto simp: res_set_def)
    then have "set (r # remove1 r xs) = res_set s" using xs by (auto simp: lru_list_def)
    moreover have "lru_list (lru ?s') (r # remove1 r xs)" using lru_touch_list [OF xs(1)] by (simp add: ls_lru_touch_def)
    moreover have "rcap ?s' = rcap s" using rs by (simp add: rcap_def fun_eq_iff)
    ultimately show ?thesis using i(4) sh(1) unfolding tier_ok_def by (auto simp: ls_lru_touch_def)
  qed
  moreover have "alloc_inv ?s'" "free_set ?s' = free_set s"
    using i(2) by (simp_all add: ls_lru_touch_def alloc_inv_def free_set_def)
  moreover have "os_keeps (fd s) (fd ?s') P" for P using i(6) fd by (simp add: os_keeps_refl)
  ultimately show "evolves s ?s'"
    using i(7,8) [OF assms(2)] rs assms(2) fd
    by (intro evolves_step [OF assms(1,2), of ?s' x]) (auto simp: ls_lru_touch_def)
qed

text \<open>A pinned record: the snapshot describes where its bytes are now.\<close>

lemma pin_spec:
  assumes "store_inv s" "recs s r = Some x"
  shows "\<exists>s1 x1. pin s r = Some (s1, ls_place_of r x1) \<and> store_inv s1 \<and> store_abs s1 = store_abs s
     \<and> ls_toc_find s1 = ls_toc_find s \<and> recs s1 r = Some x1 \<and> x1 = x\<lparr>busy := busy x + 1\<rparr> \<and> fd s1 = fd s
     \<and> direct s1 = direct s \<and> opts s1 = opts s \<and> demand s1 = demand s \<and> dom (recs s1) = dom (recs s)"
proof -
  define t where "t = (if mem x \<noteq> None then ls_lru_touch s r else s)"
  have t: "evolves s t" "recs t = recs s" "fd t = fd s" "demand t = demand s"
    using touch_evolves [OF assms] evolves_refl [OF assms(1)] by (auto simp: t_def)
  let ?f = "\<lambda>x. x\<lparr>busy := busy x + 1\<rparr>"
  have inv: "store_inv t" using evolvesD(1) [OF t(1)] .
  have r: "recs t r = Some x" using t(2) assms(2) by simp
  have "rec_ok (fd t) (?f x)" using store_invD(7) [OF inv r] by simp
  note u = upd_rec_inv [OF inv r, of ?f, OF _ _ _ _ this]
  have fr: "ls_toc_find t (key x) = Some r"
    using toc_find_iff [OF store_invD(1) [OF inv]] r by (auto simp: rkey_def)
  have "store_abs (upd_rec t r ?f) = (store_abs t)(key x \<mapsto> (content (fd t) x, attr_of x))"
    using u(3) by simp
  also have "\<dots> = store_abs t" using store_abs_Some [OF fr r] by (simp add: fun_upd_idem)
  finally have abs: "store_abs (upd_rec t r ?f) = store_abs s" using evolves_abs [OF assms(1) t(1)] by simp
  have "pin s r = Some (upd_rec t r ?f, ls_place_of r (?f x))"
    using assms(2) by (simp add: pin_def t_def Let_def ls_place_of_def)
  moreover have "recs (upd_rec t r ?f) r = Some (?f x)" using r by (simp add: recs_upd_rec)
  moreover have "dom (recs (upd_rec t r ?f)) = dom (recs s)" using r t(2) by (auto simp: recs_upd_rec)
  ultimately show ?thesis using u abs t evolvesD [OF t(1)]
    by (intro exI [of _ "upd_rec t r ?f"] exI [of _ "?f x"]) simp
qed

lemma unpin_spec:
  assumes "store_inv s" "recs s r = Some x"
  shows "store_inv (unpin s r)" "store_abs (unpin s r) = store_abs s" "ls_toc_find (unpin s r) = ls_toc_find s"
    "demand (unpin s r) = demand s" "fd (unpin s r) = fd s" "opts (unpin s r) = opts s"
proof -
  let ?f = "\<lambda>x. x\<lparr>busy := busy x - 1\<rparr>"
  have "rec_ok (fd s) (?f x)" using store_invD(7) [OF assms] by simp
  note u = upd_rec_inv [OF assms, of ?f, OF _ _ _ _ this, folded unpin_def]
  have fr: "ls_toc_find s (key x) = Some r"
    using toc_find_iff [OF store_invD(1) [OF assms(1)]] assms(2) by (auto simp: rkey_def)
  have "store_abs (unpin s r) = (store_abs s)(key x \<mapsto> (content (fd s) x, attr_of x))"
    using u(3) by simp
  also have "\<dots> = store_abs s" using store_abs_Some [OF fr assms(2)] by (simp add: fun_upd_idem)
  finally show "store_abs (unpin s r) = store_abs s" .
  show "store_inv (unpin s r)" "ls_toc_find (unpin s r) = ls_toc_find s" "demand (unpin s r) = demand s"
    "fd (unpin s r) = fd s" "opts (unpin s r) = opts s"
    using u by (simp_all add: unpin_def)
qed

subsection \<open>Finding or creating the record\<close>

lemma rec_new_ok [simp]: "key (rec_new k) = k" "rec_ok w (rec_new k)" "content w (rec_new k) = []" "attr_of (rec_new k) = []"
  by (simp_all add: rec_ok_def rec_new_def content_def attr_of_def)

lemma store_inv_added:
  assumes inv: "store_inv s" and add: "toc_added s k s' ro"
  shows "store_inv s'" "demand s' = demand s"
    "\<And>r x. recs s r = Some x \<Longrightarrow> recs s' r = Some x" "fbytes (fd s') = fbytes (fd s)"
proof -
  note i = store_invD [OF inv]
  have o: "toc_only s s'" "toc_inv s'" using add by (auto simp: toc_added_def)
  note sel = toc_only_sel [OF o(1)]
  have rs: "recs s' r = (case ro of None \<Rightarrow> recs s r | Some q \<Rightarrow> if r = q then Some (rec_new k) else recs s r)" for r
    using add by (auto simp: toc_added_def split: option.splits)
  have fresh: "ro = Some q \<Longrightarrow> recs s q = None" for q using add by (auto simp: toc_added_def)
  then show ext: "recs s r = Some x \<Longrightarrow> recs s' r = Some x" for r x using rs by (auto split: option.splits)
  have keep: "os_keeps (fd s) (fd s') UNIV" and fb: "fbytes (fd s') = fbytes (fd s)"
    using o(1) i(6) by (auto simp: toc_only_def intro: os_keeps_same)
  show "fbytes (fd s') = fbytes (fd s)" by (rule fb)
  have u: "used s' r = used s r" for r
    using rs fresh by (auto simp: used_def rec_new_def split: option.splits)
  have "r \<in> res_set s' \<longleftrightarrow> r \<in> res_set s" for r
    using rs [of r] fresh [of r] by (cases "ro = Some r") (auto simp: res_set_def rec_new_def split: option.splits)
  then have res: "res_set s' = res_set s" by blast
  have cap: "rcap s' r = rcap s r" for r
    using rs fresh by (auto simp: rcap_def rec_new_def split: option.splits)
  have tier: "tier_ok s'" using i(4) sel res cap by (simp add: tier_ok_def)
  show "demand s' = demand s" using sel(9) res cap by (simp add: demand_def share_def)
  have fs: "free_set s' = free_set s" "alloc_inv s'" using i(2) sel by (simp_all add: free_set_def alloc_inv_def)
  have "rec_ok (fd s') x" if "recs s' r = Some x" for r x
  proof (cases "recs s r")
    case None
    then have "x = rec_new k" using that rs by (auto split: option.splits if_splits)
    then show ?thesis by simp
  next
    case (Some y)
    then have "x = y" using ext that by simp
    then show ?thesis using rec_ok_keeps(1) [OF i(7) [OF Some] keep] by simp
  qed
  moreover have "\<forall>r. used s' r \<inter> free_set s' = {}" "\<forall>r r'. r \<noteq> r' \<longrightarrow> used s' r \<inter> used s' r' = {}"
    using i(9,10) unfolding u fs(1) by blast+
  moreover have "io_ok (fd s') (direct s')" using io_ok_keeps [OF keep i(3)] sel(3) by simp
  ultimately show "store_inv s'" using o(2) fs(2) tier i(5) sel(4) unfolding store_inv_def by simp
qed

lemma find_or_insert_spec:
  assumes inv: "store_inv s" and f: "find_or_insert s k = (s1, ro)"
  shows "store_inv s1" "demand s1 = demand s" "opts s1 = opts s" "direct s1 = direct s" "advances (fd s) (fd s1)"
    "ro = None \<Longrightarrow> store_abs s1 = store_abs s"
    "ro = Some r \<Longrightarrow> \<exists>x. recs s1 r = Some x \<and> key x = k \<and> ls_toc_find s1 k = Some r
       \<and> (content (fd s1) x, attr_of x) = kv_get (store_abs s) k
       \<and> store_abs s1 = (store_abs s)(k \<mapsto> kv_get (store_abs s) k)"
    "quiet (fd s) \<Longrightarrow> length (tab s) * 16 < off_max \<Longrightarrow> ro \<noteq> None"
proof -
  have all: "store_inv s1 \<and> demand s1 = demand s \<and> opts s1 = opts s \<and> direct s1 = direct s \<and> advances (fd s) (fd s1)
    \<and> (ro = None \<longrightarrow> store_abs s1 = store_abs s)
    \<and> (\<forall>r. ro = Some r \<longrightarrow> (\<exists>x. recs s1 r = Some x \<and> key x = k \<and> ls_toc_find s1 k = Some r
       \<and> (content (fd s1) x, attr_of x) = kv_get (store_abs s) k
       \<and> store_abs s1 = (store_abs s)(k \<mapsto> kv_get (store_abs s) k)))
    \<and> (quiet (fd s) \<and> length (tab s) * 16 < off_max \<longrightarrow> ro \<noteq> None)"
  proof (cases "ls_toc_find s k")
    case (Some q)
    then have e: "s1 = s" "ro = Some q" using f by (auto simp: find_or_insert_def)
    obtain x where x: "recs s q = Some x" "key x = k" using found [OF inv Some] by blast
    have a: "store_abs s k = Some (content (fd s) x, attr_of x)" using store_abs_Some [OF Some x(1)] .
    then have "(store_abs s)(k \<mapsto> kv_get (store_abs s) k) = store_abs s" by (simp add: kv_get_def fun_upd_idem)
    then show ?thesis using e x a Some inv by (simp add: kv_get_def)
  next
    case None
    then have ins: "ls_toc_insert s k = (s1, ro)" using f by (simp add: find_or_insert_def)
    note sp = ls_toc_insert_spec [OF ins store_invD(1) [OF inv] None]
    note st = store_inv_added [OF inv sp(1)]
    have o: "toc_only s s1" using sp(1) by (simp add: toc_added_def)
    note sel = toc_only_sel [OF o]
    have old: "store_abs s k = None" using None by (simp add: store_abs_def)
    have view: "content (fd s1) x = content (fd s) x" for x using st(4) by (cases "mem x") (simp_all add: content_def)
    have other: "store_abs s1 k' = store_abs s k'" if "ls_toc_find s1 k' = ls_toc_find s k'" for k'
    proof (cases "ls_toc_find s k'")
      case (Some q)
      obtain x where "recs s q = Some x" using found [OF inv Some] by blast
      then show ?thesis using that Some st(3) view by (simp add: store_abs_def)
    qed (use that in \<open>simp add: store_abs_def\<close>)
    have "ro = None \<longrightarrow> store_abs s1 = store_abs s"
      using sp(1) other by (auto simp: toc_added_def)
    moreover have "\<exists>x. recs s1 r = Some x \<and> key x = k \<and> ls_toc_find s1 k = Some r
       \<and> (content (fd s1) x, attr_of x) = kv_get (store_abs s) k
       \<and> store_abs s1 = (store_abs s)(k \<mapsto> kv_get (store_abs s) k)" if ro: "ro = Some r" for r
    proof -
      have r: "recs s1 r = Some (rec_new k)" "ls_toc_find s1 = (ls_toc_find s)(k \<mapsto> r)"
        using sp(1) ro by (auto simp: toc_added_def)
      then have "store_abs s1 k' = ((store_abs s)(k \<mapsto> ([], []))) k'" for k'
        using other [of k'] by (cases "k' = k") (auto simp: store_abs_def)
      then have "store_abs s1 = (store_abs s)(k \<mapsto> ([], []))" by (rule ext)
      then show ?thesis using r old by (auto simp: kv_get_def)
    qed
    ultimately show ?thesis using st(1,2) sel(2,3) o sp(2) by (auto simp: toc_only_def quiet_def)
  qed
  then show "store_inv s1" "demand s1 = demand s" "opts s1 = opts s" "direct s1 = direct s" "advances (fd s) (fd s1)"
    "ro = None \<Longrightarrow> store_abs s1 = store_abs s"
    "ro = Some r \<Longrightarrow> \<exists>x. recs s1 r = Some x \<and> key x = k \<and> ls_toc_find s1 k = Some r
       \<and> (content (fd s1) x, attr_of x) = kv_get (store_abs s) k
       \<and> store_abs s1 = (store_abs s)(k \<mapsto> kv_get (store_abs s) k)"
    "quiet (fd s) \<Longrightarrow> length (tab s) * 16 < off_max \<Longrightarrow> ro \<noteq> None" by blast+
qed

subsection \<open>Transfers through a valid snapshot\<close>

lemma locs_small:
  assumes "store_inv s" "recs s r = Some x"
  shows "length (locs (ext x)) < u64_mod"
proof -
  have d: "distinct (locs (ext x))" "set (locs (ext x)) \<subseteq> {..<flen (fd s)}"
    using store_invD(7) [OF assms] by (auto simp: rec_ok_def)
  have "length (locs (ext x)) = card (set (locs (ext x)))" using d(1) by (simp add: distinct_card)
  also have "\<dots> \<le> flen (fd s)" using d(2) by (metis card_lessThan card_mono finite_lessThan)
  also have "\<dots> < off_max" using store_invD(6) [OF assms(1)] by (simp add: file_wf_def)
  finally show ?thesis using off_max_less by (rule less_trans)
qed

lemma scatter_read_store:
  assumes inv: "store_inv s" and r: "recs s r = Some x" and rng: "off + n \<le> rsize x"
  shows "\<exists>s' rc out. ls_scatter s (ls_place_of r x) off n buf LS_OP_READ = Some (s', rc, out)
     \<and> evolves s s' \<and> recs s' = recs s \<and> demand s' = demand s \<and> file_end s' = file_end s
     \<and> (rc = LS_OK \<longrightarrow> out = part (content (fd s) x) off n)
     \<and> (quiet (fd s) \<and> file_end s + 4096 \<le> off_max \<longrightarrow> rc = LS_OK)"
proof -
  have ok: "rec_ok (fd s) x" by (rule store_invD(7) [OF inv r])
  note io = store_invD(3) [OF inv]
  show ?thesis
  proof (cases "n = 0")
    case True
    then show ?thesis using evolves_refl [OF inv] by (auto simp: ls_scatter_def)
  next
    case n: False
    show ?thesis
    proof (cases "mem x")
      case (Some b)
      have "mem_at s r (baddr b) = Some b" using r Some by (simp add: mem_at_def)
      moreover have "length (bdata b) = mem_cap x" "rsize x \<le> mem_cap x" using ok Some by (auto simp: rec_ok_def)
      moreover have "part (take (rsize x) (bdata b)) off n = part (bdata b) off n"
        using rng by (rule part_take)
      ultimately show ?thesis using n Some rng evolves_refl [OF inv]
        by (auto simp: ls_scatter_def ls_place_of_def content_def)
    next
      case None
      obtain w rc out where sr: "scatter_read (fd s) (direct s) (ext x) 0 off n [] = (w, rc, out)" by (metis prod_cases3)
      have cov: "rsize x \<le> length (locs (ext x))" using ok None by (simp add: rec_ok_def)
      have len: "length (locs (ext x)) < u64_mod" by (rule locs_small [OF inv r])
      have "\<forall>e\<in>set (ext x). e_end e < u64_mod" using ext_below(3) [OF inv r] by blast
      moreover have "off + n \<le> length (locs (ext x))" using cov rng by linarith
      ultimately have sp: "file_frame (fd s) w {} \<and> flen w = flen (fd s)
        \<and> (rc = LS_OK \<longrightarrow> length out = n \<and> holds (fd s) (part (locs (ext x)) off n) out)
        \<and> (quiet (fd s) \<and> (\<forall>e\<in>set (ext x). e_end e + 4096 \<le> off_max \<and> e_end e \<le> flen (fd s)) \<longrightarrow> rc = LS_OK)"
        using scatter_read_start [OF sr io] len by simp
      let ?s' = "s\<lparr>fd := w\<rparr>"
      have keep: "os_keeps (fd s) (fd ?s') UNIV" using sp os_keeps_frame by fastforce
      have ev: "evolves s ?s'" "demand ?s' = demand s" using evolves_same [OF inv, of ?s'] keep by simp_all
      have "out = part (content (fd s) x) off n" if "rc = LS_OK"
      proof -
        have "part (take (rsize x) (locs (ext x))) off n = part (locs (ext x)) off n"
          using rng by (rule part_take)
        then show ?thesis using sp that None by (simp add: content_def part_map holds_def)
      qed
      moreover have "quiet (fd s) \<and> file_end s + 4096 \<le> off_max \<longrightarrow> rc = LS_OK"
        using sp ext_below(1,2) [OF inv r] by fastforce
      moreover have "ls_scatter s (ls_place_of r x) off n buf LS_OP_READ = Some (?s', rc, out)"
        using n None sr sp by (auto simp: ls_scatter_def ls_place_of_def)
      ultimately show ?thesis using ev by (intro exI [of _ ?s'] exI [of _ rc] exI [of _ out]) simp
    qed
  qed
qed

text \<open>Writing: the range is inside the record, the buffer has the bytes. On failure the bytes of the
  range are arbitrary, the others are kept.\<close>

definition patched_somehow :: "byte list \<Rightarrow> nat \<Rightarrow> nat \<Rightarrow> byte list \<Rightarrow> bool" where
  "patched_somehow c off n c' \<longleftrightarrow> length c' = length c \<and> (\<forall>i<length c. i \<notin> ival off n \<longrightarrow> c' ! i = c ! i)"

lemma blit_take: "off + length bs \<le> m \<Longrightarrow> m \<le> length xs \<Longrightarrow> take m (blit xs off bs) = blit (take m xs) off bs"
  by (rule nth_equalityI) (auto simp: nth_blit)

lemma rec_ok_file:
  assumes "rec_ok w x" "\<forall>p\<in>set (locs (ext x)). p < flen w'"
    "\<forall>i. rsize x \<le> i \<longrightarrow> i < length (locs (ext x)) \<longrightarrow> fbytes w' (locs (ext x) ! i) = 0"
  shows "rec_ok w' x"
  using assms unfolding rec_ok_def by blast

lemma scatter_write_store:
  assumes inv: "store_inv s" and r: "recs s r = Some x" and rng: "off + n \<le> rsize x" and bs: "length bs = n"
  shows "\<exists>s' rc x' out. ls_scatter s (ls_place_of r x) off n bs LS_OP_WRITE = Some (s', rc, out)
     \<and> store_inv s' \<and> ls_toc_find s' = ls_toc_find s \<and> recs s' r = Some x' \<and> opts s' = opts s \<and> direct s' = direct s
     \<and> advances (fd s) (fd s') \<and> demand s' = demand s
     \<and> store_abs s' = (store_abs s)(key x \<mapsto> (content (fd s') x', attr_of x)) \<and> key x' = key x
     \<and> attr_of x' = attr_of x \<and> ls_place_of r x' = ls_place_of r x \<and> file_end s' = file_end s
     \<and> (rc = LS_OK \<longrightarrow> content (fd s') x' = blit (content (fd s) x) off bs)
     \<and> patched_somehow (content (fd s) x) off n (content (fd s') x')
     \<and> (quiet (fd s) \<and> file_end s + 4096 \<le> off_max \<longrightarrow> rc = LS_OK)"
proof -
  have ok: "rec_ok (fd s) x" by (rule store_invD(7) [OF inv r])
  have fr: "ls_toc_find s (key x) = Some r"
    using toc_find_iff [OF store_invD(1) [OF inv]] r by (auto simp: rkey_def)
  have lc: "length (content (fd s) x) = rsize x" by (rule length_content [OF ok])
  have some_ok: "patched_somehow (content (fd s) x) off n (blit (content (fd s) x) off bs)"
    using lc rng bs by (auto simp: patched_somehow_def nth_blit)
  show ?thesis
  proof (cases "n = 0")
    case True
    have "(store_abs s)(key x \<mapsto> (content (fd s) x, attr_of x)) = store_abs s"
      using store_abs_Some [OF fr r] by (simp add: fun_upd_idem)
    then show ?thesis using inv r True bs some_ok
      by (intro exI [of _ s] exI [of _ LS_OK] exI [of _ x] exI [of _ "[]"]) (auto simp: ls_scatter_def)
  next
    case n: False
    show ?thesis
    proof (cases "mem x")
      case (Some b)
      define f where "f = (\<lambda>x. x\<lparr>mem := Some (b\<lparr>bdata := blit (bdata b) off bs\<rparr>)\<rparr> :: ls_rec)"
      have b: "length (bdata b) = mem_cap x" "rsize x \<le> mem_cap x" using ok Some by (auto simp: rec_ok_def)
      have at: "mem_at s r (baddr b) = Some b" using r Some by (simp add: mem_at_def)
      have "blit (bdata b) off bs ! i = bdata b ! i" if "rsize x \<le> i" "i < mem_cap x" for i
        using that rng bs b by (simp add: nth_blit)
      then have fok: "rec_ok (fd s) (f x)"
        using ok Some rng bs b by (auto simp: rec_ok_def f_def)
      have ct: "content (fd s) (f x) = blit (content (fd s) x) off bs"
        using Some rng bs b by (simp add: content_def f_def blit_take)
      have kf: "key (f x) = key x" "ext (f x) = ext x" "(mem (f x) = None) = (mem x = None)" "mem_cap (f x) = mem_cap x"
        "attr_of (f x) = attr_of x"
        using Some by (simp_all add: f_def attr_of_def)
      have pf: "ls_place_of r (f x) = ls_place_of r x" using Some by (simp add: f_def ls_place_of_def)
      note u = upd_rec_inv [OF inv r, of f, OF kf(1-4) fok]
      have "ls_scatter s (ls_place_of r x) off n bs LS_OP_WRITE = Some (upd_rec s r f, LS_OK, [])"
        using n Some at b rng bs by (auto simp: ls_scatter_def ls_place_of_def f_def)
      moreover have "recs (upd_rec s r f) r = Some (f x)" using r by (simp add: recs_upd_rec)
      ultimately show ?thesis using u kf pf ct some_ok
        by (intro exI [of _ "upd_rec s r f"] exI [of _ LS_OK] exI [of _ "f x"] exI [of _ "[]"]) simp
    next
      case None
      obtain w rc dn where sw: "scatter_write (fd s) (direct s) (ext x) 0 off n bs 0 = (w, rc, dn)" by (metis prod_cases3)
      have cov: "rsize x \<le> length (locs (ext x))" and dl: "distinct (locs (ext x))" using ok None by (auto simp: rec_ok_def)
      have "\<forall>e\<in>set (ext x). e_end e < u64_mod" using ext_below(3) [OF inv r] by blast
      moreover have cov': "off + n \<le> length (locs (ext x))" using cov rng by linarith
      ultimately have sp: "file_frame (fd s) w (set (part (locs (ext x)) off n))
        \<and> (rc = LS_OK \<longrightarrow> dn = n \<and> holds w (part (locs (ext x)) off n) (part bs 0 n))
        \<and> (quiet (fd s) \<and> (\<forall>e\<in>set (ext x). e_end e + 4096 \<le> off_max) \<longrightarrow> rc = LS_OK)"
        using scatter_write_start [OF sw store_invD(3) [OF inv] dl] locs_small [OF inv r] bs by simp
      let ?s' = "s\<lparr>fd := w\<rparr>"
      let ?ps = "part (locs (ext x)) off n"
      have fr_w: "fbytes w p = fbytes (fd s) p" if "p \<notin> set ?ps" for p using sp that file_frameD(4) by blast
      have notin: "locs (ext x) ! j \<notin> set ?ps" if "j < length (locs (ext x))" "j \<notin> ival off n" for j
      proof
        assume "locs (ext x) ! j \<in> set ?ps"
        then obtain i where "i < n" "locs (ext x) ! j = locs (ext x) ! (off + i)"
          using cov' by (auto simp: in_set_conv_nth nth_part)
        then show False using that dl cov' by (auto simp: nth_eq_iff_index_eq)
      qed
      have outside: "fbytes w (locs (ext x) ! j) = fbytes (fd s) (locs (ext x) ! j)"
        if "j < length (locs (ext x))" "j \<notin> ival off n" for j
        using fr_w notin that by blast
      have "flen (fd s) \<le> flen w" using sp file_frameD(3) by blast
      then have "\<forall>p\<in>set (locs (ext x)). p < flen w" using ok by (fastforce simp: rec_ok_def)
      moreover have "\<forall>i. rsize x \<le> i \<longrightarrow> i < length (locs (ext x)) \<longrightarrow> fbytes w (locs (ext x) ! i) = 0"
      proof (intro allI impI)
        fix j assume j: "rsize x \<le> j" "j < length (locs (ext x))"
        then have "j \<notin> ival off n" using rng by simp
        then show "fbytes w (locs (ext x) ! j) = 0" using outside [OF j(2)] ok j by (simp add: rec_ok_def)
      qed
      ultimately have okw: "rec_ok w x" by (rule rec_ok_file [OF ok])
      have "(\<Union>r'\<in>-{r}. used s r') \<inter> set ?ps = {}"
        using others_disjoint [OF inv r] set_part_subset [of "locs (ext x)" off n] by blast
      then have keep: "os_keeps (fd s) (fd ?s') (\<Union>r'\<in>-{r}. used s r')"
        using os_keeps_frame [OF conjunct1 [OF sp]] by simp
      have rs: "recs ?s' = (recs s)(r \<mapsto> x)" using r by (simp add: fun_upd_idem)
      have al: "alloc_inv ?s'" "free_set ?s' = free_set s"
        using store_invD(2) [OF inv] by (simp_all add: alloc_inv_def free_set_def)
      have tier: "tier_ok ?s'" using tier_ok_cong(1) [of ?s' s] store_invD(4) [OF inv] by simp
      have "free_set ?s' \<subseteq> free_set s \<union> set (locs (ext x))" "set (locs (ext x)) \<inter> free_set ?s' = {}"
        "set (locs (ext x)) \<subseteq> set (locs (ext x)) \<union> free_set s" "rec_ok (fd ?s') x"
        "tab ?s' = tab s" "nrec ?s' = nrec s" "fresh s \<le> fresh ?s'" "direct ?s' = direct s" "teardown ?s' = teardown s"
        using al(2) store_invD(8) [OF inv r] okw by simp_all
      note st = store_inv_step [OF inv r rs refl this(5-9) al(1) this(1-3) keep this(4) tier]
      have abs: "store_abs ?s' = (store_abs s)(key x \<mapsto> (content w x, attr_of x))"
        using step_abs [OF inv r _ st(2,3), of x] r by simp
      have lw: "length (content w x) = rsize x" by (rule length_content [OF okw])
      have cn: "content w x ! j = fbytes w (locs (ext x) ! j)" "content (fd s) x ! j = fbytes (fd s) (locs (ext x) ! j)"
        if "j < rsize x" for j using that None cov by (simp_all add: content_def)
      have "content w x = blit (content (fd s) x) off bs" if "rc = LS_OK"
      proof (rule nth_equalityI)
        show "length (content w x) = length (blit (content (fd s) x) off bs)" using lw lc rng bs by simp
        fix j assume "j < length (content w x)"
        then have j: "j < rsize x" using lw by simp
        show "content w x ! j = blit (content (fd s) x) off bs ! j"
        proof (cases "j \<in> ival off n")
          case True
          have "map (fbytes w) ?ps = bs" using sp that bs by (simp add: holds_def Prelude.part_def)
          then have "fbytes w (?ps ! (j - off)) = bs ! (j - off)"
            using True cov' by (metis (no_types, lifting) add_less_cancel_left ival_iff le_add_diff_inverse length_part nth_map)
          moreover have "?ps ! (j - off) = locs (ext x) ! j" using True cov' by (auto simp: nth_part)
          ultimately show ?thesis using True j lc rng bs cn(1) by (simp add: nth_blit)
        next
          case False
          have "blit (content (fd s) x) off bs ! j = content (fd s) x ! j" using False j lc rng bs by (auto simp: nth_blit)
          then show ?thesis using j cn [OF j] outside [of j] False cov by simp
        qed
      qed
      moreover have "patched_somehow (content (fd s) x) off n (content w x)"
        using lw lc cn outside cov unfolding patched_somehow_def by simp
      moreover have "quiet (fd s) \<and> file_end s + 4096 \<le> off_max \<longrightarrow> rc = LS_OK"
        using sp ext_below(1) [OF inv r] by fastforce
      moreover have "ls_scatter s (ls_place_of r x) off n bs LS_OP_WRITE = Some (?s', rc, [])"
        using n None sw sp by (auto simp: ls_scatter_def ls_place_of_def)
      moreover have "advances (fd s) w" using sp file_frameD(1) by blast
      moreover have "demand ?s' = demand s" using share_cong [of ?s' s] by (simp add: demand_def)
      ultimately show ?thesis using st abs r
        by (intro exI [of _ ?s'] exI [of _ rc] exI [of _ x] exI [of _ "[]"]) simp
    qed
  qed
qed

subsection \<open>Beginning and ending a call\<close>

lemma write_begin_spec:
  assumes inv: "store_inv s" and fit: "fits s hi" "hi < u64_mod"
  shows "\<exists>s1 b. write_begin s k hi info = Some (s1, b) \<and> store_inv s1 \<and> opts s1 = opts s \<and> direct s1 = direct s
     \<and> advances (fd s) (fd s1) \<and> (\<forall>k'. k' \<noteq> k \<longrightarrow> store_abs s1 k' = store_abs s k')
     \<and> file_end s1 \<le> demand s + hi + 4095
     \<and> (case b of
          Inl rc \<Rightarrow> rc \<noteq> LS_OK \<and> (store_abs s1 = store_abs s \<or> store_abs s1 = (store_abs s)(k \<mapsto> kv_get (store_abs s) k))
            \<and> \<not> (quiet (fd s) \<and> roomy s hi \<and> length (tab s) * 16 < off_max)
        | Inr (r, pl) \<Rightarrow> \<exists>x. recs s1 r = Some x \<and> pl = ls_place_of r x \<and> key x = k \<and> hi \<le> rsize x
            \<and> ls_toc_find s1 k = Some r
            \<and> content (fd s1) x = grown (fst (kv_get (store_abs s) k)) hi \<and> attr_of x = snd (kv_get (store_abs s) k)
            \<and> store_abs s1 = (store_abs s)(k \<mapsto> (content (fd s1) x, attr_of x)))"
proof -
  obtain s1 ro where fi: "find_or_insert s k = (s1, ro)" by fastforce
  note f = find_or_insert_spec [OF inv fi]
  show ?thesis
  proof (cases ro)
    case None
    have "file_end s1 \<le> demand s" using demand_ge [OF finite_res_set [OF f(1)]] f(2) by (metis add_leD1)
    then show ?thesis using None fi f by (auto simp: write_begin_def)
  next
    case (Some r)
    obtain x where x: "recs s1 r = Some x" "key x = k" "ls_toc_find s1 k = Some r"
      "(content (fd s1) x, attr_of x) = kv_get (store_abs s) k" "store_abs s1 = (store_abs s)(k \<mapsto> kv_get (store_abs s) k)"
      using f(7) [OF Some] by blast
    have "fits s1 hi" using fit(1) f(2) by (simp add: fits_def)
    from ensure_cap_spec [OF f(1) x(1) this] obtain s2 rc x2 where
      e: "ensure_cap s1 r hi = Some (s2, rc)" "evolves s1 s2" "recs s2 r = Some x2" "file_end s2 \<le> demand s1 + hi + 4095" "rc = LS_OK \<longrightarrow> hi \<le> cap_of x2"
      "quiet (fd s1) \<and> roomy s1 hi \<longrightarrow> rc = LS_OK" by blast
    have abs2: "store_abs s2 = store_abs s1" by (rule evolves_abs [OF f(1) e(2)])
    have inv2: "store_inv s2" using evolvesD(1) [OF e(2)] .
    show ?thesis
    proof (cases "rc = LS_OK")
      case False
      let ?t = "ls_report s2 rc (Some k) (fst info) (fst (snd info)) (snd (snd info))"
      have res: "write_begin s k hi info = Some (?t, Inl rc)" using fi Some e(1) False by (simp add: write_begin_def)
      have "evolves s2 ?t" by (rule ls_report_evolves(1) [OF inv2])
      then have t: "store_inv ?t" "store_abs ?t = store_abs s1" using evolvesD(1) evolves_abs [OF inv2] abs2 by auto
      have "\<not> (quiet (fd s) \<and> roomy s hi \<and> length (tab s) * 16 < off_max)"
        using e(6) False f(2) advances_quiet [OF f(5)] by (auto simp: roomy_def)
      moreover have "advances (fd s) (fd ?t)" using advances_trans [OF f(5) evolvesD(5) [OF e(2)]] by simp
      ultimately show ?thesis using res t x(5) False f(2,3,4) e(4) evolvesD(2,3) [OF e(2)]
        by (intro exI [of _ ?t] exI [of _ "Inl rc"]) auto
    next
      case True
      have cap: "hi \<le> cap_of x2" using e(5) True by simp
      obtain x2' where "recs s2 r = Some x2'" "same_rec (fd s1) x (fd s2) x2'" using evolvesD(6) [OF e(2) x(1)] by blast
      then have same: "same_rec (fd s1) x (fd s2) x2" using e(3) by simp
      note g = extend_spec [OF inv2 e(3) cap fit(2)]
      let ?t = "extend s2 r hi" and ?y = "x2\<lparr>rsize := max (rsize x2) hi\<rparr>"
      obtain s3 x3 where p: "pin ?t r = Some (s3, ls_place_of r x3)" "store_inv s3" "store_abs s3 = store_abs ?t"
        "ls_toc_find s3 = ls_toc_find ?t" "recs s3 r = Some x3" "x3 = ?y\<lparr>busy := busy ?y + 1\<rparr>" "fd s3 = fd ?t"
        "direct s3 = direct ?t" "opts s3 = opts ?t"
        using pin_spec [OF g(1,4)] by blast
      have res: "write_begin s k hi info = Some (s3, Inr (r, ls_place_of r x3))"
        using fi Some e(1) True p(1) by (simp add: write_begin_def)
      have v: "content (fd s2) x2 = fst (kv_get (store_abs s) k)" "attr_of x2 = snd (kv_get (store_abs s) k)" "key x2 = k"
        using same_rec_view [OF same] x(4) same x(2) by (auto simp: same_rec_def) (metis fst_conv snd_conv)+
      have c3: "content (fd s3) x3 = grown (fst (kv_get (store_abs s) k)) hi" "attr_of x3 = snd (kv_get (store_abs s) k)"
        using p(6,7) g(5,6) v by (simp_all add: attr_of_def)
      have abs3: "store_abs s3 = (store_abs s)(k \<mapsto> (content (fd s3) x3, attr_of x3))"
        using p(3) g(3) abs2 x(5) v c3 by simp
      moreover have "advances (fd s) (fd s3)" using advances_trans [OF f(5) evolvesD(5) [OF e(2)]] p(7) g(5) by simp
      moreover have "opts ?t = opts s2" "direct ?t = direct s2" by (simp_all add: extend_def)
      moreover have "ls_toc_find s3 k = Some r" using p(4) g(2) evolvesD(4) [OF e(2)] x(3) by simp
      moreover have "file_end s3 = file_end s2"
        using p(1) g(4) by (auto simp: pin_def Let_def ls_lru_touch_def extend_def)
      ultimately show ?thesis using res p c3 v(3) f(2,3,4) e(4) evolvesD(2,3) [OF e(2)]
        by (intro exI [of _ s3] exI [of _ "Inr (r, ls_place_of r x3)"]) auto
    qed
  qed
qed

lemma read_begin_spec:
  assumes inv: "store_inv s"
  shows "\<exists>s1 b. read_begin s k hi info = Some (s1, b) \<and> store_inv s1 \<and> opts s1 = opts s \<and> direct s1 = direct s
     \<and> advances (fd s) (fd s1) \<and> store_abs s1 = store_abs s \<and> file_end s1 = file_end s
     \<and> (case b of
          Inl rc \<Rightarrow> rc = (if store_abs s k = None then LS_ERR_NOKEY else LS_ERR_RANGE)
            \<and> (\<forall>c a. store_abs s k = Some (c, a) \<longrightarrow> length c < hi)
        | Inr (r, pl) \<Rightarrow> \<exists>x. recs s1 r = Some x \<and> pl = ls_place_of r x \<and> key x = k \<and> hi \<le> rsize x
            \<and> store_abs s k = Some (content (fd s1) x, attr_of x))"
proof (cases "ls_toc_find s k")
  case None
  let ?t = "ls_report s LS_ERR_NOKEY (Some k) (fst info) (fst (snd info)) (snd (snd info))"
  have ev: "evolves s ?t" by (rule ls_report_evolves(1) [OF inv])
  have "store_abs s k = None" using None by (simp add: store_abs_def)
  moreover have "read_begin s k hi info = Some (?t, Inl LS_ERR_NOKEY)" using None by (simp add: read_begin_def)
  ultimately show ?thesis using evolves_abs [OF inv ev] evolvesD [OF ev]
    by (intro exI [of _ ?t] exI [of _ "Inl LS_ERR_NOKEY"]) simp
next
  case (Some r)
  obtain x where x: "recs s r = Some x" "key x = k" using found [OF inv Some] by blast
  have ab: "store_abs s k = Some (content (fd s) x, attr_of x)" by (rule store_abs_Some [OF Some x(1)])
  have lc: "length (content (fd s) x) = rsize x" by (rule length_content [OF store_invD(7) [OF inv x(1)]])
  show ?thesis
  proof (cases "rsize x < hi")
    case True
    let ?t = "ls_report s LS_ERR_RANGE (Some k) (fst info) (fst (snd info)) (snd (snd info))"
    have ev: "evolves s ?t" by (rule ls_report_evolves(1) [OF inv])
    have "read_begin s k hi info = Some (?t, Inl LS_ERR_RANGE)" using Some x True by (simp add: read_begin_def)
    then show ?thesis using evolves_abs [OF inv ev] evolvesD [OF ev] ab lc True
      by (intro exI [of _ ?t] exI [of _ "Inl LS_ERR_RANGE"]) simp
  next
    case False
    obtain s1 x1 where p: "pin s r = Some (s1, ls_place_of r x1)" "store_inv s1" "store_abs s1 = store_abs s"
      "recs s1 r = Some x1" "x1 = x\<lparr>busy := busy x + 1\<rparr>" "fd s1 = fd s" "direct s1 = direct s" "opts s1 = opts s"
      using pin_spec [OF inv x(1)] by blast
    have "file_end s1 = file_end s"
      using p(1) x(1) by (auto simp: pin_def Let_def ls_lru_touch_def)
    moreover have "read_begin s k hi info = Some (s1, Inr (r, ls_place_of r x1))"
      using Some x False p(1) by (simp add: read_begin_def)
    ultimately show ?thesis using p ab x(2) False
      by (intro exI [of _ s1] exI [of _ "Inr (r, ls_place_of r x1)"]) auto
  qed
qed

end
