(* ===== verification/Datapath.thy ===== *)
theory Datapath
  imports Refine
begin

text \<open>
  The public data-path calls of \<open>src/store.c\<close> against the abstract store: what each call answers
  and how it changes the map from keys to byte strings, on success and on every error path.
\<close>

subsection \<open>Writing\<close>

text \<open>What a failed write of \<open>n\<close> bytes at \<open>off\<close> may leave behind: nothing; an empty record for a key that
  was new; or a record grown to the end of the range, with arbitrary bytes inside the range only.\<close>

definition write_fails :: "kv \<Rightarrow> string \<Rightarrow> nat \<Rightarrow> nat \<Rightarrow> kv \<Rightarrow> bool" where
  "write_fails m k off n m' \<longleftrightarrow> m' = m \<or> m' = m(k \<mapsto> kv_get m k)
     \<or> (\<exists>c. m' = m(k \<mapsto> (c, snd (kv_get m k))) \<and> patched_somehow (grown (fst (kv_get m k)) (off + n)) off n c)"

definition kv_write :: "kv \<Rightarrow> string \<Rightarrow> nat \<Rightarrow> byte list \<Rightarrow> kv" where
  "kv_write m k off bs = m(k \<mapsto> (patch (fst (kv_get m k)) off bs, snd (kv_get m k)))"

definition kv_frozen :: "ls_opts \<Rightarrow> kv \<Rightarrow> string \<Rightarrow> nat \<Rightarrow> bool" where
  "kv_frozen o' m k hi \<longleftrightarrow> parallel o' = LS_SHARED \<and> (m k = None \<or> length (fst (kv_get m k)) < hi)"

text \<open>Nothing fails: no system call or allocation does, the space needed fits the largest file and the
  hash table can still double.\<close>

definition calm :: "ls_store \<Rightarrow> nat \<Rightarrow> bool" where
  "calm s n \<longleftrightarrow> quiet (fd s) \<and> roomy s n \<and> length (tab s) * 16 < off_max"

lemma kv_get_Some [simp]: "m k = Some v \<Longrightarrow> kv_get m k = v"
  by (simp add: kv_get_def)

lemma kv_get_None [simp]: "m k = None \<Longrightarrow> kv_get m k = ([], [])"
  by (simp add: kv_get_def)

lemma add64_wraps: "off < u64_mod \<Longrightarrow> n < u64_mod \<Longrightarrow> add64 off n < off \<longleftrightarrow> u64_mod \<le> off + n"
  by (cases "off + n < u64_mod") (auto simp: add64_def mod_if)

lemma add64_id [simp]: "a + b < u64_mod \<Longrightarrow> add64 a b = a + b"
  by (simp add: add64_def)

lemma frozen_abs:
  assumes "store_inv s"
  shows "frozen s k hi = kv_frozen (opts s) (store_abs s) k hi"
proof (cases "ls_toc_find s k")
  case None
  then show ?thesis by (simp add: frozen_def kv_frozen_def store_abs_def)
next
  case (Some r)
  obtain x where x: "recs s r = Some x" using found [OF assms Some] by blast
  have "length (content (fd s) x) = rsize x" by (rule length_content [OF store_invD(7) [OF assms x]])
  then show ?thesis using Some x store_abs_Some [OF Some x] by (simp add: frozen_def kv_frozen_def)
qed

text \<open>The transfer of a write and the step that ends it.\<close>

lemma write_finish:
  assumes inv: "store_inv s1" and x: "recs s1 r = Some x" "key x = k" "off + length bs \<le> rsize x"
  shows "\<exists>s2 rc out. ls_scatter s1 (ls_place_of r x) off (length bs) bs LS_OP_WRITE = Some (s2, rc, out)
     \<and> store_inv (unpin s2 r) \<and> opts (unpin s2 r) = opts s1 \<and> advances (fd s1) (fd (unpin s2 r))
     \<and> file_end (unpin s2 r) = file_end s1
     \<and> (\<exists>c. store_abs (unpin s2 r) = (store_abs s1)(k \<mapsto> (c, attr_of x))
           \<and> (rc = LS_OK \<longrightarrow> c = blit (content (fd s1) x) off bs)
           \<and> patched_somehow (content (fd s1) x) off (length bs) c)
     \<and> (quiet (fd s1) \<and> file_end s1 + 4096 \<le> off_max \<longrightarrow> rc = LS_OK)"
proof -
  obtain s2 rc x2 out where sc: "ls_scatter s1 (ls_place_of r x) off (length bs) bs LS_OP_WRITE = Some (s2, rc, out)"
    "store_inv s2" "recs s2 r = Some x2" "opts s2 = opts s1" "advances (fd s1) (fd s2)" "file_end s2 = file_end s1"
    "store_abs s2 = (store_abs s1)(key x \<mapsto> (content (fd s2) x2, attr_of x))"
    "rc = LS_OK \<longrightarrow> content (fd s2) x2 = blit (content (fd s1) x) off bs"
    "patched_somehow (content (fd s1) x) off (length bs) (content (fd s2) x2)"
    "quiet (fd s1) \<and> file_end s1 + 4096 \<le> off_max \<longrightarrow> rc = LS_OK"
    using scatter_write_store [OF inv x(1,3) refl] by blast
  note u = unpin_spec [OF sc(2,3)]
  have "file_end (unpin s2 r) = file_end s1" using sc(6) by (simp add: unpin_def)
  then show ?thesis using sc u x(2)
    by (intro exI [of _ s2] exI [of _ rc] exI [of _ out]) auto
qed

lemma ls_report_abs:
  assumes "store_inv s"
  shows "store_inv (ls_report s e k off n m)" "store_abs (ls_report s e k off n m) = store_abs s"
  using ls_report_evolves(1) [OF assms] evolvesD(1) evolves_abs [OF assms] by blast+

text \<open>A write through \<open>write_begin\<close>, the transfer and \<open>unpin\<close>; \<open>info\<close> and \<open>msg\<close> are what failures are
  reported with. The outcome is described by the code returned and the resulting map.\<close>

definition write_outcome :: "ls_store \<Rightarrow> string \<Rightarrow> nat \<Rightarrow> byte list \<Rightarrow> ls_store \<Rightarrow> int \<Rightarrow> bool" where
  "write_outcome s k off bs s' rc \<longleftrightarrow> store_inv s' \<and> opts s' = opts s \<and> advances (fd s) (fd s')
     \<and> (rc = LS_OK \<longrightarrow> store_abs s' = kv_write (store_abs s) k off bs)
     \<and> (rc \<noteq> LS_OK \<longrightarrow> write_fails (store_abs s) k off (length bs) (store_abs s'))
     \<and> (calm s (off + length bs) \<longrightarrow> rc = LS_OK) \<and> file_end s' \<le> demand s + (off + length bs) + 4095"

lemma write_through:
  assumes inv: "store_inv s" and fit: "off + length bs < u64_mod" "fits s (off + length bs)"
  shows "\<exists>s1 b. write_begin s k (off + length bs) info = Some (s1, b)
     \<and> (case b of
          Inl rc \<Rightarrow> rc \<noteq> LS_OK \<and> write_outcome s k off bs s1 rc
        | Inr (r, pl) \<Rightarrow> \<exists>s2 rc out. ls_scatter s1 pl off (length bs) bs LS_OP_WRITE = Some (s2, rc, out)
            \<and> write_outcome s k off bs (if rc \<noteq> LS_OK then ls_report (unpin s2 r) rc ko a n msg else unpin s2 r) rc)"
proof -
  let ?hi = "off + length bs" and ?m = "store_abs s"
  obtain s1 b where wb: "write_begin s k ?hi info = Some (s1, b)" using write_begin_spec [OF inv fit(2,1)] by blast
  note sp = write_begin_spec [OF inv fit(2,1), of k info]
  have w: "store_inv s1" "opts s1 = opts s" "advances (fd s) (fd s1)" "file_end s1 \<le> demand s + ?hi + 4095"
    using sp wb by auto
  show ?thesis
  proof (cases b)
    case (Inl rc)
    have "rc \<noteq> LS_OK \<and> (store_abs s1 = ?m \<or> store_abs s1 = ?m(k \<mapsto> kv_get ?m k)) \<and> \<not> calm s ?hi"
      using sp wb Inl by (auto simp: calm_def)
    then show ?thesis using wb Inl w by (auto simp: write_fails_def write_outcome_def)
  next
    case (Inr rp)
    obtain r pl where rp: "rp = (r, pl)" by fastforce
    obtain x where x: "recs s1 r = Some x" "pl = ls_place_of r x" "key x = k" "?hi \<le> rsize x"
      "content (fd s1) x = grown (fst (kv_get ?m k)) ?hi" "attr_of x = snd (kv_get ?m k)"
      "store_abs s1 = ?m(k \<mapsto> (content (fd s1) x, attr_of x))"
      using sp wb Inr rp by auto
    obtain s2 rc out c where f: "ls_scatter s1 (ls_place_of r x) off (length bs) bs LS_OP_WRITE = Some (s2, rc, out)"
      "store_inv (unpin s2 r)" "opts (unpin s2 r) = opts s1" "advances (fd s1) (fd (unpin s2 r))" "file_end (unpin s2 r) = file_end s1"
      "store_abs (unpin s2 r) = (store_abs s1)(k \<mapsto> (c, attr_of x))"
      "rc = LS_OK \<longrightarrow> c = blit (content (fd s1) x) off bs"
      "patched_somehow (content (fd s1) x) off (length bs) c"
      "quiet (fd s1) \<and> file_end s1 + 4096 \<le> off_max \<longrightarrow> rc = LS_OK"
      using write_finish [OF w(1) x(1,3,4)] by blast
    let ?t = "if rc \<noteq> LS_OK then ls_report (unpin s2 r) rc ko a n msg else unpin s2 r"
    have t: "store_inv ?t" "store_abs ?t = ?m(k \<mapsto> (c, snd (kv_get ?m k)))" "opts ?t = opts s" "advances (fd s) (fd ?t)"
      using ls_report_abs [OF f(2)] f x w advances_trans [OF w(3) f(4)] by auto
    have "rc = LS_OK" if "calm s ?hi"
      using f(9) w(4) that advances_quiet [OF w(3)] by (auto simp: calm_def roomy_def)
    moreover have "rc = LS_OK \<Longrightarrow> store_abs ?t = kv_write ?m k off bs"
      using t(2) f(7) x(5) by (simp add: kv_write_def patch_def)
    moreover have "rc \<noteq> LS_OK \<Longrightarrow> write_fails ?m k off (length bs) (store_abs ?t)"
      unfolding write_fails_def t(2) using f(8) x(5) by auto
    moreover have "file_end ?t \<le> demand s + ?hi + 4095" using f(5) w(4) by simp
    ultimately have "write_outcome s k off bs ?t rc" using t unfolding write_outcome_def by blast
    then show ?thesis using wb Inr rp x(2) f(1) by auto
  qed
qed

lemma ls_write_spec:
  assumes inv: "store_inv s" and k: "ls_key_ok (Some k)" and fit: "off + length bs < u64_mod" "fits s (off + length bs)"
  shows "\<exists>s' rc. ls_write s (Some k) off (length bs) (Some bs) = Some (s', rc)
     \<and> (if kv_frozen (opts s) (store_abs s) k (off + length bs)
        then rc = LS_ERR_MODE \<and> store_inv s' \<and> opts s' = opts s \<and> advances (fd s) (fd s') \<and> store_abs s' = store_abs s
          \<and> file_end s' = file_end s
        else write_outcome s k off bs s' rc)"
proof -
  let ?hi = "off + length bs"
  have nw: "\<not> add64 off (length bs) < off" "add64 off (length bs) = ?hi" using fit(1) by simp_all
  show ?thesis
  proof (cases "frozen s k ?hi")
    case True
    have "ls_write s (Some k) off (length bs) (Some bs) =
        Some (ls_report s LS_ERR_MODE (Some k) off (length bs) frozen_msg, LS_ERR_MODE)"
      using k nw True by (simp add: ls_write_def ls_rw_def)
    then show ?thesis using ls_report_abs [OF inv] True frozen_abs [OF inv] by simp
  next
    case nf: False
    let ?i = "(off, length bs, ''reserving space for write'')"
    note wt = write_through [OF inv fit, of k ?i "Some k" off "length bs" "''write''"]
    then obtain s1 b where wb: "write_begin s k ?hi ?i = Some (s1, b)" by blast
    have rest: "ls_write s (Some k) off (length bs) (Some bs) = (case b of Inl rc \<Rightarrow> Some (s1, rc)
        | Inr (r, pl) \<Rightarrow> ls_scatter s1 pl off (length bs) bs LS_OP_WRITE \<bind> (\<lambda>(s2, rc, out).
            Some (if rc \<noteq> LS_OK then ls_report (unpin s2 r) rc (Some k) off (length bs) ''write'' else unpin s2 r, rc)))"
      using k nw nf wb by (auto simp: ls_write_def ls_rw_def Let_def split: sum.splits intro!: Option.bind_cong)
    show ?thesis using wt wb rest nf frozen_abs [OF inv] by (cases b) fastforce+
  qed
qed

subsection \<open>Appending, reserving\<close>

lemma append_through:
  assumes inv: "store_inv s" and k: "ls_key_ok (Some k)" and sh: "parallel (opts s) \<noteq> LS_SHARED"
    and off: "off = length (fst (kv_get (store_abs s) k))" and fit: "off + length bs < u64_mod" "fits s (off + length bs)"
  shows "ls_append s (Some k) (length bs) (Some bs) =
     write_begin s k (off + length bs) (off, length bs, ''reserving space for append'') \<bind> (\<lambda>(s3, b). case b of
         Inl rc \<Rightarrow> Some (s3, rc, None)
       | Inr (r, pl) \<Rightarrow> ls_scatter s3 pl off (length bs) bs LS_OP_WRITE \<bind> (\<lambda>(s4, rc, out).
           Some (if rc \<noteq> LS_OK then ls_report (unpin s4 r) rc (Some k) off (length bs) ''append'' else unpin s4 r,
                 rc, if rc = LS_OK then Some off else None)))"
proof -
  obtain s1 ro where fi: "find_or_insert s k = (s1, ro)" by fastforce
  note f = find_or_insert_spec [OF inv fi]
  show ?thesis
  proof (cases ro)
    case None
    then show ?thesis using fi k sh by (simp add: ls_append_def write_begin_def)
  next
    case (Some r)
    obtain x where x: "recs s1 r = Some x" "(content (fd s1) x, attr_of x) = kv_get (store_abs s) k"
      using f(7) [OF Some] by blast
    have "rsize x = length (content (fd s1) x)" using length_content [OF store_invD(7) [OF f(1) x(1)]] by simp
    then have sz: "rsize x = off" using off x(2) by (metis fst_conv)
    have "fits s1 (off + length bs)" using fit(2) f(2) by (simp add: fits_def)
    then obtain s2 rc x2 where e: "ensure_cap s1 r (off + length bs) = Some (s2, rc)" "evolves s1 s2" "recs s2 r = Some x2"
      using ensure_cap_spec [OF f(1) x(1)] by blast
    obtain x2' where "recs s2 r = Some x2'" "same_rec (fd s1) x (fd s2) x2'" using evolvesD(6) [OF e(2) x(1)] by blast
    then have "rsize x2 = off" using e(3) sz by (simp add: same_rec_def)
    then have "map_option (\<lambda>x. x\<lparr>rsize := off + length bs\<rparr>) (recs s2 r) =
        map_option (\<lambda>x. if rsize x < off + length bs then x\<lparr>rsize := off + length bs\<rparr> else x) (recs s2 r)"
      using e(3) by (cases x2) simp
    then have "upd_rec s2 r (\<lambda>x. x\<lparr>rsize := off + length bs\<rparr>) = extend s2 r (off + length bs)"
      by (simp only: upd_rec_def extend_def)
    moreover have "\<not> add64 off (length bs) < off" using fit(1) by simp
    ultimately show ?thesis using fi Some x(1) sz e(1) k sh
      by (auto simp: ls_append_def write_begin_def Let_def split: option.splits intro!: Option.bind_cong)
  qed
qed

lemma ls_append_spec:
  assumes inv: "store_inv s" and k: "ls_key_ok (Some k)" and sh: "parallel (opts s) \<noteq> LS_SHARED"
    and off: "off = length (fst (kv_get (store_abs s) k))" and fit: "off + length bs < u64_mod" "fits s (off + length bs)"
  shows "\<exists>s' rc. ls_append s (Some k) (length bs) (Some bs) = Some (s', rc, if rc = LS_OK then Some off else None)
     \<and> write_outcome s k off bs s' rc"
proof -
  let ?i = "(off, length bs, ''reserving space for append'')"
  note wt = write_through [OF inv fit, of k ?i "Some k" off "length bs" "''append''"]
  then obtain s1 b where wb: "write_begin s k (off + length bs) ?i = Some (s1, b)" by blast
  note ap = append_through [OF inv k sh off fit]
  show ?thesis
  proof (cases b)
    case (Inl rc)
    then have "rc \<noteq> LS_OK" "write_outcome s k off bs s1 rc" using wt wb by auto
    then show ?thesis using ap wb Inl by simp
  next
    case (Inr rp)
    obtain r pl where rp: "rp = (r, pl)" by fastforce
    then obtain s2 rc out where "ls_scatter s1 pl off (length bs) bs LS_OP_WRITE = Some (s2, rc, out)"
      "write_outcome s k off bs (if rc \<noteq> LS_OK then ls_report (unpin s2 r) rc (Some k) off (length bs) ''append'' else unpin s2 r) rc"
      using wt wb Inr by auto
    then show ?thesis using ap wb Inr rp by simp
  qed
qed

lemma patch_end [simp]: "patch c (length c) bs = c @ bs"
  by (simp add: patch_def grown_def blit_def)

subsection \<open>Reading\<close>

lemma ls_read_spec:
  assumes inv: "store_inv s" and k: "ls_key_ok (Some k)" and rng: "off < u64_mod" "n < u64_mod"
  shows "\<exists>s' rc out. ls_read s (Some k) off n True = Some (s', rc, out) \<and> store_inv s' \<and> opts s' = opts s
     \<and> advances (fd s) (fd s') \<and> store_abs s' = store_abs s \<and> file_end s' = file_end s
     \<and> (case store_abs s k of
          None \<Rightarrow> rc = (if u64_mod \<le> off + n then LS_ERR_RANGE else LS_ERR_NOKEY)
        | Some (c, a) \<Rightarrow> if length c < off + n then rc = LS_ERR_RANGE
            else (rc = LS_OK \<longrightarrow> out = part c off n) \<and> (quiet (fd s) \<and> file_end s + 4096 \<le> off_max \<longrightarrow> rc = LS_OK))"
proof (cases "u64_mod \<le> off + n")
  case True
  have "ls_read s (Some k) off n True = Some (s, LS_ERR_RANGE, [])"
    using k True rng by (simp add: ls_read_def ls_rw_def add64_wraps)
  moreover have "length c < off + n" if ck: "store_abs s k = Some (c, a)" for c a
  proof -
    obtain r where r: "ls_toc_find s k = Some r" using ck by (auto simp: store_abs_def split: option.splits)
    obtain x where x: "recs s r = Some x" using found [OF inv r] by blast
    then have "c = content (fd s) x" using store_abs_Some [OF r x] ck by simp
    then have "length c = rsize x" "rsize x < u64_mod"
      using length_content [OF store_invD(7) [OF inv x]] store_invD(7) [OF inv x] by (simp_all add: rec_ok_def)
    then show ?thesis using True by simp
  qed
  ultimately show ?thesis using inv True by (cases "store_abs s k") auto
next
  case False
  let ?i = "(off, n, ''read'')"
  have nw: "\<not> add64 off n < off" "add64 off n = off + n" using False by simp_all
  obtain s1 b where rb: "read_begin s k (off + n) ?i = Some (s1, b)" using read_begin_spec [OF inv] by blast
  have w: "store_inv s1" "opts s1 = opts s" "advances (fd s) (fd s1)" "store_abs s1 = store_abs s" "file_end s1 = file_end s"
    using read_begin_spec [OF inv, of k "off + n" ?i] rb by auto
  have rest: "ls_read s (Some k) off n True = (case b of Inl rc \<Rightarrow> Some (s1, rc, [])
        | Inr (r, pl) \<Rightarrow> ls_scatter s1 pl off n [] LS_OP_READ \<bind> (\<lambda>(s2, rc, out).
            Some (if rc \<noteq> LS_OK then ls_report (unpin s2 r) rc (Some k) off n ''read'' else unpin s2 r, rc, out)))"
    using k nw rb by (auto simp: ls_read_def ls_rw_def Let_def split: sum.splits intro!: Option.bind_cong)
  show ?thesis
  proof (cases b)
    case (Inl rc)
    have "rc = (if store_abs s k = None then LS_ERR_NOKEY else LS_ERR_RANGE)
        \<and> (\<forall>c a. store_abs s k = Some (c, a) \<longrightarrow> length c < off + n)"
      using read_begin_spec [OF inv, of k "off + n" ?i] rb Inl by auto
    then show ?thesis using rest Inl w False by (cases "store_abs s k") auto
  next
    case (Inr rp)
    obtain r pl where rp: "rp = (r, pl)" by fastforce
    obtain x where x: "recs s1 r = Some x" "pl = ls_place_of r x" "off + n \<le> rsize x"
      "store_abs s k = Some (content (fd s1) x, attr_of x)"
      using read_begin_spec [OF inv, of k "off + n" ?i] rb Inr rp by auto
    obtain s2 rc out where sc: "ls_scatter s1 (ls_place_of r x) off n [] LS_OP_READ = Some (s2, rc, out)" "evolves s1 s2"
      "recs s2 = recs s1" "rc = LS_OK \<longrightarrow> out = part (content (fd s1) x) off n"
      "quiet (fd s1) \<and> file_end s1 + 4096 \<le> off_max \<longrightarrow> rc = LS_OK" "file_end s2 = file_end s1"
      using scatter_read_store [OF w(1) x(1,3)] by blast
    have r2: "recs s2 r = Some x" using sc(3) x(1) by simp
    have inv2: "store_inv s2" using evolvesD(1) [OF sc(2)] .
    note u = unpin_spec [OF inv2 r2]
    let ?t = "if rc \<noteq> LS_OK then ls_report (unpin s2 r) rc (Some k) off n ''read'' else unpin s2 r"
    have "store_inv ?t" "store_abs ?t = store_abs s" "opts ?t = opts s" "advances (fd s) (fd ?t)"
      using ls_report_abs [OF u(1)] u evolves_abs [OF w(1) sc(2)] w evolvesD(2,5) [OF sc(2)] advances_trans by auto
    moreover have "length (content (fd s1) x) = rsize x" by (rule length_content [OF store_invD(7) [OF w(1) x(1)]])
    moreover have "ls_read s (Some k) off n True = Some (?t, rc, out)"
      using rest Inr rp x(2) sc(1) by simp
    moreover have "file_end ?t = file_end s" using sc(6) w(5) by (simp add: unpin_def)
    ultimately show ?thesis using x(3,4) sc(4,5) w advances_quiet [OF w(3)] by simp
  qed
qed

subsection \<open>Erasing\<close>

lemma tier_ok_remove:
  assumes "tier_ok s" "finite (res_set s)" "recs s r = Some x"
    and "recs s' = (recs s)(r := None)" "lru s' = lru_drop (lru s) r" "opts s' = opts s"
    and "resident s' = (if mem x \<noteq> None \<and> mem_cap x \<le> resident s then resident s - mem_cap x else resident s)"
  shows "tier_ok s'" "res_set s' = res_set s - {r}"
proof -
  show rs: "res_set s' = res_set s - {r}" using assms(4) by (auto simp: res_set_def)
  obtain xs where xs: "lru_list (lru s) xs" "set xs = res_set s" using assms(1) by (auto simp: tier_ok_def)
  have "lru_list (lru s') (remove1 r xs)" using lru_drop_list [OF xs(1)] assms(5) by simp
  moreover have "set (remove1 r xs) = res_set s'" using xs rs by (simp add: lru_list_def)
  moreover have "(\<Sum>r'\<in>res_set s'. rcap s' r') = (\<Sum>r'\<in>res_set s - {r}. rcap s r')"
    unfolding rs by (rule sum.cong) (auto simp: rcap_def assms(4))
  moreover have "resident s' = (\<Sum>r'\<in>res_set s - {r}. rcap s r') \<and> resident s' \<le> resident s"
  proof (cases "mem x")
    case None
    then have "r \<notin> res_set s" using assms(3) by (simp add: res_set_def)
    then show ?thesis using None assms(1,7) by (simp add: tier_ok_def)
  next
    case (Some b)
    then have "r \<in> res_set s" using assms(3) by (simp add: res_set_def)
    then have "resident s = mem_cap x + (\<Sum>r'\<in>res_set s - {r}. rcap s r')"
      using assms(1-3) by (simp add: tier_ok_def sum.remove)
    then show ?thesis using Some assms(7) by simp
  qed
  ultimately show "tier_ok s'" using assms(1,6) unfolding tier_ok_def by auto
qed

lemma erase_step:
  assumes inv: "store_inv s" and r: "recs s r = Some x" and s': "s' = ls_rec_free (ls_lru_drop (ls_toc_unlink s r) r) r"
  shows "store_inv s'" "store_abs s' = (store_abs s)(key x := None)" "opts s' = opts s" "advances (fd s) (fd s')"
    "free_set s \<subseteq> free_set s'" "free_set s' \<subseteq> free_set s \<union> used s r"
    "oom (fd s) = [] \<Longrightarrow> free_set s' = free_set s \<union> used s r"
proof -
  note i = store_invD [OF inv]
  define u where "u = ls_toc_unlink s r"
  define d where "d = ls_lru_drop u r"
  have us: "toc_only s u" "recs u = recs s" "fd u = fd s" using ls_toc_unlink_spec [OF i(1) _ u_def [symmetric]] r by auto
  note usel = toc_only_sel [OF us(1)]
  have d: "recs d = recs s" "tab d = tab u" "nrec d = nrec u" "fresh d = fresh u" "fd d = fd s"
    "fl d = fl s" "file_end d = file_end s" "teardown d = teardown s" "lru d = lru_drop (lru s) r"
    "resident d = resident s" "opts d = opts s" "direct d = direct s"
    using us usel by (simp_all add: d_def ls_lru_drop_def)
  have rd: "recs d r = Some x" using d(1) r by simp
  have s'd: "ls_rec_free d r = s'" using s' by (simp add: d_def u_def)
  note t = toc_removed [OF i(1) r u_def [symmetric] _ d(2,3,4) s'd]
  have toc: "toc_inv s'" "recs s' = (recs s)(r := None)" "ls_toc_find s' = (ls_toc_find s)(key x := None)"
    using t d(1) us(2) by auto
  note f = ls_rec_free_sel [OF s'd rd]
  define d1 where "d1 = (if mem x \<noteq> None \<and> mem_cap x \<le> resident d then d\<lparr>resident := resident d - mem_cap x\<rparr> else d)"
  define d2 where "d2 = ls_free_extents d1 (ext x)"
  have s'2: "s' = d2\<lparr>recs := (recs d2)(r := None)\<rparr>"
    using s'd rd by (simp add: ls_rec_free_def d1_def d2_def Let_def)
  have ok: "rec_ok (fd s) x" by (rule i(7) [OF r])
  have d1: "fl d1 = fl s" "file_end d1 = file_end s" "fd d1 = fd s" "teardown d1 = teardown s" "direct d1 = direct s"
    using d by (simp_all add: d1_def)
  then have fs1: "alloc_inv d1" "free_set d1 = free_set s" using i(2) by (simp_all add: alloc_inv_def free_set_def)
  have "\<forall>e\<in>set (ext x). ext_ok e" "distinct (locs (ext x))" using ok by (auto simp: rec_ok_def)
  note fe = ls_free_extents_spec [OF fs1(1) _ this(1) _ this(2) d2_def [symmetric], unfolded fs1(2) d1(3), OF i(6) i(8) [OF r]]
  have fs: "free_set s' = free_set d2" "alloc_inv s'" "fd s' = fd d2"
    using fe(1) by (simp_all add: s'2 free_set_def alloc_inv_def)
  have ur: "used s r = set (locs (ext x))" using r by (simp add: used_def)
  show "free_set s \<subseteq> free_set s'" "free_set s' \<subseteq> free_set s \<union> used s r"
    "oom (fd s) = [] \<Longrightarrow> free_set s' = free_set s \<union> used s r"
    using fe(5-7) fs(1) ur d1(4) i(5) by auto
  have keep: "os_keeps (fd s) (fd s') (- free_set s')" using fe(3) fs by simp
  have fsub: "free_set s' \<subseteq> free_set s \<union> set (locs (ext x))" using fe(6) fs(1) by simp
  have others: "set (locs (ext y)) \<inter> free_set s' = {}" "rec_ok (fd s') y" "same_rec (fd s) y (fd s') y"
    if q: "q \<noteq> r" "recs s q = Some y" for q y
  proof -
    have "set (locs (ext y)) = used s q" using q by (simp add: used_def)
    moreover have "used s q \<inter> used s r = {}" using i(9) [OF q(1)] .
    ultimately show dis: "set (locs (ext y)) \<inter> free_set s' = {}" using fsub i(8) [OF q(2)] ur by blast
    then have "set (locs (ext y)) \<subseteq> - free_set s'" by blast
    then show "rec_ok (fd s') y" "same_rec (fd s) y (fd s') y" using rec_ok_keeps [OF i(7) [OF q(2)] keep] by blast+
  qed
  have uo: "used s' q = (if q = r then {} else used s q)" for q using toc(2) by (simp add: used_def)
  have "\<forall>q y. recs s' q = Some y \<longrightarrow> rec_ok (fd s') y"
  proof (intro allI impI)
    fix q y assume "recs s' q = Some y"
    then have "q \<noteq> r" "recs s q = Some y" using toc(2) by (auto split: if_splits)
    then show "rec_ok (fd s') y" by (rule others(2))
  qed
  moreover have "\<forall>q. used s' q \<inter> free_set s' = {}"
  proof
    fix q show "used s' q \<inter> free_set s' = {}"
      using others(1) [of q] uo by (cases "recs s q") (auto simp: used_def)
  qed
  moreover have "\<forall>q q'. q \<noteq> q' \<longrightarrow> used s' q \<inter> used s' q' = {}" using uo i(9) by simp
  moreover have "tier_ok s'"
    using tier_ok_remove(1) [OF i(4) finite_res_set [OF inv] r toc(2)] f d by simp
  moreover have "io_ok (fd s') (direct s')" using io_ok_keeps [OF keep i(3)] f(7) d(12) by simp
  moreover have "\<not> teardown s'" using f(9) d(8) i(5) by simp
  ultimately show "store_inv s'" using toc(1) fs(2) unfolding store_inv_def by simp
  show "opts s' = opts s" using f(6) d(11) by simp
  show "advances (fd s) (fd s')" using os_keepsD(1) [OF keep] .
  show "store_abs s' = (store_abs s)(key x := None)"
  proof
    fix k show "store_abs s' k = ((store_abs s)(key x := None)) k"
    proof (cases "k = key x \<or> ls_toc_find s k = None")
      case True
      then show ?thesis using toc(3) by (auto simp: store_abs_def)
    next
      case False
      then obtain q where q: "ls_toc_find s k = Some q" by blast
      obtain y where y: "recs s q = Some y" "key y = k" using found [OF inv q] by blast
      have "q \<noteq> r" using y r False by auto
      then show ?thesis using False q y toc others(3) [OF _ y(1)] same_rec_view [of "fd s" y "fd s'" y]
        by (simp add: store_abs_def)
    qed
  qed
qed

lemma store_abs_dom:
  assumes "store_inv s"
  shows "store_abs s k = None \<longleftrightarrow> ls_toc_find s k = None"
proof (cases "ls_toc_find s k")
  case (Some r)
  then obtain x where "recs s r = Some x" using found [OF assms] by blast
  then show ?thesis using Some by (simp add: store_abs_def)
qed (simp add: store_abs_def)

lemma ls_erase_spec:
  assumes inv: "store_inv s" and k: "ls_key_ok (Some k)" and e: "ls_erase s (Some k) = (s', rc)"
  shows "store_inv s' \<and> opts s' = opts s \<and> advances (fd s) (fd s')
     \<and> rc = (if parallel (opts s) = LS_SHARED then LS_ERR_MODE else if store_abs s k = None then LS_ERR_NOKEY else LS_OK)
     \<and> store_abs s' = (if rc = LS_OK then (store_abs s)(k := None) else store_abs s)"
proof (cases "parallel (opts s) = LS_SHARED \<or> ls_toc_find s k = None")
  case True
  then show ?thesis using e k inv store_abs_dom [OF inv] by (auto simp: ls_erase_def split: if_splits)
next
  case False
  then obtain r where r: "ls_toc_find s k = Some r" by blast
  obtain x where x: "recs s r = Some x" "key x = k" using found [OF inv r] by blast
  have "s' = ls_rec_free (ls_lru_drop (ls_toc_unlink s r) r) r" "rc = LS_OK"
    using e k False r by (auto simp: ls_erase_def)
  then show ?thesis using erase_step [OF inv x(1)] x(2) False r store_abs_dom [OF inv, of k] by simp
qed

subsection \<open>Reserving\<close>

text \<open>\<open>ls_reserve\<close> grows a record with zeros and never shrinks it.\<close>

definition kv_reserve :: "kv \<Rightarrow> string \<Rightarrow> nat \<Rightarrow> kv" where
  "kv_reserve m k n = m(k \<mapsto> (grown (fst (kv_get m k)) n, snd (kv_get m k)))"

lemma ls_reserve_spec:
  assumes inv: "store_inv s" and k: "ls_key_ok (Some k)" and fit: "n < u64_mod" "fits s n"
    and sh: "parallel (opts s) \<noteq> LS_SHARED"
  shows "\<exists>s' rc. ls_reserve s (Some k) n = Some (s', rc) \<and> store_inv s' \<and> opts s' = opts s \<and> advances (fd s) (fd s')
     \<and> (rc = LS_OK \<longrightarrow> store_abs s' = kv_reserve (store_abs s) k n)
     \<and> (rc \<noteq> LS_OK \<longrightarrow> store_abs s' = store_abs s \<or> store_abs s' = kv_reserve (store_abs s) k 0)
     \<and> (calm s n \<longrightarrow> rc = LS_OK)"
proof -
  let ?m = "store_abs s"
  obtain s1 ro where fi: "find_or_insert s k = (s1, ro)" by fastforce
  note f = find_or_insert_spec [OF inv fi]
  show ?thesis
  proof (cases ro)
    case None
    then have "ls_reserve s (Some k) n = Some (s1, neg_errno ENOMEM)" using fi k sh by (simp add: ls_reserve_def)
    then show ?thesis using None f by (auto simp: calm_def)
  next
    case (Some r)
    obtain x where x: "recs s1 r = Some x" "key x = k"
      "(content (fd s1) x, attr_of x) = kv_get ?m k" "store_abs s1 = ?m(k \<mapsto> kv_get ?m k)"
      using f(7) [OF Some] by blast
    have "fits s1 n" using fit(2) f(2) by (simp add: fits_def)
    from ensure_cap_spec [OF f(1) x(1) this] obtain s2 rc x2 where
      e: "ensure_cap s1 r n = Some (s2, rc)" "evolves s1 s2" "recs s2 r = Some x2" "rc = LS_OK \<longrightarrow> n \<le> cap_of x2"
      "quiet (fd s1) \<and> roomy s1 n \<longrightarrow> rc = LS_OK" by blast
    have abs2: "store_abs s2 = ?m(k \<mapsto> kv_get ?m k)" using evolves_abs [OF f(1) e(2)] x(4) by simp
    have inv2: "store_inv s2" using evolvesD(1) [OF e(2)] .
    have adv: "advances (fd s) (fd s2)" using advances_trans [OF f(5) evolvesD(5) [OF e(2)]] .
    have op: "opts s2 = opts s" using f(3) evolvesD(2) [OF e(2)] by simp
    have calm: "calm s n \<longrightarrow> rc = LS_OK" using e(5) f(2) advances_quiet [OF f(5)] by (auto simp: calm_def roomy_def)
    show ?thesis
    proof (cases "rc = LS_OK")
      case False
      let ?t = "ls_report s2 rc (Some k) 0 0 ''reserve''"
      have "ls_reserve s (Some k) n = Some (?t, rc)" using fi Some e(1) False k sh by (simp add: ls_reserve_def)
      moreover have "store_abs ?t = kv_reserve ?m k 0" using ls_report_abs(2) [OF inv2] abs2 by (simp add: kv_reserve_def)
      ultimately show ?thesis using False ls_report_abs(1) [OF inv2] adv op calm by auto
    next
      case True
      have "same_rec (fd s1) x (fd s2) x2" using evolvesD(6) [OF e(2) x(1)] e(3) by auto
      then have v: "content (fd s2) x2 = fst (kv_get ?m k)" "attr_of x2 = snd (kv_get ?m k)" "key x2 = k"
        using same_rec_view [of "fd s1" x "fd s2" x2] x(2,3) by (auto simp: same_rec_def) (metis fst_conv snd_conv)+
      have "n \<le> cap_of x2" using e(4) True by simp
      note g = extend_spec [OF inv2 e(3) this fit(1)]
      have "store_abs (extend s2 r n) = kv_reserve ?m k n" using g(3) abs2 v by (simp add: kv_reserve_def)
      moreover have "ls_reserve s (Some k) n = Some (extend s2 r n, LS_OK)"
        using fi Some e(1) True k sh by (simp add: ls_reserve_def)
      ultimately show ?thesis using g(1,5) adv op by (auto simp: extend_def)
    qed
  qed
qed

subsection \<open>Attributes, sizes, keys\<close>

lemma ls_set_attr_spec:
  assumes inv: "store_inv s" and k: "ls_key_ok (Some k)" and n: "length b \<le> LS_ATTR_MAX"
    and sh: "parallel (opts s) \<noteq> LS_SHARED" and e: "ls_set_attr s (Some k) (Some b) (length b) = (s', rc)"
  shows "store_inv s' \<and> opts s' = opts s \<and> advances (fd s) (fd s')
     \<and> store_abs s' = (if rc = LS_OK then (store_abs s)(k \<mapsto> (fst (kv_get (store_abs s) k), b)) else store_abs s)
     \<and> (quiet (fd s) \<and> length (tab s) * 16 < off_max \<longrightarrow> rc = LS_OK)"
proof -
  obtain s1 ro where fi: "find_or_insert s k = (s1, ro)" by fastforce
  note f = find_or_insert_spec [OF inv fi]
  show ?thesis
  proof (cases ro)
    case None
    then have "s' = s1" "rc = neg_errno ENOMEM" using e fi k n sh by (auto simp: ls_set_attr_def split: if_splits)
    then show ?thesis using f None by auto
  next
    case (Some r)
    obtain x where x: "recs s1 r = Some x" "key x = k"
      "(content (fd s1) x, attr_of x) = kv_get (store_abs s) k"
      "store_abs s1 = (store_abs s)(k \<mapsto> kv_get (store_abs s) k)"
      using f(7) [OF Some] by blast
    let ?f = "\<lambda>x. x\<lparr>attr := (if length b \<noteq> 0 then blit (attr x) 0 (take (length b) (the (Some b))) else attr x), attrlen := length b\<rparr>"
    have s': "s' = upd_rec s1 r ?f" "rc = LS_OK" using e fi Some k n sh by (auto simp: ls_set_attr_def split: if_splits)
    have la: "length (attr x) = 256" using store_invD(7) [OF f(1) x(1)] by (simp add: rec_ok_def)
    have ok: "rec_ok (fd s1) (?f x)"
      using store_invD(7) [OF f(1) x(1)] n la by (auto simp: rec_ok_def split: option.splits)
    have v: "content (fd s1) (?f x) = content (fd s1) x" "attr_of (?f x) = b"
      using n la by (simp add: content_def split: option.splits) (auto simp: attr_of_def blit_def)
    note u = upd_rec_inv [OF f(1) x(1), of ?f, OF _ _ _ _ ok]
    have "store_abs s' = (store_abs s)(k \<mapsto> (content (fd s1) x, b))" using u(3) x(2,4) s'(1) v by simp
    moreover have "content (fd s1) x = fst (kv_get (store_abs s) k)" using x(3) by (metis fst_conv)
    ultimately show ?thesis using u(1) s' f(3,5) by simp
  qed
qed

lemma ls_get_attr_spec:
  assumes inv: "store_inv s" and k: "ls_key_ok (Some k)"
  shows "ls_get_attr s (Some k) blob (Some n) = (case store_abs s k of
       None \<Rightarrow> (LS_ERR_NOKEY, Some n, [])
     | Some (c, a) \<Rightarrow> if blob \<and> n < length a then (LS_ERR_RANGE, Some (length a), [])
         else (LS_OK, Some (length a), if blob then a else []))"
proof (cases "ls_toc_find s k")
  case None
  then show ?thesis using k by (simp add: ls_get_attr_def store_abs_def)
next
  case (Some r)
  then obtain x where x: "recs s r = Some x" using found [OF inv] by blast
  have "length (attr x) = 256" "attrlen x \<le> 256" using store_invD(7) [OF inv x] by (simp_all add: rec_ok_def)
  then have "length (attr_of x) = attrlen x" by (simp add: attr_of_def)
  then show ?thesis using k Some x by (simp add: ls_get_attr_def store_abs_def attr_of_def)
qed

lemma ls_size_spec:
  assumes inv: "store_inv s" and k: "ls_key_ok (Some k)"
  shows "ls_size s (Some k) True = (case store_abs s k of None \<Rightarrow> (LS_ERR_NOKEY, None) | Some (c, a) \<Rightarrow> (LS_OK, Some (length c)))"
    "ls_exists s (Some k) True = (LS_OK, Some (store_abs s k \<noteq> None))"
proof -
  show "ls_exists s (Some k) True = (LS_OK, Some (store_abs s k \<noteq> None))"
    using k store_abs_dom [OF inv, of k] by (simp add: ls_exists_def)
  show "ls_size s (Some k) True = (case store_abs s k of None \<Rightarrow> (LS_ERR_NOKEY, None) | Some (c, a) \<Rightarrow> (LS_OK, Some (length c)))"
  proof (cases "ls_toc_find s k")
    case (Some r)
    then obtain x where x: "recs s r = Some x" using found [OF inv] by blast
    then show ?thesis using k Some length_content [OF store_invD(7) [OF inv x]] by (simp add: ls_size_def store_abs_def)
  qed (use k in \<open>simp add: ls_size_def store_abs_def\<close>)
qed

lemma dup_keys_spec:
  assumes "store_inv s" "dup_keys s rs out = (s', ko)"
  shows "evolves s s' \<and> recs s' = recs s \<and> (\<forall>ks. ko = Some ks \<longrightarrow> ks = out @ map (rkey s) rs) \<and> (quiet (fd s) \<longrightarrow> ko \<noteq> None)"
  using assms
proof (induction rs arbitrary: s out)
  case Nil
  then show ?case using evolves_refl by auto
next
  case (Cons r rs)
  obtain ok s1 where m: "st_malloc s = (ok, s1)" by fastforce
  note ms = st_malloc_evolves [OF m Cons.prems(1)]
  show ?case
  proof (cases ok)
    case False
    then show ?thesis using Cons.prems(2) m ms by auto
  next
    case True
    then have d: "dup_keys s1 rs (out @ [rkey s r]) = (s', ko)" using Cons.prems(2) m by simp
    have "rkey s1 = rkey s" using ms(2) by (simp add: rkey_def fun_eq_iff)
    moreover have "quiet (fd s) \<Longrightarrow> quiet (fd s1)" using evolvesD(5) [OF ms(1)] advances_quiet by blast
    ultimately show ?thesis using Cons.IH [OF evolvesD(1) [OF ms(1)] d] evolves_trans [OF ms(1)] ms(2) by auto
  qed
qed

lemma ls_keys_spec:
  assumes inv: "store_inv s" and e: "ls_keys s True = (s', rc, ks)"
  shows "store_inv s' \<and> opts s' = opts s \<and> store_abs s' = store_abs s \<and> advances (fd s) (fd s')
     \<and> (rc = LS_OK \<longrightarrow> set ks = dom (store_abs s) \<and> distinct ks \<and> length ks = nrec s)
     \<and> (rc \<noteq> LS_OK \<longrightarrow> ks = []) \<and> (quiet (fd s) \<longrightarrow> rc = LS_OK)"
proof -
  obtain ok s1 where m: "st_malloc s = (ok, s1)" by fastforce
  note ms = st_malloc_evolves [OF m inv]
  have abs1: "store_abs s1 = store_abs s" by (rule evolves_abs [OF inv ms(1)])
  show ?thesis
  proof (cases ok)
    case False
    then show ?thesis using e m ms abs1 evolvesD(1,2,5) [OF ms(1)] by (auto simp: ls_keys_def)
  next
    case True
    obtain s2 ko where d: "dup_keys s1 (concat (tab s1)) [] = (s2, ko)" by fastforce
    note dk = dup_keys_spec [OF evolvesD(1) [OF ms(1)] d]
    have ev: "evolves s s2" using evolves_trans [OF ms(1)] dk by blast
    have res: "s' = s2 \<and> (case ko of Some out \<Rightarrow> rc = LS_OK \<and> ks = out | None \<Rightarrow> rc = neg_errno ENOMEM \<and> ks = [])"
      using e m True d by (auto simp: ls_keys_def split: option.splits)
    have inv1: "toc_inv s1" using store_invD(1) [OF evolvesD(1) [OF ms(1)]] .
    have tb: "set (concat (tab s1)) = dom (recs s1)" "distinct (concat (tab s1))" "nrec s1 = length (concat (tab s1))"
      using inv1 unfolding toc_inv_filed filed_def by auto
    have inj: "inj_on (rkey s1) (dom (recs s1))" using toc_invD(2) [OF inv1] .
    have "dom (store_abs s1) = rkey s1 ` dom (recs s1)"
    proof (rule set_eqI)
      fix k
      have "k \<in> dom (store_abs s1) \<longleftrightarrow> (\<exists>r. ls_toc_find s1 k = Some r)"
        using store_abs_dom [OF evolvesD(1) [OF ms(1)], of k] by (auto simp: dom_def)
      then show "k \<in> dom (store_abs s1) \<longleftrightarrow> k \<in> rkey s1 ` dom (recs s1)"
        unfolding toc_find_iff [OF inv1] by blast
    qed
    then have "set ks = dom (store_abs s) \<and> distinct ks \<and> length ks = nrec s" if "rc = LS_OK"
      using that res dk tb inj abs1 ms(1) by (auto simp: distinct_map evolves_def split: option.splits)
    moreover have "quiet (fd s) \<longrightarrow> rc = LS_OK"
      using res dk advances_quiet [OF evolvesD(5) [OF ms(1)]] by (auto split: option.splits)
    ultimately show ?thesis using res ev evolves_abs [OF inv ev] evolvesD(1,2,5) [OF ev] by (auto split: option.splits)
  qed
qed

end
