(* ===== verification/Vectored.thy ===== *)
theory Vectored
  imports Datapath
begin

text \<open>
  Vectored transfers and accumulation (\<open>segv\<close>, \<open>ls_accumulate\<close> of \<open>src/store.c\<close>): one lookup and
  one snapshot for many transfers. The lemmas show that this equals doing the transfers one by
  one, and that accumulating gives the same bytes in memory and through the file.
\<close>

subsection \<open>The segment list\<close>

definition seg_ok :: "ls_seg \<Rightarrow> bool" where
  "seg_ok g \<longleftrightarrow> soff g + slen g < u64_mod \<and> length (seg_bytes g) = slen g"

definition kv_writes :: "kv \<Rightarrow> string \<Rightarrow> ls_seg list \<Rightarrow> kv" where
  "kv_writes m k gs = foldl (\<lambda>m g. kv_write m k (soff g) (seg_bytes g)) m gs"

text \<open>The end of the segment that reaches furthest.\<close>

definition seg_top :: "ls_seg list \<Rightarrow> nat" where
  "seg_top gs = foldr (\<lambda>g. max (soff g + slen g)) gs 0"

lemma seg_top_simps [simp]: "seg_top [] = 0" "seg_top (g # gs) = max (soff g + slen g) (seg_top gs)"
  by (simp_all add: seg_top_def)

lemma seg_top_ge: "g \<in> set gs \<Longrightarrow> soff g + slen g \<le> seg_top gs"
  by (induction gs) auto

lemma seg_top_less: "\<forall>g\<in>set gs. seg_ok g \<Longrightarrow> seg_top gs < u64_mod"
  by (induction gs) (auto simp: seg_ok_def)

lemma seg_check_top: "\<forall>g\<in>set gs. seg_ok g \<Longrightarrow> seg_check gs hi = Inr (max hi (seg_top gs))"
proof (induction gs arbitrary: hi)
  case (Cons g gs)
  then have "slen g \<noteq> 0 \<longrightarrow> sbuf g \<noteq> None" "soff g + slen g < u64_mod"
    by (auto simp: seg_ok_def seg_bytes_def split: option.splits)
  then show ?case using Cons by (auto simp: max_def)
qed simp

lemma seg_check_faults:
  "slen g \<noteq> 0 \<Longrightarrow> sbuf g = None \<Longrightarrow> g \<in> set gs \<Longrightarrow> \<exists>rc. seg_check gs hi = Inl rc"
  by (induction gs arbitrary: hi) auto

subsection \<open>Blits into a grown byte string\<close>

lemma blit_grown:
  assumes "off + length bs \<le> h"
  shows "blit (grown c h) off bs = grown (patch c off bs) h"
proof (rule nth_equalityI)
  show "length (blit (grown c h) off bs) = length (grown (patch c off bs) h)" using assms by simp
  fix i assume "i < length (blit (grown c h) off bs)"
  then have "i < max (length c) h" using assms by simp
  then show "blit (grown c h) off bs ! i = grown (patch c off bs) h ! i"
    using assms by (auto simp: nth_blit patch_def grown_def nth_append)
qed

lemma fold_blit_grown:
  assumes "\<forall>g\<in>set gs. soff g + length (seg_bytes g) \<le> h"
  shows "foldl (\<lambda>c g. blit c (soff g) (seg_bytes g)) (grown c h) gs =
     grown (foldl (\<lambda>c g. patch c (soff g) (seg_bytes g)) c gs) h"
  using assms by (induction gs arbitrary: c) (simp_all add: blit_grown)

lemma length_fold_patch:
  "\<forall>g\<in>set gs. seg_ok g \<Longrightarrow>
     length (foldl (\<lambda>c g. patch c (soff g) (seg_bytes g)) c gs) = max (length c) (seg_top gs)"
  by (induction gs arbitrary: c) (auto simp: seg_ok_def)

lemma kv_writes_eq:
  "gs \<noteq> [] \<Longrightarrow> kv_writes m k gs =
     m(k \<mapsto> (foldl (\<lambda>c g. patch c (soff g) (seg_bytes g)) (fst (kv_get m k)) gs, snd (kv_get m k)))"
proof (induction gs arbitrary: m)
  case (Cons g gs)
  show ?case
  proof (cases "gs = []")
    case True
    then show ?thesis by (simp add: kv_writes_def kv_write_def)
  next
    case False
    have "kv_writes m k (g # gs) = kv_writes (kv_write m k (soff g) (seg_bytes g)) k gs" by (simp add: kv_writes_def)
    then show ?thesis unfolding Cons.IH [OF False] by (simp add: kv_write_def)
  qed
qed simp

subsection \<open>The transfer loops\<close>

lemma seg_loop_write:
  assumes "store_inv s" "recs s r = Some x" "\<forall>g\<in>set gs. soff g + slen g \<le> rsize x \<and> length (seg_bytes g) = slen g"
  shows "\<exists>s' rc x' outs'. seg_loop s (ls_place_of r x) gs LS_OP_WRITE outs = Some (s', rc, outs')
     \<and> store_inv s' \<and> recs s' r = Some x' \<and> opts s' = opts s \<and> advances (fd s) (fd s')
     \<and> store_abs s' = (store_abs s)(key x \<mapsto> (content (fd s') x', attr_of x))
     \<and> (rc = LS_OK \<longrightarrow> content (fd s') x' = foldl (\<lambda>c g. blit c (soff g) (seg_bytes g)) (content (fd s) x) gs)
     \<and> (quiet (fd s) \<and> file_end s + 4096 \<le> off_max \<longrightarrow> rc = LS_OK)"
  using assms
proof (induction gs arbitrary: s x outs)
  case Nil
  have "ls_toc_find s (key x) = Some r"
    using toc_find_iff [OF store_invD(1) [OF Nil(1)]] Nil(2) by (auto simp: rkey_def)
  then have "(store_abs s)(key x \<mapsto> (content (fd s) x, attr_of x)) = store_abs s"
    using store_abs_Some [OF _ Nil(2)] by (simp add: fun_upd_idem)
  then show ?case using Nil by (intro exI [of _ s] exI [of _ LS_OK] exI [of _ x] exI [of _ outs]) simp
next
  case (Cons g gs)
  have g: "soff g + slen g \<le> rsize x" "length (seg_bytes g) = slen g" using Cons.prems(3) by simp_all
  obtain s1 rc1 x1 out where sc: "ls_scatter s (ls_place_of r x) (soff g) (slen g) (seg_bytes g) LS_OP_WRITE = Some (s1, rc1, out)"
    "store_inv s1" "recs s1 r = Some x1" "opts s1 = opts s" "advances (fd s) (fd s1)"
    "store_abs s1 = (store_abs s)(key x \<mapsto> (content (fd s1) x1, attr_of x))" "key x1 = key x" "attr_of x1 = attr_of x"
    "ls_place_of r x1 = ls_place_of r x" "file_end s1 = file_end s"
    "rc1 = LS_OK \<longrightarrow> content (fd s1) x1 = blit (content (fd s) x) (soff g) (seg_bytes g)"
    "patched_somehow (content (fd s) x) (soff g) (slen g) (content (fd s1) x1)"
    "quiet (fd s) \<and> file_end s + 4096 \<le> off_max \<longrightarrow> rc1 = LS_OK"
    using scatter_write_store [OF Cons.prems(1,2) g] by blast
  show ?case
  proof (cases "rc1 = LS_OK")
    case False
    then show ?thesis using sc by (intro exI [of _ s1] exI [of _ rc1] exI [of _ x1] exI [of _ outs]) auto
  next
    case True
    have "rsize x1 = rsize x"
      using sc(12) length_content [OF store_invD(7) [OF sc(2,3)]] length_content [OF store_invD(7) [OF Cons.prems(1,2)]]
      by (simp add: patched_somehow_def)
    then have "\<forall>g\<in>set gs. soff g + slen g \<le> rsize x1 \<and> length (seg_bytes g) = slen g" using Cons.prems(3) by simp
    from Cons.IH [OF sc(2,3) this, of "outs @ [out]"] obtain s' rc x' outs' where
      ih: "seg_loop s1 (ls_place_of r x1) gs LS_OP_WRITE (outs @ [out]) = Some (s', rc, outs')"
      "store_inv s'" "recs s' r = Some x'" "opts s' = opts s1" "advances (fd s1) (fd s')"
      "store_abs s' = (store_abs s1)(key x1 \<mapsto> (content (fd s') x', attr_of x1))"
      "rc = LS_OK \<longrightarrow> content (fd s') x' = foldl (\<lambda>c g. blit c (soff g) (seg_bytes g)) (content (fd s1) x1) gs"
      "quiet (fd s1) \<and> file_end s1 + 4096 \<le> off_max \<longrightarrow> rc = LS_OK" by blast
    show ?thesis using sc ih True advances_trans [OF sc(5) ih(5)] advances_quiet [OF sc(5)]
      by (intro exI [of _ s'] exI [of _ rc] exI [of _ x'] exI [of _ outs']) auto
  qed
qed

lemma seg_loop_read:
  assumes "store_inv s" "recs s r = Some x" "\<forall>g\<in>set gs. soff g + slen g \<le> rsize x"
  shows "\<exists>s' rc outs'. seg_loop s (ls_place_of r x) gs LS_OP_READ outs = Some (s', rc, outs')
     \<and> evolves s s' \<and> recs s' = recs s
     \<and> (rc = LS_OK \<longrightarrow> outs' = outs @ map (\<lambda>g. part (content (fd s) x) (soff g) (slen g)) gs)
     \<and> (quiet (fd s) \<and> file_end s + 4096 \<le> off_max \<longrightarrow> rc = LS_OK)"
  using assms
proof (induction gs arbitrary: s outs)
  case Nil
  then show ?case using evolves_refl by auto
next
  case (Cons g gs)
  have g: "soff g + slen g \<le> rsize x" using Cons.prems(3) by simp
  obtain s1 rc1 out where sc: "ls_scatter s (ls_place_of r x) (soff g) (slen g) (seg_bytes g) LS_OP_READ = Some (s1, rc1, out)"
    "evolves s s1" "recs s1 = recs s" "file_end s1 = file_end s" "rc1 = LS_OK \<longrightarrow> out = part (content (fd s) x) (soff g) (slen g)"
    "quiet (fd s) \<and> file_end s + 4096 \<le> off_max \<longrightarrow> rc1 = LS_OK"
    using scatter_read_store [OF Cons.prems(1,2) g] by blast
  show ?case
  proof (cases "rc1 = LS_OK")
    case False
    then show ?thesis using sc by auto
  next
    case True
    have r1: "recs s1 r = Some x" using sc(3) Cons.prems(2) by simp
    have "same_rec (fd s) x (fd s1) x" using evolvesD(6) [OF sc(2) Cons.prems(2)] r1 by auto
    then have ct: "content (fd s1) x = content (fd s) x" by (simp add: same_rec_def)
    from Cons.IH [OF evolvesD(1) [OF sc(2)] r1, of "outs @ [out]"] Cons.prems(3) obtain s' rc outs' where
      ih: "seg_loop s1 (ls_place_of r x) gs LS_OP_READ (outs @ [out]) = Some (s', rc, outs')" "evolves s1 s'" "recs s' = recs s1"
      "rc = LS_OK \<longrightarrow> outs' = (outs @ [out]) @ map (\<lambda>g. part (content (fd s1) x) (soff g) (slen g)) gs"
      "quiet (fd s1) \<and> file_end s1 + 4096 \<le> off_max \<longrightarrow> rc = LS_OK" by auto
    show ?thesis using sc ih True ct evolves_trans [OF sc(2) ih(2)] advances_quiet [OF evolvesD(5) [OF sc(2)]]
      by (intro exI [of _ s'] exI [of _ rc] exI [of _ outs']) auto
  qed
qed

subsection \<open>\<open>ls_writev\<close> and \<open>ls_readv\<close>\<close>

lemma ls_writev_spec:
  assumes inv: "store_inv s" and k: "ls_key_ok (Some k)" and gs: "gs \<noteq> []" "\<forall>g\<in>set gs. seg_ok g"
    and fit: "fits s (seg_top gs)"
  shows "\<exists>s' rc outs. ls_writev s (Some k) (Some gs) (length gs) = Some (s', rc, outs) \<and> store_inv s'
     \<and> opts s' = opts s \<and> advances (fd s) (fd s') \<and> (\<forall>k'. k' \<noteq> k \<longrightarrow> store_abs s' k' = store_abs s k')
     \<and> (if kv_frozen (opts s) (store_abs s) k (seg_top gs) then rc = LS_ERR_MODE \<and> store_abs s' = store_abs s
        else (rc = LS_OK \<longrightarrow> store_abs s' = kv_writes (store_abs s) k gs) \<and> (calm s (seg_top gs) \<longrightarrow> rc = LS_OK))"
proof -
  let ?hi = "seg_top gs" and ?m = "store_abs s" and ?i = "(0, 0, ''reserving space for writev'')"
  have chk: "seg_check gs 0 = Inr ?hi" using seg_check_top [OF gs(2)] by simp
  have hi: "?hi < u64_mod" by (rule seg_top_less [OF gs(2)])
  show ?thesis
  proof (cases "frozen s k ?hi")
    case True
    have "ls_writev s (Some k) (Some gs) (length gs) = Some (ls_report s LS_ERR_MODE (Some k) 0 ?hi frozen_msg, LS_ERR_MODE, [])"
      using k gs(1) chk True by (simp add: ls_writev_def segv_def)
    then show ?thesis using ls_report_abs [OF inv] True frozen_abs [OF inv] by simp
  next
    case nf: False
    note sp = write_begin_spec [OF inv fit hi, of k ?i]
    then obtain s1 b where wb: "write_begin s k ?hi ?i = Some (s1, b)" by blast
    have w: "store_inv s1" "opts s1 = opts s" "advances (fd s) (fd s1)" "file_end s1 \<le> demand s + ?hi + 4095"
      "\<forall>k'. k' \<noteq> k \<longrightarrow> store_abs s1 k' = ?m k'" using sp wb by auto
    have rest: "ls_writev s (Some k) (Some gs) (length gs) = (case b of Inl rc \<Rightarrow> Some (s1, rc, [])
        | Inr (r, pl) \<Rightarrow> seg_loop s1 pl gs LS_OP_WRITE [] \<bind> (\<lambda>(s2, rc, outs).
            Some (if rc \<noteq> LS_OK then ls_report (unpin s2 r) rc (Some k) 0 0 ''writev'' else unpin s2 r, rc, outs)))"
      using k gs(1) chk nf wb by (auto simp: ls_writev_def segv_def Let_def split: sum.splits intro!: Option.bind_cong)
    show ?thesis
    proof (cases b)
      case (Inl rc)
      have "rc \<noteq> LS_OK" "\<not> calm s ?hi" using sp wb Inl by (auto simp: calm_def)
      then show ?thesis using rest Inl w nf frozen_abs [OF inv] by simp
    next
      case (Inr rp)
      obtain r pl where rp: "rp = (r, pl)" by fastforce
      obtain x where x: "recs s1 r = Some x" "pl = ls_place_of r x" "key x = k" "?hi \<le> rsize x"
        "content (fd s1) x = grown (fst (kv_get ?m k)) ?hi" "attr_of x = snd (kv_get ?m k)"
        "store_abs s1 = ?m(k \<mapsto> (content (fd s1) x, attr_of x))"
        using sp wb Inr rp by auto
      have "\<forall>g\<in>set gs. soff g + slen g \<le> rsize x \<and> length (seg_bytes g) = slen g"
        using gs(2) seg_top_ge x(4) by (auto simp: seg_ok_def intro: order_trans)
      from seg_loop_write [OF w(1) x(1) this, of "[]"] obtain s2 rc x2 outs where
        sl: "seg_loop s1 (ls_place_of r x) gs LS_OP_WRITE [] = Some (s2, rc, outs)" "store_inv s2" "recs s2 r = Some x2"
        "opts s2 = opts s1" "advances (fd s1) (fd s2)"
        "store_abs s2 = (store_abs s1)(key x \<mapsto> (content (fd s2) x2, attr_of x))"
        "rc = LS_OK \<longrightarrow> content (fd s2) x2 = foldl (\<lambda>c g. blit c (soff g) (seg_bytes g)) (content (fd s1) x) gs"
        "quiet (fd s1) \<and> file_end s1 + 4096 \<le> off_max \<longrightarrow> rc = LS_OK" by blast
      note u = unpin_spec [OF sl(2,3)]
      let ?t = "if rc \<noteq> LS_OK then ls_report (unpin s2 r) rc (Some k) 0 0 ''writev'' else unpin s2 r"
      have t: "store_inv ?t" "store_abs ?t = ?m(k \<mapsto> (content (fd s2) x2, snd (kv_get ?m k)))" "opts ?t = opts s" "advances (fd s) (fd ?t)"
        using ls_report_abs [OF u(1)] u sl x w advances_trans [OF w(3) sl(5)] by auto
      have "content (fd s2) x2 = foldl (\<lambda>c g. patch c (soff g) (seg_bytes g)) (fst (kv_get ?m k)) gs" if "rc = LS_OK"
        using sl(7) that x(5) fold_blit_grown [of gs ?hi] length_fold_patch [OF gs(2)] seg_top_ge gs(2)
        by (simp add: seg_ok_def)
      then have "rc = LS_OK \<longrightarrow> store_abs ?t = kv_writes ?m k gs"
        unfolding t(2) kv_writes_eq [OF gs(1)] by simp
      moreover have "calm s ?hi \<longrightarrow> rc = LS_OK"
        using sl(8) w(4) advances_quiet [OF w(3)] by (auto simp: calm_def roomy_def)
      moreover have "ls_writev s (Some k) (Some gs) (length gs) = Some (?t, rc, outs)"
        using rest Inr rp x(2) sl(1) by simp
      ultimately show ?thesis using t nf frozen_abs [OF inv] by simp
    qed
  qed
qed

lemma ls_readv_spec:
  assumes inv: "store_inv s" and k: "ls_key_ok (Some k)" and gs: "gs \<noteq> []" "\<forall>g\<in>set gs. seg_ok g"
  shows "\<exists>s' rc outs. ls_readv s (Some k) (Some gs) (length gs) = Some (s', rc, outs) \<and> store_inv s'
     \<and> opts s' = opts s \<and> advances (fd s) (fd s') \<and> store_abs s' = store_abs s
     \<and> (case store_abs s k of
          None \<Rightarrow> rc = LS_ERR_NOKEY
        | Some (c, a) \<Rightarrow> if length c < seg_top gs then rc = LS_ERR_RANGE
            else (rc = LS_OK \<longrightarrow> outs = map (\<lambda>g. part c (soff g) (slen g)) gs)
              \<and> (quiet (fd s) \<and> file_end s + 4096 \<le> off_max \<longrightarrow> rc = LS_OK))"
proof -
  let ?hi = "seg_top gs" and ?i = "(0, 0, ''readv'')"
  have chk: "seg_check gs 0 = Inr ?hi" using seg_check_top [OF gs(2)] by simp
  note sp = read_begin_spec [OF inv, of k ?hi ?i]
  then obtain s1 b where rb: "read_begin s k ?hi ?i = Some (s1, b)" by blast
  have w: "store_inv s1" "opts s1 = opts s" "advances (fd s) (fd s1)" "store_abs s1 = store_abs s" "file_end s1 = file_end s"
    using sp rb by auto
  have rest: "ls_readv s (Some k) (Some gs) (length gs) = (case b of Inl rc \<Rightarrow> Some (s1, rc, [])
      | Inr (r, pl) \<Rightarrow> seg_loop s1 pl gs LS_OP_READ [] \<bind> (\<lambda>(s2, rc, outs).
          Some (if rc \<noteq> LS_OK then ls_report (unpin s2 r) rc (Some k) 0 0 ''readv'' else unpin s2 r, rc, outs)))"
    using k gs(1) chk rb by (auto simp: ls_readv_def segv_def Let_def split: sum.splits intro!: Option.bind_cong)
  show ?thesis
  proof (cases b)
    case (Inl rc)
    have "rc = (if store_abs s k = None then LS_ERR_NOKEY else LS_ERR_RANGE)
        \<and> (\<forall>c a. store_abs s k = Some (c, a) \<longrightarrow> length c < ?hi)"
      using sp rb Inl by auto
    then show ?thesis using rest Inl w by (cases "store_abs s k") auto
  next
    case (Inr rp)
    obtain r pl where rp: "rp = (r, pl)" by fastforce
    obtain x where x: "recs s1 r = Some x" "pl = ls_place_of r x" "?hi \<le> rsize x"
      "store_abs s k = Some (content (fd s1) x, attr_of x)"
      using sp rb Inr rp by auto
    have "\<forall>g\<in>set gs. soff g + slen g \<le> rsize x" using seg_top_ge x(3) order_trans by blast
    from seg_loop_read [OF w(1) x(1) this, of "[]"] obtain s2 rc outs where
      sl: "seg_loop s1 (ls_place_of r x) gs LS_OP_READ [] = Some (s2, rc, outs)" "evolves s1 s2" "recs s2 = recs s1"
      "rc = LS_OK \<longrightarrow> outs = [] @ map (\<lambda>g. part (content (fd s1) x) (soff g) (slen g)) gs"
      "quiet (fd s1) \<and> file_end s1 + 4096 \<le> off_max \<longrightarrow> rc = LS_OK" by blast
    have r2: "recs s2 r = Some x" using sl(3) x(1) by simp
    have inv2: "store_inv s2" using evolvesD(1) [OF sl(2)] .
    note u = unpin_spec [OF inv2 r2]
    let ?t = "if rc \<noteq> LS_OK then ls_report (unpin s2 r) rc (Some k) 0 0 ''readv'' else unpin s2 r"
    have "store_inv ?t" "store_abs ?t = store_abs s" "opts ?t = opts s" "advances (fd s) (fd ?t)"
      using ls_report_abs [OF u(1)] u evolves_abs [OF w(1) sl(2)] w evolvesD(2,5) [OF sl(2)] advances_trans by auto
    moreover have "length (content (fd s1) x) = rsize x" by (rule length_content [OF store_invD(7) [OF w(1) x(1)]])
    moreover have "ls_readv s (Some k) (Some gs) (length gs) = Some (?t, rc, outs)"
      using rest Inr rp x(2) sl(1) by simp
    ultimately show ?thesis using x(3,4) sl(4,5) w advances_quiet [OF w(3)] by simp
  qed
qed

subsection \<open>Reductions\<close>

text \<open>A reduction that keeps the length and can be applied piece by piece, cut at multiples of the chunk
  that \<open>ls_accumulate\<close> uses for a record in the file.\<close>

definition elementwise :: "ls_reduce \<Rightarrow> bool" where
  "elementwise red \<longleftrightarrow> (\<forall>d b. length d = length b \<longrightarrow> length (red d b) = length b)
     \<and> (\<forall>d d' b b'. length d = ACC_CHUNK \<longrightarrow> length b = ACC_CHUNK \<longrightarrow> length d' = length b' \<longrightarrow>
          red (d @ d') (b @ b') = red d b @ red d' b')"

lemma length_add_elements:
  "\<forall>d b. length (add d b) = length d \<Longrightarrow> length (add_elements w add n d b) = length d"
  by (induction n arbitrary: d b) simp_all

lemma add_elements_append:
  "length d = w * n \<Longrightarrow> length b = w * n \<Longrightarrow>
     add_elements w add (n + m) (d @ d') (b @ b') = add_elements w add n d b @ add_elements w add m d' b'"
  by (induction n arbitrary: d b) simp_all

lemma add_elements_elementwise:
  assumes "\<forall>d b. length (add d b) = length d" "0 < w" "w dvd ACC_CHUNK"
  shows "elementwise (\<lambda>d b. add_elements w add (length b div w) d b)"
proof -
  obtain q where q: "ACC_CHUNK = w * q" using assms(3) by blast
  have dv: "(ACC_CHUNK + l) div w = q + l div w" for l
    unfolding q using assms(2) by (intro div_mult_self4) simp
  have "add_elements w add (length (b @ b') div w) (d @ d') (b @ b') =
      add_elements w add (length b div w) d b @ add_elements w add (length b' div w) d' b'"
    if "length d = ACC_CHUNK" "length b = ACC_CHUNK" for d d' b b'
    using add_elements_append [of d w q b add "length b' div w" d' b'] that q dv dv [of 0] by simp
  then show ?thesis using length_add_elements [OF assms(1)] by (simp add: elementwise_def)
qed

lemma ls_add_elementwise:
  assumes "\<forall>d b. length (add d b) = length d"
  shows "elementwise (ls_add_f64 add)" "elementwise (ls_add_f32 add)"
  using add_elements_elementwise [OF assms, of 8] add_elements_elementwise [OF assms, of 4]
  by (simp_all add: ls_add_f64_def [abs_def] ls_add_f32_def [abs_def] ACC_CHUNK_def)

lemma elementwise_Nil: "elementwise red \<Longrightarrow> red [] [] = []"
  by (metis elementwise_def length_0_conv)

lemma elementwise_split:
  assumes "elementwise red" "length d = length b" "length d' = length b'" "length b = ACC_CHUNK \<or> b' = []"
  shows "red (d @ d') (b @ b') = red d b @ red d' b'"
proof (cases "b' = []")
  case True
  then have "red d' b' = []" using elementwise_Nil [OF assms(1)] assms(3) by simp
  then show ?thesis using True assms(3) by simp
qed (use assms in \<open>simp add: elementwise_def\<close>)

subsection \<open>\<open>ls_accumulate\<close>\<close>

lemma part_blit_after:
  "a + length u + m \<le> length c \<Longrightarrow> part (blit c a u) (a + length u) m = part c (a + length u) m"
  by (rule nth_equalityI) (auto simp: nth_part nth_blit)

text \<open>A transfer that replaces a range of a record by its reduction with \<open>bs\<close>.\<close>

definition reduced :: "ls_reduce \<Rightarrow> byte list \<Rightarrow> nat \<Rightarrow> byte list \<Rightarrow> byte list" where
  "reduced red c off bs = blit c off (red (part c off (length bs)) bs)"

lemma reduced_split:
  assumes red: "elementwise red" and len: "off + length b + length b' \<le> length c" and cut: "length b = ACC_CHUNK \<or> b' = []"
  shows "reduced red (reduced red c off b) (off + length b) b' = reduced red c off (b @ b')"
proof -
  let ?u = "red (part c off (length b)) b"
  have l: "length ?u = length b" "length (red (part c (off + length b) (length b')) b') = length b'"
    using red len by (simp_all add: elementwise_def)
  have "part (blit c off ?u) (off + length b) (length b') = part c (off + length b) (length b')"
    using part_blit_after [of off ?u "length b'" c] l(1) len by simp
  moreover have "red (part c off (length b) @ part c (off + length b) (length b')) (b @ b') =
      ?u @ red (part c (off + length b) (length b')) b'"
    by (rule elementwise_split [OF red]) (use len cut in simp_all)
  ultimately show ?thesis
    using blit_append [of off ?u "red (part c (off + length b) (length b')) b'" c] l len
    by (simp add: reduced_def part_append [symmetric])
qed

lemma length_reduced: "elementwise red \<Longrightarrow> off + length b \<le> length c \<Longrightarrow> length (reduced red c off b) = length c"
  by (simp add: reduced_def elementwise_def)

lemma accum_loop_spec:
  assumes "elementwise red" "store_inv s" "recs s r = Some x" "off + n \<le> rsize x" "length buf = n" "dn \<le> n"
  shows "\<exists>s' rc x'. accum_loop s (ls_place_of r x) off n buf red dn = Some (s', rc)
     \<and> store_inv s' \<and> recs s' r = Some x' \<and> opts s' = opts s \<and> advances (fd s) (fd s')
     \<and> store_abs s' = (store_abs s)(key x \<mapsto> (content (fd s') x', attr_of x))
     \<and> (rc = LS_OK \<longrightarrow> content (fd s') x' = reduced red (content (fd s) x) (off + dn) (drop dn buf))
     \<and> (quiet (fd s) \<and> file_end s + 4096 \<le> off_max \<longrightarrow> rc = LS_OK)"
  using assms
proof (induction "n - dn" arbitrary: s x dn rule: less_induct)
  case less
  note red = less.prems(1) and inv = less.prems(2) and r = less.prems(3)
  have lc: "length (content (fd s) x) = rsize x" by (rule length_content [OF store_invD(7) [OF inv r]])
  show ?case
  proof (cases "dn < n")
    case False
    have "ls_toc_find s (key x) = Some r"
      using toc_find_iff [OF store_invD(1) [OF inv]] r by (auto simp: rkey_def)
    then have "(store_abs s)(key x \<mapsto> (content (fd s) x, attr_of x)) = store_abs s"
      using store_abs_Some [OF _ r] by (simp add: fun_upd_idem)
    moreover have "red [] [] = []" by (rule elementwise_Nil [OF red])
    moreover have "accum_loop s (ls_place_of r x) off n buf red dn = Some (s, LS_OK)"
      using False by (subst accum_loop.simps) simp
    ultimately show ?thesis using less.prems False
      by (intro exI [of _ s] exI [of _ LS_OK] exI [of _ x]) (simp add: reduced_def)
  next
    case True
    define k where "k = (if n - dn < ACC_CHUNK then n - dn else ACC_CHUNK)"
    have k: "0 < k" "dn + k \<le> n" "k = ACC_CHUNK \<or> dn + k = n" using True by (auto simp: k_def ACC_CHUNK_def)
    define b where "b = take k (drop dn buf)"
    have b: "length b = k" "drop dn buf = b @ drop (dn + k) buf"
      using k(2) less.prems(5) by (auto simp: b_def) (metis add.commute append_take_drop_id drop_drop)
    have rng: "off + dn + k \<le> rsize x" using k(2) less.prems(4) by linarith
    obtain s1 rc1 tmp where rd: "ls_scatter s (ls_place_of r x) (off + dn) k [] LS_OP_READ = Some (s1, rc1, tmp)"
      "evolves s s1" "recs s1 = recs s" "file_end s1 = file_end s" "rc1 = LS_OK \<longrightarrow> tmp = part (content (fd s) x) (off + dn) k"
      "quiet (fd s) \<and> file_end s + 4096 \<le> off_max \<longrightarrow> rc1 = LS_OK"
      using scatter_read_store [OF inv r rng] by blast
    have inv1: "store_inv s1" and r1: "recs s1 r = Some x" using evolvesD(1) [OF rd(2)] rd(3) r by simp_all
    have "same_rec (fd s) x (fd s1) x" using evolvesD(6) [OF rd(2) r] r1 by auto
    then have ct: "content (fd s1) x = content (fd s) x" by (simp add: same_rec_def)
    have ab1: "store_abs s1 = store_abs s" by (rule evolves_abs [OF inv rd(2)])
    have q1: "quiet (fd s) \<Longrightarrow> quiet (fd s1)" using advances_quiet [OF evolvesD(5) [OF rd(2)]] .
    show ?thesis
    proof (cases "rc1 = LS_OK")
      case False
      have "accum_loop s (ls_place_of r x) off n buf red dn = Some (s1, rc1)"
        using True rd(1) False by (subst accum_loop.simps) (simp add: k_def Let_def)
      moreover have "ls_toc_find s1 (key x) = Some r"
        using toc_find_iff [OF store_invD(1) [OF inv1]] r1 by (auto simp: rkey_def)
      then have "(store_abs s1)(key x \<mapsto> (content (fd s1) x, attr_of x)) = store_abs s1"
        using store_abs_Some [OF _ r1] by (simp add: fun_upd_idem)
      ultimately show ?thesis using False rd ab1 inv1 r1 evolvesD(2,5) [OF rd(2)]
        by (intro exI [of _ s1] exI [of _ rc1] exI [of _ x]) simp
    next
      case ok1: True
      have tmp: "tmp = part (content (fd s) x) (off + dn) k" using rd(5) ok1 by simp
      have lr: "length (red tmp b) = k" using red b(1) tmp rng lc by (simp add: elementwise_def)
      obtain s2 rc2 x2 out where wr: "ls_scatter s1 (ls_place_of r x) (off + dn) k (red tmp b) LS_OP_WRITE = Some (s2, rc2, out)"
        "store_inv s2" "recs s2 r = Some x2" "opts s2 = opts s1" "advances (fd s1) (fd s2)"
        "store_abs s2 = (store_abs s1)(key x \<mapsto> (content (fd s2) x2, attr_of x))" "key x2 = key x" "attr_of x2 = attr_of x"
        "ls_place_of r x2 = ls_place_of r x" "file_end s2 = file_end s1"
        "rc2 = LS_OK \<longrightarrow> content (fd s2) x2 = blit (content (fd s1) x) (off + dn) (red tmp b)"
        "patched_somehow (content (fd s1) x) (off + dn) k (content (fd s2) x2)"
        "quiet (fd s1) \<and> file_end s1 + 4096 \<le> off_max \<longrightarrow> rc2 = LS_OK"
        using scatter_write_store [OF inv1 r1 rng lr] by blast
      have adv: "advances (fd s) (fd s2)" using advances_trans [OF evolvesD(5) [OF rd(2)] wr(5)] .
      have eq: "accum_loop s (ls_place_of r x) off n buf red dn =
          (if rc2 \<noteq> LS_OK then Some (s2, rc2) else accum_loop s2 (ls_place_of r x) off n buf red (dn + k))"
        using True rd(1) ok1 wr(1) by (subst accum_loop.simps) (simp add: k_def Let_def b_def)
      show ?thesis
      proof (cases "rc2 = LS_OK")
        case False
        then show ?thesis using eq wr ab1 adv q1 rd(4) evolvesD(2) [OF rd(2)]
          by (intro exI [of _ s2] exI [of _ rc2] exI [of _ x2]) auto
      next
        case ok2: True
        have c2: "content (fd s2) x2 = reduced red (content (fd s) x) (off + dn) b"
          using wr(11) ok2 ct tmp b(1) by (simp add: reduced_def)
        have sz: "rsize x2 = rsize x"
          using wr(12) length_content [OF store_invD(7) [OF wr(2,3)]] ct lc by (simp add: patched_somehow_def)
        have "n - (dn + k) < n - dn" "off + n \<le> rsize x2" using k True less.prems(4) sz by auto
        from less.hyps [OF this(1) red wr(2,3) this(2) less.prems(5) k(2)] obtain s' rc x' where
          ih: "accum_loop s2 (ls_place_of r x2) off n buf red (dn + k) = Some (s', rc)" "store_inv s'" "recs s' r = Some x'"
          "opts s' = opts s2" "advances (fd s2) (fd s')"
          "store_abs s' = (store_abs s2)(key x2 \<mapsto> (content (fd s') x', attr_of x2))"
          "rc = LS_OK \<longrightarrow> content (fd s') x' = reduced red (content (fd s2) x2) (off + (dn + k)) (drop (dn + k) buf)"
          "quiet (fd s2) \<and> file_end s2 + 4096 \<le> off_max \<longrightarrow> rc = LS_OK" by blast
        have "reduced red (reduced red (content (fd s) x) (off + dn) b) (off + dn + length b) (drop (dn + k) buf) =
            reduced red (content (fd s) x) (off + dn) (b @ drop (dn + k) buf)"
          by (rule reduced_split [OF red]) (use b(1) k lc less.prems(4,5) in auto)
        then have "rc = LS_OK \<longrightarrow> content (fd s') x' = reduced red (content (fd s) x) (off + dn) (drop dn buf)"
          using ih(7) c2 b by (simp add: add.assoc)
        then show ?thesis using eq ok2 ih wr ab1 adv q1 rd(4) evolvesD(2) [OF rd(2)] advances_trans [OF adv ih(5)] advances_quiet [OF wr(5)]
          by (intro exI [of _ s'] exI [of _ rc] exI [of _ x']) auto
      qed
    qed
  qed
qed

lemma accum_mem_scatter:
  assumes inv: "store_inv s" and r: "recs s r = Some x" "mem x = Some b" and rng: "off + length bs \<le> rsize x" "bs \<noteq> []"
    and red: "elementwise red"
  shows "\<exists>s'. accum_mem s r (baddr b) off (length bs) bs red = Some (s', LS_OK)
     \<and> ls_scatter s (ls_place_of r x) off (length bs) (red (part (content (fd s) x) off (length bs)) bs) LS_OP_WRITE = Some (s', LS_OK, [])"
proof -
  have b: "length (bdata b) = mem_cap x" "rsize x \<le> mem_cap x" using store_invD(7) [OF inv r(1)] r(2) by (auto simp: rec_ok_def)
  have "part (content (fd s) x) off (length bs) = part (bdata b) off (length bs)"
    using r(2) part_take [OF rng(1)] by (simp add: content_def)
  moreover have "length (red (part (bdata b) off (length bs)) bs) = length bs"
    using red rng b by (simp add: elementwise_def)
  ultimately show ?thesis using r b rng
    by (auto simp: accum_mem_def ls_scatter_def mem_at_def ls_place_of_def)
qed

definition kv_accumulate :: "kv \<Rightarrow> string \<Rightarrow> nat \<Rightarrow> ls_reduce \<Rightarrow> byte list \<Rightarrow> kv" where
  "kv_accumulate m k off red bs =
     m(k \<mapsto> (reduced red (grown (fst (kv_get m k)) (off + length bs)) off bs, snd (kv_get m k)))"

text \<open>The transfer of an accumulation, in either tier.\<close>

definition accum_body :: "ls_store \<Rightarrow> ls_place \<Rightarrow> nat \<Rightarrow> byte list \<Rightarrow> ls_reduce \<Rightarrow> (ls_store \<times> int) option" where
  "accum_body s pl off bs red = (case pmem pl of
       Some (q, a) \<Rightarrow> accum_mem s q a off (length bs) bs red
     | None \<Rightarrow> (case st_malloc s of (ok, s2) \<Rightarrow>
         if \<not> ok then Some (s2, neg_errno ENOMEM) else accum_loop s2 pl off (length bs) bs red 0))"

lemma accum_body_spec:
  assumes red: "elementwise red" and inv: "store_inv s" and r: "recs s r = Some x" and rng: "off + length bs \<le> rsize x" "bs \<noteq> []"
  shows "\<exists>s' rc x'. accum_body s (ls_place_of r x) off bs red = Some (s', rc)
     \<and> store_inv s' \<and> recs s' r = Some x' \<and> opts s' = opts s \<and> advances (fd s) (fd s')
     \<and> store_abs s' = (store_abs s)(key x \<mapsto> (content (fd s') x', attr_of x))
     \<and> (rc = LS_OK \<longrightarrow> content (fd s') x' = reduced red (content (fd s) x) off bs)
     \<and> (quiet (fd s) \<and> file_end s + 4096 \<le> off_max \<longrightarrow> rc = LS_OK)"
proof (cases "mem x")
  case (Some b)
  let ?bs = "red (part (content (fd s) x) off (length bs)) bs"
  have lc: "length (content (fd s) x) = rsize x" by (rule length_content [OF store_invD(7) [OF inv r]])
  have l: "length ?bs = length bs" using red rng lc by (simp add: elementwise_def)
  obtain s' where am: "accum_mem s r (baddr b) off (length bs) bs red = Some (s', LS_OK)"
    "ls_scatter s (ls_place_of r x) off (length bs) ?bs LS_OP_WRITE = Some (s', LS_OK, [])"
    using accum_mem_scatter [OF inv r Some rng red] by blast
  then show ?thesis using scatter_write_store [OF inv r rng(1) l] Some
    by (auto simp: accum_body_def ls_place_of_def reduced_def)
next
  case None
  obtain ok s2 where m: "st_malloc s = (ok, s2)" by fastforce
  note ms = st_malloc_evolves [OF m inv]
  have inv2: "store_inv s2" and r2: "recs s2 r = Some x" using evolvesD(1) [OF ms(1)] ms(2) r by simp_all
  have "same_rec (fd s) x (fd s2) x" using evolvesD(6) [OF ms(1) r] r2 by auto
  then have ct: "content (fd s2) x = content (fd s) x" by (simp add: same_rec_def)
  have ab: "store_abs s2 = store_abs s" by (rule evolves_abs [OF inv ms(1)])
  have pm: "pmem (ls_place_of r x) = None" using None by (simp add: ls_place_of_def)
  show ?thesis
  proof (cases ok)
    case False
    have "ls_toc_find s2 (key x) = Some r"
      using toc_find_iff [OF store_invD(1) [OF inv2]] r2 by (auto simp: rkey_def)
    then have "(store_abs s2)(key x \<mapsto> (content (fd s2) x, attr_of x)) = store_abs s2"
      using store_abs_Some [OF _ r2] by (simp add: fun_upd_idem)
    then show ?thesis using False m pm ms inv2 r2 ab evolvesD(2,5) [OF ms(1)]
      by (intro exI [of _ s2] exI [of _ "neg_errno ENOMEM"] exI [of _ x]) (auto simp: accum_body_def)
  next
    case True
    from accum_loop_spec [OF red inv2 r2 rng(1) refl, of 0] obtain s' rc x' where
      a: "accum_loop s2 (ls_place_of r x) off (length bs) bs red 0 = Some (s', rc)" "store_inv s'" "recs s' r = Some x'"
      "opts s' = opts s2" "advances (fd s2) (fd s')" "store_abs s' = (store_abs s2)(key x \<mapsto> (content (fd s') x', attr_of x))"
      "rc = LS_OK \<longrightarrow> content (fd s') x' = reduced red (content (fd s2) x) off bs"
      "quiet (fd s2) \<and> file_end s2 + 4096 \<le> off_max \<longrightarrow> rc = LS_OK" by auto
    have "advances (fd s) (fd s')" using advances_trans [OF evolvesD(5) [OF ms(1)] a(5)] .
    then show ?thesis using True m pm a ms(5) ab ct evolvesD(2) [OF ms(1)] advances_quiet [OF evolvesD(5) [OF ms(1)]]
      by (intro exI [of _ s'] exI [of _ rc] exI [of _ x']) (simp add: accum_body_def)
  qed
qed

lemma ls_accumulate_spec:
  assumes inv: "store_inv s" and k: "ls_key_ok (Some k)" and fit: "off + length bs < u64_mod" "fits s (off + length bs)"
    and red: "elementwise red" and md: "mode (opts s) = LS_EXPLICIT" and ne: "bs \<noteq> []"
  shows "\<exists>s' rc. ls_accumulate s (Some k) off (length bs) (Some bs) (Some red) = Some (s', rc) \<and> store_inv s'
     \<and> opts s' = opts s \<and> advances (fd s) (fd s') \<and> (\<forall>k'. k' \<noteq> k \<longrightarrow> store_abs s' k' = store_abs s k')
     \<and> (if kv_frozen (opts s) (store_abs s) k (off + length bs) then rc = LS_ERR_MODE \<and> store_abs s' = store_abs s
        else (rc = LS_OK \<longrightarrow> store_abs s' = kv_accumulate (store_abs s) k off red bs)
          \<and> (calm s (off + length bs) \<longrightarrow> rc = LS_OK))"
proof -
  let ?hi = "off + length bs" and ?m = "store_abs s" and ?i = "(off, length bs, ''reserving space for accumulate'')"
  have nw: "\<not> add64 off (length bs) < off" "add64 off (length bs) = ?hi" using fit(1) by simp_all
  show ?thesis
  proof (cases "frozen s k ?hi")
    case True
    have "ls_accumulate s (Some k) off (length bs) (Some bs) (Some red) =
        Some (ls_report s LS_ERR_MODE (Some k) off (length bs) frozen_msg, LS_ERR_MODE)"
      using k nw ne md True by (simp add: ls_accumulate_def)
    then show ?thesis using ls_report_abs [OF inv] True frozen_abs [OF inv] by simp
  next
    case nf: False
    note sp = write_begin_spec [OF inv fit(2,1), of k ?i]
    then obtain s1 b where wb: "write_begin s k ?hi ?i = Some (s1, b)" by blast
    have w: "store_inv s1" "opts s1 = opts s" "advances (fd s) (fd s1)" "file_end s1 \<le> demand s + ?hi + 4095"
      "\<forall>k'. k' \<noteq> k \<longrightarrow> store_abs s1 k' = ?m k'" using sp wb by auto
    have rest: "ls_accumulate s (Some k) off (length bs) (Some bs) (Some red) = (case b of Inl rc \<Rightarrow> Some (s1, rc)
        | Inr (r, pl) \<Rightarrow> accum_body s1 pl off bs red \<bind> (\<lambda>(s2, rc).
            Some (if rc \<noteq> LS_OK then ls_report (unpin s2 r) rc (Some k) off (length bs) ''accumulate'' else unpin s2 r, rc)))"
      unfolding ls_accumulate_def accum_body_def option.sel Let_def using k nw ne md nf wb by (auto split: sum.splits)
    show ?thesis
    proof (cases b)
      case (Inl rc)
      have "rc \<noteq> LS_OK" "\<not> calm s ?hi" using sp wb Inl by (auto simp: calm_def)
      then show ?thesis using rest Inl w nf frozen_abs [OF inv] by simp
    next
      case (Inr rp)
      obtain r pl where rp: "rp = (r, pl)" by fastforce
      obtain x where x: "recs s1 r = Some x" "pl = ls_place_of r x" "key x = k" "?hi \<le> rsize x"
        "content (fd s1) x = grown (fst (kv_get ?m k)) ?hi" "attr_of x = snd (kv_get ?m k)"
        "store_abs s1 = ?m(k \<mapsto> (content (fd s1) x, attr_of x))"
        using sp wb Inr rp by auto
      from accum_body_spec [OF red w(1) x(1,4) ne] obtain s2 rc x2 where
        sl: "accum_body s1 (ls_place_of r x) off bs red = Some (s2, rc)" "store_inv s2" "recs s2 r = Some x2"
        "opts s2 = opts s1" "advances (fd s1) (fd s2)"
        "store_abs s2 = (store_abs s1)(key x \<mapsto> (content (fd s2) x2, attr_of x))"
        "rc = LS_OK \<longrightarrow> content (fd s2) x2 = reduced red (content (fd s1) x) off bs"
        "quiet (fd s1) \<and> file_end s1 + 4096 \<le> off_max \<longrightarrow> rc = LS_OK" by blast
      note u = unpin_spec [OF sl(2,3)]
      let ?t = "if rc \<noteq> LS_OK then ls_report (unpin s2 r) rc (Some k) off (length bs) ''accumulate'' else unpin s2 r"
      have t: "store_inv ?t" "store_abs ?t = ?m(k \<mapsto> (content (fd s2) x2, snd (kv_get ?m k)))" "opts ?t = opts s" "advances (fd s) (fd ?t)"
        using ls_report_abs [OF u(1)] u sl x w advances_trans [OF w(3) sl(5)] by auto
      have "rc = LS_OK \<longrightarrow> store_abs ?t = kv_accumulate ?m k off red bs"
        unfolding t(2) kv_accumulate_def using sl(7) x(5) by simp
      moreover have "calm s ?hi \<longrightarrow> rc = LS_OK"
        using sl(8) w(4) advances_quiet [OF w(3)] by (auto simp: calm_def roomy_def)
      moreover have "ls_accumulate s (Some k) off (length bs) (Some bs) (Some red) = Some (?t, rc)"
        using rest Inr rp x(2) sl(1) by simp
      ultimately show ?thesis using t nf frozen_abs [OF inv] by simp
    qed
  qed
qed

end
