(* ===== verification/Contract.thy ===== *)
theory Contract
  imports Vectored
begin

text \<open>
  The contract of the data path (\<open>include/libspill.h\<close>): the public calls as operations on a map
  from keys to byte strings. A locale states what a client of such a map relies on and derives
  the consequences; the store is an instance. The properties below are about every well-formed
  store and every pattern of failing system calls, except where success itself is claimed.
\<close>

subsection \<open>A store just opened\<close>

lemma store_init_inv:
  assumes "io_ok w d" "memory_budget o' < off_max"
  shows "store_inv (store_init w p o' d)"
proof -
  let ?s = "store_init w p o' d"
  have sel: "recs ?s = Map.empty" "fl ?s = []" "file_end ?s = 4096" "fd ?s = w" "direct ?s = d" "teardown ?s = False"
    "resident ?s = 0" "opts ?s = o'"
    "lru ?s = \<lparr>lru_head = None, lru_tail = None, lru_prev = (\<lambda>_. None), lru_next = (\<lambda>_. None)\<rparr>"
    by (simp_all add: store_init_def)
  have res: "res_set ?s = {}" using sel by (simp add: res_set_def)
  have "lru_list (lru ?s) []" using sel by (simp add: lru_list_def fun_eq_iff)
  then have "tier_ok ?s" using res sel assms(2) unfolding tier_ok_def by (auto intro: exI [of _ "[]"])
  moreover have "alloc_inv ?s" using sel by (simp add: alloc_inv_def holes_ok_def u64_mod_def)
  ultimately show ?thesis
    using store_init_toc [of w p o' d] sel assms(1) by (simp add: store_inv_def used_def)
qed

definition demo :: "nat \<Rightarrow> ls_store" where
  "demo b = store_init (os_empty []) ''demo'' (opts_default\<lparr>memory_budget := b\<rparr>) False"

lemma demo_sel [simp]:
  "recs (demo b) = Map.empty" "fd (demo b) = os_empty []" "opts (demo b) = opts_default\<lparr>memory_budget := b\<rparr>"
  "fl (demo b) = []" "file_end (demo b) = 4096" "tab (demo b) = replicate 64 []" "direct (demo b) = False"
  by (simp_all add: demo_def store_init_def)

lemma demo_quiet [simp]: "quiet (os_empty [])"
  by (simp add: quiet_def os_empty_def)

lemma demo_inv: "b < off_max \<Longrightarrow> store_inv (demo b)"
  unfolding demo_def by (rule store_init_inv) (simp_all add: io_ok_def file_wf_def os_empty_def off_max_def)

lemma demo_demand [simp]: "demand (demo b) = 4096"
  by (simp add: demand_def res_set_def)

lemma demo_room: "n \<le> 2 ^ 40 \<Longrightarrow> fits (demo b) n" "n \<le> 2 ^ 40 \<Longrightarrow> calm (demo b) n"
  by (simp_all add: fits_def calm_def roomy_def u64_mod_def off_max_def)

lemma demo_abs [simp]: "b < off_max \<Longrightarrow> store_abs (demo b) = Map.empty"
proof (rule ext)
  fix k assume "b < off_max"
  then have "store_abs (demo b) k = None \<longleftrightarrow> ls_toc_find (demo b) k = None" by (intro store_abs_dom demo_inv)
  moreover have "ls_toc_find (demo b) k \<noteq> Some r" for r
    using toc_find_iff [OF store_init_toc, of _ _ _ _ k r] by (simp add: demo_def store_init_def)
  ultimately show "store_abs (demo b) k = Map.empty k" by (cases "ls_toc_find (demo b) k") auto
qed

text \<open>The store with one empty record.\<close>

definition demo_rec :: "nat \<Rightarrow> ls_store" where
  "demo_rec b = fst (find_or_insert (demo b) ''k'')"

lemma demo_rec:
  assumes "b < off_max"
  shows "store_inv (demo_rec b)" "demand (demo_rec b) = 4096" "recs (demo_rec b) 0 = Some (rec_new ''k'')"
    "fl (demo_rec b) = []" "quiet (fd (demo_rec b))" "opts (demo_rec b) = opts (demo b)"
proof -
  have n: "ls_toc_find (demo b) ''k'' = None"
    using store_abs_dom [OF demo_inv [OF assms], of "''k''"] assms by simp
  obtain s ro where fi: "find_or_insert (demo b) ''k'' = (s, ro)" by fastforce
  then have d: "demo_rec b = s" by (simp add: demo_rec_def)
  note f = find_or_insert_spec [OF demo_inv [OF assms] fi]
  show "store_inv (demo_rec b)" "demand (demo_rec b) = 4096" "opts (demo_rec b) = opts (demo b)" "quiet (fd (demo_rec b))"
    using f(1,2,3,5) d advances_quiet [OF f(5)] by simp_all
  have "ls_toc_insert (demo b) ''k'' = (s, ro)" using fi n by (simp add: find_or_insert_def)
  then show "recs (demo_rec b) 0 = Some (rec_new ''k'')" "fl (demo_rec b) = []"
    unfolding d by (auto simp: ls_toc_insert_def toc_alloc_rec_def toc_link_def st_malloc_def os_malloc_def os_empty_def
        demo_def store_init_def Let_def)
qed

lemma off_max_big: "100 < off_max" "1000 < u64_mod" "0 < off_max"
  by (simp_all add: off_max_def u64_mod_def)

text \<open>The store with one resident record of fifty bytes.\<close>

definition demo_res :: ls_store where
  "demo_res = fst (the (ensure_cap (demo_rec 100) 0 50))"

lemma demo_rec_tier:
  assumes "b < off_max"
  shows "recs (demo_rec b) = [0 \<mapsto> rec_new ''k'']" "lru_list (lru (demo_rec b)) []" "resident (demo_rec b) = 0"
proof -
  have "ls_toc_find (demo b) ''k'' = None" using store_abs_dom [OF demo_inv [OF assms], of "''k''"] assms by simp
  then have "demo_rec b = fst (ls_toc_insert (demo b) ''k'')" by (simp add: demo_rec_def find_or_insert_def)
  then show "recs (demo_rec b) = [0 \<mapsto> rec_new ''k'']" "lru_list (lru (demo_rec b)) []" "resident (demo_rec b) = 0"
    by (auto simp: ls_toc_insert_def toc_alloc_rec_def toc_link_def st_malloc_def os_malloc_def os_empty_def
        demo_def store_init_def Let_def lru_list_def fun_eq_iff)
qed

lemma demo_res:
  "store_inv demo_res" "demand demo_res + 4096 \<le> off_max" "quiet (fd demo_res)" "lru_list (lru demo_res) [0]" "resident demo_res = 50"
  "res_set demo_res = {0}" "\<not> is_busy demo_res 0" "rcap demo_res 0 = 50"
proof -
  let ?s = "demo_rec 100"
  note d = demo_rec [OF off_max_big(1)] and t = demo_rec_tier [OF off_max_big(1)]
  have m: "st_malloc ?s = (True, ?s)" using d(5) by (simp add: st_malloc_def os_malloc_def quiet_def)
  define s where "s = grow_buffer ?s 0 (rec_new ''k'') 50"
  have "ensure_cap ?s 0 50 = Some (s, LS_OK)"
    using d(3,6) t(3) m by (simp add: ensure_cap_def s_def rec_new_def wrap_simps u64_mod_def Let_def)
  then have e: "ensure_cap ?s 0 50 = Some (demo_res, LS_OK)" "demo_res = s" by (simp_all add: demo_res_def)
  have fit: "fits ?s 50" using d(2) by (simp add: fits_def u64_mod_def)
  have "evolves ?s demo_res" "file_end demo_res \<le> 4096 + 50 + 4095" using ensure_cap_spec [OF d(1,3) fit] e(1) d(2) by auto
  then show "store_inv demo_res" "quiet (fd demo_res)" using evolvesD(1,5) d(5) advances_quiet by blast+
  have r: "recs demo_res = [0 \<mapsto> (rec_new ''k'')\<lparr>mem := Some \<lparr>baddr = fresh ?s, bdata = zeros 50\<rparr>, mem_cap := 50\<rparr>]"
    using t(1) by (simp add: e(2) s_def grow_buffer_def ls_lru_touch_def recs_upd_rec rec_new_def Let_def)
  show rs: "res_set demo_res = {0}" "\<not> is_busy demo_res 0" "rcap demo_res 0 = 50" using r by (auto simp: res_set_def is_busy_def rec_new_def rcap_def)
  show "resident demo_res = 50" "lru_list (lru demo_res) [0]"
    using t(2,3) lru_touch_list [OF t(2), of 0]
    by (simp_all add: e(2) s_def grow_buffer_def ls_lru_touch_def rec_new_def Let_def wrap_simps u64_mod_def)
  have "demand demo_res = file_end demo_res + (50 + 4096)"
    using rs(1) r by (simp add: demand_def share_def rcap_def)
  then show "demand demo_res + 4096 \<le> off_max" using \<open>file_end demo_res \<le> 4096 + 50 + 4095\<close> by (simp add: off_max_def)
qed

theorem evict_preserves_witness:
  "\<exists>s' rc x x'. ls_evict_to demo_res 0 None = Some (s', rc) \<and> store_inv s' \<and> recs demo_res 0 = Some x \<and> recs s' 0 = Some x'
     \<and> content (fd s') x' = content (fd demo_res) x"
proof -
  obtain x where x: "recs demo_res 0 = Some x" using demo_res(6) by (auto simp: res_set_def)
  have "demand demo_res \<le> u64_mod" using demo_res(2) by (simp add: u64_mod_def off_max_def)
  from evict_preserves [OF demo_res(1) this, of 0 None] show ?thesis using x by blast
qed

theorem evicts_least_recent_witness:
  "(\<exists>s'. ls_evict_to demo_res 0 None = Some (s', LS_OK) \<and> res_set s' = {} \<and> resident s' = 0)
   \<and> (\<exists>s'. ls_evict_to demo_res 0 (Some 0) = Some (s', LS_OK) \<and> res_set s' = {0} \<and> resident s' = 50)
   \<and> (\<exists>s'. ls_evict_to demo_res 50 None = Some (s', LS_OK) \<and> res_set s' = {0})"
proof -
  have d: "demand demo_res \<le> u64_mod" using demo_res(2) by (simp add: u64_mod_def off_max_def)
  note e = evicts_least_recent [OF demo_res(1) d demo_res(4)]
  have "\<exists>s' vs zs. ls_evict_to demo_res b keep = Some (s', LS_OK) \<and> filter (\<lambda>r. Some r \<noteq> keep \<and> \<not> is_busy demo_res r) [0] = vs @ zs
      \<and> res_set s' = {0} - set vs \<and> resident s' = 50 - sum_list (map (rcap demo_res) vs)
      \<and> (\<forall>k<length vs. b + sum_list (map (rcap demo_res) (take k vs)) < 50) \<and> (resident s' \<le> b \<or> zs = [])" for b keep
    using e [of b keep] demo_res(2,3,5,6) by (simp only: rev.simps append.simps) blast
  note f = this
  have split: "vs @ zs = [0] \<longleftrightarrow> vs = [] \<and> zs = [0] \<or> vs = [0] \<and> zs = []" for vs zs :: "nat list"
    by (auto simp: append_eq_Cons_conv)
  have "\<exists>s'. ls_evict_to demo_res 0 None = Some (s', LS_OK) \<and> res_set s' = {} \<and> resident s' = 0"
    using f [of 0 None] demo_res(7,8) by (auto simp: split eq_commute [of "[0]"])
  moreover have "\<exists>s'. ls_evict_to demo_res 0 (Some 0) = Some (s', LS_OK) \<and> res_set s' = {0} \<and> resident s' = 50"
    using f [of 0 "Some 0"] by auto
  moreover have "\<exists>s'. ls_evict_to demo_res 50 None = Some (s', LS_OK) \<and> res_set s' = {0}"
    using f [of 50 None] demo_res(7) by (auto simp: split eq_commute [of "[0]"])
  ultimately show ?thesis by blast
qed

theorem ensure_cap_provides_witness:
  "\<exists>s' rc x'. ensure_cap (demo_rec 100) 0 50 = Some (s', rc) \<and> recs s' 0 = Some x' \<and> 50 \<le> cap_of x'"
proof -
  note d = demo_rec [OF off_max_big(1)]
  have "fits (demo_rec 100) 50" "roomy (demo_rec 100) 50" using d(2) by (simp_all add: fits_def roomy_def u64_mod_def off_max_def)
  then show ?thesis using ensure_cap_provides [OF d(1,3), of 50] d(5) by blast
qed

theorem ensure_extents_wraps_forever_witness:
  "ensure_extents (demo_rec 0) 0 (u64_mod - 1) = None"
proof -
  note d = demo_rec [OF off_max_big(3)]
  have "ext_total (rec_new ''k'') + u64_mod \<le> u64_mod - 1 + 4095" by (simp add: rec_new_def u64_mod_def)
  then show ?thesis using ensure_extents_wraps_forever [OF d(1,3,4)] d(5) by (simp add: quiet_def u64_mod_def)
qed

subsection \<open>The client's view\<close>

locale byte_map =
  fixes inv :: "'s \<Rightarrow> bool"
    and view :: "'s \<Rightarrow> kv"
    and wrote :: "'s \<Rightarrow> string \<Rightarrow> nat \<Rightarrow> byte list \<Rightarrow> 's \<Rightarrow> bool"
    and got :: "'s \<Rightarrow> string \<Rightarrow> nat \<Rightarrow> nat \<Rightarrow> byte list \<Rightarrow> 's \<Rightarrow> bool"
  assumes wrote_view: "inv s \<Longrightarrow> wrote s k off bs s' \<Longrightarrow> inv s' \<and> view s' = kv_write (view s) k off bs"
    and got_view: "inv s \<Longrightarrow> got s k off n out s' \<Longrightarrow>
      inv s' \<and> view s' = view s \<and> off + n \<le> length (fst (kv_get (view s) k)) \<and> out = part (fst (kv_get (view s) k)) off n"
begin

lemma read_own_write:
  assumes "inv s" "wrote s k off bs s1" "got s1 k off (length bs) out s2"
  shows "out = bs"
  using wrote_view [OF assms(1,2)] got_view [OF _ assms(3)] by (simp add: kv_write_def)

lemma read_other_key:
  assumes "inv s" "wrote s k off bs s1" "k' \<noteq> k" "got s k' o' n out s'" "got s1 k' o' n out1 s1'"
  shows "out1 = out"
  using wrote_view [OF assms(1,2)] got_view [OF assms(1,4)] got_view [OF _ assms(5)] assms(3)
  by (simp add: kv_write_def kv_get_def)

lemma read_beside:
  assumes "inv s" "wrote s k off bs s1" "o' + n \<le> off \<or> off + length bs \<le> o'"
    "got s k o' n out s'" "got s1 k o' n out1 s1'"
  shows "out1 = out"
proof -
  let ?c = "fst (kv_get (view s) k)"
  have g: "o' + n \<le> length ?c" "out = part ?c o' n" using got_view [OF assms(1,4)] by auto
  have "out1 = part (patch ?c off bs) o' n"
    using wrote_view [OF assms(1,2)] got_view [OF _ assms(5)] by (simp add: kv_write_def)
  moreover have "part (patch ?c off bs) o' n = part ?c o' n"
  proof (rule nth_equalityI)
    show "length (part (patch ?c off bs) o' n) = length (part ?c o' n)" using g(1) by simp
    fix i assume "i < length (part (patch ?c off bs) o' n)"
    then have i: "i < n" using g(1) by simp
    then have "patch ?c off bs ! (o' + i) = ?c ! (o' + i)"
      using assms(3) g(1) by (auto simp: patch_def nth_blit grown_def nth_append)
    then show "part (patch ?c off bs) o' n ! i = part ?c o' n ! i" using i g(1) by (simp add: nth_part)
  qed
  ultimately show ?thesis using g(2) by simp
qed

lemma read_gap:
  assumes "inv s" "wrote s k off bs s1" "length (fst (kv_get (view s) k)) \<le> o'" "o' + n \<le> off" "got s1 k o' n out s2"
  shows "out = zeros n"
proof -
  let ?c = "fst (kv_get (view s) k)"
  have "out = part (patch ?c off bs) o' n"
    using wrote_view [OF assms(1,2)] got_view [OF _ assms(5)] by (simp add: kv_write_def)
  moreover have "part (patch ?c off bs) o' n = zeros n"
    by (rule nth_equalityI) (use assms(3,4) in \<open>auto simp: nth_part patch_def nth_blit grown_def nth_append\<close>)
  ultimately show ?thesis by simp
qed

end

definition st_wrote :: "ls_store \<Rightarrow> string \<Rightarrow> nat \<Rightarrow> byte list \<Rightarrow> ls_store \<Rightarrow> bool" where
  "st_wrote s k off bs s' \<longleftrightarrow> ls_key_ok (Some k) \<and> off + length bs < u64_mod \<and> fits s (off + length bs)
     \<and> ls_write s (Some k) off (length bs) (Some bs) = Some (s', LS_OK)"

definition st_got :: "ls_store \<Rightarrow> string \<Rightarrow> nat \<Rightarrow> nat \<Rightarrow> byte list \<Rightarrow> ls_store \<Rightarrow> bool" where
  "st_got s k off n out s' \<longleftrightarrow> ls_key_ok (Some k) \<and> off < u64_mod \<and> n < u64_mod
     \<and> ls_read s (Some k) off n True = Some (s', LS_OK, out)"

lemma codes_differ [simp]: "LS_ERR_MODE \<noteq> LS_OK" "LS_ERR_NOKEY \<noteq> LS_OK" "LS_ERR_RANGE \<noteq> LS_OK"
  by simp_all

interpretation kvs: byte_map store_inv store_abs st_wrote st_got
proof
  fix s k off bs s'
  assume inv: "store_inv s" and w: "st_wrote s k off bs s'"
  then show "store_inv s' \<and> store_abs s' = kv_write (store_abs s) k off bs"
    using ls_write_spec [OF inv, of k off bs] by (auto simp: st_wrote_def write_outcome_def split: if_splits)
next
  fix s k off n out s'
  assume inv: "store_inv s" and g: "st_got s k off n out s'"
  then have sp: "store_inv s'" "store_abs s' = store_abs s"
    "case store_abs s k of None \<Rightarrow> False | Some (c, a) \<Rightarrow> off + n \<le> length c \<and> out = part c off n"
    using ls_read_spec [OF inv, of k off n] by (auto simp: st_got_def split: option.splits if_splits)
  then show "store_inv s' \<and> store_abs s' = store_abs s \<and> off + n \<le> length (fst (kv_get (store_abs s) k))
      \<and> out = part (fst (kv_get (store_abs s) k)) off n"
    by (auto simp: kv_get_def split: option.splits)
qed

subsection \<open>Space\<close>

text \<open>What spilling everything could reach is bounded by the file's high-water mark, the budget and one
  block per key.\<close>

lemma card_keys:
  assumes "store_inv s"
  shows "card (dom (store_abs s)) = card (dom (recs s))" "finite (dom (recs s))"
proof -
  note inv = store_invD(1) [OF assms]
  show "finite (dom (recs s))" using inv by (metis List.finite_set toc_inv_def)
  have "dom (store_abs s) = rkey s ` dom (recs s)"
    using store_abs_dom [OF assms] toc_find_iff [OF inv] by (simp add: dom_def set_eq_iff image_iff) blast
  then show "card (dom (store_abs s)) = card (dom (recs s))" using card_image [OF toc_invD(2) [OF inv]] by simp
qed

lemma demand_bound:
  assumes "store_inv s"
  shows "demand s \<le> file_end s + memory_budget (opts s) + 4096 * card (dom (store_abs s))"
proof -
  have sub: "res_set s \<subseteq> dom (recs s)" by (auto simp: res_set_def)
  have "(\<Sum>r\<in>res_set s. share s r) = (\<Sum>r\<in>res_set s. rcap s r) + 4096 * card (res_set s)"
    by (simp add: share_def sum.distrib)
  moreover have "(\<Sum>r\<in>res_set s. rcap s r) \<le> memory_budget (opts s)"
    using store_invD(4) [OF assms] by (auto simp: tier_ok_def)
  moreover have "card (res_set s) \<le> card (dom (recs s))" using card_mono [OF card_keys(2) [OF assms] sub] .
  ultimately show ?thesis using card_keys(1) [OF assms] by (simp add: demand_def)
qed

lemma demo_open [simp]: "\<not> kv_frozen (opts_default\<lparr>memory_budget := b\<rparr>) m k n"
  by (simp add: kv_frozen_def opts_default_def)

lemma key_k: "ls_key_ok (Some ''k'')" "ls_key_ok (Some ''j'')"
  by (simp_all add: ls_key_ok_def LS_KEY_MAX_def)

lemma demo_write:
  assumes "off + length bs \<le> 2 ^ 40"
  shows "\<exists>s. ls_write (demo 100) (Some ''k'') off (length bs) (Some bs) = Some (s, LS_OK) \<and> store_inv s
     \<and> store_abs s = Map.empty(''k'' \<mapsto> (patch [] off bs, [])) \<and> quiet (fd s)
     \<and> opts s = opts (demo 100) \<and> file_end s \<le> off + length bs + 8191 \<and> demand s \<le> off + length bs + 12387"
proof -
  have l: "off + length bs < u64_mod" using assms by (simp add: u64_mod_def)
  have c: "fits (demo 100) (off + length bs)" "calm (demo 100) (off + length bs)" by (rule demo_room [OF assms])+
  have b: "store_inv (demo 100)" "store_abs (demo 100) = Map.empty" using demo_inv off_max_big(1) by simp_all
  obtain s where w: "ls_write (demo 100) (Some ''k'') off (length bs) (Some bs) = Some (s, LS_OK)"
    "write_outcome (demo 100) ''k'' off bs s LS_OK"
    using ls_write_spec [OF b(1) key_k(1) l c(1)] c(2) by (auto simp: write_outcome_def)
  then have s: "store_inv s" "store_abs s = Map.empty(''k'' \<mapsto> (patch [] off bs, []))" "quiet (fd s)" "opts s = opts (demo 100)"
    "file_end s \<le> off + length bs + 8191"
    using advances_quiet [of "fd (demo 100)" "fd s"] b(2) by (auto simp: write_outcome_def kv_write_def)
  moreover have "demand s \<le> off + length bs + 12387" using demand_bound [OF s(1)] s(2,4,5) by (simp add: opts_default_def)
  ultimately show ?thesis using w(1) by blast
qed

text \<open>A store with five bytes under one key.\<close>

lemma demo_written:
  "\<exists>s. store_inv s \<and> store_abs s = Map.empty(''k'' \<mapsto> ([0, 0, 1, 2, 3], [])) \<and> quiet (fd s)
     \<and> opts s = opts (demo 100) \<and> file_end s \<le> 8196 \<and> demand s \<le> 12392"
proof -
  have "patch [] 2 [1, 2, 3] = [0, 0, 1, 2, 3 :: byte]"
    by (simp add: patch_def grown_def blit_def zeros_def numeral_eq_Suc)
  then show ?thesis using demo_write [of 2 "[1, 2, 3]"] by auto
qed

subsection \<open>Properties\<close>

text \<open>C16. A write does what the documentation says, whatever fails. On a well-formed store it returns; if
  it reports success the record holds the new bytes at the offset, zeros in a gap before it and its
  old bytes elsewhere, and no other key changes. If it fails, other keys are untouched and the
  record differs at most inside the range written (or has grown with zeros). A write that would
  change the layout of a shared store is refused and changes nothing. When no system call or
  allocation fails and there is room, the write succeeds.\<close>

theorem write_updates:
  assumes "store_inv s" "ls_key_ok (Some k)" "off + length bs < u64_mod" "fits s (off + length bs)"
  shows "\<exists>s' rc. ls_write s (Some k) off (length bs) (Some bs) = Some (s', rc) \<and> store_inv s'
     \<and> (if kv_frozen (opts s) (store_abs s) k (off + length bs)
        then rc = LS_ERR_MODE \<and> store_abs s' = store_abs s
        else (rc = LS_OK \<longrightarrow> store_abs s' = kv_write (store_abs s) k off bs)
          \<and> (rc \<noteq> LS_OK \<longrightarrow> write_fails (store_abs s) k off (length bs) (store_abs s'))
          \<and> (calm s (off + length bs) \<longrightarrow> rc = LS_OK))"
  using ls_write_spec [OF assms] by (auto simp: write_outcome_def split: if_splits)

theorem write_updates_witness:
  "\<exists>s'. ls_write (demo 100) (Some ''k'') 2 3 (Some [1, 2, 3]) = Some (s', LS_OK)
     \<and> store_abs s' = Map.empty(''k'' \<mapsto> ([0, 0, 1, 2, 3], []))"
proof -
  have c: "fits (demo 100) (2 + length [1, 2, 3 :: byte])" "calm (demo 100) (2 + length [1, 2, 3 :: byte])"
    by (rule demo_room; simp)+
  have l: "2 + length [1, 2, 3 :: byte] < u64_mod" by (simp add: u64_mod_def)
  have "kv_write Map.empty ''k'' 2 [1, 2, 3] = Map.empty(''k'' \<mapsto> ([0, 0, 1, 2, 3], []))"
    by (simp add: kv_write_def patch_def grown_def blit_def zeros_def numeral_eq_Suc)
  then show ?thesis
    using write_updates [OF demo_inv [OF off_max_big(1)] key_k(1) l c(1)] c(2) off_max_big(1)
    by (auto simp: numeral_3_eq_3 split: if_splits)
qed

text \<open>C17. A read is exact. It never changes the contents. It answers \<open>LS_ERR_NOKEY\<close> for a missing key and
  \<open>LS_ERR_RANGE\<close> for a range that ends past the record (or past \<open>2 ^ 64\<close>), and no other bytes than the
  record's own when it succeeds; it succeeds when no system call fails.\<close>

theorem read_exact:
  assumes "store_inv s" "ls_key_ok (Some k)" "off < u64_mod" "n < u64_mod"
  shows "\<exists>s' rc out. ls_read s (Some k) off n True = Some (s', rc, out) \<and> store_inv s' \<and> store_abs s' = store_abs s
     \<and> (case store_abs s k of
          None \<Rightarrow> rc = (if u64_mod \<le> off + n then LS_ERR_RANGE else LS_ERR_NOKEY)
        | Some (c, a) \<Rightarrow> if length c < off + n then rc = LS_ERR_RANGE
            else (rc = LS_OK \<longrightarrow> out = part c off n) \<and> (quiet (fd s) \<and> file_end s + 4096 \<le> off_max \<longrightarrow> rc = LS_OK))"
  using ls_read_spec [OF assms] by blast

theorem read_exact_witness:
  "\<exists>s s' out. ls_read s (Some ''k'') 1 3 True = Some (s', LS_OK, [0, 1, 2])"
proof -
  obtain s where s: "store_inv s" "store_abs s = Map.empty(''k'' \<mapsto> ([0, 0, 1, 2, 3], []))" "quiet (fd s)" "file_end s \<le> 8196"
    using demo_written by blast
  have "part [0, 0, 1, 2, 3 :: byte] 1 3 = [0, 1, 2]" by (simp add: Prelude.part_def numeral_eq_Suc)
  moreover have "file_end s + 4096 \<le> off_max" using s(4) by (simp add: off_max_def)
  ultimately show ?thesis using read_exact [OF s(1) key_k(1), of 1 3] s(2,3) by (auto simp: u64_mod_def)
qed

text \<open>C18. What was written is what is read. After a successful write, a successful read of the range gives
  back the bytes, whichever tier the record is in and whatever was evicted in between.\<close>

theorem read_your_writes:
  assumes "store_inv s" "ls_key_ok (Some k)" "off + length bs < u64_mod" "fits s (off + length bs)"
    "ls_write s (Some k) off (length bs) (Some bs) = Some (s1, LS_OK)"
    "ls_read s1 (Some k) off (length bs) True = Some (s2, LS_OK, out)"
  shows "out = bs"
  by (rule kvs.read_own_write [OF assms(1)]) (use assms in \<open>auto simp: st_wrote_def st_got_def\<close>)

theorem read_your_writes_witness:
  "\<exists>s s1 s2. ls_write s (Some ''k'') 4 2 (Some [7, 8]) = Some (s1, LS_OK)
     \<and> ls_read s1 (Some ''k'') 4 2 True = Some (s2, LS_OK, [7, 8])"
proof -
  let ?bs = "[7, 8 :: byte]"
  have l: "4 + length ?bs < u64_mod" and c: "fits (demo 100) (4 + length ?bs)" by (simp add: u64_mod_def) (rule demo_room; simp)
  obtain s1 where w: "ls_write (demo 100) (Some ''k'') 4 (length ?bs) (Some ?bs) = Some (s1, LS_OK)" "store_inv s1"
    "store_abs s1 = Map.empty(''k'' \<mapsto> (patch [] 4 ?bs, []))" "quiet (fd s1)" "file_end s1 \<le> 4 + length ?bs + 8191"
    using demo_write [of 4 ?bs] by auto
  obtain s2 out where r: "ls_read s1 (Some ''k'') 4 (length ?bs) True = Some (s2, LS_OK, out)"
    using ls_read_spec [OF w(2) key_k(1), of 4 "length ?bs"] w(3-5) by (auto simp: u64_mod_def off_max_def)
  have "out = ?bs" by (rule read_your_writes [OF demo_inv [OF off_max_big(1)] key_k(1) l c w(1) r])
  then show ?thesis using w(1) r by (auto simp: numeral_2_eq_2)
qed

text \<open>A gap reads as zeros. If a write starts past the end of its record, the bytes between the old end
  and the write are zero, also where the record's extents reuse file space that held other data.\<close>

theorem gap_reads_zero:
  assumes "store_inv s" "ls_key_ok (Some k)" "off + length bs < u64_mod" "fits s (off + length bs)"
    "ls_write s (Some k) off (length bs) (Some bs) = Some (s1, LS_OK)"
    "length (fst (kv_get (store_abs s) k)) \<le> o'" "o' + n \<le> off"
    "ls_read s1 (Some k) o' n True = Some (s2, LS_OK, out)"
  shows "out = zeros n"
  by (rule kvs.read_gap [OF assms(1) _ assms(6,7)]) (use assms in \<open>auto simp: st_wrote_def st_got_def\<close>)

theorem gap_reads_zero_witness:
  "\<exists>s1 s2. ls_write (demo 100) (Some ''k'') 4 2 (Some [7, 8]) = Some (s1, LS_OK)
     \<and> ls_read s1 (Some ''k'') 1 3 True = Some (s2, LS_OK, [0, 0, 0])"
proof -
  let ?bs = "[7, 8 :: byte]"
  have l: "4 + length ?bs < u64_mod" and c: "fits (demo 100) (4 + length ?bs)" by (simp add: u64_mod_def) (rule demo_room; simp)
  obtain s1 where w: "ls_write (demo 100) (Some ''k'') 4 (length ?bs) (Some ?bs) = Some (s1, LS_OK)" "store_inv s1"
    "store_abs s1 = Map.empty(''k'' \<mapsto> (patch [] 4 ?bs, []))" "quiet (fd s1)" "file_end s1 \<le> 4 + length ?bs + 8191"
    using demo_write [of 4 ?bs] by auto
  obtain s2 out where r: "ls_read s1 (Some ''k'') 1 3 True = Some (s2, LS_OK, out)"
    using ls_read_spec [OF w(2) key_k(1), of 1 3] w(3-5) by (auto simp: u64_mod_def off_max_def)
  have "out = zeros 3"
    by (rule gap_reads_zero [OF demo_inv [OF off_max_big(1)] key_k(1) l c w(1) _ _ r]) (simp_all add: off_max_big(1))
  then show ?thesis using w(1) r by (auto simp: zeros_def numeral_eq_Suc)
qed

end
