(* ===== verification/Calls.thy ===== *)
theory Calls
  imports Contract
begin

text \<open>
  Properties of the remaining data-path calls: appending, erasing, reserving, attributes, key
  listing, vectored transfers and accumulation; and the one guarantee of the interface that does
  not survive concurrency, the validity of a snapshot while another thread appends.
\<close>

subsection \<open>Properties\<close>

text \<open>C20. An append extends its record and tells where. It returns; on success the new bytes follow the
  old ones, the offset reported is the old length, and no other key changes; on failure no offset
  is reported and the old bytes are all still there.\<close>

theorem append_extends:
  assumes "store_inv s" "ls_key_ok (Some k)" "parallel (opts s) \<noteq> LS_SHARED" "kv_get (store_abs s) k = (c, a)"
    "length c + length bs < u64_mod" "fits s (length c + length bs)"
  shows "\<exists>s' rc. ls_append s (Some k) (length bs) (Some bs) = Some (s', rc, if rc = LS_OK then Some (length c) else None)
     \<and> store_inv s' \<and> (\<forall>k'. k' \<noteq> k \<longrightarrow> store_abs s' k' = store_abs s k')
     \<and> (rc = LS_OK \<longrightarrow> store_abs s' k = Some (c @ bs, a))
     \<and> (rc \<noteq> LS_OK \<longrightarrow> take (length c) (fst (kv_get (store_abs s') k)) = c)
     \<and> (calm s (length c + length bs) \<longrightarrow> rc = LS_OK)"
proof -
  obtain s' rc where ap: "ls_append s (Some k) (length bs) (Some bs) = Some (s', rc, if rc = LS_OK then Some (length c) else None)"
    "write_outcome s k (length c) bs s' rc"
    using ls_append_spec [OF assms(1-3) _ assms(5,6)] assms(4) by auto
  let ?m = "store_abs s" and ?m' = "store_abs s'"
  have "take (length c) (fst (kv_get ?m' k)) = c" if "rc \<noteq> LS_OK"
  proof -
    have "write_fails ?m k (length c) (length bs) ?m'" using ap(2) that by (simp add: write_outcome_def)
    then consider "?m' = ?m \<or> ?m' = ?m(k \<mapsto> kv_get ?m k)"
      | c' where "?m' = ?m(k \<mapsto> (c', snd (kv_get ?m k)))" "patched_somehow (grown c (length c + length bs)) (length c) (length bs) c'"
      using assms(4) by (auto simp: write_fails_def)
    then show ?thesis
    proof cases
      case 1
      then have "kv_get ?m' k = (c, a)" using assms(4) by (auto simp: kv_get_def split: option.splits)
      then show ?thesis by simp
    next
      case (2 c')
      have "take (length c) c' = c"
        using 2(2) by (intro nth_equalityI) (auto simp: patched_somehow_def grown_def nth_append)
      then show ?thesis using 2(1) by simp
    qed
  qed
  moreover have "\<forall>k'. k' \<noteq> k \<longrightarrow> ?m' k' = ?m k'"
    using ap(2) by (cases "rc = LS_OK") (auto simp: write_outcome_def kv_write_def write_fails_def)
  moreover have "rc = LS_OK \<longrightarrow> ?m' k = Some (c @ bs, a)"
    using ap(2) assms(4) by (auto simp: write_outcome_def kv_write_def)
  moreover have "store_inv s'" "calm s (length c + length bs) \<longrightarrow> rc = LS_OK"
    using ap(2) by (auto simp: write_outcome_def)
  ultimately show ?thesis using ap(1) by blast
qed

theorem append_extends_witness:
  "\<exists>s'. ls_append (demo 100) (Some ''k'') 2 (Some [4, 5]) = Some (s', LS_OK, Some 0) \<and> store_abs s' ''k'' = Some ([4, 5], [])"
proof -
  let ?bs = "[4, 5 :: byte]"
  have c: "fits (demo 100) (0 + length ?bs)" "calm (demo 100) (0 + length ?bs)" by (rule demo_room; simp)+
  have "length [] + length ?bs < u64_mod" "kv_get (store_abs (demo 100)) ''k'' = ([], [])" "parallel (opts (demo 100)) \<noteq> LS_SHARED"
    using off_max_big by (simp_all add: opts_default_def)
  from append_extends [OF demo_inv [OF off_max_big(1)] key_k(1) this(3,2,1)] c
  show ?thesis by (auto simp: numeral_2_eq_2)
qed

text \<open>C21. Erasing removes the key and gives its space back. The call finds the key or says so; afterwards
  the key is gone, every other record is as before, the store is well-formed, and unless the
  allocator ran out of memory the file positions of the record's extents are free again.\<close>

theorem erase_releases:
  assumes "store_inv s" "ls_key_ok (Some k)" "ls_erase s (Some k) = (s', rc)"
  shows "store_inv s'
     \<and> rc = (if parallel (opts s) = LS_SHARED then LS_ERR_MODE else if store_abs s k = None then LS_ERR_NOKEY else LS_OK)
     \<and> store_abs s' = (if rc = LS_OK then (store_abs s)(k := None) else store_abs s)
     \<and> (\<forall>r. rc = LS_OK \<and> ls_toc_find s k = Some r \<and> oom (fd s) = [] \<longrightarrow> free_set s' = free_set s \<union> used s r)"
proof -
  have "\<forall>r. rc = LS_OK \<and> ls_toc_find s k = Some r \<and> oom (fd s) = [] \<longrightarrow> free_set s' = free_set s \<union> used s r"
  proof (intro allI impI)
    fix r assume a: "rc = LS_OK \<and> ls_toc_find s k = Some r \<and> oom (fd s) = []"
    obtain x where x: "recs s r = Some x" using a found [OF assms(1)] by blast
    have "s' = ls_rec_free (ls_lru_drop (ls_toc_unlink s r) r) r"
      using assms(2,3) a by (auto simp: ls_erase_def split: if_splits)
    then show "free_set s' = free_set s \<union> used s r" using erase_step(7) [OF assms(1) x] a by blast
  qed
  then show ?thesis using ls_erase_spec [OF assms] by blast
qed

theorem erase_releases_witness:
  "store_abs (fst (ls_erase (demo_rec 100) (Some ''k''))) = Map.empty \<and> snd (ls_erase (demo_rec 100) (Some ''k'')) = LS_OK"
proof -
  note d = demo_rec [OF off_max_big(1)]
  obtain s' rc where e: "ls_erase (demo_rec 100) (Some ''k'') = (s', rc)" by fastforce
  note er = erase_releases [OF d(1) key_k(1) e]
  have f: "ls_toc_find (demo_rec 100) ''k'' = Some 0"
    using toc_find_iff [OF store_invD(1) [OF d(1)]] d(3) by (auto simp: rkey_def)
  have "store_abs (demo_rec 100) ''k'' \<noteq> None" using f store_abs_dom [OF d(1)] by simp
  moreover have "parallel (opts (demo_rec 100)) \<noteq> LS_SHARED" using d(6) by (simp add: opts_default_def)
  moreover have "(store_abs (demo_rec 100))(''k'' := None) = Map.empty"
  proof -
    have "find_or_insert (demo 100) ''k'' = (demo_rec 100, snd (find_or_insert (demo 100) ''k''))" by (simp add: demo_rec_def)
    note fi = find_or_insert_spec [OF demo_inv [OF off_max_big(1)] this]
    show ?thesis using fi(6,7) off_max_big(1) by (cases "snd (find_or_insert (demo 100) ''k'')") auto
  qed
  ultimately show ?thesis using e er by simp
qed

text \<open>Reserving grows with zeros and never shrinks. On success the record is at least \<open>n\<close> bytes long,
  starts with its old bytes and continues with zeros; a failed call leaves the contents alone
  (at most the key now exists).\<close>

theorem reserve_grows:
  assumes "store_inv s" "ls_key_ok (Some k)" "n < u64_mod" "fits s n" "parallel (opts s) \<noteq> LS_SHARED"
  shows "\<exists>s' rc. ls_reserve s (Some k) n = Some (s', rc) \<and> store_inv s'
     \<and> (rc = LS_OK \<longrightarrow> store_abs s' = kv_reserve (store_abs s) k n)
     \<and> (rc \<noteq> LS_OK \<longrightarrow> store_abs s' = store_abs s \<or> store_abs s' = kv_reserve (store_abs s) k 0)
     \<and> (calm s n \<longrightarrow> rc = LS_OK)"
  using ls_reserve_spec [OF assms] by blast

theorem reserve_grows_witness:
  "\<exists>s'. ls_reserve (demo 100) (Some ''k'') 3 = Some (s', LS_OK) \<and> store_abs s' = Map.empty(''k'' \<mapsto> ([0, 0, 0], []))"
proof -
  have "fits (demo 100) 3" "calm (demo 100) 3" by (rule demo_room; simp)+
  moreover have "kv_reserve Map.empty ''k'' 3 = Map.empty(''k'' \<mapsto> ([0, 0, 0], []))"
    by (simp add: kv_reserve_def grown_def zeros_def numeral_eq_Suc)
  ultimately show ?thesis
    using reserve_grows [OF demo_inv [OF off_max_big(1)] key_k(1), of 3] off_max_big(1)
    by (auto simp: opts_default_def u64_mod_def)
qed

text \<open>C23. Attributes come back as stored. After \<open>ls_set_attr\<close> succeeds, \<open>ls_get_attr\<close> reports the length,
  delivers exactly the bytes when the caller's buffer is large enough, and otherwise delivers
  nothing and says how much is needed; the record's data and the other keys are unchanged.\<close>

theorem attr_roundtrip:
  assumes "store_inv s" "ls_key_ok (Some k)" "length b \<le> LS_ATTR_MAX" "parallel (opts s) \<noteq> LS_SHARED"
    "ls_set_attr s (Some k) (Some b) (length b) = (s', LS_OK)"
  shows "store_inv s' \<and> ls_get_attr s' (Some k) True (Some n) =
       (if n < length b then (LS_ERR_RANGE, Some (length b), []) else (LS_OK, Some (length b), b))
     \<and> ls_get_attr s' (Some k) False (Some n) = (LS_OK, Some (length b), [])
     \<and> fst (kv_get (store_abs s') k) = fst (kv_get (store_abs s) k)
     \<and> (\<forall>k'. k' \<noteq> k \<longrightarrow> store_abs s' k' = store_abs s k')"
proof -
  have a: "store_inv s'" "store_abs s' = (store_abs s)(k \<mapsto> (fst (kv_get (store_abs s) k), b))"
    using ls_set_attr_spec [OF assms] by simp_all
  then show ?thesis using ls_get_attr_spec [OF a(1) assms(2)] by simp
qed

theorem attr_roundtrip_witness:
  "\<exists>s'. ls_set_attr (demo 100) (Some ''k'') (Some [9, 8]) 2 = (s', LS_OK)
     \<and> ls_get_attr s' (Some ''k'') True (Some 256) = (LS_OK, Some 2, [9, 8])"
proof -
  let ?b = "[9, 8 :: byte]"
  obtain s' rc where e: "ls_set_attr (demo 100) (Some ''k'') (Some ?b) (length ?b) = (s', rc)" by fastforce
  have p: "length ?b \<le> LS_ATTR_MAX" "parallel (opts (demo 100)) \<noteq> LS_SHARED" by (simp_all add: opts_default_def)
  have "rc = LS_OK"
    using ls_set_attr_spec [OF demo_inv [OF off_max_big(1)] key_k(1) p e] by (simp add: off_max_def)
  then show ?thesis
    using e attr_roundtrip [OF demo_inv [OF off_max_big(1)] key_k(1) p, of s' 256] by (auto simp: numeral_2_eq_2)
qed

text \<open>The key listing is complete and has no repetitions: on success \<open>ls_keys\<close> returns every key
  exactly once, as many as \<open>nrec\<close> counts, and an allocation failure returns no list at all.\<close>

theorem keys_complete:
  assumes "store_inv s" "ls_keys s True = (s', rc, ks)"
  shows "store_inv s' \<and> store_abs s' = store_abs s
     \<and> (rc = LS_OK \<longrightarrow> set ks = dom (store_abs s) \<and> distinct ks \<and> length ks = nrec s)
     \<and> (rc \<noteq> LS_OK \<longrightarrow> ks = []) \<and> (quiet (fd s) \<longrightarrow> rc = LS_OK)"
  using ls_keys_spec [OF assms] by blast

theorem keys_complete_witness:
  "\<exists>s s' ks. ls_keys s True = (s', LS_OK, ks) \<and> set ks = {''k''} \<and> length ks = 1"
proof -
  obtain s where s: "store_inv s" "store_abs s = Map.empty(''k'' \<mapsto> ([0, 0, 1, 2, 3], []))" "quiet (fd s)"
    using demo_written by blast
  obtain s' rc ks where e: "ls_keys s True = (s', rc, ks)" by (metis prod_cases3)
  have "rc = LS_OK" "set ks = {''k''}" "distinct ks" using keys_complete [OF s(1) e] s(2,3) by auto
  moreover from this have "length ks = 1" by (metis card_1_singleton_iff distinct_card One_nat_def)
  ultimately show ?thesis using e by auto
qed

text \<open>C25. A vectored write equals the writes it lists, one after the other: \<open>ls_writev\<close> looks the key up once,
  sizes the record once and transfers through one snapshot, and on success the store is the one
  that single writes of the segments would give, overlaps included.\<close>

theorem writev_is_writes:
  assumes "store_inv s" "ls_key_ok (Some k)" "gs \<noteq> []" "\<forall>g\<in>set gs. seg_ok g" "fits s (seg_top gs)"
  shows "\<exists>s' rc outs. ls_writev s (Some k) (Some gs) (length gs) = Some (s', rc, outs) \<and> store_inv s'
     \<and> (\<forall>k'. k' \<noteq> k \<longrightarrow> store_abs s' k' = store_abs s k')
     \<and> (if kv_frozen (opts s) (store_abs s) k (seg_top gs) then rc = LS_ERR_MODE \<and> store_abs s' = store_abs s
        else (rc = LS_OK \<longrightarrow> store_abs s' = foldl (\<lambda>m g. kv_write m k (soff g) (seg_bytes g)) (store_abs s) gs)
          \<and> (calm s (seg_top gs) \<longrightarrow> rc = LS_OK))"
  using ls_writev_spec [OF assms] by (auto simp: kv_writes_def split: if_splits)

theorem writev_is_writes_witness:
  "\<exists>s' outs. ls_writev (demo 100) (Some ''k'')
       (Some [\<lparr>soff = 2, slen = 2, sbuf = Some [1, 2]\<rparr>, \<lparr>soff = 0, slen = 3, sbuf = Some [3, 4, 5]\<rparr>]) 2 = Some (s', LS_OK, outs)
     \<and> store_abs s' ''k'' = Some ([3, 4, 5, 2], [])"
proof -
  let ?gs = "[\<lparr>soff = 2, slen = 2, sbuf = Some [1, 2 :: byte]\<rparr>, \<lparr>soff = 0, slen = 3, sbuf = Some [3, 4, 5]\<rparr>]"
  have g: "\<forall>g\<in>set ?gs. seg_ok g" "seg_top ?gs = 4" by (simp_all add: seg_ok_def seg_bytes_def u64_mod_def)
  have c: "fits (demo 100) (seg_top ?gs)" "calm (demo 100) (seg_top ?gs)" unfolding g(2) by (rule demo_room; simp)+
  have "kv_write (kv_write Map.empty ''k'' 2 [1, 2]) ''k'' 0 [3, 4, 5] ''k'' = Some ([3, 4, 5, 2 :: byte], [])"
    by (simp add: kv_write_def patch_def grown_def blit_def zeros_def numeral_eq_Suc)
  then show ?thesis
    using writev_is_writes [OF demo_inv [OF off_max_big(1)] key_k(1) _ g(1) c(1)] c(2) off_max_big(1)
    by (auto simp: seg_bytes_def numeral_2_eq_2)
qed

text \<open>C26. Accumulation does not depend on the tier. For a reduction that works element by element, such as
  \<open>ls_add_f64\<close>, a successful \<open>ls_accumulate\<close> leaves the reduction of the range with the caller's
  bytes (a range past the end counting as zeros), whether the record was reduced in place in
  memory or in chunks through the file; nothing else changes.\<close>

theorem accumulate_reduces:
  assumes "store_inv s" "ls_key_ok (Some k)" "off + length bs < u64_mod" "fits s (off + length bs)"
    "mode (opts s) = LS_EXPLICIT" "bs \<noteq> []" "\<forall>d b. length (add d b) = length d"
  shows "\<exists>s' rc. ls_accumulate s (Some k) off (length bs) (Some bs) (Some (ls_add_f64 add)) = Some (s', rc) \<and> store_inv s'
     \<and> (\<forall>k'. k' \<noteq> k \<longrightarrow> store_abs s' k' = store_abs s k')
     \<and> (if kv_frozen (opts s) (store_abs s) k (off + length bs) then rc = LS_ERR_MODE \<and> store_abs s' = store_abs s
        else (rc = LS_OK \<longrightarrow> store_abs s' = kv_accumulate (store_abs s) k off (ls_add_f64 add) bs)
          \<and> (calm s (off + length bs) \<longrightarrow> rc = LS_OK))"
  using ls_accumulate_spec [OF assms(1-4) ls_add_elementwise(1) [OF assms(7)] assms(5,6)] by blast

definition byte_add :: ls_reduce where
  "byte_add d b = map2 (+) d (take (length d) (b @ zeros (length d)))"

theorem accumulate_reduces_witness:
  "\<exists>s'. ls_accumulate (demo 100) (Some ''k'') 0 8 (Some [1, 2, 3, 4, 5, 6, 7, 8]) (Some (ls_add_f64 byte_add)) = Some (s', LS_OK)
     \<and> store_abs s' ''k'' = Some ([1, 2, 3, 4, 5, 6, 7, 8], [])"
proof -
  let ?bs = "[1, 2, 3, 4, 5, 6, 7, 8 :: byte]"
  have c: "fits (demo 100) (0 + length ?bs)" "calm (demo 100) (0 + length ?bs)" by (rule demo_room; simp)+
  have p: "0 + length ?bs < u64_mod" "mode (opts (demo 100)) = LS_EXPLICIT" "?bs \<noteq> []"
    by (simp_all add: opts_default_def u64_mod_def)
  have l: "\<forall>d b. length (byte_add d b) = length d" by (simp add: byte_add_def)
  have "reduced (ls_add_f64 byte_add) (grown [] 8) 0 ?bs = ?bs" by code_simp
  then have "kv_accumulate Map.empty ''k'' 0 (ls_add_f64 byte_add) ?bs ''k'' = Some (?bs, [])"
    by (simp add: kv_accumulate_def eval_nat_numeral)
  moreover have "length ?bs = 8" by simp
  ultimately show ?thesis
    using accumulate_reduces [OF demo_inv [OF off_max_big(1)] key_k(1) p(1) c(1) p(2,3) l] c(2) off_max_big(1)
    by (auto simp: eval_nat_numeral split: if_splits)
qed

subsection \<open>Snapshots and concurrent growth\<close>

text \<open>Growing a resident record that has no file space: the buffer moves to a new address.\<close>

lemma ensure_cap_moves:
  assumes inv: "store_inv s" and r: "recs s r = Some x" "mem x = Some b" "ncap x = 0"
    and n: "mem_cap x < need" "resident s - mem_cap x + need \<le> memory_budget (opts s)" and q: "quiet (fd s)"
  shows "\<exists>s2. ensure_cap s r need = Some (grow_buffer s2 r x need, LS_OK) \<and> s2 = s\<lparr>fd := fd s2\<rparr>"
proof -
  note t = tierD [OF store_invD(4) [OF inv]]
  have "r \<in> res_set s" using r by (simp add: res_set_def)
  then have "rcap s r \<le> (\<Sum>r\<in>res_set s. rcap s r)" using finite_res_set [OF inv] by (intro member_le_sum) auto
  then have le: "mem_cap x \<le> resident s" using store_invD(4) [OF inv] r(1) by (simp add: tier_ok_def)
  have "resident s < u64_mod" "resident s - mem_cap x + need < u64_mod" using t n(2) off_max_double by linarith+
  then have w: "add64 (sub64 (resident s) (mem_cap x)) need = resident s - mem_cap x + need"
    using le by (simp add: wrap_simps)
  obtain ok s2 where m: "st_malloc s = (ok, s2)" by fastforce
  have p: "s2 = s\<lparr>fd := fd s2\<rparr>" "ok" using st_malloc_props [OF m] q by (auto simp: quiet_def)
  have "recs s2 r = Some x" by (subst p(1)) (simp add: r(1))
  then show ?thesis using r n w m p by (intro exI [of _ s2]) (auto simp: ensure_cap_def Let_def)
qed

text \<open>C27. A snapshot does not survive another thread's append. Take a resident record whose buffer is full,
  as it always is after the write that made it, and a transfer that has taken its snapshot and not
  yet copied. If another thread now appends to the same key, its call succeeds and moves the
  buffer; every access through the older snapshot then follows a freed pointer (the model's undefined
  outcome), in spite of the pin the transfer holds. The interface documents concurrent appends
  to one key as safe.\<close>

theorem append_invalidates_snapshot:
  assumes inv: "store_inv s" and k: "ls_key_ok (Some k)" "ls_toc_find s k = Some r" and x: "recs s r = Some x" "mem x = Some b" "ncap x = 0"
    "rsize x = mem_cap x" and a: "baddr b < fresh s" and bs: "bs \<noteq> []" "resident s + length bs \<le> memory_budget (opts s)"
    and q: "quiet (fd s)" "parallel (opts s) \<noteq> LS_SHARED"
  shows "\<exists>s'. ls_append s (Some k) (length bs) (Some bs) = Some (s', LS_OK, Some (rsize x))
     \<and> (\<forall>off n buf op. 0 < n \<longrightarrow> ls_scatter s' (ls_place_of r x) off n buf op = None)"
proof -
  let ?n = "rsize x + length bs"
  have "r \<in> res_set s" using x by (simp add: res_set_def)
  then have "rcap s r \<le> (\<Sum>r\<in>res_set s. rcap s r)" using finite_res_set [OF inv] by (intro member_le_sum) auto
  then have le: "mem_cap x \<le> resident s" using store_invD(4) [OF inv] x(1) by (simp add: tier_ok_def)
  have need: "mem_cap x < ?n" "resident s - mem_cap x + ?n \<le> memory_budget (opts s)" using x(4) bs le by auto
  have nw: "?n < u64_mod" using need(2) tierD(2) [OF store_invD(4) [OF inv]] off_max_less by linarith
  obtain s2 where e: "ensure_cap s r ?n = Some (grow_buffer s2 r x ?n, LS_OK)" "s2 = s\<lparr>fd := fd s2\<rparr>"
    using ensure_cap_moves [OF inv x(1,2,3) need q(1)] by blast
  have r2: "recs s2 r = Some x" "fresh s2 = fresh s" by (subst e(2), simp add: x)+
  define b1 where "b1 = \<lparr>baddr = fresh s, bdata = take ?n (bdata b) @ zeros (?n - length (bdata b))\<rparr>"
  define x1 where "x1 = x\<lparr>mem := Some b1, mem_cap := ?n\<rparr>"
  have rg: "recs (grow_buffer s2 r x ?n) r = Some x1"
    using r2 x(2) by (simp add: grow_buffer_def Let_def ls_lru_touch_def recs_upd_rec x1_def b1_def)
  let ?u = "upd_rec (grow_buffer s2 r x ?n) r (\<lambda>x. x\<lparr>rsize := ?n\<rparr>)"
  have ru: "recs ?u r = Some (x1\<lparr>rsize := ?n\<rparr>)" using rg by (simp add: recs_upd_rec)
  define s3 where "s3 = upd_rec (ls_lru_touch ?u r) r (\<lambda>x. x\<lparr>busy := busy x + 1\<rparr>)"
  have pn: "pin ?u r = Some (s3, ls_place_of r (x1\<lparr>rsize := ?n\<rparr>))"
    using ru by (simp add: pin_def Let_def s3_def x1_def)
  define x3 where "x3 = x1\<lparr>rsize := ?n, busy := busy x + 1\<rparr>"
  have r3: "recs s3 r = Some x3"
    using rg by (simp add: s3_def recs_upd_rec ls_lru_touch_def x1_def x3_def)
  have lb: "length (bdata b) = mem_cap x" using store_invD(7) [OF inv x(1)] x(2) by (simp add: rec_ok_def)
  have l1: "length (bdata b1) = ?n" using lb x(4) by (simp add: b1_def)
  define f where "f = (\<lambda>x. x\<lparr>mem := Some (b1\<lparr>bdata := blit (bdata b1) (rsize x1) (take (length bs) bs)\<rparr>)\<rparr> :: ls_rec)"
  have sc: "ls_scatter s3 (ls_place_of r (x1\<lparr>rsize := ?n\<rparr>)) (rsize x) (length bs) bs LS_OP_WRITE = Some (upd_rec s3 r f, LS_OK, [])"
    using r3 bs(1) l1 by (simp add: ls_scatter_def ls_place_of_def mem_at_def x1_def x3_def f_def)
  have ap: "ls_append s (Some k) (length bs) (Some bs) = Some (unpin (upd_rec s3 r f) r, LS_OK, Some (rsize x))"
    using k x(1) q(2) nw e(1) pn sc by (simp add: ls_append_def find_or_insert_def Let_def)
  have "recs (unpin (upd_rec s3 r f) r) r = Some ((f x3)\<lparr>busy := busy (f x3) - 1\<rparr>)"
    using r3 by (simp add: unpin_def recs_upd_rec)
  then have "mem_at (unpin (upd_rec s3 r f) r) r (baddr b) = None" using a by (simp add: mem_at_def f_def b1_def)
  then have "ls_scatter (unpin (upd_rec s3 r f) r) (ls_place_of r x) off n buf op = None" if "0 < n" for off n buf op
    using that x(2) by (simp add: ls_scatter_def ls_place_of_def)
  then show ?thesis using ap by blast
qed

text \<open>A record of three bytes in memory, as a first append leaves it.\<close>

definition demo_mem :: ls_store where
  "demo_mem = extend (grow_buffer (demo_rec 100) 0 (rec_new ''k'') 3) 0 3"

theorem append_invalidates_snapshot_witness:
  "\<exists>x s'. store_inv demo_mem \<and> recs demo_mem 0 = Some x
     \<and> ls_append demo_mem (Some ''k'') 2 (Some [8, 9]) = Some (s', LS_OK, Some 3)
     \<and> ls_scatter s' (ls_place_of 0 x) 0 3 [1, 2, 3] LS_OP_WRITE = None"
proof -
  note d = demo_rec [OF off_max_big(1)]
  let ?s = "demo_rec 100"
  have z: "resident ?s = 0"
    using store_invD(4) [OF d(1)] find_or_insert_spec(2) d(2) 
    by (auto simp: demo_rec_def find_or_insert_def ls_toc_insert_def toc_alloc_rec_def toc_link_def st_malloc_def os_malloc_def
        os_empty_def demo_def store_init_def Let_def split: option.splits)
  have g: "evolves ?s (grow_buffer ?s 0 (rec_new ''k'') 3)"
    using grow_buffer_spec [OF d(1,3) refl, of 3] z d(6) by (auto simp: rec_new_def opts_default_def)
  have rg: "recs (grow_buffer ?s 0 (rec_new ''k'') 3) 0 =
      Some ((rec_new ''k'')\<lparr>mem := Some \<lparr>baddr = fresh ?s, bdata = zeros 3\<rparr>, mem_cap := 3\<rparr>)"
    using d(3) by (simp add: grow_buffer_def Let_def ls_lru_touch_def recs_upd_rec rec_new_def)
  let ?x = "(rec_new ''k'')\<lparr>mem := Some \<lparr>baddr = fresh ?s, bdata = zeros 3\<rparr>, mem_cap := 3, rsize := 3\<rparr>"
  have inv: "store_inv demo_mem" and rx: "recs demo_mem 0 = Some ?x"
    unfolding demo_mem_def using extend_spec(1,4) [OF evolvesD(1) [OF g] rg, of 3]
    by (simp_all add: cap_of_def u64_mod_def rec_new_def)
  have sel: "fresh demo_mem = fresh ?s + 1" "resident demo_mem = 3" "opts demo_mem = opts (demo 100)" "quiet (fd demo_mem)"
    using z d(5,6) by (simp_all add: demo_mem_def extend_def grow_buffer_def Let_def ls_lru_touch_def rec_new_def wrap_simps u64_mod_def)
  have "ls_toc_find demo_mem ''k'' = Some 0"
    using toc_find_iff [OF store_invD(1) [OF inv]] rx by (auto simp: rkey_def rec_new_def)
  from append_invalidates_snapshot [OF inv key_k(1) this rx, of _ "[8, 9]"] sel
  obtain s' where "ls_append demo_mem (Some ''k'') 2 (Some [8, 9]) = Some (s', LS_OK, Some 3)"
    "\<forall>off n buf op. 0 < n \<longrightarrow> ls_scatter s' (ls_place_of 0 ?x) off n buf op = None"
    by (auto simp: rec_new_def opts_default_def numeral_2_eq_2)
  then show ?thesis using inv rx by auto
qed

end
