(* ===== verification/Mapped.thy ===== *)
theory Mapped
  imports Calls
begin

text \<open>
  Mapped stores: \<open>ls_map\<close> and \<open>ls_unmap\<close> of \<open>src/store.c\<close> with \<open>ls_os_map_extents\<close> and \<open>ls_os_unmap\<close> of
  \<open>src/os_posix.c\<close>. The process's address space is a partial map from addresses to file positions; a
  byte of a mapping is the byte of the file it stands for. The properties show that the pointer a
  caller gets shows the record's bytes in order and that storing through it is a write, and what
  goes wrong when a mapped record grows.
\<close>

subsection \<open>The address space\<close>

record vm =
  pages :: "nat \<Rightarrow> nat option"
  brk :: nat

text \<open>\<open>mmap\<close> of a fresh anonymous range, and \<open>mmap\<close> of a file range over part of it (\<open>MAP_FIXED\<close>). The kernel
  wants a length that is not zero, and file offsets in whole pages.\<close>

definition mmap_reserve :: "os \<Rightarrow> vm \<Rightarrow> nat \<Rightarrow> os \<times> vm \<times> (errno + nat)" where
  "mmap_reserve w v tot =
     (case next_sys w of (r, w') \<Rightarrow>
        if tot = 0 then (w', v, Inl EINVAL)
        else (case r of Sys_err e \<Rightarrow> (w', v, Inl e) | _ \<Rightarrow> (w', v\<lparr>brk := brk v + tot\<rparr>, Inr (brk v))))"

definition mmap_fixed :: "os \<Rightarrow> vm \<Rightarrow> nat \<Rightarrow> nat \<Rightarrow> nat \<Rightarrow> os \<times> vm \<times> (errno + unit)" where
  "mmap_fixed w v at n off =
     (case next_sys w of (r, w') \<Rightarrow>
        if n = 0 \<or> off mod 4096 \<noteq> 0 \<or> off_max \<le> off + n then (w', v, Inl EINVAL)
        else (case r of
            Sys_err e \<Rightarrow> (w', v, Inl e)
          | _ \<Rightarrow> (w', v\<lparr>pages := (\<lambda>a. if at \<le> a \<and> a < at + n then Some (off + (a - at)) else pages v a)\<rparr>, Inr ())))"

definition munmap :: "os \<Rightarrow> vm \<Rightarrow> nat \<Rightarrow> nat \<Rightarrow> os \<times> vm \<times> (errno + unit)" where
  "munmap w v a n =
     (case next_sys w of (r, w') \<Rightarrow>
        (case r of
            Sys_err e \<Rightarrow> (w', v, Inl e)
          | _ \<Rightarrow> (w', v\<lparr>pages := (\<lambda>b. if a \<le> b \<and> b < a + n then None else pages v b)\<rparr>, Inr ())))"

text \<open>The loop of \<open>ls_os_map_extents\<close>: \<open>at\<close> is the address of the next slice.\<close>

fun map_loop :: "os \<Rightarrow> vm \<Rightarrow> nat \<Rightarrow> ls_extent list \<Rightarrow> os \<times> vm \<times> int" where
  "map_loop w v at [] = (w, v, 0)"
| "map_loop w v at (e # es) =
     (case mmap_fixed w v at (elen e) (foff e) of
        (w1, v1, Inl err) \<Rightarrow> (w1, v1, neg_errno err)
      | (w1, v1, Inr _) \<Rightarrow> map_loop w1 v1 (at + elen e) es)"

definition ls_os_map_extents :: "os \<Rightarrow> vm \<Rightarrow> ls_extent list \<Rightarrow> nat \<Rightarrow> os \<times> vm \<times> (int + nat)" where
  "ls_os_map_extents w v es tot =
     (case mmap_reserve w v tot of
        (w1, v1, Inl err) \<Rightarrow> (w1, v1, Inl (neg_errno err))
      | (w1, v1, Inr base) \<Rightarrow>
          (case map_loop w1 v1 base es of (w2, v2, rc) \<Rightarrow>
             if rc \<noteq> 0 then (case munmap w2 v2 base tot of (w3, v3, _) \<Rightarrow> (w3, v3, Inl rc))
             else (w2, v2, Inr base)))"

definition ls_os_unmap :: "os \<Rightarrow> vm \<Rightarrow> nat \<Rightarrow> nat \<Rightarrow> os \<times> vm \<times> int" where
  "ls_os_unmap w v a n =
     (case munmap w v a n of (w1, v1, Inl e) \<Rightarrow> (w1, v1, neg_errno e) | (w1, v1, Inr _) \<Rightarrow> (w1, v1, 0))"

subsection \<open>The calls\<close>

text \<open>The result carries the return code and, on success, the address and length stored for the caller.\<close>

definition ls_map :: "ls_store \<Rightarrow> vm \<Rightarrow> string option \<Rightarrow> bool \<Rightarrow> ls_store \<times> vm \<times> int \<times> (nat \<times> nat) option" where
  "ls_map s v ko outp =
     (if \<not> ls_key_ok ko \<or> \<not> outp then (s, v, LS_ERR_INVAL, None)
      else if mode (opts s) \<noteq> LS_MAPPED then (s, v, LS_ERR_MODE, None)
      else (case ls_toc_find s (the ko) of
          None \<Rightarrow> (ls_report s LS_ERR_NOKEY ko 0 0 ''map'', v, LS_ERR_NOKEY, None)
        | Some r \<Rightarrow>
            let x = the (recs s r) in
            if rsize x = 0 then (ls_report s LS_ERR_RANGE ko 0 0 ''map'', v, LS_ERR_RANGE, None)
            else (case map_addr x of
                Some a \<Rightarrow> (s, v, LS_OK, Some (a, rsize x))
              | None \<Rightarrow>
                  let tot = sum_list (map elen (ext x)) mod u64_mod;
                      s1 = upd_rec s r (\<lambda>x. x\<lparr>busy := busy x + 1\<rparr>) in
                  (case ls_os_map_extents (fd s1) v (ext x) tot of (w, v1, res) \<Rightarrow>
                     let s2 = upd_rec (s1\<lparr>fd := w\<rparr>) r (\<lambda>x. x\<lparr>busy := busy x - 1\<rparr>) in
                     (case res of
                        Inl rc \<Rightarrow> (ls_report s2 rc ko 0 0 ''map'', v1, rc, None)
                      | Inr base \<Rightarrow>
                          (upd_rec s2 r (\<lambda>x. x\<lparr>map_addr := Some base, map_len := tot\<rparr>), v1, LS_OK, Some (base, rsize x)))))))"

definition ls_unmap :: "ls_store \<Rightarrow> vm \<Rightarrow> string option \<Rightarrow> ls_store \<times> vm \<times> int" where
  "ls_unmap s v ko =
     (if \<not> ls_key_ok ko then (s, v, LS_ERR_INVAL)
      else if mode (opts s) \<noteq> LS_MAPPED then (s, v, LS_ERR_MODE)
      else (case ls_toc_find s (the ko) of
          None \<Rightarrow> (s, v, LS_ERR_NOKEY)
        | Some r \<Rightarrow>
            let x = the (recs s r) in
            (case map_addr x of
               None \<Rightarrow> (s, v, LS_OK)
             | Some a \<Rightarrow>
                 let s1 = upd_rec s r (\<lambda>x. x\<lparr>map_addr := None, map_len := 0\<rparr>) in
                 (case ls_os_unmap (fd s1) v a (map_len x) of (w, v1, rc) \<Rightarrow> (s1\<lparr>fd := w\<rparr>, v1, rc)))))"

text \<open>Loads and stores of the caller through its pointer. \<open>None\<close>: an address with no page behind it, or a
  page wholly past the end of the file (\<open>SIGBUS\<close>). Stores past the end in the last page do not reach the file.\<close>

definition page_of :: "ls_store \<Rightarrow> vm \<Rightarrow> nat \<Rightarrow> nat option" where
  "page_of s v a = (case pages v a of
       None \<Rightarrow> None
     | Some p \<Rightarrow> if p - p mod 4096 < flen (fd s) then Some p else None)"

definition load_at :: "ls_store \<Rightarrow> vm \<Rightarrow> nat \<Rightarrow> byte option" where
  "load_at s v a = map_option (fbytes (fd s)) (page_of s v a)"

definition store_at :: "ls_store \<Rightarrow> vm \<Rightarrow> nat \<Rightarrow> byte \<Rightarrow> ls_store option" where
  "store_at s v a b = map_option
     (\<lambda>p. if p < flen (fd s) then s\<lparr>fd := (fd s)\<lparr>fbytes := (fbytes (fd s))(p := b)\<rparr>\<rparr> else s) (page_of s v a)"

subsection \<open>What the loop maps\<close>

lemma mmap_fixed_props:
  assumes "mmap_fixed w v at n off = (w', v', res)"
  shows "fbytes w' = fbytes w" "flen w' = flen w" "advances w w'" "brk v' = brk v"
    "res = Inr () \<Longrightarrow> pages v' = (\<lambda>a. if at \<le> a \<and> a < at + n then Some (off + (a - at)) else pages v a)"
    "quiet w \<Longrightarrow> n \<noteq> 0 \<Longrightarrow> off mod 4096 = 0 \<Longrightarrow> off + n < off_max \<Longrightarrow> res = Inr ()"
proof -
  obtain r w1 where n: "next_sys w = (r, w1)" by fastforce
  note p = next_sys_props [OF n]
  have w: "w' = w1" "brk v' = brk v" "res = Inr () \<Longrightarrow> pages v' = (\<lambda>a. if at \<le> a \<and> a < at + n then Some (off + (a - at)) else pages v a)"
    "r = Sys_ok \<Longrightarrow> n \<noteq> 0 \<Longrightarrow> off mod 4096 = 0 \<Longrightarrow> off + n < off_max \<Longrightarrow> res = Inr ()"
    using assms n by (auto simp: mmap_fixed_def split: sysres.splits if_splits)
  show "fbytes w' = fbytes w" "flen w' = flen w" "advances w w'" "brk v' = brk v" using p(1,2,5) w(1,2) by simp_all
  show "res = Inr () \<Longrightarrow> pages v' = (\<lambda>a. if at \<le> a \<and> a < at + n then Some (off + (a - at)) else pages v a)" by (rule w(3))
  show "quiet w \<Longrightarrow> n \<noteq> 0 \<Longrightarrow> off mod 4096 = 0 \<Longrightarrow> off + n < off_max \<Longrightarrow> res = Inr ()" using p(6) w(4) by (simp add: quiet_def)
qed

lemma map_loop_spec:
  assumes "map_loop w v at es = (w', v', rc)"
  shows "fbytes w' = fbytes w" "flen w' = flen w" "advances w w'"
    "rc = 0 \<Longrightarrow> pages v' a = (if at \<le> a \<and> a < at + length (locs es) then Some (locs es ! (a - at)) else pages v a)"
    "quiet w \<Longrightarrow> (\<forall>e\<in>set es. ext_ok e \<and> e_end e < off_max) \<Longrightarrow> rc = 0"
proof -
  have "fbytes w' = fbytes w \<and> flen w' = flen w \<and> advances w w'
    \<and> (rc = 0 \<longrightarrow> (\<forall>a. pages v' a = (if at \<le> a \<and> a < at + length (locs es) then Some (locs es ! (a - at)) else pages v a)))
    \<and> (quiet w \<longrightarrow> (\<forall>e\<in>set es. ext_ok e \<and> e_end e < off_max) \<longrightarrow> rc = 0)"
    using assms
  proof (induction es arbitrary: w v at)
    case Nil
    then show ?case by auto
  next
    case (Cons e es)
    obtain w1 v1 res where m: "mmap_fixed w v at (elen e) (foff e) = (w1, v1, res)" by (metis prod_cases3)
    note p = mmap_fixed_props [OF m]
    show ?case
    proof (cases res)
      case (Inl err)
      then have "w' = w1" "rc = neg_errno err" using Cons.prems m by auto
      moreover have "neg_errno err \<noteq> 0" using neg_errno_neq_OK [of err] by (simp add: LS_OK_def)
      moreover have "\<not> (quiet w \<and> ext_ok e \<and> e_end e < off_max)" using p(6) Inl by (auto simp: ext_ok_def)
      ultimately show ?thesis using p(1-3) by auto
    next
      case (Inr u)
      then have l: "map_loop w1 v1 (at + elen e) es = (w', v', rc)" using Cons.prems m by simp
      have pg: "pages v1 = (\<lambda>a. if at \<le> a \<and> a < at + elen e then Some (foff e + (a - at)) else pages v a)" using p(5) Inr by simp
      note ih = Cons.IH [OF l]
      have "pages v' a = (if at \<le> a \<and> a < at + length (locs (e # es)) then Some (locs (e # es) ! (a - at)) else pages v a)" if "rc = 0" for a
      proof -
        have "pages v' a = (if at + elen e \<le> a \<and> a < at + elen e + length (locs es) then Some (locs es ! (a - (at + elen e))) else pages v1 a)"
          using ih that by blast
        then show ?thesis unfolding pg by (auto simp: locs_simps nth_append)
      qed
      moreover have "quiet w \<longrightarrow> quiet w1" using advances_quiet [OF p(3)] by blast
      ultimately show ?thesis using ih p(1-3) advances_trans by auto
    qed
  qed
  then show "fbytes w' = fbytes w" "flen w' = flen w" "advances w w'"
    "rc = 0 \<Longrightarrow> pages v' a = (if at \<le> a \<and> a < at + length (locs es) then Some (locs es ! (a - at)) else pages v a)"
    "quiet w \<Longrightarrow> (\<forall>e\<in>set es. ext_ok e \<and> e_end e < off_max) \<Longrightarrow> rc = 0" by blast+
qed

definition placed :: "vm \<Rightarrow> vm \<Rightarrow> nat \<Rightarrow> nat list \<Rightarrow> bool" where
  "placed v v' a ps \<longleftrightarrow> (\<forall>b. pages v' b = (if a \<le> b \<and> b < a + length ps then Some (ps ! (b - a)) else pages v b))"

lemma map_extents_spec:
  assumes "ls_os_map_extents w v es n = (w', v', res)" "0 < n"
  shows "fbytes w' = fbytes w" "flen w' = flen w" "advances w w'"
    "res = Inr a \<Longrightarrow> placed v v' a (locs es)" "res = Inl rc \<Longrightarrow> rc \<noteq> LS_OK"
    "quiet w \<Longrightarrow> (\<forall>e\<in>set es. ext_ok e \<and> e_end e < off_max) \<Longrightarrow> \<exists>a. res = Inr a"
proof -
  obtain r w1 where s: "next_sys w = (r, w1)" by fastforce
  note p = next_sys_props [OF s]
  have "fbytes w' = fbytes w \<and> flen w' = flen w \<and> advances w w' \<and> (\<forall>a. res = Inr a \<longrightarrow> placed v v' a (locs es))
    \<and> (\<forall>rc. res = Inl rc \<longrightarrow> rc \<noteq> LS_OK)
    \<and> (quiet w \<longrightarrow> (\<forall>e\<in>set es. ext_ok e \<and> e_end e < off_max) \<longrightarrow> (\<exists>a. res = Inr a))"
  proof (cases "\<exists>e. r = Sys_err e")
    case True
    then obtain e where e: "r = Sys_err e" by blast
    then have "w' = w1" "res = Inl (neg_errno e)" using assms s by (simp_all add: ls_os_map_extents_def mmap_reserve_def)
    moreover have "\<not> quiet w" using p(6) e by (auto simp: quiet_def)
    ultimately show ?thesis using p(1,2,5) by simp
  next
    case False
    let ?v = "v\<lparr>brk := brk v + n\<rparr>"
    have m: "mmap_reserve w v n = (w1, ?v, Inr (brk v))"
      using False s assms(2) by (auto simp: mmap_reserve_def split: sysres.splits)
    obtain w2 v2 c where l: "map_loop w1 ?v (brk v) es = (w2, v2, c)" by (metis prod_cases3)
    note q = map_loop_spec [OF l]
    show ?thesis
    proof (cases "c = 0")
      case True
      then have "w' = w2" "v' = v2" "res = Inr (brk v)" using assms m l by (simp_all add: ls_os_map_extents_def)
      then show ?thesis using q(1-4) True p(1,2) advances_trans [OF p(5) q(3)] by (simp add: placed_def)
    next
      case cn: False
      obtain w3 v3 u where u: "munmap w2 v2 (brk v) n = (w3, v3, u)" by (metis prod_cases3)
      then have o: "w' = w3" "res = Inl c" using cn assms m l by (simp_all add: ls_os_map_extents_def)
      obtain r3 w4 where s3: "next_sys w2 = (r3, w4)" by fastforce
      have "w4 = w3" using u s3 by (auto simp: munmap_def split: sysres.splits)
      note p3 = next_sys_props [OF s3, unfolded this]
      have "advances w w3" using advances_trans [OF advances_trans [OF p(5) q(3)] p3(5)] .
      moreover have "quiet w1" if "quiet w" using advances_quiet [OF p(5) that] .
      ultimately show ?thesis using o cn q(1,2,5) p(1,2) p3(1,2) by (auto simp: LS_OK_def)
    qed
  qed
  then show "fbytes w' = fbytes w" "flen w' = flen w" "advances w w'"
    "res = Inr a \<Longrightarrow> placed v v' a (locs es)" "res = Inl rc \<Longrightarrow> rc \<noteq> LS_OK"
    "quiet w \<Longrightarrow> (\<forall>e\<in>set es. ext_ok e \<and> e_end e < off_max) \<Longrightarrow> \<exists>a. res = Inr a" by blast+
qed

subsection \<open>Mapping a record\<close>

lemma map_fields_same:
  "rec_ok w (x\<lparr>map_addr := a, map_len := n\<rparr>) = rec_ok w x" "content w (x\<lparr>map_addr := a, map_len := n\<rparr>) = content w x"
  "attr_of (x\<lparr>map_addr := a, map_len := n\<rparr>) = attr_of x"
  by (simp_all add: rec_ok_def content_def attr_of_def split: option.splits)

lemma upd_rec_same:
  assumes inv: "store_inv s" and r: "recs s r = Some x"
    and f: "f x = x\<lparr>busy := b\<rparr> \<or> f x = x\<lparr>map_addr := a, map_len := n\<rparr>"
  shows "store_inv (upd_rec s r f)" "store_abs (upd_rec s r f) = store_abs s" "recs (upd_rec s r f) r = Some (f x)"
proof -
  have ok: "rec_ok (fd s) (f x)" using store_invD(7) [OF inv r] f by (auto simp: map_fields_same)
  have e: "key (f x) = key x" "ext (f x) = ext x" "(mem (f x) = None) = (mem x = None)" "mem_cap (f x) = mem_cap x"
    using f by auto
  note u = upd_rec_inv [OF inv r, of f, OF e ok]
  have "ls_toc_find s (key x) = Some r" using toc_find_iff [OF store_invD(1) [OF inv]] r by (auto simp: rkey_def)
  from store_abs_Some [OF this r] show "store_abs (upd_rec s r f) = store_abs s"
    using u(3) f by (auto simp: map_fields_same fun_upd_idem)
  show "store_inv (upd_rec s r f)" by (rule u(1))
  show "recs (upd_rec s r f) r = Some (f x)" using r by (simp add: recs_upd_rec)
qed

lemma fd_same:
  assumes "store_inv s" "advances (fd s) w" "fbytes w = fbytes (fd s)" "flen w = flen (fd s)"
  shows "store_inv (s\<lparr>fd := w\<rparr>)" "store_abs (s\<lparr>fd := w\<rparr>) = store_abs s"
proof -
  have "evolves s (s\<lparr>fd := w\<rparr>)"
    using evolves_same(1) [OF assms(1), of "s\<lparr>fd := w\<rparr>"] os_keeps_same [OF assms(2) store_invD(6) [OF assms(1)] assms(3,4)] by simp
  then show "store_inv (s\<lparr>fd := w\<rparr>)" "store_abs (s\<lparr>fd := w\<rparr>) = store_abs s"
    using evolvesD(1) evolves_abs [OF assms(1)] by blast+
qed

lemma ls_map_fresh:
  assumes inv: "store_inv s" and k: "ls_key_ok (Some k)" and m: "mode (opts s) = LS_MAPPED"
    and r: "ls_toc_find s k = Some r" "recs s r = Some x" and x: "mem x = None" "map_addr x = None" "0 < rsize x"
    and call: "ls_map s v (Some k) True = (s', v', rc, res)"
  shows "store_inv s'" "store_abs s' = store_abs s" "opts s' = opts s" "fbytes (fd s') = fbytes (fd s)"
    "flen (fd s') = flen (fd s)" "advances (fd s) (fd s')" "file_end s' = file_end s \<and> tab s' = tab s"
    "rc = LS_OK \<Longrightarrow> \<exists>a. res = Some (a, rsize x) \<and> placed v v' a (locs (ext x))
       \<and> recs s' r = Some (x\<lparr>map_addr := Some a, map_len := length (locs (ext x))\<rparr>)"
    "quiet (fd s) \<Longrightarrow> rc = LS_OK"
proof -
  let ?n = "length (locs (ext x))"
  have ok: "rec_ok (fd s) x" by (rule store_invD(7) [OF inv r(2)])
  have n: "sum_list (map elen (ext x)) mod u64_mod = ?n" "0 < ?n"
    using locs_small [OF inv r(2)] ok x by (simp_all add: length_locs rec_ok_def)
  define s1 where "s1 = upd_rec s r (\<lambda>x. x\<lparr>busy := busy x + 1\<rparr>)"
  note u1 = upd_rec_same [OF inv r(2), of "\<lambda>x. x\<lparr>busy := busy x + 1\<rparr>" "busy x + 1", folded s1_def, OF disjI1 [OF refl]]
  obtain w v1 q where e: "ls_os_map_extents (fd s1) v (ext x) ?n = (w, v1, q)" by (metis prod_cases3)
  note me = map_extents_spec [OF e n(2)]
  have f1: "fd s1 = fd s" "opts s1 = opts s" "file_end s1 = file_end s" "tab s1 = tab s" by (simp_all add: s1_def)
  note f = fd_same [OF u1(1) me(3,1,2)]
  define s2 where "s2 = upd_rec (s1\<lparr>fd := w\<rparr>) r (\<lambda>x. x\<lparr>busy := busy x - 1\<rparr>)"
  have r1: "recs (s1\<lparr>fd := w\<rparr>) r = Some (x\<lparr>busy := busy x + 1\<rparr>)" using u1(3) by simp
  note u2 = upd_rec_same [OF f(1) r1, of "\<lambda>x. x\<lparr>busy := busy x - 1\<rparr>" "busy x", folded s2_def, OF disjI1]
  have r2: "recs s2 r = Some x" using u2(3) by simp
  have s2: "store_inv s2" "store_abs s2 = store_abs s" "fd s2 = w" "opts s2 = opts s" "file_end s2 = file_end s" "tab s2 = tab s"
    using u2(1,2) f(2) u1(2) f1 by (simp_all add: s2_def)
  have w: "fbytes w = fbytes (fd s)" "flen w = flen (fd s)" "advances (fd s) w" using me(1-3) f1 by simp_all
  have sm: "\<forall>e\<in>set (ext x). ext_ok e \<and> e_end e < off_max"
    using ext_below(2) [OF inv r(2)] ok store_invD(6) [OF inv] by (fastforce simp: rec_ok_def file_wf_def)
  have q: "quiet (fd s) \<Longrightarrow> \<exists>a. q = Inr a" using me(6) sm f1 by simp
  have "store_inv s' \<and> store_abs s' = store_abs s \<and> fd s' = w \<and> opts s' = opts s \<and> (file_end s' = file_end s \<and> tab s' = tab s)
    \<and> (rc = LS_OK \<longrightarrow> (\<exists>a. res = Some (a, rsize x) \<and> placed v v' a (locs (ext x))
         \<and> recs s' r = Some (x\<lparr>map_addr := Some a, map_len := ?n\<rparr>))) \<and> (quiet (fd s) \<longrightarrow> rc = LS_OK)"
  proof (cases q)
    case (Inl c)
    then have "s' = ls_report s2 c (Some k) 0 0 ''map''" "rc = c"
      using call k m r x e n(1) by (auto simp: ls_map_def Let_def s2_def s1_def)
    then show ?thesis using ls_report_abs [OF s2(1)] s2 me(5) q Inl by auto
  next
    case (Inr a)
    let ?f = "\<lambda>x. x\<lparr>map_addr := Some a, map_len := ?n\<rparr> :: ls_rec"
    have "s' = upd_rec s2 r ?f" "rc = LS_OK" "res = Some (a, rsize x)" "v' = v1"
      using call k m r x e n(1) Inr by (auto simp: ls_map_def Let_def s2_def s1_def)
    then show ?thesis using upd_rec_same [OF s2(1) r2, of ?f, OF disjI2 [OF refl]] s2 me(4) Inr by simp
  qed
  then show "store_inv s'" "store_abs s' = store_abs s" "opts s' = opts s" "fbytes (fd s') = fbytes (fd s)"
    "flen (fd s') = flen (fd s)" "advances (fd s) (fd s')" "file_end s' = file_end s \<and> tab s' = tab s"
    "rc = LS_OK \<Longrightarrow> \<exists>a. res = Some (a, rsize x) \<and> placed v v' a (locs (ext x))
       \<and> recs s' r = Some (x\<lparr>map_addr := Some a, map_len := length (locs (ext x))\<rparr>)"
    "quiet (fd s) \<Longrightarrow> rc = LS_OK"
    using w by auto
qed

text \<open>Unmapping forgets the address whatever \<open>munmap\<close> says; when it succeeds the mapped addresses are gone
  and no other address is touched.\<close>

lemma ls_unmap_spec:
  assumes inv: "store_inv s" and k: "ls_key_ok (Some k)" "mode (opts s) = LS_MAPPED"
    and r: "ls_toc_find s k = Some r" "recs s r = Some x" "map_addr x = Some a"
    and call: "ls_unmap s v (Some k) = (s', v', rc)"
  shows "store_inv s'" "store_abs s' = store_abs s" "recs s' r = Some (x\<lparr>map_addr := None, map_len := 0\<rparr>)"
    "pages v' b = (if rc = LS_OK \<and> a \<le> b \<and> b < a + map_len x then None else pages v b)" "quiet (fd s) \<Longrightarrow> rc = LS_OK"
proof -
  let ?f = "\<lambda>x. x\<lparr>map_addr := None, map_len := 0\<rparr> :: ls_rec"
  define s1 where "s1 = upd_rec s r ?f"
  note u = upd_rec_same [OF inv r(2), of ?f, folded s1_def, OF disjI2 [OF refl]]
  obtain q w where n: "next_sys (fd s) = (q, w)" by fastforce
  note p = next_sys_props [OF n]
  have s': "s' = s1\<lparr>fd := w\<rparr>" and rc: "rc = (case q of Sys_err e \<Rightarrow> neg_errno e | _ \<Rightarrow> 0)"
    "pages v' b = (case q of Sys_err e \<Rightarrow> pages v b | _ \<Rightarrow> if a \<le> b \<and> b < a + map_len x then None else pages v b)" for b
    using call k r n by (auto simp: ls_unmap_def ls_os_unmap_def munmap_def Let_def s1_def split: sysres.splits)
  have f: "fd s1 = fd s" by (simp add: s1_def)
  show "store_inv s'" "store_abs s' = store_abs s" using fd_same [OF u(1), of w] p(1,2,5) f u(2) s' by simp_all
  show "recs s' r = Some (?f x)" using u(3) s' by simp
  show "pages v' b = (if rc = LS_OK \<and> a \<le> b \<and> b < a + map_len x then None else pages v b)"
    using rc neg_errno_neq_OK by (auto simp: LS_OK_def split: sysres.splits)
  show "quiet (fd s) \<Longrightarrow> rc = LS_OK" using rc(1) p(6) by (auto simp: quiet_def LS_OK_def)
qed

text \<open>With no memory budget, which \<open>ls_open\<close> insists on for a mapped store, every record is in the file.\<close>

lemma budget_zero:
  assumes "store_inv s" "memory_budget (opts s) = 0" "recs s r = Some x"
  shows "mem x = None"
proof (rule ccontr)
  assume "mem x \<noteq> None"
  then have "r \<in> res_set s" using res_set_iff [OF assms(3)] by simp
  moreover have "(\<Sum>r\<in>res_set s. rcap s r) = 0" using store_invD(4) [OF assms(1)] assms(2) by (simp add: tier_ok_def)
  ultimately have "rcap s r = 0" using finite_res_set [OF assms(1)] by simp
  then show False using store_invD(7) [OF assms(1,3)] \<open>mem x \<noteq> None\<close> assms(3) by (auto simp: rcap_def rec_ok_def)
qed

lemma placed_page:
  assumes "rec_ok (fd s) x" "placed v0 v a (locs (ext x))" "i < length (locs (ext x))"
  shows "page_of s v (a + i) = Some (locs (ext x) ! i)" "locs (ext x) ! i < flen (fd s)"
proof -
  show l: "locs (ext x) ! i < flen (fd s)" using assms(1,3) by (simp add: rec_ok_def)
  have "locs (ext x) ! i - locs (ext x) ! i mod 4096 < flen (fd s)" using l by linarith
  then show "page_of s v (a + i) = Some (locs (ext x) ! i)" using assms(2,3) by (simp add: placed_def page_of_def)
qed

lemma poke_spec:
  assumes inv: "store_inv s" and y: "recs s r = Some y" "mem y = None" "i < rsize y"
    and w: "w = (fd s)\<lparr>fbytes := (fbytes (fd s))(locs (ext y) ! i := b)\<rparr>"
  shows "store_inv (s\<lparr>fd := w\<rparr>)" "store_abs (s\<lparr>fd := w\<rparr>) = (store_abs s)(key y \<mapsto> (patch (content (fd s) y) i [b], attr_of y))"
proof -
  let ?s = "s\<lparr>fd := w\<rparr>" and ?p = "locs (ext y) ! i"
  note ok = store_invD(7) [OF inv y(1)]
  have l: "rsize y \<le> length (locs (ext y))" "distinct (locs (ext y))" using ok y(2) by (simp_all add: rec_ok_def)
  have i: "i < length (locs (ext y))" using l(1) y(3) by simp
  then have p: "?p \<in> set (locs (ext y))" "?p < flen (fd s)" using ok by (simp_all add: rec_ok_def)
  have at: "fbytes w (locs (ext y) ! j) = (if j = i then b else fbytes (fd s) (locs (ext y) ! j))"
    if "j < length (locs (ext y))" for j
    using that i l(2) w by (simp add: nth_eq_iff_index_eq)
  have okw: "rec_ok w y"
    by (rule rec_ok_file [OF ok]) (use ok at y(3) w in \<open>simp_all add: rec_ok_def\<close>)
  have frame: "file_frame (fd s) w {?p}"
    using store_invD(6) [OF inv] p(2) w by (auto simp: file_frame_def advances_def file_wf_def intro: exI [of _ 0])
  have "(\<Union>r'\<in>-{r}. used s r') \<inter> {?p} = {}" using others_disjoint [OF inv y(1)] p(1) by blast
  then have keep: "os_keeps (fd s) (fd ?s) (\<Union>r'\<in>-{r}. used s r')" using os_keeps_frame [OF frame] by simp
  have rs: "recs ?s = (recs s)(r \<mapsto> y)" using y(1) by (simp add: fun_upd_idem)
  have al: "alloc_inv ?s" "free_set ?s = free_set s" using store_invD(2) [OF inv] by (simp_all add: alloc_inv_def free_set_def)
  have tier: "tier_ok ?s" using tier_ok_cong(1) [of ?s s] store_invD(4) [OF inv] by simp
  have "free_set ?s \<subseteq> free_set s \<union> set (locs (ext y))" "set (locs (ext y)) \<inter> free_set ?s = {}"
    "set (locs (ext y)) \<subseteq> set (locs (ext y)) \<union> free_set s" "rec_ok (fd ?s) y"
    "tab ?s = tab s" "nrec ?s = nrec s" "fresh s \<le> fresh ?s" "direct ?s = direct s" "teardown ?s = teardown s"
    using al(2) store_invD(8) [OF inv y(1)] okw by simp_all
  note st = store_inv_step [OF inv y(1) rs refl this(5-9) al(1) this(1-3) keep this(4) tier]
  show "store_inv ?s" by (rule st(1))
  have lc: "length (content w y) = rsize y" "length (content (fd s) y) = rsize y"
    using length_content [OF okw] length_content [OF ok] by simp_all
  then have "patch (content (fd s) y) i [b] = blit (content (fd s) y) i [b]" using y(3) by (simp add: patch_def grown_def zeros_def)
  moreover have "content w y ! j = blit (content (fd s) y) i [b] ! j" if "j < rsize y" for j
    using that l(1) y(2,3) at [of j] lc(2) by (simp add: nth_blit content_def)
  ultimately have "content w y = patch (content (fd s) y) i [b]" using lc y(3) by (intro nth_equalityI) simp_all
  then show "store_abs ?s = (store_abs s)(key y \<mapsto> (patch (content (fd s) y) i [b], attr_of y))"
    using step_abs [OF inv y(1) _ st(2,3), of y] y(1) by simp
qed

subsection \<open>Properties\<close>

text \<open>C38. The pointer shows the record. On a well-formed mapped store, \<open>ls_map\<close> of a record that is not yet
  mapped leaves the store's contents as they were and, when it succeeds, returns an address at which
  the caller reads the record's bytes in order, however many extents they are spread over; the
  length is the record's. With a quiet operating system it succeeds.\<close>

theorem map_shows_record:
  assumes "store_inv s" "ls_key_ok (Some k)" "mode (opts s) = LS_MAPPED" "memory_budget (opts s) = 0"
    and "ls_toc_find s k = Some r" "recs s r = Some x" "map_addr x = None"
    and "store_abs s k = Some (c, at)" "c \<noteq> []"
    and "ls_map s v (Some k) True = (s', v', rc, res)"
  shows "store_inv s' \<and> store_abs s' = store_abs s \<and> (quiet (fd s) \<longrightarrow> rc = LS_OK)
    \<and> (rc = LS_OK \<longrightarrow> (\<exists>a. res = Some (a, length c) \<and> (\<forall>i<length c. load_at s' v' (a + i) = Some (c ! i))))"
proof -
  have mx: "mem x = None" by (rule budget_zero [OF assms(1,4,6)])
  have c: "c = content (fd s) x" using store_abs_Some [OF assms(5,6)] assms(8) by simp
  note ok = store_invD(7) [OF assms(1,6)]
  have l: "length c = rsize x" "rsize x \<le> length (locs (ext x))"
    using length_content [OF ok] c ok mx by (simp_all add: rec_ok_def)
  then have "0 < rsize x" using assms(9) by (cases c) auto
  note f = ls_map_fresh [OF assms(1-3,5,6) mx assms(7) this assms(10)]
  have "\<exists>a. res = Some (a, length c) \<and> (\<forall>i<length c. load_at s' v' (a + i) = Some (c ! i))" if rc: "rc = LS_OK"
  proof -
    obtain a where a: "res = Some (a, rsize x)" "placed v v' a (locs (ext x))" using f(8) [OF rc] by blast
    have "load_at s' v' (a + i) = Some (c ! i)" if i: "i < length c" for i
    proof -
      have "rec_ok (fd s') x" using ok f(4,5) by (simp add: rec_ok_def)
      then have "page_of s' v' (a + i) = Some (locs (ext x) ! i)" using placed_page(1) a(2) i l by simp
      moreover have "c ! i = fbytes (fd s) (locs (ext x) ! i)" using i l c mx by (simp add: content_def)
      ultimately show ?thesis using f(4) by (simp add: load_at_def)
    qed
    then show ?thesis using a(1) l(1) by auto
  qed
  then show ?thesis using f by blast
qed

text \<open>C39. Storing through the pointer is a write. After a successful \<open>ls_map\<close>, storing a byte at an address
  inside the returned length succeeds and changes the store exactly as an explicit write of that
  byte at that offset of the record would: the other bytes and the other records keep their values.\<close>

theorem store_through_map:
  assumes "store_inv s" "ls_key_ok (Some k)" "mode (opts s) = LS_MAPPED" "memory_budget (opts s) = 0"
    and "ls_toc_find s k = Some r" "recs s r = Some x" "map_addr x = None"
    and "ls_map s v (Some k) True = (s1, v1, LS_OK, Some (a, n))" "i < n"
  shows "\<exists>s2. store_at s1 v1 (a + i) b = Some s2 \<and> store_inv s2 \<and> store_abs s2 = kv_write (store_abs s) k i [b]"
proof -
  have mx: "mem x = None" by (rule budget_zero [OF assms(1,4,6)])
  have "0 < rsize x" using assms by (auto simp: ls_map_def LS_OK_def LS_ERR_RANGE_def split: if_splits)
  note f = ls_map_fresh [OF assms(1-3,5,6) mx assms(7) this assms(8)]
  define y where "y = x\<lparr>map_addr := Some a, map_len := length (locs (ext x))\<rparr>"
  have y: "recs s1 r = Some y" "n = rsize y" "placed v v1 a (locs (ext y))" "mem y = None" "key y = key x"
    using f(8) mx by (auto simp: y_def)
  have k: "key y = k" using found [OF assms(1,5)] assms(6) y(5) by (metis option.inject)
  note ok = store_invD(7) [OF f(1) y(1)]
  have iy: "i < rsize y" using assms(9) y(2) by simp
  then have i: "i < length (locs (ext y))" using ok y(4) by (simp add: rec_ok_def)
  note p = poke_spec [OF f(1) y(1,4) iy refl, of b]
  have "ls_toc_find s1 k = Some r" using toc_find_iff [OF store_invD(1) [OF f(1)]] y(1) k by (auto simp: rkey_def)
  then have "store_abs s k = Some (content (fd s1) y, attr_of y)" using store_abs_Some [OF _ y(1)] f(2) by simp
  then show ?thesis using p f(2) k placed_page [OF ok y(3) i] by (auto simp: store_at_def kv_write_def)
qed

text \<open>Writes keep a record's mapping as it is.\<close>

lemma scatter_map:
  assumes "ls_scatter s pl off n bs op = Some (s', rc, out)" "recs s r = Some x"
  shows "\<exists>y. recs s' r = Some y \<and> key y = key x \<and> map_addr y = map_addr x \<and> map_len y = map_len x \<and> tab s' = tab s"
  using assms by (auto simp: ls_scatter_def recs_upd_rec split: if_splits option.splits ls_op.splits prod.splits)

lemma write_keeps_map:
  assumes inv: "store_inv s" and k: "ls_toc_find s k = Some r" "recs s r = Some x" and fit: "fits s (off + length bs)"
    "off + length bs < u64_mod" and wr: "ls_write s (Some k) off (length bs) (Some bs) = Some (s', LS_OK)"
  shows "\<exists>y. recs s' r = Some y \<and> key y = key x \<and> map_addr y = map_addr x \<and> map_len y = map_len x \<and> tab s' = tab s"
proof -
  let ?hi = "off + length bs"
  obtain s2 rc2 where e: "ensure_cap s r ?hi = Some (s2, rc2)" "evolves s s2" using ensure_cap_spec [OF inv k(2) fit(1)] by blast
  obtain x2 where x2: "recs s2 r = Some x2" "key x2 = key x" "map_addr x2 = map_addr x" "map_len x2 = map_len x"
    using evolvesD(6) [OF e(2) k(2)] by (auto simp: same_rec_def)
  obtain x3 where x3: "recs (Store.extend s2 r ?hi) r = Some x3" "key x3 = key x" "map_addr x3 = map_addr x" "map_len x3 = map_len x"
    using x2 by (auto simp: Store.extend_def recs_upd_rec)
  define s4 where "s4 = upd_rec (if mem x3 \<noteq> None then ls_lru_touch (Store.extend s2 r ?hi) r else Store.extend s2 r ?hi) r (\<lambda>x. x\<lparr>busy := busy x + 1\<rparr>)"
  define pl where "pl = ls_place_of r x3"
  define x4 where "x4 = x3\<lparr>busy := busy x3 + 1\<rparr>"
  have p: "pin (Store.extend s2 r ?hi) r = Some (s4, pl)" "recs s4 r = Some x4" "key x4 = key x"
      "map_addr x4 = map_addr x" "map_len x4 = map_len x"
    using x3 by (simp_all add: pin_def recs_upd_rec ls_lru_touch_def Let_def s4_def pl_def x4_def)
  have tb: "tab s4 = tab s2" by (simp add: s4_def Store.extend_def ls_lru_touch_def Let_def)
  have w: "ls_key_ok (Some k)" "rc2 = LS_OK" and sc: "\<exists>s5 out. ls_scatter s4 pl off (length bs) bs LS_OP_WRITE = Some (s5, LS_OK, out) \<and> s' = unpin s5 r"
    using wr k e(1) p(1) fit(2)
    by (auto simp: ls_write_def ls_rw_def write_begin_def find_or_insert_def Let_def LS_OK_def LS_ERR_INVAL_def LS_ERR_MODE_def
        split: if_splits bind_splits)
  then obtain s5 out where s5: "ls_scatter s4 pl off (length bs) bs LS_OP_WRITE = Some (s5, LS_OK, out)" "s' = unpin s5 r" by blast
  show ?thesis using scatter_map [OF s5(1) p(2)] p(3-5) tb s5(2) e(2) by (auto simp: unpin_def recs_upd_rec evolves_def)
qed

text \<open>C40. A mapping does not follow its record. Where a record that is mapped grows by a write, a later
  \<open>ls_map\<close> hands back the old address with the new size: when the record has outgrown the mapping,
  there are addresses inside the length the caller is told that no page stands behind, unless
  something else happens to be mapped there.\<close>

theorem outgrown_mapping:
  assumes "store_inv s" "ls_key_ok (Some k)" "mode (opts s) = LS_MAPPED"
    and "ls_toc_find s k = Some r" "recs s r = Some x" "map_addr x = Some a"
    and "fits s (off + length bs)" "off + length bs < u64_mod" "rsize x < off + length bs" "map_len x < off + length bs"
    and "ls_write s (Some k) off (length bs) (Some bs) = Some (s', LS_OK)" "pages v (a + map_len x) = None"
  shows "\<exists>n. ls_map s' v (Some k) True = (s', v, LS_OK, Some (a, n)) \<and> n = length (fst (kv_get (store_abs s') k))
     \<and> (\<exists>i<n. load_at s' v (a + i) = None)"
proof -
  obtain y where y: "recs s' r = Some y" "key y = key x" "map_addr y = Some a" "map_len y = map_len x"
    using write_keeps_map [OF assms(1,4,5,7,8,11)] assms(6) by auto
  have fz: "\<not> kv_frozen (opts s) (store_abs s) k (off + length bs)" and o: "write_outcome s k off bs s' LS_OK"
    using ls_write_spec [OF assms(1,2,8,7)] assms(11) by (auto simp: LS_OK_def LS_ERR_MODE_def split: if_splits)
  then have s': "store_inv s'" "opts s' = opts s" "store_abs s' = kv_write (store_abs s) k off bs" by (auto simp: write_outcome_def)
  have k: "key y = k" using found [OF assms(1,4)] assms(5) y(2) by (metis option.inject)
  have f: "ls_toc_find s' k = Some r" using toc_find_iff [OF store_invD(1) [OF s'(1)]] y(1) k by (auto simp: rkey_def)
  have "kv_get (store_abs s') k = (content (fd s') y, attr_of y)" using store_abs_Some [OF f y(1)] by simp
  then have n: "rsize y = length (fst (kv_get (store_abs s') k))" using length_content [OF store_invD(7) [OF s'(1) y(1)]] by simp
  also have "off + length bs \<le> \<dots>" using s'(3) by (simp add: kv_write_def patch_def grown_def)
  finally have g: "off + length bs \<le> rsize y" .
  then have "ls_map s' v (Some k) True = (s', v, LS_OK, Some (a, rsize y))"
    using assms(2,3,9) s'(2) f y(1,3) by (simp add: ls_map_def Let_def)
  moreover have "load_at s' v (a + map_len x) = None" using assms(12) by (simp add: load_at_def page_of_def)
  moreover have "map_len x < rsize y" using assms(10) g by simp
  ultimately show ?thesis using n by auto
qed

subsection \<open>A mapped store\<close>

definition demo_map :: ls_store where
  "demo_map = store_init (os_empty []) ''demo'' (opts_default\<lparr>mode := LS_MAPPED\<rparr>) False"

definition demo_vm :: vm where
  "demo_vm = \<lparr>pages = (\<lambda>_. None), brk = 65536\<rparr>"

lemma demo_map:
  "store_inv demo_map" "recs demo_map = Map.empty" "fd demo_map = os_empty []" "opts demo_map = opts_default\<lparr>mode := LS_MAPPED\<rparr>"
  "demand demo_map = 4096" "tab demo_map = replicate 64 []" "file_end demo_map = 4096"
proof -
  show "store_inv demo_map"
    unfolding demo_map_def by (rule store_init_inv) (simp_all add: io_ok_def file_wf_def os_empty_def opts_default_def off_max_def)
  show "recs demo_map = Map.empty" "fd demo_map = os_empty []" "opts demo_map = opts_default\<lparr>mode := LS_MAPPED\<rparr>"
    "demand demo_map = 4096" "tab demo_map = replicate 64 []" "file_end demo_map = 4096"
    by (simp_all add: demo_map_def store_init_def demand_def res_set_def)
qed

lemma demo_map_rec:
  "\<exists>s x. store_inv s \<and> recs s 0 = Some x \<and> ls_toc_find s ''k'' = Some 0 \<and> map_addr x = None \<and> quiet (fd s)
     \<and> opts s = opts demo_map \<and> demand s = 4096 \<and> length (tab s) = 64 \<and> store_abs s ''k'' = Some ([], [])"
proof -
  have n: "ls_toc_find demo_map ''k'' = None"
    using toc_find_iff [OF store_invD(1) [OF demo_map(1)], of "''k''"] demo_map(2)
    by (cases "ls_toc_find demo_map ''k''") auto
  obtain s ro where fi: "find_or_insert demo_map ''k'' = (s, ro)" by fastforce
  note f = find_or_insert_spec [OF demo_map(1) fi]
  have "ls_toc_insert demo_map ''k'' = (s, ro)" using fi n by (simp add: find_or_insert_def)
  then have r: "recs s 0 = Some (rec_new ''k'')" "length (tab s) = 64" "ro = Some 0"
    by (auto simp: ls_toc_insert_def toc_alloc_rec_def toc_link_def st_malloc_def os_malloc_def os_empty_def
        demo_map_def store_init_def Let_def)
  have "quiet (fd s)" using advances_quiet [OF f(5)] demo_map(3) by simp
  moreover have "store_abs s ''k'' = Some ([], [])"
    using f(7) [OF r(3)] n by (auto simp: kv_get_def store_abs_def)
  moreover have "ls_toc_find s ''k'' = Some 0" using f(7) [OF r(3)] by blast
  ultimately show ?thesis using f r(1,2) demo_map(5)
    by (intro exI [of _ s] exI [of _ "rec_new ''k''"]) (simp add: rec_new_def)
qed

lemma demo_mapped:
  "\<exists>s x. store_inv s \<and> recs s 0 = Some x \<and> ls_toc_find s ''k'' = Some 0 \<and> map_addr x = None \<and> quiet (fd s)
     \<and> opts s = opts_default\<lparr>mode := LS_MAPPED\<rparr> \<and> file_end s \<le> 8194 \<and> store_abs s ''k'' = Some ([1, 2, 3], [])
     \<and> length (tab s) = 64"
proof -
  obtain s x where s: "store_inv s" "recs s 0 = Some x" "ls_toc_find s ''k'' = Some 0" "map_addr x = None" "quiet (fd s)"
    "opts s = opts demo_map" "demand s = 4096" "length (tab s) = 64" "store_abs s ''k'' = Some ([], [])"
    using demo_map_rec by blast
  let ?b = "[1, 2, 3 :: byte]"
  have c: "0 + length ?b < u64_mod" "fits s (0 + length ?b)" "calm s (0 + length ?b)"
    using s(5,7,8) by (simp_all add: fits_def calm_def roomy_def u64_mod_def off_max_def)
  have nf: "\<not> kv_frozen (opts s) (store_abs s) ''k'' (0 + length ?b)" using s(6) demo_map(4) by (simp add: kv_frozen_def opts_default_def)
  obtain t rc where w: "ls_write s (Some ''k'') 0 (length ?b) (Some ?b) = Some (t, rc)" "write_outcome s ''k'' 0 ?b t rc"
    using ls_write_spec [OF s(1) key_k(1) c(1,2)] nf by auto
  then have rc: "rc = LS_OK" using c(3) by (simp add: write_outcome_def)
  then have t: "store_inv t" "opts t = opts s" "quiet (fd t)" "file_end t \<le> 8194" "store_abs t = kv_write (store_abs s) ''k'' 0 ?b"
    using w(2) s(5,7) advances_quiet by (auto simp: write_outcome_def)
  obtain y where y: "recs t 0 = Some y" "key y = key x" "map_addr y = None" "length (tab t) = 64"
    using s(8) write_keeps_map [OF s(1,3,2) c(2,1)] w(1) rc s(4) by auto
  have "key y = ''k''" using found [OF s(1,3)] s(2) y(2) by (metis option.inject)
  then have "ls_toc_find t ''k'' = Some 0" using toc_find_iff [OF store_invD(1) [OF t(1)]] y(1) by (auto simp: rkey_def)
  moreover have "store_abs t ''k'' = Some (?b, [])" using t(5) s(9) by (simp add: kv_write_def patch_def grown_def zeros_def blit_def)
  ultimately show ?thesis using t y s(6) demo_map(4) by auto
qed

lemma demo_map_call:
  assumes "store_inv s" "ls_toc_find s ''k'' = Some 0" "recs s 0 = Some x" "map_addr x = None" "quiet (fd s)"
    "mode (opts s) = LS_MAPPED" "memory_budget (opts s) = 0" "store_abs s ''k'' = Some ([1, 2, 3], [])"
  shows "\<exists>s' v' a. ls_map s demo_vm (Some ''k'') True = (s', v', LS_OK, Some (a, 3))"
proof -
  have "content (fd s) x = [1, 2, 3]" using store_abs_Some [OF assms(2,3)] assms(8) by simp
  then have "rsize x = 3" using length_content [OF store_invD(7) [OF assms(1,3)]] by simp
  moreover obtain s' v' rc res where m: "ls_map s demo_vm (Some ''k'') True = (s', v', rc, res)" by (metis prod_cases4)
  ultimately show ?thesis
    using ls_map_fresh(8,9) [OF assms(1) key_k(1) assms(6,2,3) budget_zero [OF assms(1,7,3)] assms(4) _ m] assms(5) by auto
qed

theorem map_shows_record_witness:
  "\<exists>s v s' v' a. store_inv s \<and> store_abs s ''k'' = Some ([1, 2, 3], [])
     \<and> ls_map s v (Some ''k'') True = (s', v', LS_OK, Some (a, 3)) \<and> load_at s' v' (a + 2) = Some 3"
proof -
  obtain s x where s: "store_inv s" "recs s 0 = Some x" "ls_toc_find s ''k'' = Some 0" "map_addr x = None" "quiet (fd s)"
    "opts s = opts_default\<lparr>mode := LS_MAPPED\<rparr>" "store_abs s ''k'' = Some ([1, 2, 3], [])" using demo_mapped by blast
  obtain s' v' rc res where m: "ls_map s demo_vm (Some ''k'') True = (s', v', rc, res)" by (metis prod_cases4)
  have o: "mode (opts s) = LS_MAPPED" "memory_budget (opts s) = 0" using s(6) by (simp_all add: opts_default_def)
  note t = map_shows_record [OF s(1) key_k(1) o s(3,2,4,7) _ m]
  then obtain a where "rc = LS_OK" "res = Some (a, 3)" "\<forall>i<3. load_at s' v' (a + i) = Some ([1, 2, 3] ! i)"
    using s(5) by (auto simp: numeral_3_eq_3)
  moreover from spec [OF this(3), of 2] have "load_at s' v' (a + 2) = Some ([1, 2, 3] ! 2)" by simp
  ultimately show ?thesis using m s(1,7) by fastforce
qed

theorem store_through_map_witness:
  "\<exists>s v s1 v1 a s2. store_abs s ''k'' = Some ([1, 2, 3], []) \<and> ls_map s v (Some ''k'') True = (s1, v1, LS_OK, Some (a, 3))
     \<and> store_at s1 v1 (a + 1) 9 = Some s2 \<and> store_abs s2 ''k'' = Some ([1, 9, 3], [])"
proof -
  obtain s x where s: "store_inv s" "recs s 0 = Some x" "ls_toc_find s ''k'' = Some 0" "map_addr x = None" "quiet (fd s)"
    "opts s = opts_default\<lparr>mode := LS_MAPPED\<rparr>" "store_abs s ''k'' = Some ([1, 2, 3], [])" using demo_mapped by blast
  have o: "mode (opts s) = LS_MAPPED" "memory_budget (opts s) = 0" using s(6) by (simp_all add: opts_default_def)
  note call = demo_map_call [OF s(1,3,2,4,5) o s(7)]
  then obtain s1 v1 a where m: "ls_map s demo_vm (Some ''k'') True = (s1, v1, LS_OK, Some (a, 3))" by auto
  obtain s2 where "store_at s1 v1 (a + 1) 9 = Some s2" "store_abs s2 = kv_write (store_abs s) ''k'' 1 [9]"
    using store_through_map [OF s(1) key_k(1) o s(3,2,4) m, of 1 9] by auto
  moreover from this(2) have "store_abs s2 ''k'' = Some ([1, 9, 3], [])"
    using s(7) by (simp add: kv_write_def patch_def grown_def zeros_def blit_def)
  ultimately show ?thesis using m s(7) by blast
qed

lemma locs_below:
  assumes "store_inv s" "recs s r = Some x"
  shows "length (locs (ext x)) \<le> file_end s"
proof -
  have "distinct (locs (ext x))" using store_invD(7) [OF assms] by (simp add: rec_ok_def)
  moreover have "set (locs (ext x)) \<subseteq> {..<file_end s}" using ext_below(1) [OF assms] by (fastforce simp: set_locs)
  ultimately show ?thesis using card_mono [of "{..<file_end s}" "set (locs (ext x))"] by (simp add: distinct_card)
qed

theorem outgrown_mapping_witness:
  "\<exists>s v a n. ls_map s v (Some ''k'') True = (s, v, LS_OK, Some (a, n)) \<and> (\<exists>i<n. load_at s v (a + i) = None)"
proof -
  obtain s x where s: "store_inv s" "recs s 0 = Some x" "ls_toc_find s ''k'' = Some 0" "map_addr x = None" "quiet (fd s)"
    "opts s = opts_default\<lparr>mode := LS_MAPPED\<rparr>" "file_end s \<le> 8194" "store_abs s ''k'' = Some ([1, 2, 3], [])"
    "length (tab s) = 64" using demo_mapped by blast
  have o: "mode (opts s) = LS_MAPPED" "memory_budget (opts s) = 0" using s(6) by (simp_all add: opts_default_def)
  obtain s1 v1 a where m: "ls_map s demo_vm (Some ''k'') True = (s1, v1, LS_OK, Some (a, 3))"
    using demo_map_call [OF s(1,3,2,4,5) o s(8)] by auto
  have "content (fd s) x = [1, 2, 3]" using store_abs_Some [OF s(3,2)] s(8) by simp
  then have r: "rsize x = 3" using length_content [OF store_invD(7) [OF s(1,2)]] by simp
  then have "0 < rsize x" by simp
  note f = ls_map_fresh [OF s(1) key_k(1) o(1) s(3,2) budget_zero [OF s(1) o(2) s(2)] s(4) this m]
  let ?n = "length (locs (ext x))" and ?y = "x\<lparr>map_addr := Some a, map_len := length (locs (ext x))\<rparr>"
  have y: "recs s1 0 = Some ?y" "placed demo_vm v1 a (locs (ext x))" using f(8) r by auto
  then have pg: "pages v1 (a + map_len ?y) = None" by (simp add: placed_def demo_vm_def)
  have fn: "ls_toc_find s1 ''k'' = Some 0"
    using toc_find_iff [OF store_invD(1) [OF f(1)]] y(1) found [OF s(1,3)] s(2) r by (auto simp: rkey_def)
  have small: "?n \<le> 8194" using locs_below [OF s(1,2)] s(7) by simp
  have dm: "demand s1 \<le> 100000" 
  proof -
    have "res_set s1 = {}" using budget_zero [OF f(1)] f(3) o(2) r by (auto simp: res_set_def)
    then show ?thesis using f(7) r s(7) by (simp add: demand_def)
  qed
  have c: "fits s1 (?n + 3 + length [7 :: byte])" "?n + 3 + length [7 :: byte] < u64_mod"
    using dm small by (simp_all add: fits_def u64_mod_def off_max_def)
  have "\<not> kv_frozen (opts s1) (store_abs s1) ''k'' (?n + 3 + length [7 :: byte])" using f(3) r s(6) by (simp add: kv_frozen_def opts_default_def)
  then obtain s2 rc where w: "ls_write s1 (Some ''k'') (?n + 3) (length [7 :: byte]) (Some [7]) = Some (s2, rc)" "write_outcome s1 ''k'' (?n + 3) [7] s2 rc"
    using ls_write_spec [OF f(1) key_k(1) c(2,1)] r by auto
  have "calm s1 (?n + 3 + length [7 :: byte])"
    using dm small f(6,7) r s(5,9) advances_quiet by (auto simp: calm_def roomy_def off_max_def)
  then have "rc = LS_OK" using w(2) by (simp add: write_outcome_def)
  have md: "mode (opts s1) = LS_MAPPED" using f(3) o(1) by simp
  have "map_addr ?y = Some a" "rsize ?y < ?n + 3 + length [7 :: byte]" "map_len ?y < ?n + 3 + length [7 :: byte]" using r by simp_all
  from outgrown_mapping [OF f(1) key_k(1) md fn y(1) this(1) c this(2,3) w(1) [unfolded \<open>rc = LS_OK\<close>] pg]
  show ?thesis by blast
qed

end
