(* ===== verification/Hdf5.thy ===== *)
theory Hdf5
  imports Calls
begin

text \<open>
  The HDF5 backend, \<open>src/hdf5.c\<close>, with the dispatch of \<open>ls_write\<close> and \<open>ls_read\<close> of \<open>src/store.c\<close>. The
  HDF5 library is a parameter: a record of the calls the backend makes, on an abstract state of the
  open file. What the backend relies on is stated as laws over a view of that state (the datasets
  with their bytes and attributes, the open handles); any call may fail. The lemmas show that the
  backend keeps the same map from keys to bytes as the POSIX backend does.
\<close>

subsection \<open>The library\<close>

text \<open>Handles and statuses are integers, negative for a failure. A dataspace that lives only between its
  creation and its closing is folded into the call it is made for: \<open>H5Dget_dims\<close> stands for
  \<open>H5Dget_space\<close>, \<open>H5Sget_simple_extent_dims\<close> and \<open>H5Sclose\<close>, and \<open>H5Dcreate2\<close> takes the dimension and the
  chunk size its dataspace and property list carry (the fill value is always zero).\<close>

type_synonym hid = int

record 'f hdf5 =
  H5Fopen :: "string \<Rightarrow> 'f option"
  H5Fcreate :: "string \<Rightarrow> 'f option"
  H5Fclose :: "'f \<Rightarrow> int"
  H5Lexists :: "'f \<Rightarrow> string \<Rightarrow> int"
  H5Ldelete :: "'f \<Rightarrow> string \<Rightarrow> 'f \<times> int"
  H5Literate :: "'f \<Rightarrow> string list"
  H5Dopen2 :: "'f \<Rightarrow> string \<Rightarrow> 'f \<times> hid"
  H5Dcreate2 :: "'f \<Rightarrow> string \<Rightarrow> nat \<Rightarrow> nat \<Rightarrow> 'f \<times> hid"
  H5Dclose :: "'f \<Rightarrow> hid \<Rightarrow> 'f"
  H5Dget_dims :: "'f \<Rightarrow> hid \<Rightarrow> nat"
  H5Dset_extent :: "'f \<Rightarrow> hid \<Rightarrow> nat \<Rightarrow> 'f \<times> int"
  H5Sselect_hyperslab :: "'f \<Rightarrow> hid \<Rightarrow> nat \<Rightarrow> nat \<Rightarrow> int"
  H5Dwrite :: "'f \<Rightarrow> hid \<Rightarrow> nat \<Rightarrow> byte list \<Rightarrow> 'f \<times> int"
  H5Dread :: "'f \<Rightarrow> hid \<Rightarrow> nat \<Rightarrow> nat \<Rightarrow> 'f \<times> int \<times> byte list"
  H5Aexists :: "'f \<Rightarrow> hid \<Rightarrow> int"
  H5Adelete :: "'f \<Rightarrow> hid \<Rightarrow> 'f \<times> int"
  H5Acreate2 :: "'f \<Rightarrow> hid \<Rightarrow> nat \<Rightarrow> 'f \<times> hid"
  H5Aopen :: "'f \<Rightarrow> hid \<Rightarrow> 'f \<times> hid"
  H5Aclose :: "'f \<Rightarrow> hid \<Rightarrow> 'f"
  H5Awrite :: "'f \<Rightarrow> hid \<Rightarrow> byte list \<Rightarrow> 'f \<times> int"
  H5Aget_dim :: "'f \<Rightarrow> hid \<Rightarrow> nat"
  H5Aread :: "'f \<Rightarrow> hid \<Rightarrow> 'f \<times> int \<times> byte list"

subsection \<open>Datasets\<close>

definition h5_dataset_exists :: "'f hdf5 \<Rightarrow> 'f \<Rightarrow> string \<Rightarrow> bool" where
  "h5_dataset_exists L f k \<longleftrightarrow> 0 < H5Lexists L f k"

definition H5_CHUNK_MAX :: nat where "H5_CHUNK_MAX = 2 ^ 20"
definition H5_CHUNK_MIN :: nat where "H5_CHUNK_MIN = 4096"

definition h5_chunk_for :: "nat \<Rightarrow> nat" where
  "h5_chunk_for need =
     (let c = (if need \<noteq> 0 then need else H5_CHUNK_MIN);
          c1 = (if c < H5_CHUNK_MIN then H5_CHUNK_MIN else c)
      in if H5_CHUNK_MAX < c1 then H5_CHUNK_MAX else c1)"

definition h5_open_or_create :: "'f hdf5 \<Rightarrow> 'f \<Rightarrow> string \<Rightarrow> nat \<Rightarrow> bool \<Rightarrow> 'f \<times> hid" where
  "h5_open_or_create L f k need create =
     (if h5_dataset_exists L f k then
        (case H5Dopen2 L f k of (f1, ds) \<Rightarrow>
           if ds < 0 then (f1, -1)
           else if need \<noteq> 0 \<and> H5Dget_dims L f1 ds < need then
             (case H5Dset_extent L f1 ds need of (f2, e) \<Rightarrow>
                if e < 0 then (H5Dclose L f2 ds, -1) else (f2, ds))
           else (f1, ds))
      else if \<not> create then (f, -1)
      else H5Dcreate2 L f k need (h5_chunk_for need))"

definition h5_extent :: "'f hdf5 \<Rightarrow> 'f \<Rightarrow> string \<Rightarrow> 'f \<times> int \<times> nat" where
  "h5_extent L f k =
     (if \<not> h5_dataset_exists L f k then (f, LS_ERR_NOKEY, 0)
      else (case H5Dopen2 L f k of (f1, ds) \<Rightarrow>
        if ds < 0 then (f1, LS_ERR_BACKEND, 0)
        else (H5Dclose L f1 ds, LS_OK, H5Dget_dims L f1 ds)))"

definition h5_transfer :: "'f hdf5 \<Rightarrow> 'f \<Rightarrow> string \<Rightarrow> nat \<Rightarrow> nat \<Rightarrow> byte list \<Rightarrow> ls_op \<Rightarrow> 'f \<times> int \<times> byte list" where
  "h5_transfer L f k off n wbuf op =
     (case h5_open_or_create L f k (if op = LS_OP_WRITE then add64 off n else 0) (op = LS_OP_WRITE) of (f1, ds) \<Rightarrow>
        if ds < 0 then (f1, if op = LS_OP_WRITE then LS_ERR_BACKEND else LS_ERR_NOKEY, [])
        else if op = LS_OP_READ \<and> H5Dget_dims L f1 ds < add64 off n then (H5Dclose L f1 ds, LS_ERR_RANGE, [])
        else if H5Sselect_hyperslab L f1 ds off n < 0 then (H5Dclose L f1 ds, LS_ERR_BACKEND, [])
        else (case op of
            LS_OP_WRITE \<Rightarrow>
              (case H5Dwrite L f1 ds off (take n wbuf) of (f2, e) \<Rightarrow>
                 (H5Dclose L f2 ds, if e < 0 then LS_ERR_BACKEND else LS_OK, []))
          | LS_OP_READ \<Rightarrow>
              (case H5Dread L f1 ds off n of (f2, e, out) \<Rightarrow>
                 (H5Dclose L f2 ds, if e < 0 then LS_ERR_BACKEND else LS_OK, out))))"

subsection \<open>Entry points\<close>

text \<open>The lock that every entry point holds makes each of them one step.\<close>

definition ls_h5_open :: "'f hdf5 \<Rightarrow> string \<Rightarrow> bool \<Rightarrow> int \<times> 'f option" where
  "ls_h5_open L p existing =
     (case (if existing then H5Fopen L p else H5Fcreate L p) of
        None \<Rightarrow> (if existing then LS_ERR_CORRUPT else LS_ERR_BACKEND, None)
      | Some f \<Rightarrow> (LS_OK, Some f))"

definition ls_h5_close :: "'f hdf5 \<Rightarrow> 'f option \<Rightarrow> int" where
  "ls_h5_close L fo = (case fo of None \<Rightarrow> LS_OK | Some f \<Rightarrow> if H5Fclose L f < 0 then LS_ERR_BACKEND else LS_OK)"

definition ls_h5_rw ::
  "'f hdf5 \<Rightarrow> ls_store \<Rightarrow> 'f \<Rightarrow> string \<Rightarrow> nat \<Rightarrow> nat \<Rightarrow> byte list \<Rightarrow> ls_op \<Rightarrow> ls_store \<times> 'f \<times> int \<times> byte list" where
  "ls_h5_rw L s f k off n wbuf op =
     (if n = 0 then (s, f, LS_OK, [])
      else (case h5_transfer L f k off n wbuf op of (f1, rc, out) \<Rightarrow>
        (if rc \<noteq> LS_OK then ls_report s rc (Some k) off n (case op of LS_OP_WRITE \<Rightarrow> ''write'' | LS_OP_READ \<Rightarrow> ''read'') else s,
         f1, rc, out)))"

definition ls_h5_size :: "'f hdf5 \<Rightarrow> 'f \<Rightarrow> string \<Rightarrow> 'f \<times> int \<times> nat" where
  "ls_h5_size L f k = h5_extent L f k"

definition ls_h5_exists :: "'f hdf5 \<Rightarrow> 'f \<Rightarrow> string \<Rightarrow> int \<times> bool" where
  "ls_h5_exists L f k = (LS_OK, h5_dataset_exists L f k)"

definition ls_h5_erase :: "'f hdf5 \<Rightarrow> 'f \<Rightarrow> string \<Rightarrow> 'f \<times> int" where
  "ls_h5_erase L f k =
     (if \<not> h5_dataset_exists L f k then (f, LS_ERR_NOKEY)
      else (case H5Ldelete L f k of (f1, e) \<Rightarrow> (f1, if e < 0 then LS_ERR_BACKEND else LS_OK)))"

definition ls_h5_reserve :: "'f hdf5 \<Rightarrow> ls_store \<Rightarrow> 'f \<Rightarrow> string \<Rightarrow> nat \<Rightarrow> ls_store \<times> 'f \<times> int" where
  "ls_h5_reserve L s f k nbytes =
     (case h5_open_or_create L f k nbytes True of (f1, ds) \<Rightarrow>
        if ds < 0 then (ls_report s LS_ERR_BACKEND (Some k) 0 0 ''reserve'', f1, LS_ERR_BACKEND)
        else (s, H5Dclose L f1 ds, LS_OK))"

definition ls_h5_append :: "'f hdf5 \<Rightarrow> 'f \<Rightarrow> string \<Rightarrow> nat \<Rightarrow> byte list \<Rightarrow> 'f \<times> int \<times> nat option" where
  "ls_h5_append L f k n buf =
     (case (if h5_dataset_exists L f k then h5_extent L f k else (f, LS_OK, 0)) of (f1, rc, at) \<Rightarrow>
        if rc \<noteq> LS_OK then (f1, rc, None)
        else (case h5_transfer L f1 k at n buf LS_OP_WRITE of (f2, rc2, _) \<Rightarrow>
          (f2, rc2, if rc2 = LS_OK then Some at else None)))"

definition ls_h5_accumulate ::
  "'f hdf5 \<Rightarrow> ls_store \<Rightarrow> 'f \<Rightarrow> string \<Rightarrow> nat \<Rightarrow> nat \<Rightarrow> byte list \<Rightarrow> ls_reduce \<Rightarrow> ls_store \<times> 'f \<times> int" where
  "ls_h5_accumulate L s f k off n buf red =
     (case st_malloc s of (ok, s1) \<Rightarrow>
        if \<not> ok then (s1, f, neg_errno ENOMEM)
        else (case h5_transfer L f k off n [] LS_OP_READ of (f1, rc, out) \<Rightarrow>
          let fresh_space = (rc = LS_ERR_NOKEY \<or> rc = LS_ERR_RANGE);
              tmp = (if fresh_space then zeros n else out) in
          (case (if fresh_space \<or> rc = LS_OK then h5_transfer L f1 k off n (red tmp buf) LS_OP_WRITE else (f1, rc, [])) of (f2, rc2, _) \<Rightarrow>
             (if rc2 \<noteq> LS_OK then ls_report s1 rc2 (Some k) off n ''accumulate'' else s1, f2, rc2))))"

definition ls_h5_set_attr :: "'f hdf5 \<Rightarrow> 'f \<Rightarrow> string \<Rightarrow> byte list \<Rightarrow> nat \<Rightarrow> 'f \<times> int" where
  "ls_h5_set_attr L f k blob n =
     (case h5_open_or_create L f k 0 True of (f1, ds) \<Rightarrow>
        if ds < 0 then (f1, LS_ERR_BACKEND)
        else
          let f2 = (if 0 < H5Aexists L f1 ds then fst (H5Adelete L f1 ds) else f1) in
          (case H5Acreate2 L f2 ds n of (f3, at) \<Rightarrow>
             if at < 0 then (H5Dclose L f3 ds, LS_ERR_BACKEND)
             else if n = 0 then (H5Dclose L (H5Aclose L f3 at) ds, LS_OK)
             else (case H5Awrite L f3 at (take n blob) of (f4, e) \<Rightarrow>
               (H5Dclose L (H5Aclose L f4 at) ds, if e < 0 then LS_ERR_BACKEND else LS_OK))))"

text \<open>\<open>cap\<close> is the caller's \<open>*n\<close>, \<open>wants\<close> whether it passed a buffer. The results are the code, the new \<open>*n\<close> and
  the bytes stored into the buffer.\<close>

definition ls_h5_get_attr :: "'f hdf5 \<Rightarrow> 'f \<Rightarrow> string \<Rightarrow> bool \<Rightarrow> nat \<Rightarrow> 'f \<times> int \<times> nat \<times> byte list" where
  "ls_h5_get_attr L f k wants cap =
     (if \<not> h5_dataset_exists L f k then (f, LS_ERR_NOKEY, cap, [])
      else (case H5Dopen2 L f k of (f1, ds) \<Rightarrow>
        if ds < 0 then (f1, LS_ERR_BACKEND, cap, [])
        else if H5Aexists L f1 ds \<le> 0 then (H5Dclose L f1 ds, LS_OK, 0, [])
        else (case H5Aopen L f1 ds of (f2, at) \<Rightarrow>
          let dim = H5Aget_dim L f2 at in
          if \<not> wants then (H5Dclose L (H5Aclose L f2 at) ds, LS_OK, dim, [])
          else if cap < dim then (H5Dclose L (H5Aclose L f2 at) ds, LS_ERR_RANGE, dim, [])
          else if dim = 0 then (H5Dclose L (H5Aclose L f2 at) ds, LS_OK, dim, [])
          else (case H5Aread L f2 at of (f3, e, out) \<Rightarrow>
            (H5Dclose L (H5Aclose L f3 at) ds, if e < 0 then LS_ERR_BACKEND else LS_OK, dim, if e < 0 then [] else out)))))"

text \<open>\<open>h5_collect\<close>, called for every name: the array doubles from sixteen entries, then the name is copied.
  \<open>None\<close> is the \<open>bad\<close> flag, which stops the iteration.\<close>

definition h5_collect :: "ls_store \<Rightarrow> nat \<Rightarrow> string list \<Rightarrow> string \<Rightarrow> ls_store \<times> (nat \<times> string list) option" where
  "h5_collect s cap ks k =
     (case (if length ks = cap then st_malloc s else (True, s)) of (ok, s1) \<Rightarrow>
        if \<not> ok then (s1, None)
        else
          let cap1 = (if length ks = cap then if cap \<noteq> 0 then cap * 2 else 16 else cap) in
          (case st_malloc s1 of (ok2, s2) \<Rightarrow>
             if \<not> ok2 then (s2, None) else (s2, Some (cap1, ks @ [k]))))"

fun h5_iterate :: "ls_store \<Rightarrow> nat \<Rightarrow> string list \<Rightarrow> string list \<Rightarrow> ls_store \<times> (nat \<times> string list) option" where
  "h5_iterate s cap ks [] = (s, Some (cap, ks))"
| "h5_iterate s cap ks (k # rest) =
     (case h5_collect s cap ks k of
        (s1, None) \<Rightarrow> (s1, None)
      | (s1, Some (cap1, ks1)) \<Rightarrow> h5_iterate s1 cap1 ks1 rest)"

definition ls_h5_keys :: "'f hdf5 \<Rightarrow> ls_store \<Rightarrow> 'f \<Rightarrow> ls_store \<times> int \<times> string list" where
  "ls_h5_keys L s f =
     (case h5_iterate s 0 [] (H5Literate L f) of
        (s1, None) \<Rightarrow> (s1, neg_errno ENOMEM, [])
      | (s1, Some (cap, ks)) \<Rightarrow>
          if cap = 0 then (case st_malloc s1 of (ok, s2) \<Rightarrow> if ok then (s2, LS_OK, ks) else (s2, neg_errno ENOMEM, []))
          else (s1, LS_OK, ks))"

text \<open>The dispatch: the arguments are checked, then the backend is called; the 64-bit overflow check of
  \<open>ls_rw\<close> lies behind the dispatch and is not made.\<close>

definition h5_ls_write :: "'f hdf5 \<Rightarrow> ls_store \<Rightarrow> 'f \<Rightarrow> string option \<Rightarrow> nat \<Rightarrow> nat \<Rightarrow> byte list option \<Rightarrow> ls_store \<times> 'f \<times> int" where
  "h5_ls_write L s f ko off n buf =
     (if \<not> ls_key_ok ko \<or> (n \<noteq> 0 \<and> buf = None) then (s, f, LS_ERR_INVAL)
      else (case ls_h5_rw L s f (the ko) off n (case buf of None \<Rightarrow> [] | Some bs \<Rightarrow> bs) LS_OP_WRITE of (s1, f1, rc, _) \<Rightarrow> (s1, f1, rc)))"

definition h5_ls_read :: "'f hdf5 \<Rightarrow> ls_store \<Rightarrow> 'f \<Rightarrow> string option \<Rightarrow> nat \<Rightarrow> nat \<Rightarrow> bool \<Rightarrow> ls_store \<times> 'f \<times> int \<times> byte list" where
  "h5_ls_read L s f ko off n outp =
     (if \<not> ls_key_ok ko \<or> (n \<noteq> 0 \<and> \<not> outp) then (s, f, LS_ERR_INVAL, [])
      else ls_h5_rw L s f (the ko) off n [] LS_OP_READ)"

subsection \<open>What the backend relies on\<close>

text \<open>A view of the open file: its datasets with their bytes and the attribute, the dataset and attribute
  handles that are open with the name they belong to, and a predicate for a file on which the
  library's calls do not fail. The laws are stated for names of one component: HDF5 reads a slash
  as a separator of groups and a dot as the group itself.\<close>

record 'f h5_sem =
  hview :: "'f \<Rightarrow> string \<rightharpoonup> byte list \<times> byte list option"
  hds :: "'f \<Rightarrow> hid \<rightharpoonup> string"
  hat :: "'f \<Rightarrow> hid \<rightharpoonup> string"
  hcalm :: "'f \<Rightarrow> bool"

definition h5_name :: "string \<Rightarrow> bool" where
  "h5_name k \<longleftrightarrow> CHR ''/'' \<notin> set k \<and> k \<noteq> ''.''"

definition h5_handle_laws :: "'f hdf5 \<Rightarrow> 'f h5_sem \<Rightarrow> bool" where
  "h5_handle_laws L M \<longleftrightarrow>
     (\<forall>f k. h5_name k \<longrightarrow> (0 < H5Lexists L f k) = (hview M f k \<noteq> None))
   \<and> (\<forall>f k f' d. h5_name k \<longrightarrow> H5Dopen2 L f k = (f', d) \<longrightarrow> hview M f' = hview M f
        \<and> (0 \<le> d \<longrightarrow> hds M f' d = Some k) \<and> (hcalm M f \<longrightarrow> hcalm M f' \<and> (hview M f k \<noteq> None \<longrightarrow> 0 \<le> d)))
   \<and> (\<forall>f d. hview M (H5Dclose L f d) = hview M f \<and> (hcalm M f \<longrightarrow> hcalm M (H5Dclose L f d)))
   \<and> (\<forall>f d k c a. hds M f d = Some k \<longrightarrow> hview M f k = Some (c, a) \<longrightarrow> H5Dget_dims L f d = length c)"

definition h5_space_laws :: "'f hdf5 \<Rightarrow> 'f h5_sem \<Rightarrow> bool" where
  "h5_space_laws L M \<longleftrightarrow>
     (\<forall>f k n ch f' d. h5_name k \<longrightarrow> hview M f k = None \<longrightarrow> 0 < ch \<longrightarrow> H5Dcreate2 L f k n ch = (f', d) \<longrightarrow>
        hview M f' = (if d < 0 then hview M f else (hview M f)(k \<mapsto> (zeros n, None)))
        \<and> (0 \<le> d \<longrightarrow> hds M f' d = Some k) \<and> (hcalm M f \<longrightarrow> hcalm M f' \<and> 0 \<le> d))
   \<and> (\<forall>f d k c a n f' e. hds M f d = Some k \<longrightarrow> hview M f k = Some (c, a) \<longrightarrow> length c \<le> n \<longrightarrow> H5Dset_extent L f d n = (f', e) \<longrightarrow>
        hview M f' = (if e < 0 then hview M f else (hview M f)(k \<mapsto> (grown c n, a)))
        \<and> hds M f' d = Some k \<and> (hcalm M f \<longrightarrow> hcalm M f' \<and> 0 \<le> e))"

definition h5_transfer_laws :: "'f hdf5 \<Rightarrow> 'f h5_sem \<Rightarrow> bool" where
  "h5_transfer_laws L M \<longleftrightarrow>
     (\<forall>f d k c a off n. hds M f d = Some k \<longrightarrow> hview M f k = Some (c, a) \<longrightarrow> off + n \<le> length c \<longrightarrow> hcalm M f \<longrightarrow>
        0 \<le> H5Sselect_hyperslab L f d off n)
   \<and> (\<forall>f d k c a off bs f' e. hds M f d = Some k \<longrightarrow> hview M f k = Some (c, a) \<longrightarrow> off + length bs \<le> length c \<longrightarrow>
        H5Dwrite L f d off bs = (f', e) \<longrightarrow>
        (\<exists>c'. hview M f' = (hview M f)(k \<mapsto> (c', a)) \<and> patched_somehow c off (length bs) c' \<and> (0 \<le> e \<longrightarrow> c' = blit c off bs))
        \<and> (hcalm M f \<longrightarrow> hcalm M f' \<and> 0 \<le> e))
   \<and> (\<forall>f d k c a off n f' e out. hds M f d = Some k \<longrightarrow> hview M f k = Some (c, a) \<longrightarrow> off + n \<le> length c \<longrightarrow>
        H5Dread L f d off n = (f', e, out) \<longrightarrow>
        hview M f' = hview M f \<and> (0 \<le> e \<longrightarrow> out = part c off n) \<and> (hcalm M f \<longrightarrow> hcalm M f' \<and> 0 \<le> e))"

definition h5_link_laws :: "'f hdf5 \<Rightarrow> 'f h5_sem \<Rightarrow> bool" where
  "h5_link_laws L M \<longleftrightarrow>
     (\<forall>f k f' e. h5_name k \<longrightarrow> hview M f k \<noteq> None \<longrightarrow> H5Ldelete L f k = (f', e) \<longrightarrow>
        hview M f' = (if e < 0 then hview M f else (hview M f)(k := None)) \<and> (hcalm M f \<longrightarrow> hcalm M f' \<and> 0 \<le> e))
   \<and> (\<forall>f. distinct (H5Literate L f) \<and> set (H5Literate L f) = dom (hview M f))"

definition h5_attr_laws :: "'f hdf5 \<Rightarrow> 'f h5_sem \<Rightarrow> bool" where
  "h5_attr_laws L M \<longleftrightarrow>
     (\<forall>f d k c a. hds M f d = Some k \<longrightarrow> hview M f k = Some (c, a) \<longrightarrow> (0 < H5Aexists L f d) = (a \<noteq> None))
   \<and> (\<forall>f d k c a f' e. hds M f d = Some k \<longrightarrow> hview M f k = Some (c, Some a) \<longrightarrow> H5Adelete L f d = (f', e) \<longrightarrow>
        hview M f' = (if e < 0 then hview M f else (hview M f)(k \<mapsto> (c, None)))
        \<and> hds M f' d = Some k \<and> (hcalm M f \<longrightarrow> hcalm M f' \<and> 0 \<le> e))
   \<and> (\<forall>f d k c a n f' h. hds M f d = Some k \<longrightarrow> hview M f k = Some (c, a) \<longrightarrow> H5Acreate2 L f d n = (f', h) \<longrightarrow>
        (h < 0 \<longrightarrow> hview M f' = hview M f)
        \<and> (0 \<le> h \<longrightarrow> a = None \<and> hat M f' h = Some k \<and> (\<exists>x. length x = n \<and> hview M f' = (hview M f)(k \<mapsto> (c, Some x))))
        \<and> (hcalm M f \<longrightarrow> hcalm M f' \<and> (a = None \<longrightarrow> 0 \<le> h)))
   \<and> (\<forall>f h k c a bs f' e. hat M f h = Some k \<longrightarrow> hview M f k = Some (c, Some a) \<longrightarrow> length bs = length a \<longrightarrow> H5Awrite L f h bs = (f', e) \<longrightarrow>
        (\<exists>x. length x = length a \<and> hview M f' = (hview M f)(k \<mapsto> (c, Some x)) \<and> (0 \<le> e \<longrightarrow> x = bs))
        \<and> (hcalm M f \<longrightarrow> hcalm M f' \<and> 0 \<le> e))
   \<and> (\<forall>f d k c a f' h. hds M f d = Some k \<longrightarrow> hview M f k = Some (c, Some a) \<longrightarrow> H5Aopen L f d = (f', h) \<longrightarrow>
        hview M f' = hview M f \<and> (0 \<le> h \<longrightarrow> hat M f' h = Some k) \<and> (hcalm M f \<longrightarrow> hcalm M f' \<and> 0 \<le> h))
   \<and> (\<forall>f h. hview M (H5Aclose L f h) = hview M f \<and> (hcalm M f \<longrightarrow> hcalm M (H5Aclose L f h)))
   \<and> (\<forall>f h k c a. hat M f h = Some k \<longrightarrow> hview M f k = Some (c, Some a) \<longrightarrow> H5Aget_dim L f h = length a)
   \<and> (\<forall>f h k c a f' e out. hat M f h = Some k \<longrightarrow> hview M f k = Some (c, Some a) \<longrightarrow> H5Aread L f h = (f', e, out) \<longrightarrow>
        hview M f' = hview M f \<and> (0 \<le> e \<longrightarrow> out = a) \<and> (hcalm M f \<longrightarrow> hcalm M f' \<and> 0 \<le> e))"

definition h5_laws :: "'f hdf5 \<Rightarrow> 'f h5_sem \<Rightarrow> bool" where
  "h5_laws L M \<longleftrightarrow> h5_handle_laws L M \<and> h5_space_laws L M \<and> h5_transfer_laws L M \<and> h5_link_laws L M \<and> h5_attr_laws L M"

text \<open>The abstract map of an HDF5 store, of the same type as that of a POSIX store.\<close>

definition h5_view :: "'f h5_sem \<Rightarrow> 'f \<Rightarrow> kv" where
  "h5_view M f k = map_option (\<lambda>(c, a). (c, case a of None \<Rightarrow> [] | Some b \<Rightarrow> b)) (hview M f k)"

definition raw :: "'f h5_sem \<Rightarrow> 'f \<Rightarrow> string \<Rightarrow> byte list \<times> byte list option" where
  "raw M f k = (case hview M f k of None \<Rightarrow> ([], None) | Some v \<Rightarrow> v)"

lemma backend_codes [simp]:
  "LS_ERR_BACKEND \<noteq> LS_OK" "LS_ERR_BACKEND \<noteq> LS_ERR_NOKEY" "LS_ERR_BACKEND \<noteq> LS_ERR_RANGE" "LS_ERR_NOKEY \<noteq> LS_ERR_BACKEND"
  by (simp_all add: LS_ERR_BACKEND_def LS_ERR_NOKEY_def LS_ERR_RANGE_def LS_OK_def)

lemma raw_None [simp]: "hview M f k = None \<Longrightarrow> raw M f k = ([], None)"
  and raw_Some [simp]: "hview M f k = Some v \<Longrightarrow> raw M f k = v"
  by (simp_all add: raw_def)

lemma kv_get_view: "kv_get (h5_view M f) k = (fst (raw M f k), case snd (raw M f k) of None \<Rightarrow> [] | Some b \<Rightarrow> b)"
  by (simp add: kv_get_def h5_view_def raw_def split: option.splits prod.splits)

lemma h5_view_upd:
  "hview M f' = (hview M f)(k \<mapsto> (c, a)) \<Longrightarrow> h5_view M f' = (h5_view M f)(k \<mapsto> (c, case a of None \<Rightarrow> [] | Some b \<Rightarrow> b))"
  "hview M f' = hview M f \<Longrightarrow> h5_view M f' = h5_view M f"
  by (simp_all add: h5_view_def fun_eq_iff)

lemma grown_0 [simp]: "n \<le> length c \<Longrightarrow> grown c n = c" "grown [] n = zeros n"
  by (simp_all add: grown_def zeros_def)

subsection \<open>Opening a dataset\<close>

lemma chunk_pos: "0 < h5_chunk_for need" "h5_chunk_for need \<le> H5_CHUNK_MAX" "H5_CHUNK_MIN \<le> h5_chunk_for need"
  by (simp_all add: h5_chunk_for_def Let_def H5_CHUNK_MAX_def H5_CHUNK_MIN_def)

lemma h5_handleD:
  assumes "h5_laws L M"
  shows "h5_name k \<Longrightarrow> h5_dataset_exists L f k = (hview M f k \<noteq> None)"
    "h5_name k \<Longrightarrow> H5Dopen2 L f k = (f', d) \<Longrightarrow> hview M f' = hview M f"
    "h5_name k \<Longrightarrow> H5Dopen2 L f k = (f', d) \<Longrightarrow> 0 \<le> d \<Longrightarrow> hds M f' d = Some k"
    "h5_name k \<Longrightarrow> H5Dopen2 L f k = (f', d) \<Longrightarrow> hcalm M f \<Longrightarrow> hcalm M f'"
    "h5_name k \<Longrightarrow> H5Dopen2 L f k = (f', d) \<Longrightarrow> hcalm M f \<Longrightarrow> hview M f k \<noteq> None \<Longrightarrow> 0 \<le> d"
    "hview M (H5Dclose L f d) = hview M f" "hcalm M f \<Longrightarrow> hcalm M (H5Dclose L f d)"
    "hds M f d = Some k \<Longrightarrow> hview M f k = Some (c, a) \<Longrightarrow> H5Dget_dims L f d = length c"
proof -
  have "h5_handle_laws L M" using assms by (simp add: h5_laws_def)
  note l = this [unfolded h5_handle_laws_def]
  show "h5_name k \<Longrightarrow> h5_dataset_exists L f k = (hview M f k \<noteq> None)" unfolding h5_dataset_exists_def using l by blast
  show "h5_name k \<Longrightarrow> H5Dopen2 L f k = (f', d) \<Longrightarrow> hview M f' = hview M f"
    "h5_name k \<Longrightarrow> H5Dopen2 L f k = (f', d) \<Longrightarrow> 0 \<le> d \<Longrightarrow> hds M f' d = Some k"
    "h5_name k \<Longrightarrow> H5Dopen2 L f k = (f', d) \<Longrightarrow> hcalm M f \<Longrightarrow> hcalm M f'"
    "h5_name k \<Longrightarrow> H5Dopen2 L f k = (f', d) \<Longrightarrow> hcalm M f \<Longrightarrow> hview M f k \<noteq> None \<Longrightarrow> 0 \<le> d" using l by blast+
  show "hview M (H5Dclose L f d) = hview M f" "hcalm M f \<Longrightarrow> hcalm M (H5Dclose L f d)" using l by blast+
  show "hds M f d = Some k \<Longrightarrow> hview M f k = Some (c, a) \<Longrightarrow> H5Dget_dims L f d = length c" using l by blast
qed

lemma h5_spaceD:
  assumes "h5_laws L M"
  shows "h5_name k \<Longrightarrow> hview M f k = None \<Longrightarrow> 0 < ch \<Longrightarrow> H5Dcreate2 L f k n ch = (f', d) \<Longrightarrow>
       hview M f' = (if d < 0 then hview M f else (hview M f)(k \<mapsto> (zeros n, None)))
       \<and> (0 \<le> d \<longrightarrow> hds M f' d = Some k) \<and> (hcalm M f \<longrightarrow> hcalm M f' \<and> 0 \<le> d)"
    "hds M f d = Some k \<Longrightarrow> hview M f k = Some (c, a) \<Longrightarrow> length c \<le> n \<Longrightarrow> H5Dset_extent L f d n = (f', e) \<Longrightarrow>
       hview M f' = (if e < 0 then hview M f else (hview M f)(k \<mapsto> (grown c n, a)))
       \<and> hds M f' d = Some k \<and> (hcalm M f \<longrightarrow> hcalm M f' \<and> 0 \<le> e)"
  using assms [unfolded h5_laws_def h5_space_laws_def] by blast+

lemma open_or_create_spec:
  assumes L: "h5_laws L M" and k: "h5_name k" and oc: "h5_open_or_create L f k need create = (f1, ds)"
  shows "ds < 0 \<Longrightarrow> hview M f1 = hview M f"
    "0 \<le> ds \<Longrightarrow> hds M f1 ds = Some k \<and> (create \<or> hview M f k \<noteq> None)
       \<and> hview M f1 = (hview M f)(k \<mapsto> (grown (fst (raw M f k)) need, snd (raw M f k)))"
    "hcalm M f \<Longrightarrow> hcalm M f1 \<and> (create \<or> hview M f k \<noteq> None \<longrightarrow> 0 \<le> ds)"
proof -
  note h = h5_handleD [OF L]
  note sp = h5_spaceD [OF L]
  have "(ds < 0 \<longrightarrow> hview M f1 = hview M f)
    \<and> (0 \<le> ds \<longrightarrow> hds M f1 ds = Some k \<and> (create \<or> hview M f k \<noteq> None)
       \<and> hview M f1 = (hview M f)(k \<mapsto> (grown (fst (raw M f k)) need, snd (raw M f k))))
    \<and> (hcalm M f \<longrightarrow> hcalm M f1 \<and> (create \<or> hview M f k \<noteq> None \<longrightarrow> 0 \<le> ds))"
  proof (cases "hview M f k")
    case None
    show ?thesis
    proof (cases create)
      case True
      then have "H5Dcreate2 L f k need (h5_chunk_for need) = (f1, ds)" using oc None h(1) [OF k, of f] by (simp add: h5_open_or_create_def)
      then have "hview M f1 = (if ds < 0 then hview M f else (hview M f)(k \<mapsto> (zeros need, None)))
        \<and> (0 \<le> ds \<longrightarrow> hds M f1 ds = Some k) \<and> (hcalm M f \<longrightarrow> hcalm M f1 \<and> 0 \<le> ds)"
        by (rule sp(1) [OF k None chunk_pos(1)])
      then show ?thesis using None True by auto
    next
      case False
      then show ?thesis using oc None h(1) [OF k, of f] by (auto simp: h5_open_or_create_def)
    qed
  next
    case (Some v)
    obtain c a where v: "v = (c, a)" by fastforce
    obtain g d where o: "H5Dopen2 L f k = (g, d)" by fastforce
    note o1 = h(2-5) [OF k o]
    have vg: "hview M g k = Some (c, a)" using Some v o1(1) by simp
    show ?thesis
    proof (cases "0 \<le> d \<and> need \<noteq> 0 \<and> length c < need")
      case True
      have hd: "hds M g d = Some k" using o1(2) True by simp
      have dims: "H5Dget_dims L g d = length c" by (rule h(8) [OF hd vg])
      obtain g2 e where x: "H5Dset_extent L g d need = (g2, e)" by fastforce
      have "hview M g2 = (if e < 0 then hview M g else (hview M g)(k \<mapsto> (grown c need, a)))
        \<and> hds M g2 d = Some k \<and> (hcalm M g \<longrightarrow> hcalm M g2 \<and> 0 \<le> e)"
        by (rule sp(2) [OF hd vg _ x]) (use True in simp)
      moreover have "(f1, ds) = (if e < 0 then (H5Dclose L g2 d, -1) else (g2, d))"
        using oc o x dims True Some h(1) [OF k, of f] by (simp add: h5_open_or_create_def)
      ultimately show ?thesis using True Some v o1 h(6,7) by (auto split: if_splits)
    next
      case False
      have "H5Dget_dims L g d = length c" if "0 \<le> d" using h(8) [OF o1(2) [OF that] vg] .
      then have "(f1, ds) = (if d < 0 then (g, -1) else (g, d))"
        using oc o False Some h(1) [OF k, of f] by (auto simp: h5_open_or_create_def)
      moreover have "grown c need = c" if "0 \<le> d" using False that by (cases "need = 0") simp_all
      ultimately show ?thesis using Some v o1 vg by (auto simp: fun_upd_idem split: if_splits)
    qed
  qed
  then show "ds < 0 \<Longrightarrow> hview M f1 = hview M f"
    "0 \<le> ds \<Longrightarrow> hds M f1 ds = Some k \<and> (create \<or> hview M f k \<noteq> None)
       \<and> hview M f1 = (hview M f)(k \<mapsto> (grown (fst (raw M f k)) need, snd (raw M f k)))"
    "hcalm M f \<Longrightarrow> hcalm M f1 \<and> (create \<or> hview M f k \<noteq> None \<longrightarrow> 0 \<le> ds)" by blast+
qed

subsection \<open>Transfers\<close>

lemma h5_transferD:
  assumes "h5_laws L M"
  shows "hds M f d = Some k \<Longrightarrow> hview M f k = Some (c, a) \<Longrightarrow> off + n \<le> length c \<Longrightarrow> hcalm M f \<Longrightarrow> 0 \<le> H5Sselect_hyperslab L f d off n"
    "hds M f d = Some k \<Longrightarrow> hview M f k = Some (c, a) \<Longrightarrow> off + length bs \<le> length c \<Longrightarrow> H5Dwrite L f d off bs = (f', e) \<Longrightarrow>
       (\<exists>c'. hview M f' = (hview M f)(k \<mapsto> (c', a)) \<and> patched_somehow c off (length bs) c' \<and> (0 \<le> e \<longrightarrow> c' = blit c off bs))
       \<and> (hcalm M f \<longrightarrow> hcalm M f' \<and> 0 \<le> e)"
    "hds M f d = Some k \<Longrightarrow> hview M f k = Some (c, a) \<Longrightarrow> off + n \<le> length c \<Longrightarrow> H5Dread L f d off n = (f', e, out) \<Longrightarrow>
       hview M f' = hview M f \<and> (0 \<le> e \<longrightarrow> out = part c off n) \<and> (hcalm M f \<longrightarrow> hcalm M f' \<and> 0 \<le> e)"
proof -
  have "h5_transfer_laws L M" using assms by (simp add: h5_laws_def)
  note l = this [unfolded h5_transfer_laws_def]
  show "hds M f d = Some k \<Longrightarrow> hview M f k = Some (c, a) \<Longrightarrow> off + n \<le> length c \<Longrightarrow> hcalm M f \<Longrightarrow> 0 \<le> H5Sselect_hyperslab L f d off n"
    by (rule l [THEN conjunct1, rule_format])
  show "hds M f d = Some k \<Longrightarrow> hview M f k = Some (c, a) \<Longrightarrow> off + length bs \<le> length c \<Longrightarrow> H5Dwrite L f d off bs = (f', e) \<Longrightarrow>
       (\<exists>c'. hview M f' = (hview M f)(k \<mapsto> (c', a)) \<and> patched_somehow c off (length bs) c' \<and> (0 \<le> e \<longrightarrow> c' = blit c off bs))
       \<and> (hcalm M f \<longrightarrow> hcalm M f' \<and> 0 \<le> e)"
    by (rule l [THEN conjunct2, THEN conjunct1, rule_format])
  show "hds M f d = Some k \<Longrightarrow> hview M f k = Some (c, a) \<Longrightarrow> off + n \<le> length c \<Longrightarrow> H5Dread L f d off n = (f', e, out) \<Longrightarrow>
       hview M f' = hview M f \<and> (0 \<le> e \<longrightarrow> out = part c off n) \<and> (hcalm M f \<longrightarrow> hcalm M f' \<and> 0 \<le> e)"
    by (rule l [THEN conjunct2, THEN conjunct2, rule_format])
qed

lemma patched_same: "patched_somehow c off n c"
  by (simp add: patched_somehow_def)

lemma transfer_write_spec:
  assumes L: "h5_laws L M" and k: "h5_name k" and fit: "off + length bs < u64_mod"
    and tr: "h5_transfer L f k off (length bs) bs LS_OP_WRITE = (f', rc, out)"
  shows "rc = LS_OK \<Longrightarrow> h5_view M f' = kv_write (h5_view M f) k off bs"
    "rc \<noteq> LS_OK \<Longrightarrow> rc = LS_ERR_BACKEND \<and> write_fails (h5_view M f) k off (length bs) (h5_view M f')"
    "hcalm M f \<Longrightarrow> rc = LS_OK \<and> hcalm M f'"
proof -
  let ?hi = "off + length bs" and ?c = "grown (fst (raw M f k)) (off + length bs)" and ?a = "snd (raw M f k)"
  note h = h5_handleD [OF L]
  obtain f1 ds where oc: "h5_open_or_create L f k ?hi True = (f1, ds)" by fastforce
  note sp = open_or_create_spec [OF L k oc]
  have "(rc = LS_OK \<longrightarrow> h5_view M f' = kv_write (h5_view M f) k off bs)
    \<and> (rc \<noteq> LS_OK \<longrightarrow> rc = LS_ERR_BACKEND \<and> write_fails (h5_view M f) k off (length bs) (h5_view M f'))
    \<and> (hcalm M f \<longrightarrow> rc = LS_OK \<and> hcalm M f')"
  proof (cases "0 \<le> ds")
    case False
    then have "f' = f1" "rc = LS_ERR_BACKEND" using tr oc fit by (simp_all add: h5_transfer_def)
    then show ?thesis using sp False h5_view_upd(2) [of M f' f] by (auto simp: write_fails_def)
  next
    case True
    have v: "hds M f1 ds = Some k" "hview M f1 = (hview M f)(k \<mapsto> (?c, ?a))" using sp(2) [OF True] by blast+
    have vk: "hview M f1 k = Some (?c, ?a)" and le: "?hi \<le> length ?c" using v(2) by (simp_all add: grown_def)
    have fails: "write_fails (h5_view M f) k off (length bs) (h5_view M g)"
      if "hview M g = (hview M f)(k \<mapsto> (c', ?a))" "patched_somehow ?c off (length bs) c'" for g c'
      using that h5_view_upd(1) [OF that(1)] by (auto simp: write_fails_def kv_get_view)
    show ?thesis
    proof (cases "H5Sselect_hyperslab L f1 ds off (length bs) < 0")
      case sel: True
      then have "f' = H5Dclose L f1 ds" "rc = LS_ERR_BACKEND" using tr oc fit True by (simp_all add: h5_transfer_def)
      moreover have "\<not> hcalm M f" using h5_transferD(1) [OF L v(1) vk le] sel sp(3) by auto
      ultimately show ?thesis using fails [of f' ?c] h(6) [of f1 ds] v(2) patched_same by simp
    next
      case sel: False
      obtain f2 e where w: "H5Dwrite L f1 ds off bs = (f2, e)" by fastforce
      then have r: "f' = H5Dclose L f2 ds" "rc = (if e < 0 then LS_ERR_BACKEND else LS_OK)"
        using tr oc fit True sel by (simp_all add: h5_transfer_def)
      obtain c' where c': "hview M f2 = (hview M f1)(k \<mapsto> (c', ?a))" "patched_somehow ?c off (length bs) c'" "0 \<le> e \<longrightarrow> c' = blit ?c off bs"
        and calm: "hcalm M f1 \<longrightarrow> hcalm M f2 \<and> 0 \<le> e"
        using h5_transferD(2) [OF L v(1) vk le w] by blast
      have vf: "hview M f' = (hview M f)(k \<mapsto> (c', ?a))" using r(1) h(6) [of f2 ds] c'(1) v(2) by simp
      have "h5_view M f' = kv_write (h5_view M f) k off bs" if "0 \<le> e"
        using h5_view_upd(1) [OF vf] c'(3) that by (simp add: kv_write_def kv_get_view patch_def)
      moreover have "hcalm M f \<longrightarrow> rc = LS_OK \<and> hcalm M f'" using sp(3) calm r h(7) by auto
      ultimately show ?thesis using fails [OF vf c'(2)] r(2) by auto
    qed
  qed
  then show "rc = LS_OK \<Longrightarrow> h5_view M f' = kv_write (h5_view M f) k off bs"
    "rc \<noteq> LS_OK \<Longrightarrow> rc = LS_ERR_BACKEND \<and> write_fails (h5_view M f) k off (length bs) (h5_view M f')"
    "hcalm M f \<Longrightarrow> rc = LS_OK \<and> hcalm M f'" by blast+
qed

text \<open>What a read of a range answers when nothing fails.\<close>

definition read_code :: "kv \<Rightarrow> string \<Rightarrow> nat \<Rightarrow> int" where
  "read_code m k hi = (case m k of None \<Rightarrow> LS_ERR_NOKEY | Some (c, a) \<Rightarrow> if length c < hi then LS_ERR_RANGE else LS_OK)"

lemma transfer_read_spec:
  assumes L: "h5_laws L M" and k: "h5_name k" and fit: "off + n < u64_mod"
    and tr: "h5_transfer L f k off n buf LS_OP_READ = (f', rc, out)"
  shows "h5_view M f' = h5_view M f" "hview M f' = hview M f"
    "rc = LS_OK \<Longrightarrow> off + n \<le> length (fst (kv_get (h5_view M f) k)) \<and> out = part (fst (kv_get (h5_view M f) k)) off n"
    "hcalm M f \<Longrightarrow> rc = read_code (h5_view M f) k (off + n) \<and> hcalm M f'" "h5_view M f k = None \<Longrightarrow> rc \<noteq> LS_OK"
proof -
  note h = h5_handleD [OF L]
  obtain f1 ds where oc: "h5_open_or_create L f k 0 False = (f1, ds)" by fastforce
  note sp = open_or_create_spec [OF L k oc]
  have "hview M f' = hview M f
    \<and> (rc = LS_OK \<longrightarrow> off + n \<le> length (fst (raw M f k)) \<and> out = part (fst (raw M f k)) off n \<and> h5_view M f k \<noteq> None)
    \<and> (hcalm M f \<longrightarrow> rc = read_code (h5_view M f) k (off + n) \<and> hcalm M f')"
  proof (cases "0 \<le> ds")
    case False
    then have r: "f' = f1" "rc = LS_ERR_NOKEY" using tr oc by (simp_all add: h5_transfer_def)
    have "hview M f1 = hview M f" "hcalm M f \<Longrightarrow> hview M f k = None" using sp(1,3) False by linarith+
    then show ?thesis using sp(3) r by (auto simp: read_code_def h5_view_def)
  next
    case True
    then have "hview M f k \<noteq> None" using sp(2) by auto
    then obtain c a where ca: "hview M f k = Some (c, a)" by auto
    have v: "hds M f1 ds = Some k" "hview M f1 = hview M f" using sp(2) [OF True] ca by (auto simp: fun_upd_idem)
    then have vk: "hview M f1 k = Some (c, a)" using ca by simp
    have dims: "H5Dget_dims L f1 ds = length c" by (rule h(8) [OF v(1) vk])
    have code: "read_code (h5_view M f) k (off + n) = (if length c < off + n then LS_ERR_RANGE else LS_OK)" "h5_view M f k \<noteq> None"
      using ca by (simp_all add: read_code_def h5_view_def)
    show ?thesis
    proof (cases "off + n \<le> length c")
      case False
      then have "f' = H5Dclose L f1 ds" "rc = LS_ERR_RANGE" using tr oc fit True dims by (simp_all add: h5_transfer_def)
      then show ?thesis using h(6,7) v sp(3) code False by simp
    next
      case le: True
      show ?thesis
      proof (cases "H5Sselect_hyperslab L f1 ds off n < 0")
        case sel: True
        then have "f' = H5Dclose L f1 ds" "rc = LS_ERR_BACKEND" using tr oc fit True dims le by (simp_all add: h5_transfer_def)
        moreover have "\<not> hcalm M f" using h5_transferD(1) [OF L v(1) vk le] sel sp(3) by auto
        ultimately show ?thesis using h(6) v by simp
      next
        case sel: False
        obtain f2 e b where w: "H5Dread L f1 ds off n = (f2, e, b)" by (metis prod_cases3)
        then have r: "f' = H5Dclose L f2 ds" "rc = (if e < 0 then LS_ERR_BACKEND else LS_OK)" "out = b"
          using tr oc fit True sel dims le by (simp_all add: h5_transfer_def)
        have "hview M f2 = hview M f1 \<and> (0 \<le> e \<longrightarrow> b = part c off n) \<and> (hcalm M f1 \<longrightarrow> hcalm M f2 \<and> 0 \<le> e)"
          by (rule h5_transferD(3) [OF L v(1) vk le w])
        then show ?thesis using r h(6,7) v sp(3) code le ca by auto
      qed
    qed
  qed
  then show "hview M f' = hview M f"
    "rc = LS_OK \<Longrightarrow> off + n \<le> length (fst (kv_get (h5_view M f) k)) \<and> out = part (fst (kv_get (h5_view M f) k)) off n"
    "hcalm M f \<Longrightarrow> rc = read_code (h5_view M f) k (off + n) \<and> hcalm M f'" "h5_view M f k = None \<Longrightarrow> rc \<noteq> LS_OK"
    by (auto simp: kv_get_view)
  from this(1) show "h5_view M f' = h5_view M f" by (rule h5_view_upd(2))
qed

end
