(* ===== verification/Backends.thy ===== *)
theory Backends
  imports Hdf5
begin

text \<open>
  The two backends behind one contract. The HDF5 backend is shown to satisfy the same interface
  \<open>byte_map\<close> as the POSIX backend, for every HDF5 library that keeps the laws of \<open>Hdf5\<close>, so that a program of
  writes and reads gives the same answers on both; the remaining calls of the HDF5 backend are
  specified against the same abstract map, and one place is shown where the backends differ.
\<close>

subsection \<open>The remaining calls\<close>

lemma h5_erase_spec:
  assumes L: "h5_laws L M" and k: "h5_name k" and er: "ls_h5_erase L f k = (f', rc)"
  shows "rc = LS_ERR_NOKEY \<longleftrightarrow> h5_view M f k = None"
    "rc = LS_OK \<Longrightarrow> h5_view M f' = (h5_view M f)(k := None)" "rc \<noteq> LS_OK \<Longrightarrow> h5_view M f' = h5_view M f"
    "hcalm M f \<Longrightarrow> h5_view M f k \<noteq> None \<Longrightarrow> rc = LS_OK"
proof -
  have x: "h5_dataset_exists L f k = (hview M f k \<noteq> None)" by (rule h5_handleD(1) [OF L k])
  have "h5_link_laws L M" using L by (simp add: h5_laws_def)
  note l = this [unfolded h5_link_laws_def, THEN conjunct1, rule_format, OF k]
  have "(rc = LS_ERR_NOKEY \<longleftrightarrow> hview M f k = None) \<and> hview M f' = (if rc = LS_OK then (hview M f)(k := None) else hview M f)
    \<and> (hcalm M f \<and> hview M f k \<noteq> None \<longrightarrow> rc = LS_OK)"
  proof (cases "hview M f k = None")
    case True
    then show ?thesis using er x by (auto simp: ls_h5_erase_def)
  next
    case False
    obtain g e where d: "H5Ldelete L f k = (g, e)" by fastforce
    then show ?thesis using er x False l [OF False d] by (auto simp: ls_h5_erase_def)
  qed
  then show "rc = LS_ERR_NOKEY \<longleftrightarrow> h5_view M f k = None"
    "rc = LS_OK \<Longrightarrow> h5_view M f' = (h5_view M f)(k := None)" "rc \<noteq> LS_OK \<Longrightarrow> h5_view M f' = h5_view M f"
    "hcalm M f \<Longrightarrow> h5_view M f k \<noteq> None \<Longrightarrow> rc = LS_OK"
    by (auto simp: h5_view_def fun_eq_iff)
qed

lemma h5_reserve_spec:
  assumes L: "h5_laws L M" and k: "h5_name k" and re: "ls_h5_reserve L s f k n = (s', f', rc)"
  shows "rc = LS_OK \<Longrightarrow> h5_view M f' = kv_reserve (h5_view M f) k n" "rc \<noteq> LS_OK \<Longrightarrow> h5_view M f' = h5_view M f"
    "hcalm M f \<Longrightarrow> rc = LS_OK"
proof -
  obtain f1 ds where oc: "h5_open_or_create L f k n True = (f1, ds)" by fastforce
  note sp = open_or_create_spec [OF L k oc]
  note cl = h5_handleD(6) [OF L, of f1 ds]
  have rc: "rc = (if ds < 0 then LS_ERR_BACKEND else LS_OK)" "f' = (if ds < 0 then f1 else H5Dclose L f1 ds)"
    using re oc by (auto simp: ls_h5_reserve_def split: if_splits)
  show "rc = LS_OK \<Longrightarrow> h5_view M f' = kv_reserve (h5_view M f) k n"
    using rc sp(2) cl h5_view_upd(1) [of M f' f k] by (simp add: kv_reserve_def kv_get_view split: if_splits)
  show "rc \<noteq> LS_OK \<Longrightarrow> h5_view M f' = h5_view M f" using rc sp(1) h5_view_upd(2) [of M f' f] by (auto split: if_splits)
  show "hcalm M f \<Longrightarrow> rc = LS_OK" using rc sp(3) by auto
qed

lemma h5_append_spec:
  assumes L: "h5_laws L M" and k: "h5_name k" and m: "m = h5_view M f" and c: "c = fst (kv_get m k)" and fit: "length c + length bs < u64_mod"
    and ap: "ls_h5_append L f k (length bs) bs = (f', rc, off)"
  shows "rc = LS_OK \<Longrightarrow> off = Some (length c) \<and> h5_view M f' = kv_write m k (length c) bs"
    "rc \<noteq> LS_OK \<Longrightarrow> off = None \<and> write_fails m k (length c) (length bs) (h5_view M f')" "hcalm M f \<Longrightarrow> rc = LS_OK"
proof -
  obtain f1 rc1 at where e: "(if h5_dataset_exists L f k then h5_extent L f k else (f, LS_OK, 0)) = (f1, rc1, at)" by (metis prod_cases3)
  have x: "h5_dataset_exists L f k = (hview M f k \<noteq> None)" by (rule h5_handleD(1) [OF L k])
  have f1: "hview M f1 = hview M f \<and> (rc1 = LS_OK \<longrightarrow> at = length c) \<and> (rc1 \<noteq> LS_OK \<longrightarrow> rc1 = LS_ERR_BACKEND) \<and> (hcalm M f \<longrightarrow> rc1 = LS_OK \<and> hcalm M f1)"
  proof (cases "hview M f k")
    case None
    then show ?thesis using e x by (auto simp: c m kv_get_view)
  next
    case (Some v)
    obtain cc a where v: "v = (cc, a)" by fastforce
    obtain g d where o: "H5Dopen2 L f k = (g, d)" by fastforce
    note o1 = h5_handleD(2-5) [OF L k o]
    have "H5Dget_dims L g d = length cc" if "0 \<le> d" using h5_handleD(8) [OF L o1(2) [OF that]] Some v o1(1) by simp
    moreover have "(f1, rc1, at) = (if d < 0 then (g, LS_ERR_BACKEND, 0) else (H5Dclose L g d, LS_OK, H5Dget_dims L g d))"
      using e x Some o by (simp add: h5_extent_def)
    ultimately show ?thesis using Some v o1 h5_handleD(6,7) [OF L] by (auto simp: c m kv_get_view split: if_splits)
  qed
  then have v1: "h5_view M f1 = m" using h5_view_upd(2) [of M f1 f] m by simp
  show "rc = LS_OK \<Longrightarrow> off = Some (length c) \<and> h5_view M f' = kv_write m k (length c) bs"
    "rc \<noteq> LS_OK \<Longrightarrow> off = None \<and> write_fails m k (length c) (length bs) (h5_view M f')" "hcalm M f \<Longrightarrow> rc = LS_OK"
  proof -
    obtain f2 rc2 out where t: "h5_transfer L f1 k at (length bs) bs LS_OP_WRITE = (f2, rc2, out)" by (metis prod_cases3)
    have r: "(f', rc, off) = (if rc1 \<noteq> LS_OK then (f1, rc1, None) else (f2, rc2, if rc2 = LS_OK then Some at else None))"
      using ap e t by (simp add: ls_h5_append_def split: if_splits)
    have tw: "rc1 = LS_OK \<Longrightarrow> (rc2 = LS_OK \<longrightarrow> h5_view M f2 = kv_write m k (length c) bs)
        \<and> (rc2 \<noteq> LS_OK \<longrightarrow> write_fails m k (length c) (length bs) (h5_view M f2)) \<and> (hcalm M f1 \<longrightarrow> rc2 = LS_OK)"
      using transfer_write_spec [OF L k _ t] f1 fit v1 by auto
    show "rc = LS_OK \<Longrightarrow> off = Some (length c) \<and> h5_view M f' = kv_write m k (length c) bs" using r tw f1 by (auto split: if_splits)
    show "rc \<noteq> LS_OK \<Longrightarrow> off = None \<and> write_fails m k (length c) (length bs) (h5_view M f')"
      using r tw f1 v1 by (auto simp: write_fails_def split: if_splits)
    show "hcalm M f \<Longrightarrow> rc = LS_OK" using r tw f1 by (auto split: if_splits)
  qed
qed

text \<open>Attributes. The call that replaces one deletes the old value first.\<close>

lemma h5_attrD:
  assumes "h5_laws L M"
  shows "hds M f d = Some k \<Longrightarrow> hview M f k = Some (c, a) \<Longrightarrow> (0 < H5Aexists L f d) = (a \<noteq> None)"
    "hds M f d = Some k \<Longrightarrow> hview M f k = Some (c, Some b) \<Longrightarrow> H5Adelete L f d = (f', e) \<Longrightarrow>
       hview M f' = (if e < 0 then hview M f else (hview M f)(k \<mapsto> (c, None))) \<and> hds M f' d = Some k \<and> (hcalm M f \<longrightarrow> hcalm M f' \<and> 0 \<le> e)"
    "hds M f d = Some k \<Longrightarrow> hview M f k = Some (c, a) \<Longrightarrow> H5Acreate2 L f d n = (f', h) \<Longrightarrow>
       (h < 0 \<longrightarrow> hview M f' = hview M f)
       \<and> (0 \<le> h \<longrightarrow> a = None \<and> hat M f' h = Some k \<and> (\<exists>x. length x = n \<and> hview M f' = (hview M f)(k \<mapsto> (c, Some x))))
       \<and> (hcalm M f \<longrightarrow> hcalm M f' \<and> (a = None \<longrightarrow> 0 \<le> h))"
    "hat M f h = Some k \<Longrightarrow> hview M f k = Some (c, Some b) \<Longrightarrow> length bs = length b \<Longrightarrow> H5Awrite L f h bs = (f', e) \<Longrightarrow>
       (\<exists>x. length x = length b \<and> hview M f' = (hview M f)(k \<mapsto> (c, Some x)) \<and> (0 \<le> e \<longrightarrow> x = bs))
       \<and> (hcalm M f \<longrightarrow> hcalm M f' \<and> 0 \<le> e)"
    "hds M f d = Some k \<Longrightarrow> hview M f k = Some (c, Some b) \<Longrightarrow> H5Aopen L f d = (f', h) \<Longrightarrow>
       hview M f' = hview M f \<and> (0 \<le> h \<longrightarrow> hat M f' h = Some k) \<and> (hcalm M f \<longrightarrow> hcalm M f' \<and> 0 \<le> h)"
    "hview M (H5Aclose L f h) = hview M f \<and> (hcalm M f \<longrightarrow> hcalm M (H5Aclose L f h))"
    "hat M f h = Some k \<Longrightarrow> hview M f k = Some (c, Some b) \<Longrightarrow> H5Aget_dim L f h = length b"
    "hat M f h = Some k \<Longrightarrow> hview M f k = Some (c, Some b) \<Longrightarrow> H5Aread L f h = (f', e, out) \<Longrightarrow>
       hview M f' = hview M f \<and> (0 \<le> e \<longrightarrow> out = b) \<and> (hcalm M f \<longrightarrow> hcalm M f' \<and> 0 \<le> e)"
proof -
  have "h5_attr_laws L M" using assms by (simp add: h5_laws_def)
  note l1 = this [unfolded h5_attr_laws_def] note l2 = l1 [THEN conjunct2] note l3 = l2 [THEN conjunct2] note l4 = l3 [THEN conjunct2]
  note l5 = l4 [THEN conjunct2] note l6 = l5 [THEN conjunct2] note l7 = l6 [THEN conjunct2]
  note rules = l1 [THEN conjunct1, rule_format] l2 [THEN conjunct1, rule_format] l3 [THEN conjunct1, rule_format] l4 [THEN conjunct1, rule_format]
    l5 [THEN conjunct1, rule_format] l6 [THEN conjunct1, THEN spec, THEN spec] l7 [THEN conjunct1, rule_format] l7 [THEN conjunct2, rule_format]
  show "hds M f d = Some k \<Longrightarrow> hview M f k = Some (c, a) \<Longrightarrow> (0 < H5Aexists L f d) = (a \<noteq> None)"
    by (rule rules(1))
  show "hds M f d = Some k \<Longrightarrow> hview M f k = Some (c, Some b) \<Longrightarrow> H5Adelete L f d = (f', e) \<Longrightarrow>
       hview M f' = (if e < 0 then hview M f else (hview M f)(k \<mapsto> (c, None))) \<and> hds M f' d = Some k \<and> (hcalm M f \<longrightarrow> hcalm M f' \<and> 0 \<le> e)"
    by (rule rules(2))
  show "hds M f d = Some k \<Longrightarrow> hview M f k = Some (c, a) \<Longrightarrow> H5Acreate2 L f d n = (f', h) \<Longrightarrow>
       (h < 0 \<longrightarrow> hview M f' = hview M f)
       \<and> (0 \<le> h \<longrightarrow> a = None \<and> hat M f' h = Some k \<and> (\<exists>x. length x = n \<and> hview M f' = (hview M f)(k \<mapsto> (c, Some x))))
       \<and> (hcalm M f \<longrightarrow> hcalm M f' \<and> (a = None \<longrightarrow> 0 \<le> h))"
    by (rule rules(3))
  show "hat M f h = Some k \<Longrightarrow> hview M f k = Some (c, Some b) \<Longrightarrow> length bs = length b \<Longrightarrow> H5Awrite L f h bs = (f', e) \<Longrightarrow>
       (\<exists>x. length x = length b \<and> hview M f' = (hview M f)(k \<mapsto> (c, Some x)) \<and> (0 \<le> e \<longrightarrow> x = bs))
       \<and> (hcalm M f \<longrightarrow> hcalm M f' \<and> 0 \<le> e)"
    by (rule rules(4))
  show "hds M f d = Some k \<Longrightarrow> hview M f k = Some (c, Some b) \<Longrightarrow> H5Aopen L f d = (f', h) \<Longrightarrow>
       hview M f' = hview M f \<and> (0 \<le> h \<longrightarrow> hat M f' h = Some k) \<and> (hcalm M f \<longrightarrow> hcalm M f' \<and> 0 \<le> h)"
    by (rule rules(5))
  show "hview M (H5Aclose L f h) = hview M f \<and> (hcalm M f \<longrightarrow> hcalm M (H5Aclose L f h))"
    by (rule rules(6))
  show "hat M f h = Some k \<Longrightarrow> hview M f k = Some (c, Some b) \<Longrightarrow> H5Aget_dim L f h = length b"
    by (rule rules(7))
  show "hat M f h = Some k \<Longrightarrow> hview M f k = Some (c, Some b) \<Longrightarrow> H5Aread L f h = (f', e, out) \<Longrightarrow>
       hview M f' = hview M f \<and> (0 \<le> e \<longrightarrow> out = b) \<and> (hcalm M f \<longrightarrow> hcalm M f' \<and> 0 \<le> e)"
    by (rule rules(8))
qed

lemma h5_set_attr_calm:
  assumes L: "h5_laws L M" and k: "h5_name k" and c: "hcalm M f" and n: "n \<le> length blob"
    and sa: "ls_h5_set_attr L f k blob n = (f', rc)"
  shows "rc = LS_OK" "hview M f' = (hview M f)(k \<mapsto> (fst (raw M f k), Some (take n blob)))" "hcalm M f'"
proof -
  let ?c = "fst (raw M f k)" and ?a = "snd (raw M f k)"
  note h = h5_handleD [OF L] and at = h5_attrD [OF L]
  obtain f1 ds where oc: "h5_open_or_create L f k 0 True = (f1, ds)" by fastforce
  note sp = open_or_create_spec [OF L k oc]
  have ds: "0 \<le> ds" "hcalm M f1" and v1: "hds M f1 ds = Some k" "hview M f1 = (hview M f)(k \<mapsto> (?c, ?a))"
    using sp(2,3) c by auto
  define f2 where "f2 = (if 0 < H5Aexists L f1 ds then fst (H5Adelete L f1 ds) else f1)"
  have f2: "hview M f2 = (hview M f)(k \<mapsto> (?c, None))" "hds M f2 ds = Some k" "hcalm M f2"
  proof -
    have ex: "(0 < H5Aexists L f1 ds) = (?a \<noteq> None)" using at(1) [OF v1(1), of ?c ?a] v1(2) by simp
    have "hview M f2 = (hview M f)(k \<mapsto> (?c, None)) \<and> hds M f2 ds = Some k \<and> hcalm M f2"
    proof (cases ?a)
      case None
      then show ?thesis using ex v1 ds(2) by (simp add: f2_def)
    next
      case (Some b)
      obtain g e where d: "H5Adelete L f1 ds = (g, e)" by fastforce
      have "hview M f1 k = Some (?c, Some b)" using v1(2) Some by simp
      from at(2) [OF v1(1) this d] have "hview M g = (hview M f1)(k \<mapsto> (?c, None))" "hds M g ds = Some k" "hcalm M g"
        using ds(2) by auto
      then show ?thesis using ex Some d v1(2) by (simp add: f2_def)
    qed
    then show "hview M f2 = (hview M f)(k \<mapsto> (?c, None))" "hds M f2 ds = Some k" "hcalm M f2" by blast+
  qed
  obtain f3 a where cr: "H5Acreate2 L f2 ds n = (f3, a)" by fastforce
  have "hview M f2 k = Some (?c, None)" using f2(1) by simp
  from at(3) [OF f2(2) this cr] f2(3) obtain x where a: "0 \<le> a" "hcalm M f3" "hat M f3 a = Some k" and
    x: "length x = n" "hview M f3 = (hview M f2)(k \<mapsto> (?c, Some x))" by auto
  obtain f4 e where w: "H5Awrite L f3 a (take n blob) = (f4, e)" by fastforce
  have "hview M f3 k = Some (?c, Some x)" "length (take n blob) = length x" using x n by simp_all
  from at(4) [OF a(3) this w] a(2) obtain y where
    y: "hview M f4 = (hview M f3)(k \<mapsto> (?c, Some y))" "y = take n blob" "0 \<le> e" "hcalm M f4" by auto
  have "f' = H5Dclose L (H5Aclose L (if n = 0 then f3 else f4) a) ds" "rc = LS_OK"
    using sa oc ds(1) cr a(1) w y(3) by (auto simp: ls_h5_set_attr_def Let_def f2_def split: if_splits)
  moreover have "hview M (if n = 0 then f3 else f4) = (hview M f)(k \<mapsto> (?c, Some (take n blob)))" "hcalm M (if n = 0 then f3 else f4)"
    using x y a(2) f2(1) by auto
  ultimately show "rc = LS_OK" "hview M f' = (hview M f)(k \<mapsto> (?c, Some (take n blob)))" "hcalm M f'"
    using h(6,7) at(6) by auto
qed

lemma h5_get_attr_calm:
  assumes L: "h5_laws L M" and k: "h5_name k" and c: "hcalm M f" and v: "hview M f k = Some (c0, Some b)"
    and ga: "ls_h5_get_attr L f k wants cap = (f', rc, n, out)"
  shows "hview M f' = hview M f" "n = length b" "rc = (if wants \<and> cap < length b then LS_ERR_RANGE else LS_OK)"
    "wants \<Longrightarrow> length b \<le> cap \<Longrightarrow> out = b"
proof -
  note h = h5_handleD [OF L] and at = h5_attrD [OF L]
  have x: "h5_dataset_exists L f k" using h(1) [OF k] v by simp
  obtain f1 ds where o: "H5Dopen2 L f k = (f1, ds)" by fastforce
  note o1 = h(2-5) [OF k o]
  have ds: "0 \<le> ds" "hcalm M f1" "hds M f1 ds = Some k" "hview M f1 k = Some (c0, Some b)" using o1 c v by auto
  have ax: "0 < H5Aexists L f1 ds" using at(1) [OF ds(3,4)] by simp
  obtain f2 a where op: "H5Aopen L f1 ds = (f2, a)" by fastforce
  have a: "hview M f2 = hview M f1" "hat M f2 a = Some k" "hcalm M f2" using at(5) [OF ds(3,4) op] ds(2) by auto
  then have v2: "hview M f2 k = Some (c0, Some b)" using ds(4) by simp
  have dim: "H5Aget_dim L f2 a = length b" by (rule at(7) [OF a(2) v2])
  obtain f3 e o3 where r: "H5Aread L f2 a = (f3, e, o3)" by (metis prod_cases3)
  have r3: "hview M f3 = hview M f2" "0 \<le> e" "o3 = b" using at(8) [OF a(2) v2 r] a(3) by auto
  have "(f', rc, n, out) = (if \<not> wants then (H5Dclose L (H5Aclose L f2 a) ds, LS_OK, length b, [])
      else if cap < length b then (H5Dclose L (H5Aclose L f2 a) ds, LS_ERR_RANGE, length b, [])
      else if length b = 0 then (H5Dclose L (H5Aclose L f2 a) ds, LS_OK, length b, [])
      else (H5Dclose L (H5Aclose L f3 a) ds, LS_OK, length b, b))"
    using ga x o ds(1) ax op dim r r3(2,3) by (auto simp: ls_h5_get_attr_def Let_def split: if_splits)
  then show "hview M f' = hview M f" "n = length b" "rc = (if wants \<and> cap < length b then LS_ERR_RANGE else LS_OK)"
    "wants \<Longrightarrow> length b \<le> cap \<Longrightarrow> out = b"
    using h(6) at(6) a(1) r3(1) o1(1) by (auto split: if_splits)
qed

lemma h5_iterate_names:
  "h5_iterate s cap ks rest = (s', Some (cap', ks')) \<Longrightarrow> ks' = ks @ rest"
  by (induction rest arbitrary: s cap ks) (fastforce simp: h5_collect_def Let_def split: prod.splits if_splits option.splits)+

lemma malloc_quiet:
  assumes "quiet (fd t)"
  obtains u where "st_malloc t = (True, u)" "quiet (fd u)"
proof -
  obtain b u where m: "st_malloc t = (b, u)" by fastforce
  note p = st_malloc_props [OF m]
  have "b" "quiet (fd u)" using p assms advances_quiet by (auto simp: quiet_def)
  then show thesis using that m by simp
qed

lemma h5_iterate_quiet:
  "quiet (fd s) \<Longrightarrow> \<exists>s' r. h5_iterate s cap ks rest = (s', Some r) \<and> quiet (fd s')"
proof (induction rest arbitrary: s cap ks)
  case (Cons k rest)
  have "\<exists>u r. h5_collect s cap ks k = (u, Some r) \<and> quiet (fd u)"
  proof (cases "length ks = cap")
    case True
    obtain u where u: "st_malloc s = (True, u)" "quiet (fd u)" by (rule malloc_quiet [OF Cons.prems])
    obtain w where "st_malloc u = (True, w)" "quiet (fd w)" by (rule malloc_quiet [OF u(2)])
    then show ?thesis using u True by (simp add: h5_collect_def Let_def)
  next
    case False
    obtain u where "st_malloc s = (True, u)" "quiet (fd u)" by (rule malloc_quiet [OF Cons.prems])
    then show ?thesis using False by (simp add: h5_collect_def Let_def)
  qed
  then show ?case using Cons.IH by (auto split: prod.splits)
qed simp

lemma h5_keys_spec:
  assumes "h5_laws L M" "ls_h5_keys L s f = (s', rc, ks)"
  shows "rc = LS_OK \<Longrightarrow> distinct ks \<and> set ks = dom (h5_view M f)" "quiet (fd s) \<Longrightarrow> rc = LS_OK"
proof -
  have l: "distinct (H5Literate L f)" "set (H5Literate L f) = dom (hview M f)"
    using assms(1) by (auto simp: h5_laws_def h5_link_laws_def)
  have "dom (h5_view M f) = dom (hview M f)" by (auto simp: h5_view_def)
  then show "rc = LS_OK \<Longrightarrow> distinct ks \<and> set ks = dom (h5_view M f)"
    using assms(2) l h5_iterate_names [of s 0 "[]" "H5Literate L f"]
    by (auto simp: ls_h5_keys_def split: prod.splits option.splits if_splits)
  show "quiet (fd s) \<Longrightarrow> rc = LS_OK"
  proof -
    assume "quiet (fd s)"
    then obtain s1 r where i: "h5_iterate s 0 [] (H5Literate L f) = (s1, Some r)" "quiet (fd s1)" using h5_iterate_quiet by blast
    obtain u where "st_malloc s1 = (True, u)" by (rule malloc_quiet [OF i(2)])
    then show ?thesis using assms(2) i(1) by (cases r) (auto simp: ls_h5_keys_def split: if_splits)
  qed
qed

subsection \<open>The common contract\<close>

definition h5_wrote :: "'f hdf5 \<Rightarrow> ls_store \<times> 'f \<Rightarrow> string \<Rightarrow> nat \<Rightarrow> byte list \<Rightarrow> ls_store \<times> 'f \<Rightarrow> bool" where
  "h5_wrote L p k off bs p' \<longleftrightarrow> ls_key_ok (Some k) \<and> h5_name k \<and> bs \<noteq> [] \<and> off + length bs < u64_mod
     \<and> h5_ls_write L (fst p) (snd p) (Some k) off (length bs) (Some bs) = (fst p', snd p', LS_OK)"

definition h5_got :: "'f hdf5 \<Rightarrow> ls_store \<times> 'f \<Rightarrow> string \<Rightarrow> nat \<Rightarrow> nat \<Rightarrow> byte list \<Rightarrow> ls_store \<times> 'f \<Rightarrow> bool" where
  "h5_got L p k off n out p' \<longleftrightarrow> ls_key_ok (Some k) \<and> h5_name k \<and> 0 < n \<and> off + n < u64_mod
     \<and> h5_ls_read L (fst p) (snd p) (Some k) off n True = (fst p', snd p', LS_OK, out)"

lemma h5_write_spec:
  assumes L: "h5_laws L M" and k: "ls_key_ok (Some k)" "h5_name k" and bs: "bs \<noteq> []" "off + length bs < u64_mod"
    and w: "h5_ls_write L s f (Some k) off (length bs) (Some bs) = (s', f', rc)"
  shows "rc = LS_OK \<Longrightarrow> h5_view M f' = kv_write (h5_view M f) k off bs"
    "rc \<noteq> LS_OK \<Longrightarrow> rc = LS_ERR_BACKEND \<and> write_fails (h5_view M f) k off (length bs) (h5_view M f')"
    "hcalm M f \<Longrightarrow> rc = LS_OK \<and> hcalm M f'"
proof -
  obtain f1 rc1 out where t: "h5_transfer L f k off (length bs) bs LS_OP_WRITE = (f1, rc1, out)" by (metis prod_cases3)
  then have "f' = f1" "rc = rc1" using w k(1) bs(1) by (auto simp: h5_ls_write_def ls_h5_rw_def split: if_splits)
  then show "rc = LS_OK \<Longrightarrow> h5_view M f' = kv_write (h5_view M f) k off bs"
    "rc \<noteq> LS_OK \<Longrightarrow> rc = LS_ERR_BACKEND \<and> write_fails (h5_view M f) k off (length bs) (h5_view M f')"
    "hcalm M f \<Longrightarrow> rc = LS_OK \<and> hcalm M f'"
    using transfer_write_spec [OF L k(2) bs(2) t] by blast+
qed

lemma h5_read_spec:
  assumes L: "h5_laws L M" and k: "ls_key_ok (Some k)" "h5_name k" and n: "0 < n" "off + n < u64_mod"
    and r: "h5_ls_read L s f (Some k) off n True = (s', f', rc, out)"
  shows "h5_view M f' = h5_view M f"
    "rc = LS_OK \<Longrightarrow> off + n \<le> length (fst (kv_get (h5_view M f) k)) \<and> out = part (fst (kv_get (h5_view M f) k)) off n"
    "hcalm M f \<Longrightarrow> rc = read_code (h5_view M f) k (off + n) \<and> hcalm M f'"
proof -
  obtain f1 rc1 o1 where t: "h5_transfer L f k off n [] LS_OP_READ = (f1, rc1, o1)" by (metis prod_cases3)
  then have "f' = f1" "rc = rc1" "out = o1" using r k(1) n(1) by (auto simp: h5_ls_read_def ls_h5_rw_def split: if_splits)
  then show "h5_view M f' = h5_view M f"
    "rc = LS_OK \<Longrightarrow> off + n \<le> length (fst (kv_get (h5_view M f) k)) \<and> out = part (fst (kv_get (h5_view M f) k)) off n"
    "hcalm M f \<Longrightarrow> rc = read_code (h5_view M f) k (off + n) \<and> hcalm M f'"
    using transfer_read_spec [OF L k(2) n(2) t] by blast+
qed

interpretation h5s: byte_map "\<lambda>_. h5_laws L M" "\<lambda>p. h5_view M (snd p)" "h5_wrote L" "h5_got L" for L :: "'f hdf5" and M :: "'f h5_sem"
proof
  fix s k off bs s'
  assume L: "h5_laws L M" and "h5_wrote L s k off bs s'"
  then have w: "ls_key_ok (Some k)" "h5_name k" "bs \<noteq> []" "off + length bs < u64_mod"
    "h5_ls_write L (fst s) (snd s) (Some k) off (length bs) (Some bs) = (fst s', snd s', LS_OK)" by (simp_all add: h5_wrote_def)
  show "h5_laws L M \<and> h5_view M (snd s') = kv_write (h5_view M (snd s)) k off bs"
    using L h5_write_spec(1) [OF L w refl] by simp
next
  fix s k off n out s'
  assume L: "h5_laws L M" and "h5_got L s k off n out s'"
  then have g: "ls_key_ok (Some k)" "h5_name k" "0 < n" "off + n < u64_mod"
    "h5_ls_read L (fst s) (snd s) (Some k) off n True = (fst s', snd s', LS_OK, out)" by (simp_all add: h5_got_def)
  show "h5_laws L M \<and> h5_view M (snd s') = h5_view M (snd s) \<and> off + n \<le> length (fst (kv_get (h5_view M (snd s)) k))
      \<and> out = part (fst (kv_get (h5_view M (snd s)) k)) off n"
    using L h5_read_spec(1) [OF L g] h5_read_spec(2) [OF L g refl] by simp
qed

text \<open>A program of writes and reads on a store, with the bytes its reads returned, and what it means on the
  abstract map.\<close>

datatype call = Put string nat "byte list" | Get string nat nat

inductive runs_to :: "('s \<Rightarrow> string \<Rightarrow> nat \<Rightarrow> byte list \<Rightarrow> 's \<Rightarrow> bool) \<Rightarrow> ('s \<Rightarrow> string \<Rightarrow> nat \<Rightarrow> nat \<Rightarrow> byte list \<Rightarrow> 's \<Rightarrow> bool)
    \<Rightarrow> 's \<Rightarrow> call list \<Rightarrow> byte list list \<Rightarrow> 's \<Rightarrow> bool" for wr gt where
  rt_end: "runs_to wr gt s [] [] s"
| rt_put: "wr s k off bs s1 \<Longrightarrow> runs_to wr gt s1 cs outs s' \<Longrightarrow> runs_to wr gt s (Put k off bs # cs) outs s'"
| rt_get: "gt s k off n out s1 \<Longrightarrow> runs_to wr gt s1 cs outs s' \<Longrightarrow> runs_to wr gt s (Get k off n # cs) (out # outs) s'"

fun kv_run :: "kv \<Rightarrow> call list \<Rightarrow> kv \<times> byte list list" where
  "kv_run m [] = (m, [])"
| "kv_run m (Put k off bs # cs) = kv_run (kv_write m k off bs) cs"
| "kv_run m (Get k off n # cs) = (case kv_run m cs of (m', outs) \<Rightarrow> (m', part (fst (kv_get m k)) off n # outs))"

context byte_map begin

lemma runs_meaning:
  assumes "runs_to wrote got s cs outs s'" "inv s"
  shows "inv s' \<and> kv_run (view s) cs = (view s', outs)"
  using assms
proof induction
  case (rt_put s k off bs s1 cs outs s')
  then show ?case using wrote_view [OF rt_put.prems rt_put.hyps(1)] by simp
next
  case (rt_get s k off n out s1 cs outs s')
  then show ?case using got_view [OF rt_get.prems rt_get.hyps(1)] by simp
qed simp

end

subsection \<open>A library in memory\<close>

text \<open>The laws can be met: a file kept in memory, in which nothing fails.\<close>

record h5_mem =
  objs :: "(string \<times> byte list \<times> byte list option) list"
  handles :: "string list"

definition mem_handle :: "h5_mem \<Rightarrow> hid \<rightharpoonup> string" where
  "mem_handle f d = (if 0 \<le> d \<and> nat d < length (handles f) then Some (handles f ! nat d) else None)"

definition mem_new :: "h5_mem \<Rightarrow> string \<Rightarrow> h5_mem \<times> hid" where
  "mem_new f k = (f\<lparr>handles := handles f @ [k]\<rparr>, int (length (handles f)))"

definition mem_at_handle :: "h5_mem \<Rightarrow> hid \<Rightarrow> (string \<times> byte list \<times> byte list option) option" where
  "mem_at_handle f d = (case mem_handle f d of None \<Rightarrow> None | Some k \<Rightarrow> map_option (Pair k) (map_of (objs f) k))"

definition mem_upd :: "h5_mem \<Rightarrow> hid \<Rightarrow> (byte list \<Rightarrow> byte list option \<Rightarrow> (byte list \<times> byte list option) option) \<Rightarrow> h5_mem \<times> int" where
  "mem_upd f d g = (case mem_at_handle f d of
       None \<Rightarrow> (f, -1)
     | Some (k, c, a) \<Rightarrow> (case g c a of None \<Rightarrow> (f, -1) | Some v \<Rightarrow> (f\<lparr>objs := (k, v) # objs f\<rparr>, 0)))"

definition mem_lib :: "h5_mem hdf5" where
  "mem_lib = \<lparr>
     H5Fopen = (\<lambda>_. None), H5Fcreate = (\<lambda>_. Some \<lparr>objs = [], handles = []\<rparr>), H5Fclose = (\<lambda>_. 0),
     H5Lexists = (\<lambda>f k. if map_of (objs f) k = None then 0 else 1),
     H5Ldelete = (\<lambda>f k. (f\<lparr>objs := filter (\<lambda>e. fst e \<noteq> k) (objs f)\<rparr>, 0)),
     H5Literate = (\<lambda>f. remdups (map fst (objs f))),
     H5Dopen2 = (\<lambda>f k. if map_of (objs f) k = None then (f, -1) else mem_new f k),
     H5Dcreate2 = (\<lambda>f k n ch. if map_of (objs f) k \<noteq> None then (f, -1) else mem_new (f\<lparr>objs := (k, zeros n, None) # objs f\<rparr>) k),
     H5Dclose = (\<lambda>f d. f),
     H5Dget_dims = (\<lambda>f d. case mem_at_handle f d of None \<Rightarrow> 0 | Some (k, c, a) \<Rightarrow> length c),
     H5Dset_extent = (\<lambda>f d n. mem_upd f d (\<lambda>c a. Some (take n (grown c n), a))),
     H5Sselect_hyperslab = (\<lambda>f d off n. 0),
     H5Dwrite = (\<lambda>f d off bs. mem_upd f d (\<lambda>c a. if off + length bs \<le> length c then Some (blit c off bs, a) else None)),
     H5Dread = (\<lambda>f d off n. case mem_at_handle f d of None \<Rightarrow> (f, -1, []) | Some (k, c, a) \<Rightarrow> (f, 0, part c off n)),
     H5Aexists = (\<lambda>f d. case mem_at_handle f d of Some (k, c, Some a) \<Rightarrow> 1 | _ \<Rightarrow> 0),
     H5Adelete = (\<lambda>f d. mem_upd f d (\<lambda>c a. Some (c, None))),
     H5Acreate2 = (\<lambda>f d n. case mem_at_handle f d of
         Some (k, c, None) \<Rightarrow> mem_new (f\<lparr>objs := (k, c, Some (zeros n)) # objs f\<rparr>) k
       | _ \<Rightarrow> (f, -1)),
     H5Aopen = (\<lambda>f d. case mem_at_handle f d of Some (k, c, Some a) \<Rightarrow> mem_new f k | _ \<Rightarrow> (f, -1)),
     H5Aclose = (\<lambda>f h. f),
     H5Awrite = (\<lambda>f h bs. mem_upd f h (\<lambda>c a. Some (c, Some bs))),
     H5Aget_dim = (\<lambda>f h. case mem_at_handle f h of Some (k, c, Some a) \<Rightarrow> length a | _ \<Rightarrow> 0),
     H5Aread = (\<lambda>f h. case mem_at_handle f h of Some (k, c, Some a) \<Rightarrow> (f, 0, a) | _ \<Rightarrow> (f, -1, []))\<rparr>"

definition mem_sem :: "h5_mem h5_sem" where
  "mem_sem = \<lparr>hview = (\<lambda>f. map_of (objs f)), hds = mem_handle, hat = mem_handle, hcalm = (\<lambda>_. True)\<rparr>"

lemma mem_new_handle [simp]:
  "mem_handle (f\<lparr>handles := handles f @ [k]\<rparr>) (int (length (handles f))) = Some k" "mem_handle (f\<lparr>objs := os\<rparr>) d = mem_handle f d"
  "mem_handle (f\<lparr>objs := os, handles := handles f @ [k]\<rparr>) (int (length (handles f))) = Some k"
  by (simp_all add: mem_handle_def)

lemma mem_at_handle_eq: "mem_handle f d = Some k \<Longrightarrow> map_of (objs f) k = Some v \<Longrightarrow> mem_at_handle f d = Some (k, v)"
  by (simp add: mem_at_handle_def)

lemma map_of_filter_other: "map_of (filter (\<lambda>e. fst e \<noteq> k) xs) = (map_of xs)(k := None)"
  by (induction xs) (auto simp: fun_eq_iff)

lemma mem_laws: "h5_laws mem_lib mem_sem"
proof -
  have "h5_handle_laws mem_lib mem_sem"
    by (auto simp: h5_handle_laws_def mem_lib_def mem_sem_def mem_new_def mem_at_handle_eq split: if_splits)
  moreover have "h5_space_laws mem_lib mem_sem"
    by (auto simp: h5_space_laws_def mem_lib_def mem_sem_def mem_new_def mem_at_handle_eq mem_upd_def grown_def split: if_splits)
  moreover have "patched_somehow c off (length bs) (blit c off bs)" if "off + length bs \<le> length c" for c bs and off
    using that by (auto simp: patched_somehow_def nth_blit)
  then have "h5_transfer_laws mem_lib mem_sem"
    by (auto simp: h5_transfer_laws_def mem_lib_def mem_sem_def mem_at_handle_eq mem_upd_def)
  moreover have "h5_link_laws mem_lib mem_sem"
    by (auto simp: h5_link_laws_def mem_lib_def mem_sem_def map_of_filter_other dom_map_of_conv_image_fst)
  moreover have "h5_attr_laws mem_lib mem_sem"
    unfolding h5_attr_laws_def mem_lib_def mem_sem_def
    by (auto simp: mem_at_handle_eq mem_upd_def mem_new_def split: option.splits prod.splits) (metis length_zeros)
  ultimately show ?thesis by (simp add: h5_laws_def)
qed

subsection \<open>Properties\<close>

text \<open>C2. The HDF5 backend writes what the POSIX backend writes. For every HDF5 library that keeps the laws and
  every key of one name component, a write of at least one byte changes the map from keys to bytes
  exactly as a write of the POSIX backend does when it succeeds; otherwise it reports
  \<open>LS_ERR_BACKEND\<close> and at most the written range and the growth of that record are affected. It
  succeeds when no call of the library fails.\<close>

theorem h5_write_refines:
  assumes "h5_laws L M" "ls_key_ok (Some k)" "h5_name k" "bs \<noteq> []" "off + length bs < u64_mod"
    and "h5_ls_write L s f (Some k) off (length bs) (Some bs) = (s', f', rc)"
  shows "(rc = LS_OK \<longrightarrow> h5_view M f' = kv_write (h5_view M f) k off bs)
    \<and> (rc \<noteq> LS_OK \<longrightarrow> rc = LS_ERR_BACKEND \<and> write_fails (h5_view M f) k off (length bs) (h5_view M f'))
    \<and> (hcalm M f \<longrightarrow> rc = LS_OK \<and> hcalm M f')"
  using h5_write_spec [OF assms] by blast

lemma h5_name_k: "h5_name ''k''"
  by (simp add: h5_name_def)

definition mem0 :: h5_mem where
  "mem0 = \<lparr>objs = [], handles = []\<rparr>"

lemma mem0_view: "h5_view mem_sem mem0 = Map.empty" "hcalm mem_sem f"
  by (simp_all add: h5_view_def mem_sem_def mem0_def fun_eq_iff)

theorem h5_write_refines_witness:
  "\<exists>s' f'. h5_ls_write mem_lib (demo 0) mem0 (Some ''k'') 1 2 (Some [4, 5]) = (s', f', LS_OK)
     \<and> h5_view mem_sem f' ''k'' = Some ([0, 4, 5], [])"
proof -
  let ?b = "[4, 5 :: byte]"
  obtain s' f' rc where w: "h5_ls_write mem_lib (demo 0) mem0 (Some ''k'') 1 (length ?b) (Some ?b) = (s', f', rc)" by (metis prod_cases3)
  have "?b \<noteq> []" "1 + length ?b < u64_mod" by (simp_all add: u64_mod_def)
  from h5_write_refines [OF mem_laws key_k(1) h5_name_k this w] mem0_view
  have "rc = LS_OK" "h5_view mem_sem f' = kv_write Map.empty ''k'' 1 ?b" by auto
  moreover have "kv_write Map.empty ''k'' 1 ?b ''k'' = Some ([0, 4, 5], [])"
    by (simp add: kv_write_def patch_def grown_def blit_def zeros_def)
  ultimately show ?thesis using w by (auto simp: numeral_2_eq_2)
qed

text \<open>C10. The backends agree. Run the same program of writes and reads on a POSIX store and on an HDF5 store
  that start with the same keys and bytes; if every call succeeds on both, the reads return the same
  bytes and the stores end with the same keys and bytes.\<close>

theorem backends_agree:
  assumes "store_inv s" "h5_laws L M" "store_abs s = h5_view M f"
    and "runs_to st_wrote st_got s cs outs s'" "runs_to (h5_wrote L) (h5_got L) (t, f) cs outs' (t', f')"
  shows "outs' = outs \<and> store_inv s' \<and> store_abs s' = h5_view M f'"
  using kvs.runs_meaning [OF assms(4,1)] h5s.runs_meaning [OF assms(5), of M] assms(2,3) by auto

theorem backends_agree_witness:
  "\<exists>s f s' t' f' outs. store_abs s = h5_view mem_sem f
     \<and> runs_to st_wrote st_got s [Put ''k'' 2 [1, 2, 3], Get ''k'' 1 3] outs s'
     \<and> runs_to (h5_wrote mem_lib) (h5_got mem_lib) (s, f) [Put ''k'' 2 [1, 2, 3], Get ''k'' 1 3] outs (t', f')
     \<and> store_abs s' = h5_view mem_sem f' \<and> outs = [[0, 1, 2]]"
proof -
  let ?b = "[1, 2, 3 :: byte]" and ?m = "Map.empty(''k'' \<mapsto> ([0, 0, 1, 2, 3 :: byte], [] :: byte list))"
  have kw: "kv_write Map.empty ''k'' 2 ?b = ?m"
    by (simp add: kv_write_def patch_def grown_def blit_def zeros_def numeral_eq_Suc)
  have big: "2 + length ?b < u64_mod" "(1 :: nat) + 3 < u64_mod" "(1 :: nat) < u64_mod" "(3 :: nat) < u64_mod" by (simp_all add: u64_mod_def)
  have room: "fits (demo 100) (2 + length ?b)" by (rule demo_room) simp
  have "2 + length ?b \<le> 2 ^ 40" by simp
  from demo_write [OF this] obtain s1 where w: "ls_write (demo 100) (Some ''k'') 2 (length ?b) (Some ?b) = Some (s1, LS_OK)" "store_inv s1"
    "store_abs s1 = Map.empty(''k'' \<mapsto> (patch [] 2 ?b, []))" "quiet (fd s1)" "file_end s1 \<le> 2 + length ?b + 8191" by blast
  have s1: "store_abs s1 = ?m" using w(3) kw by (simp add: kv_write_def)
  obtain s2 rc out where r: "ls_read s1 (Some ''k'') 1 3 True = Some (s2, rc, out)" "rc = LS_OK" "out = part [0, 0, 1, 2, 3] 1 3"
    using ls_read_spec [OF w(2) key_k(1) big(3,4)] s1 w(4,5) by (auto simp: off_max_def)
  have st: "runs_to st_wrote st_got (demo 100) [Put ''k'' 2 ?b, Get ''k'' 1 3] [out] s2"
    by (rule rt_put [OF _ rt_get [OF _ rt_end]]) (use w(1) r key_k(1) big room in \<open>simp_all add: st_wrote_def st_got_def\<close>)
  obtain t1 f1 rc1 where hw: "h5_ls_write mem_lib (demo 100) mem0 (Some ''k'') 2 (length ?b) (Some ?b) = (t1, f1, rc1)" by (metis prod_cases3)
  note hws = h5_write_spec [OF mem_laws key_k(1) h5_name_k _ big(1) hw]
  have rc1: "rc1 = LS_OK" using hws(3) mem0_view(2) by simp
  then have f1: "h5_view mem_sem f1 = ?m" using hws(1) mem0_view(1) kw by simp
  obtain t2 f2 rc2 out2 where hr: "h5_ls_read mem_lib t1 f1 (Some ''k'') 1 3 True = (t2, f2, rc2, out2)" by (metis prod_cases4)
  have rc2: "rc2 = LS_OK" using h5_read_spec(3) [OF mem_laws key_k(1) h5_name_k _ big(2) hr] mem0_view(2) f1 by (simp add: read_code_def)
  have ht: "runs_to (h5_wrote mem_lib) (h5_got mem_lib) (demo 100, mem0) [Put ''k'' 2 ?b, Get ''k'' 1 3] [out2] (t2, f2)"
    by (rule rt_put [OF _ rt_get [OF _ rt_end], of _ _ _ _ _ "(t1, f1)"])
      (use hw hr rc1 rc2 key_k(1) h5_name_k big in \<open>simp_all add: h5_wrote_def h5_got_def\<close>)
  have e: "store_abs (demo 100) = h5_view mem_sem mem0" using off_max_big(1) mem0_view(1) by simp
  note a = backends_agree [OF demo_inv [OF off_max_big(1)] mem_laws e st ht]
  have "out = [0, 1, 2]" using r(3) by (simp add: Prelude.part_def numeral_eq_Suc)
  then show ?thesis using a e st ht by metis
qed

text \<open>C33. Where the backends differ: accumulating across the end of a record. On the HDF5 backend, an
  accumulation into a range that starts inside the record and ends beyond it treats the whole range
  as fresh, so that the bytes the record already had in it are replaced by the reduction of zeros,
  and reports success; the POSIX backend reduces into them.\<close>

theorem h5_accumulate_discards:
  assumes "h5_laws L M" "h5_name k" "hcalm M f" "oom (fd s) = []"
    and "h5_view M f k = Some (c, a)" "off < length c" "length c < off + length bs" "off + length bs < u64_mod"
    and "length (red (zeros (length bs)) bs) = length bs"
  shows "\<exists>s' f'. ls_h5_accumulate L s f k off (length bs) bs red = (s', f', LS_OK)
     \<and> h5_view M f' = (h5_view M f)(k \<mapsto> (take off c @ red (zeros (length bs)) bs, a))"
proof -
  let ?n = "length bs" and ?v = "red (zeros (length bs)) bs"
  obtain ok s1 where m: "st_malloc s = (ok, s1)" by fastforce
  have ok: "ok" using st_malloc_props(5) [OF m] assms(4) by blast
  obtain f1 rc1 o1 where r: "h5_transfer L f k off ?n [] LS_OP_READ = (f1, rc1, o1)" by (metis prod_cases3)
  note rs = transfer_read_spec [OF assms(1,2,8) r]
  have rc1: "rc1 = LS_ERR_RANGE" "hcalm M f1" using rs(4) [OF assms(3)] assms(5,7) by (auto simp: read_code_def)
  obtain f2 rc2 o2 where w: "h5_transfer L f1 k off ?n ?v LS_OP_WRITE = (f2, rc2, o2)" by (metis prod_cases3)
  have "off + length ?v < u64_mod" using assms(8,9) by simp
  moreover have "h5_transfer L f1 k off (length ?v) ?v LS_OP_WRITE = (f2, rc2, o2)" using w assms(9) by simp
  ultimately have ws: "rc2 = LS_OK \<Longrightarrow> h5_view M f2 = kv_write (h5_view M f1) k off ?v" "hcalm M f1 \<Longrightarrow> rc2 = LS_OK"
    using transfer_write_spec [OF assms(1,2)] by blast+
  have rc2: "rc2 = LS_OK" using ws(2) rc1(2) by blast
  have "ls_h5_accumulate L s f k off ?n bs red = (s1, f2, LS_OK)"
    using m ok r rc1(1) w rc2 by (simp add: ls_h5_accumulate_def Let_def)
  moreover have "h5_view M f2 = kv_write (h5_view M f) k off ?v" using ws(1) [OF rc2] rs(1) by simp
  moreover have "patch c off ?v = take off c @ ?v"
    using assms(6,7,9) by (simp add: patch_def grown_def blit_def)
  ultimately show ?thesis using assms(5) by (simp add: kv_write_def)
qed

theorem h5_accumulate_discards_witness:
  "\<exists>f s' f'. h5_view mem_sem f ''k'' = Some ([7, 7], [])
     \<and> ls_h5_accumulate mem_lib (demo 0) f ''k'' 0 3 [1, 1, 1] byte_add = (s', f', LS_OK)
     \<and> h5_view mem_sem f' ''k'' = Some ([1, 1, 1], [])"
proof -
  define f where "f = \<lparr>objs = [(''k'', [7, 7 :: byte], None)], handles = []\<rparr>"
  let ?b = "[1, 1, 1 :: byte]"
  have v: "h5_view mem_sem f ''k'' = Some ([7, 7], [])" by (simp add: f_def h5_view_def mem_sem_def)
  have z: "byte_add (zeros (length ?b)) ?b = ?b" by code_simp
  then have lz: "length (byte_add (zeros (length ?b)) ?b) = length ?b" by simp
  have r: "0 < length [7, 7 :: byte]" "length [7, 7 :: byte] < 0 + length ?b" "0 + length ?b < u64_mod" by (simp_all add: u64_mod_def)
  have q: "oom (fd (demo 0)) = []" by (simp add: os_empty_def)
  obtain s' f' where a: "ls_h5_accumulate mem_lib (demo 0) f ''k'' 0 (length ?b) ?b byte_add = (s', f', LS_OK)"
    "h5_view mem_sem f' = (h5_view mem_sem f)(''k'' \<mapsto> (take 0 [7, 7] @ byte_add (zeros (length ?b)) ?b, []))"
    using h5_accumulate_discards [OF mem_laws h5_name_k mem0_view(2) q v r, of byte_add, OF lz] by blast
  have "h5_view mem_sem f' ''k'' = Some (?b, [])" using a(2) z by simp
  then show ?thesis using v a(1) by (auto simp: numeral_3_eq_3)
qed

end
