(* ===== verification/Codec.thy ===== *)
theory Codec
  imports Internal
begin

unbundle bit_operations_syntax

text \<open>
  The byte codecs of \<open>src/open.c\<close>: \<open>put32\<close>, \<open>put64\<close>, \<open>get32\<close>, \<open>get64\<close> (little-endian integers at a
  position of a buffer) and \<open>crc32_of\<close>. A locale states what the table-of-contents writer and
  reader rely on: a fixed width, and that decoding what was encoded gives it back, whatever
  follows in the buffer.
\<close>

subsection \<open>Definitions\<close>

text \<open>A cast to \<open>unsigned char\<close> is \<open>of_nat\<close>; \<open>v >> k\<close> is \<open>v div 2 ^ k\<close>.\<close>

definition put32 :: "nat \<Rightarrow> byte list" where
  "put32 v = [of_nat v, of_nat (v div 2 ^ 8), of_nat (v div 2 ^ 16), of_nat (v div 2 ^ 24)]"

definition put64 :: "nat \<Rightarrow> byte list" where
  "put64 v = map (\<lambda>i. of_nat (v div 2 ^ (8 * i))) [0..<8]"

definition get32 :: "byte list \<Rightarrow> nat" where
  "get32 p = unat (p ! 0) + unat (p ! 1) * 2 ^ 8 + unat (p ! 2) * 2 ^ 16 + unat (p ! 3) * 2 ^ 24"

definition get64 :: "byte list \<Rightarrow> nat" where
  "get64 p = foldl (\<lambda>v i. v * 2 ^ 8 + unat (p ! i)) 0 [7, 6, 5, 4, 3, 2, 1, 0]"

definition crc_bit :: "32 word \<Rightarrow> 32 word" where
  "crc_bit c = drop_bit 1 c XOR (0xedb88320 AND (- (c AND 1)))"

definition crc_byte :: "32 word \<Rightarrow> byte \<Rightarrow> 32 word" where
  "crc_byte c b = (crc_bit ^^ 8) (c XOR ucast b)"

definition crc32_of :: "byte list \<Rightarrow> nat" where
  "crc32_of p = unat (NOT (foldl crc_byte 0xffffffff p))"

subsection \<open>Little-endian numbers\<close>

fun put_le :: "nat \<Rightarrow> nat \<Rightarrow> byte list" where
  "put_le 0 v = []"
| "put_le (Suc n) v = of_nat v # put_le n (v div 256)"

fun get_le :: "byte list \<Rightarrow> nat" where
  "get_le [] = 0"
| "get_le (b # bs) = unat b + 256 * get_le bs"

lemma length_put_le [simp]: "length (put_le n v) = n"
  by (induction n arbitrary: v) simp_all

lemma get_put_le: "get_le (put_le n v) = v mod 256 ^ n"
proof (induction n arbitrary: v)
  case (Suc n)
  have "unat (of_nat v :: byte) = v mod 256" by (simp add: unat_of_nat)
  then show ?case using Suc by (simp add: mod_mult2_eq)
qed simp

lemma put32_le: "put32 v = put_le (Suc (Suc (Suc (Suc 0)))) v"
  by (simp add: put32_def div_mult2_eq [symmetric])

lemma put64_le: "put64 v = put_le (Suc (Suc (Suc (Suc (Suc (Suc (Suc (Suc 0)))))))) v"
  by (simp add: put64_def upt_rec div_mult2_eq [symmetric])

lemma get32_le: "get32 (b0 # b1 # b2 # b3 # rest) = get_le [b0, b1, b2, b3]"
  by (simp add: get32_def)

lemma get64_le: "get64 (b0 # b1 # b2 # b3 # b4 # b5 # b6 # b7 # rest) = get_le [b0, b1, b2, b3, b4, b5, b6, b7]"
  by (simp add: get64_def)

subsection \<open>Fixed-width codecs\<close>

locale fixed_codec =
  fixes enc :: "nat \<Rightarrow> byte list" and dec :: "byte list \<Rightarrow> nat" and width :: nat
  assumes enc_width: "length (enc v) = width"
    and dec_enc: "v < 256 ^ width \<Longrightarrow> dec (enc v @ rest) = v"
begin

lemma drop_enc: "drop width (enc v @ rest) = rest"
  by (simp add: enc_width)

text \<open>Reading a field at its position inside a larger buffer.\<close>

lemma dec_at: "length pre = i \<Longrightarrow> v < 256 ^ width \<Longrightarrow> dec (drop i (pre @ enc v @ rest)) = v"
  using dec_enc by simp

lemma enc_inj: "u < 256 ^ width \<Longrightarrow> v < 256 ^ width \<Longrightarrow> enc u = enc v \<Longrightarrow> u = v"
  by (metis dec_enc)

end

lemma get_put32: "v < 2 ^ 32 \<Longrightarrow> get32 (put32 v @ rest) = v"
  using get_put_le [of "Suc (Suc (Suc (Suc 0)))" v]
  by (simp add: put32_def get32_le div_mult2_eq [symmetric])

lemma get_put64: "v < 2 ^ 64 \<Longrightarrow> get64 (put64 v @ rest) = v"
  using get_put_le [of "Suc (Suc (Suc (Suc (Suc (Suc (Suc (Suc 0)))))))" v]
  by (simp add: put64_def upt_rec get64_le div_mult2_eq [symmetric])

interpretation c32: fixed_codec put32 get32 4
  by unfold_locales (simp add: put32_def, simp add: get_put32)

interpretation c64: fixed_codec put64 get64 8
  by unfold_locales (simp add: put64_def, simp add: get_put64)

lemmas codec_width [simp] = c32.enc_width c64.enc_width

subsection \<open>The checksum detects a changed byte\<close>

lemma xor_cancel: "a XOR k = b XOR k \<Longrightarrow> a = b" for a b k :: "32 word"
proof -
  assume "a XOR k = b XOR k"
  then have "(a XOR k) XOR k = (b XOR k) XOR k" by simp
  then show "a = b" by (simp add: xor.assoc)
qed

lemma crc_bit_top: "bit (crc_bit c) 31 = bit c 0"
proof (cases "bit c 0")
  case True
  then have "c AND 1 = 1" by (simp add: and_one_eq bit_0 odd_iff_mod_2_eq_one)
  then show ?thesis using True bit_imp_le_length [of c 32] by (auto simp: crc_bit_def bit_simps)
next
  case False
  then have "c AND 1 = 0" by (simp add: and_one_eq bit_0 even_iff_mod_2_eq_zero)
  then show ?thesis using False bit_imp_le_length [of c 32] by (auto simp: crc_bit_def bit_simps)
qed

lemma crc_bit_inj: "crc_bit c = crc_bit d \<Longrightarrow> c = d"
proof -
  assume e: "crc_bit c = crc_bit d"
  have b0: "bit c 0 = bit d 0" using e crc_bit_top by metis
  then have "c AND 1 = d AND 1" by (simp add: and_one_eq bit_0 mod2_eq_if)
  then have "drop_bit 1 c = drop_bit 1 d" using e unfolding crc_bit_def by (metis xor_cancel)
  then have "bit c (Suc n) = bit d (Suc n)" for n by (metis bit_drop_bit_eq comp_apply plus_1_eq_Suc)
  then have "bit c n = bit d n" for n using b0 by (cases n) auto
  then show "c = d" by (rule bit_eqI)
qed

lemma crc_bits_inj: "(crc_bit ^^ n) c = (crc_bit ^^ n) d \<Longrightarrow> c = d"
  by (induction n) (auto dest: crc_bit_inj)

lemma crc_byte_inj: "crc_byte c b = crc_byte d b \<Longrightarrow> c = d"
  unfolding crc_byte_def by (rule xor_cancel [OF crc_bits_inj])

lemma crc_byte_inj_byte: "crc_byte c a = crc_byte c b \<Longrightarrow> a = b"
proof -
  assume "crc_byte c a = crc_byte c b"
  then have "c XOR (ucast a :: 32 word) = c XOR ucast b" unfolding crc_byte_def by (rule crc_bits_inj)
  then have "(ucast a :: 32 word) = ucast b" by (metis xor.commute xor_cancel)
  then have e: "bit (ucast a :: 32 word) n = bit (ucast b :: 32 word) n" for n by simp
  have "bit a n = bit b n" if "n < 8" for n using e [of n] that by (simp add: bit_ucast_iff)
  then show "a = b" by (intro bit_word_eqI) simp
qed

lemma crc_fold_inj: "foldl crc_byte c p = foldl crc_byte d p \<Longrightarrow> c = d"
  by (induction p arbitrary: c d) (auto dest: crc_byte_inj)

text \<open>The checksum of the table of contents detects any single changed byte.\<close>

lemma crc_detects_byte:
  assumes "i < length p" "b \<noteq> p ! i"
  shows "crc32_of (p[i := b]) \<noteq> crc32_of p"
proof
  assume "crc32_of (p[i := b]) = crc32_of p"
  then have "NOT (foldl crc_byte 0xffffffff (p[i := b])) = NOT (foldl crc_byte 0xffffffff p)"
    unfolding crc32_of_def by (rule unsigned_word_eqI)
  then have e: "foldl crc_byte 0xffffffff (p[i := b]) = foldl crc_byte 0xffffffff p" by (metis bit.double_compl)
  let ?c = "foldl crc_byte 0xffffffff (take i p)" and ?r = "drop (Suc i) p"
  have "foldl crc_byte 0xffffffff (p[i := b]) = foldl crc_byte (crc_byte ?c b) ?r"
    using assms(1) by (simp add: upd_conv_take_nth_drop)
  moreover have "foldl crc_byte 0xffffffff (take i p @ p ! i # ?r) = foldl crc_byte (crc_byte ?c (p ! i)) ?r" by simp
  ultimately have "foldl crc_byte (crc_byte ?c b) ?r = foldl crc_byte (crc_byte ?c (p ! i)) ?r"
    using e id_take_nth_drop [OF assms(1)] by simp
  then show False using crc_fold_inj crc_byte_inj_byte assms(2) by blast
qed

end
