(* ===== verification/Persist.thy ===== *)
theory Persist
  imports Codec Capacity
begin

text \<open>
  The life of a store (\<open>src/open.c\<close>, with \<open>ls_os_open_rw\<close>, \<open>ls_os_unlink\<close> and \<open>ls_os_tmpdir\<close> of
  \<open>src/os_posix.c\<close> and \<open>ls_pool_start\<close> of \<open>src/async.c\<close>): options and their versions, the path of
  the store file, the table of contents on disk, opening and closing. The build is the POSIX
  one, with mapping and without HDF5.

  What the process environment answers is an argument (\<open>ls_env\<close>): \<open>getenv\<close>, the process id, and
  how many threads can be created. The state \<open>os\<close> given to \<open>ls_open\<close> is the file at the path the
  call builds.
\<close>

subsection \<open>Options\<close>

text \<open>The byte counts that \<open>offsetof\<close> and \<open>sizeof\<close> give on a 64-bit platform.\<close>

definition opts_size :: "nat \<Rightarrow> nat" where
  "opts_size v = (if v = 1 then 64 else if v = 2 then 68 else if v = 3 then 72 else 0)"

definition ls_opts_size :: "nat \<Rightarrow> nat" where
  "ls_opts_size v = opts_size v"

text \<open>\<open>memset (o, 0, n)\<close> and \<open>memcpy (o, src, n)\<close> touch the fields that lie before byte \<open>n\<close>: the original
  fields end at 64, \<open>exact_name\<close> at 68, \<open>durable_close\<close> at 72.\<close>

definition opts_copy :: "ls_opts \<Rightarrow> ls_opts \<Rightarrow> nat \<Rightarrow> ls_opts" where
  "opts_copy dst src n =
     (let d1 = (if 64 \<le> n then src\<lparr>exact_name := exact_name dst, durable_close := durable_close dst\<rparr> else dst);
          d2 = (if 68 \<le> n then d1\<lparr>exact_name := exact_name src\<rparr> else d1)
      in if 72 \<le> n then d2\<lparr>durable_close := durable_close src\<rparr> else d2)"

definition opts_zero :: ls_opts where
  "opts_zero = \<lparr>version = 0, backend = LS_POSIX, mode = LS_EXPLICIT, parallel = LS_LOCAL, rank = 0,
     memory_budget = 0, dir = None, direct_io = False, log = False, exact_name = False, durable_close = False\<rparr>"

definition ls_opts_init :: "ls_opts \<Rightarrow> nat \<Rightarrow> ls_opts" where
  "ls_opts_init o' v =
     (let v = (if v = 0 \<or> LS_OPTS_VERSION < v then LS_OPTS_VERSION else v)
      in (opts_copy o' opts_zero (opts_size v))\<lparr>version := v, backend := LS_POSIX, mode := LS_EXPLICIT,
           parallel := LS_LOCAL, rank := -1\<rparr>)"

text \<open>The first steps of \<open>ls_open\<close> and \<open>ls_store_exists\<close>: defaults, then as much of the caller's structure
  as its version declares.\<close>

definition opts_take :: "ls_opts option \<Rightarrow> ls_opts option" where
  "opts_take src =
     (let o' = ls_opts_init opts_zero LS_OPTS_VERSION in
      case src of None \<Rightarrow> Some o'
      | Some p \<Rightarrow> let n = opts_size (version p) in
          if n = 0 then None else Some ((opts_copy o' p n)\<lparr>version := LS_OPTS_VERSION\<rparr>))"

text \<open>The combinations that are refused.\<close>

definition opts_refused :: "ls_opts \<Rightarrow> int option" where
  "opts_refused o' =
     (if mode o' = LS_MAPPED \<and> (backend o' \<noteq> LS_POSIX \<or> memory_budget o' \<noteq> 0 \<or> direct_io o') then Some LS_ERR_INVAL
      else if parallel o' = LS_SHARED \<and> memory_budget o' \<noteq> 0 then Some LS_ERR_INVAL
      else if backend o' = LS_HDF5 then Some LS_ERR_BACKEND
      else if exact_name o' \<and> parallel o' = LS_PER_RANK then Some LS_ERR_INVAL
      else None)"

subsection \<open>The path\<close>

record ls_env =
  e_get :: "string \<Rightarrow> string option"
  e_pid :: int
  e_threads :: nat

text \<open>\<open>strtol (v, NULL, 10)\<close>: white space, a sign, digits; saturating at the limits of \<open>long\<close>. The cast to
  \<open>int\<close> keeps the low 32 bits.\<close>

definition is_space :: "char \<Rightarrow> bool" where
  "is_space c \<longleftrightarrow> c = CHR '' '' \<or> 9 \<le> (of_char c :: nat) \<and> (of_char c :: nat) \<le> 13"

definition is_digit :: "char \<Rightarrow> bool" where
  "is_digit c \<longleftrightarrow> 48 \<le> (of_char c :: nat) \<and> (of_char c :: nat) \<le> 57"

definition digits_val :: "string \<Rightarrow> nat" where
  "digits_val v = foldl (\<lambda>n c. n * 10 + (of_char c - 48)) 0 (takeWhile is_digit v)"

definition strtol :: "string \<Rightarrow> int" where
  "strtol v =
     (let u = dropWhile is_space v in
      case u of
        [] \<Rightarrow> 0
      | c # t \<Rightarrow>
          if c = CHR ''-'' then max (- int (digits_val t)) (- (2 ^ 63))
          else min (int (digits_val (if c = CHR ''+'' then t else u))) (2 ^ 63 - 1))"

definition to_int32 :: "int \<Rightarrow> int" where
  "to_int32 r = (r + 2 ^ 31) mod 2 ^ 32 - 2 ^ 31"

fun rank_from :: "ls_env \<Rightarrow> string list \<Rightarrow> int" where
  "rank_from e [] = e_pid e"
| "rank_from e (x # xs) =
     (case e_get e x of
        Some v \<Rightarrow> if v \<noteq> [] \<and> 0 \<le> strtol v then to_int32 (strtol v) else rank_from e xs
      | None \<Rightarrow> rank_from e xs)"

definition resolve_rank :: "ls_env \<Rightarrow> int \<Rightarrow> int" where
  "resolve_rank e rk =
     (if 0 \<le> rk then rk
      else rank_from e [''OMPI_COMM_WORLD_RANK'', ''PMI_RANK'', ''PMIX_RANK'', ''SLURM_PROCID''])"

definition ls_os_tmpdir :: "ls_env \<Rightarrow> nat \<Rightarrow> string" where
  "ls_os_tmpdir e n =
     snprintf n (case e_get e ''TMPDIR'' of None \<Rightarrow> ''/tmp'' | Some d \<Rightarrow> if d = [] then ''/tmp'' else d)"

definition path_text :: "ls_env \<Rightarrow> string \<Rightarrow> ls_opts \<Rightarrow> string \<Rightarrow> string" where
  "path_text e name o' d =
     (if exact_name o' then d @ ''/'' @ name
      else if parallel o' = LS_PER_RANK
      then d @ ''/'' @ name @ ''.r'' @ int_digits (resolve_rank e (rank o')) @ ''.libspill''
      else d @ ''/'' @ name @ ''.libspill'')"

definition build_path :: "os \<Rightarrow> ls_env \<Rightarrow> string \<Rightarrow> ls_opts \<Rightarrow> os \<times> string option" where
  "build_path w e name o' =
     (let d = (case dir o' of None \<Rightarrow> ls_os_tmpdir e 512 | Some d \<Rightarrow> if d = [] then ls_os_tmpdir e 512 else d);
          n = length d + length name + 64
      in case os_malloc w of (ok, w1) \<Rightarrow>
           if \<not> ok then (w1, None) else (w1, Some (snprintf n (path_text e name o' d))))"

text \<open>\<open>ls_os_path_size\<close> and \<open>ls_store_exists\<close>: a store exists if its file has bytes in it.\<close>

definition ls_os_path_size :: "os \<Rightarrow> os \<times> (errno + nat)" where
  "ls_os_path_size w =
     (case next_sys w of (r, w') \<Rightarrow> (case r of Sys_err e \<Rightarrow> (w', Inl e) | _ \<Rightarrow> (w', Inr (flen w'))))"

definition ls_store_exists :: "os \<Rightarrow> ls_env \<Rightarrow> string option \<Rightarrow> ls_opts option \<Rightarrow> bool \<Rightarrow> os \<times> int \<times> bool option" where
  "ls_store_exists w e name src outp =
     (if name = None \<or> name = Some [] \<or> \<not> outp then (w, LS_ERR_INVAL, None)
      else case opts_take src of
        None \<Rightarrow> (w, LS_ERR_INVAL, None)
      | Some o' \<Rightarrow>
          (case build_path w e (the name) o' of
             (w1, None) \<Rightarrow> (w1, neg_errno ENOMEM, None)
           | (w1, Some p) \<Rightarrow>
               (case ls_os_path_size w1 of
                  (w2, Inl _) \<Rightarrow> (w2, LS_OK, Some False)
                | (w2, Inr sz) \<Rightarrow> (w2, LS_OK, Some (0 < sz)))))"

subsection \<open>The table of contents on disk\<close>

definition key_bytes :: "string \<Rightarrow> byte list" where
  "key_bytes k = map (\<lambda>c. of_nat (of_char c)) k"

definition ext_bytes :: "ls_extent \<Rightarrow> byte list" where
  "ext_bytes e = put64 (foff e) @ put64 (elen e)"

definition rec_bytes :: "ls_rec \<Rightarrow> byte list" where
  "rec_bytes x = put32 (length (key x)) @ key_bytes (key x) @ put64 (rsize x) @ put32 (attrlen x)
     @ take (attrlen x) (attr x) @ put32 (length (ext x)) @ concat (map ext_bytes (ext x))"

definition toc_recs :: "ls_store \<Rightarrow> ls_rec list" where
  "toc_recs s = map (\<lambda>r. the (recs s r)) (concat (tab s))"

definition toc_serialise :: "ls_store \<Rightarrow> ls_store \<times> (int + byte list)" where
  "toc_serialise s =
     (case st_malloc s of (ok, s1) \<Rightarrow>
        if \<not> ok then (s1, Inl (neg_errno ENOMEM)) else (s1, Inr (concat (map rec_bytes (toc_recs s1)))))"

text \<open>Loading: \<open>w\<close> is what is left of the buffer. Each result carries the state as the code leaves it.\<close>

fun load_exts :: "ls_store \<Rightarrow> nat \<Rightarrow> byte list \<Rightarrow> nat \<Rightarrow> ls_store \<times> int \<times> byte list" where
  "load_exts s r w 0 = (s, LS_OK, w)"
| "load_exts s r w (Suc n) =
     (let e = \<lparr>foff = get64 w, elen = get64 (drop 8 w)\<rparr>; w' = drop 16 w in
      if foff e < LS_SUPER_SIZE \<or> file_end s < add64 (foff e) (elen e) then (s, LS_ERR_CORRUPT, w')
      else let x = the (recs s r);
               push = (\<lambda>s. upd_rec s r (\<lambda>x. x\<lparr>ext := ext x @ [e], ext_total := add64 (ext_total x) (elen e)\<rparr>)) in
        if length (ext x) = ncap x then
          (case st_malloc s of (ok, s1) \<Rightarrow>
             if \<not> ok then (s1, neg_errno ENOMEM, w')
             else load_exts (push (upd_rec s1 r (\<lambda>x. x\<lparr>ncap := (if ncap x = 0 then 4 else ncap x * 2)\<rparr>))) r w' n)
        else load_exts (push s) r w' n)"

text \<open>One record. A key is read up to a NUL, as \<open>strdup\<close> does.\<close>

definition load_key :: "byte list \<Rightarrow> string" where
  "load_key bs = takeWhile (\<lambda>c. c \<noteq> CHR 0x00) (map (\<lambda>b. char_of (unat b)) bs)"

definition load_rec :: "ls_store \<Rightarrow> byte list \<Rightarrow> ls_store \<times> int \<times> byte list" where
  "load_rec s w =
     (if length w < 4 then (s, LS_ERR_CORRUPT, w)
      else let kl = get32 w; w1 = drop 4 w in
        if kl = 0 \<or> LS_KEY_MAX < kl \<or> length w1 < kl + 8 then (s, LS_ERR_CORRUPT, w1)
        else case ls_toc_insert s (load_key (take kl w1)) of
          (s1, None) \<Rightarrow> (s1, neg_errno ENOMEM, w1)
        | (s1, Some r) \<Rightarrow>
            let w2 = drop kl w1; s2 = upd_rec s1 r (\<lambda>x. x\<lparr>rsize := get64 w2\<rparr>); w3 = drop 8 w2 in
            if length w3 < 4 then (s2, LS_ERR_CORRUPT, w3)
            else let al = get32 w3; s3 = upd_rec s2 r (\<lambda>x. x\<lparr>attrlen := al\<rparr>); w4 = drop 4 w3 in
              if LS_ATTR_MAX < al \<or> length w4 < al + 4 then (s3, LS_ERR_CORRUPT, w4)
              else let s4 = upd_rec s3 r (\<lambda>x. x\<lparr>attr := (if al \<noteq> 0 then blit (attr x) 0 (take al w4) else attr x)\<rparr>);
                       w5 = drop al w4; ne = get32 w5; w6 = drop 4 w5 in
                if length w6 < ne * 16 then (s4, LS_ERR_CORRUPT, w6) else load_exts s4 r w6 ne)"

fun toc_load :: "ls_store \<Rightarrow> byte list \<Rightarrow> nat \<Rightarrow> ls_store \<times> int" where
  "toc_load s w 0 = (s, LS_OK)"
| "toc_load s w (Suc c) =
     (case load_rec s w of (s1, rc, w1) \<Rightarrow> if rc \<noteq> LS_OK then (s1, rc) else toc_load s1 w1 c)"

text \<open>\<open>qsort\<close> by offset, then one pass over the gaps.\<close>

fun free_gaps :: "ls_store \<Rightarrow> nat \<Rightarrow> ls_extent list \<Rightarrow> ls_store \<times> int" where
  "free_gaps s cur [] = (s, LS_OK)"
| "free_gaps s cur (e # es) =
     (if foff e < cur then (s, LS_ERR_CORRUPT)
      else let s1 = (if cur < foff e then ls_free_extents s [\<lparr>foff = cur, elen = foff e - cur\<rparr>] else s)
        in free_gaps s1 (add64 (foff e) (elen e)) es)"

definition rebuild_free_list :: "ls_store \<Rightarrow> ls_store \<times> int" where
  "rebuild_free_list s =
     (let es = concat (map ext (toc_recs s)) in
      if es = [] then (s, LS_OK)
      else case st_malloc s of (ok, s1) \<Rightarrow>
        if \<not> ok then (s1, neg_errno ENOMEM) else free_gaps s1 LS_SUPER_SIZE (sort_key foff es))"

subsection \<open>Opening\<close>

definition LS_FMT_VERSION :: nat where "LS_FMT_VERSION = 2"

definition LS_MAGIC :: "byte list" where "LS_MAGIC = key_bytes ''LIBSPILL''"

definition ls_os_open_rw :: "os \<Rightarrow> bool \<Rightarrow> os \<times> (errno + bool)" where
  "ls_os_open_rw w want =
     (case next_sys w of
        (Sys_err e, w1) \<Rightarrow>
          if want then (case next_sys w1 of (Sys_err e2, w2) \<Rightarrow> (w2, Inl e2) | (_, w2) \<Rightarrow> (w2, Inr False))
          else (w1, Inl e)
      | (_, w1) \<Rightarrow> (w1, Inr want))"

text \<open>\<open>ls_pool_start\<close>: how many workers run, or why none does. A thread is created as long as the
  environment lets one be.\<close>

definition LS_THREADS_DEFAULT :: nat where "LS_THREADS_DEFAULT = 4"

definition ls_pool_start :: "ls_store \<Rightarrow> ls_env \<Rightarrow> ls_store \<times> (int + nat)" where
  "ls_pool_start s e =
     (let n = (case e_get e ''LIBSPILL_IO_THREADS'' of
                 Some v \<Rightarrow> if v \<noteq> [] \<and> 0 < strtol v \<and> strtol v < 256 then nat (strtol v) else LS_THREADS_DEFAULT
               | None \<Rightarrow> LS_THREADS_DEFAULT)
      in case st_malloc s of (ok, s1) \<Rightarrow>
           if \<not> ok then (s1, Inl (neg_errno ENOMEM))
           else let k = min n (e_threads e) in
             if k = 0 then (s1, Inl (neg_errno EAGAIN)) else (s1, Inr k))"

text \<open>What is read of a superblock.\<close>

definition sb_off :: "byte list \<Rightarrow> nat" where "sb_off sb = get64 (drop 16 sb)"
definition sb_count :: "byte list \<Rightarrow> nat" where "sb_count sb = get64 (drop 24 sb)"
definition sb_end :: "byte list \<Rightarrow> nat" where "sb_end sb = get64 (drop 32 sb)"
definition sb_crc :: "byte list \<Rightarrow> nat" where "sb_crc sb = get32 (drop 40 sb)"
definition sb_len :: "byte list \<Rightarrow> nat" where "sb_len sb = get64 (drop 48 sb)"

definition load_store :: "ls_store \<Rightarrow> byte list \<Rightarrow> nat \<Rightarrow> ls_store \<times> int" where
  "load_store s sb fsize =
     (if take 8 sb \<noteq> LS_MAGIC \<or> get32 (drop 8 sb) \<noteq> LS_FMT_VERSION then (s, LS_ERR_CORRUPT)
      else if sb_off sb < LS_SUPER_SIZE \<or> fsize < sb_off sb then (s, LS_ERR_CORRUPT)
      else let tlen = (if sb_len sb = 0 then fsize - sb_off sb else sb_len sb) in
        if fsize - sb_off sb < tlen then (s, LS_ERR_CORRUPT)
        else case st_malloc (s\<lparr>file_end := sb_end sb\<rparr>) of (ok, s1) \<Rightarrow>
          if \<not> ok then (s1, neg_errno ENOMEM)
          else case ls_pread_all (fd s1) (direct s1) tlen (sb_off sb) of (w, rc, tb) \<Rightarrow>
            let s2 = s1\<lparr>fd := w\<rparr> in
            if rc \<noteq> LS_OK then (s2, rc)
            else if crc32_of tb \<noteq> sb_crc sb then (s2, LS_ERR_CORRUPT)
            else case toc_load s2 tb (sb_count sb) of (s3, rc) \<Rightarrow>
              if rc \<noteq> LS_OK then (s3, rc) else rebuild_free_list s3)"

text \<open>The part of \<open>ls_open\<close> that looks at the file.\<close>

definition open_file :: "ls_store \<Rightarrow> nat \<Rightarrow> ls_store \<times> int" where
  "open_file s fsize =
     (if LS_SUPER_SIZE \<le> fsize then
        (case ls_pread_all (fd s) (direct s) LS_SUPER_SIZE 0 of (w, rc, sb) \<Rightarrow>
           if rc \<noteq> LS_OK then (s\<lparr>fd := w\<rparr>, rc) else load_store (s\<lparr>fd := w\<rparr>) sb fsize)
      else if 0 < fsize then (s, LS_ERR_CORRUPT)
      else if parallel (opts s) = LS_SHARED then (s, neg_errno ENOENT)
      else (case ls_os_ftruncate (fd s) LS_SUPER_SIZE of
              (w, Inl e) \<Rightarrow> (s\<lparr>fd := w\<rparr>, neg_errno e)
            | (w, Inr _) \<Rightarrow> (s\<lparr>fd := w\<rparr>, LS_OK)))"

text \<open>The result is the file as the call leaves it and the error, or the store and its worker count.\<close>

definition ls_open :: "os \<Rightarrow> ls_env \<Rightarrow> string option \<Rightarrow> ls_opts option \<Rightarrow> os \<times> (int + ls_store \<times> nat)" where
  "ls_open w e name src =
     (if name = None \<or> name = Some [] then (w, Inl LS_ERR_INVAL)
      else case opts_take src of
        None \<Rightarrow> (w, Inl LS_ERR_INVAL)
      | Some o' \<Rightarrow>
        (case opts_refused o' of
           Some rc \<Rightarrow> (w, Inl rc)
         | None \<Rightarrow>
           (case os_malloc w of (ok1, w1) \<Rightarrow>
              if \<not> ok1 then (w1, Inl (neg_errno ENOMEM))
              else case os_malloc w1 of (ok2, w2) \<Rightarrow>
                (case build_path w2 e (the name) o' of (w3, po) \<Rightarrow>
                   if \<not> ok2 \<or> po = None then (w3, Inl (neg_errno ENOMEM))
                   else (case ls_os_open_rw w3 (direct_io o') of
                       (w4, Inl err) \<Rightarrow> (w4, Inl (neg_errno err))
                     | (w4, Inr d) \<Rightarrow>
                         (case ls_os_file_size w4 of
                            (w5, Inl err) \<Rightarrow> (w5, Inl (neg_errno err))
                          | (w5, Inr fsize) \<Rightarrow>
                              (case open_file (store_init w5 (the po) o' d) fsize of (s, rc) \<Rightarrow>
                                 if rc \<noteq> LS_OK then (fd s, Inl rc)
                                 else (case ls_pool_start s e of
                                     (s1, Inl rc) \<Rightarrow> (fd s1, Inl rc)
                                   | (s1, Inr n) \<Rightarrow> (fd s1, Inr (s1, n))))))))))"

subsection \<open>Closing\<close>

definition ls_os_unlink :: "os \<Rightarrow> os \<times> (errno + unit)" where
  "ls_os_unlink w =
     (case next_sys w of (r, w') \<Rightarrow> (case r of Sys_err e \<Rightarrow> (w', Inl e) | _ \<Rightarrow> (w', Inr ())))"

definition ls_unlink_now :: "ls_store \<Rightarrow> ls_store \<times> int" where
  "ls_unlink_now s =
     (if path s = None then (s, LS_OK)
      else case ls_os_unlink (fd s) of (w, res) \<Rightarrow>
        (case res of
           Inl e \<Rightarrow> if e \<noteq> ENOENT then (ls_report (s\<lparr>fd := w\<rparr>) (neg_errno e) None 0 0 ''unlink_now'', neg_errno e)
                    else (s\<lparr>fd := w, path := None\<rparr>, LS_OK)
         | Inr _ \<Rightarrow> (s\<lparr>fd := w, path := None\<rparr>, LS_OK)))"

definition superblock :: "nat \<Rightarrow> nat \<Rightarrow> byte list \<Rightarrow> byte list" where
  "superblock fend cnt tb =
     LS_MAGIC @ put32 LS_FMT_VERSION @ put32 0 @ put64 fend @ put64 cnt @ put64 fend
       @ put32 (crc32_of tb) @ zeros 4 @ put64 (length tb) @ zeros (4096 - 56)"

definition write_toc :: "ls_store \<Rightarrow> ls_store \<times> int" where
  "write_toc s =
     (case toc_serialise s of
        (s1, Inl rc) \<Rightarrow> (s1, rc)
      | (s1, Inr tb) \<Rightarrow>
          (case ls_pwrite_all (fd s1) (direct s1) tb (file_end s1) of (w, rc) \<Rightarrow>
             if rc \<noteq> LS_OK then (s1\<lparr>fd := w\<rparr>, rc)
             else case ls_pwrite_all w (direct s1) (superblock (file_end s1) (nrec s1) tb) 0 of (w, rc) \<Rightarrow>
               if rc \<noteq> LS_OK then (s1\<lparr>fd := w\<rparr>, rc)
               else if durable_close (opts s1) then
                 (case ls_os_fsync w of (w, Inl e) \<Rightarrow> (s1\<lparr>fd := w\<rparr>, neg_errno e) | (w, Inr _) \<Rightarrow> (s1\<lparr>fd := w\<rparr>, LS_OK))
               else (s1\<lparr>fd := w\<rparr>, LS_OK)))"

fun free_recs :: "ls_store \<Rightarrow> nat list \<Rightarrow> ls_store" where
  "free_recs s [] = s"
| "free_recs s (r # rs) = free_recs (ls_rec_free s r) rs"

text \<open>The result is the file after the call, whether its name was removed, and the code. The workers have
  been joined before (\<open>ls_pool_stop\<close>).\<close>

definition ls_close :: "ls_store \<Rightarrow> bool \<Rightarrow> (os \<times> bool \<times> int) option" where
  "ls_close s keep0 = do {
     let keep = (keep0 \<or> parallel (opts s) = LS_SHARED);
     (s1, first) \<leftarrow>
       (if keep \<and> parallel (opts s) \<noteq> LS_SHARED then do {
          (s1, rc) \<leftarrow> ls_spill_all s;
          let first = rc;
          Some (case write_toc s1 of (s2, rc) \<Rightarrow> (s2, if first = LS_OK then rc else first))
        }
        else Some (s, LS_OK));
     let s2 = free_recs (s1\<lparr>teardown := True\<rparr>) (concat (tab s1));
     if \<not> keep \<and> path s \<noteq> None
     then (case ls_os_unlink (fd s2) of (w, res) \<Rightarrow> Some (w, res = Inr (), first))
     else Some (fd s2, False, first)
   }"

end
