(* ===== verification/Reopen.thy ===== *)
theory Reopen
  imports Persist Contract
begin

text \<open>
  What a kept store is on disk, and that reopening it gives the same store: \<open>toc_load\<close> inverts
  \<open>toc_serialise\<close>, \<open>rebuild_free_list\<close> recovers the allocator's state from the gaps, and the
  contents of every record are found where they were.
\<close>

subsection \<open>When no allocation fails\<close>

lemma st_malloc_calm: "oom (fd s) = [] \<Longrightarrow> st_malloc s = (True, s)"
  by (simp add: st_malloc_def os_malloc_def)

lemma quarter: "a - b < n \<Longrightarrow> 4 * b \<le> a \<Longrightarrow> 2 * a \<le> 4 * n" for a b n :: nat
  by linarith

lemma ls_toc_insert_tab:
  assumes "ls_toc_insert s k = (s', ro)" "toc_inv s" "ls_toc_find s k = None" "oom (fd s) = []"
  shows "length (tab s') \<le> max (length (tab s)) (4 * (nrec s + 1))" "nrec s' \<le> nrec s + 1" "fd s' = fd s"
proof -
  let ?nb = "length (tab s)"
  have "length (tab s') \<le> max ?nb (4 * (nrec s + 1)) \<and> nrec s' \<le> nrec s + 1 \<and> fd s' = fd s"
  proof (cases "?nb - ?nb div 4 < nrec s + 1")
    case True
    obtain s1 rc where g: "toc_grow s = (s1, rc)" by fastforce
    note gs = toc_grow_spec [OF g assms(2)]
    have "4 * (?nb div 4) \<le> ?nb" by simp
    then have nb: "2 * ?nb \<le> 4 * (nrec s + 1)" by (rule quarter [OF True])
    have s1: "nrec s1 = nrec s" "fd s1 = fd s" "tab s1 = tab s \<or> length (tab s1) = 2 * ?nb"
      using g gs(6) st_malloc_calm [OF assms(4)] by (auto simp: toc_grow_def Let_def split: if_splits)
    show ?thesis
    proof (cases "rc = LS_OK")
      case False
      then show ?thesis using assms(1) True g s1 nb by (auto simp: ls_toc_insert_def Let_def)
    next
      case ok: True
      have a: "toc_alloc_rec s1 k = (s', ro)" using assms(1) True g ok by (simp add: ls_toc_insert_def Let_def)
      then have "length (tab s') = length (tab s1)" "nrec s' \<le> nrec s1 + 1" "fd s' = fd s1"
        using st_malloc_calm [of s1] s1(2) assms(4) by (auto simp: toc_alloc_rec_def toc_link_def Let_def)
      then show ?thesis using s1 nb by auto
    qed
  next
    case False
    have "toc_alloc_rec s k = (s', ro)" using assms(1) False by (simp add: ls_toc_insert_def Let_def)
    then show ?thesis using st_malloc_calm [OF assms(4)] by (auto simp: toc_alloc_rec_def toc_link_def Let_def)
  qed
  then show "length (tab s') \<le> max ?nb (4 * (nrec s + 1))" "nrec s' \<le> nrec s + 1" "fd s' = fd s" by blast+
qed

subsection \<open>Loading what was serialised\<close>

lemma get_ext: "foff e < u64_mod \<Longrightarrow> elen e < u64_mod \<Longrightarrow>
    get64 (ext_bytes e @ rest) = foff e \<and> get64 (drop 8 (ext_bytes e @ rest)) = elen e \<and> drop 16 (ext_bytes e @ rest) = rest"
  using c64.dec_enc [of "foff e" "put64 (elen e) @ rest"] c64.dec_enc [of "elen e" rest]
  by (simp add: ext_bytes_def u64_mod_def)

lemma length_ext_bytes: "length (concat (map ext_bytes es)) = 16 * length es"
  by (induction es) (simp_all add: ext_bytes_def)

lemma load_exts_spec:
  assumes "recs s r = Some x" "oom (fd s) = []" "length (ext x) \<le> ncap x" "file_end s < u64_mod"
    "\<forall>e\<in>set es. 4096 \<le> foff e \<and> e_end e \<le> file_end s"
    "ext_total x = length (locs (ext x))" "length (locs (ext x @ es)) < u64_mod"
  shows "\<exists>nc. length (ext x @ es) \<le> nc \<and> load_exts s r (concat (map ext_bytes es) @ rest) (length es) =
     (upd_rec s r (\<lambda>x. x\<lparr>ext := ext x @ es, ncap := nc, ext_total := length (locs (ext x @ es))\<rparr>), LS_OK, rest)"
  using assms
proof (induction es arbitrary: s x)
  case Nil
  have "upd_rec s r (\<lambda>x. x\<lparr>ext := ext x @ [], ncap := ncap (the (recs s r)), ext_total := length (locs (ext x @ []))\<rparr>) = s"
    using Nil by (cases s; cases x) (auto simp: upd_rec_def fun_eq_iff)
  then show ?case using Nil by (intro exI [of _ "ncap x"]) simp
next
  case (Cons e es)
  have e: "4096 \<le> foff e" "e_end e \<le> file_end s" using Cons.prems(5) by simp_all
  have lt: "foff e < u64_mod" "elen e < u64_mod" "add64 (foff e) (elen e) = e_end e" using e Cons.prems(4) by auto
  note g = get_ext [OF lt(1,2), of "concat (map ext_bytes es) @ rest"]
  define nc where "nc = (if length (ext x) = ncap x then (if ncap x = 0 then 4 else ncap x * 2) else ncap x)"
  define x1 where "x1 = x\<lparr>ext := ext x @ [e], ncap := nc, ext_total := length (locs (ext x @ [e]))\<rparr>"
  define s1 where "s1 = s\<lparr>recs := (recs s)(r \<mapsto> x1)\<rparr>"
  have tot: "add64 (ext_total x) (elen e) = length (locs (ext x @ [e]))"
    using Cons.prems(6,7) by (simp add: length_locs)
  have eta: "\<lparr>foff = foff e, elen = elen e\<rparr> = e" by simp
  have step: "load_exts s r (concat (map ext_bytes (e # es)) @ rest) (length (e # es)) =
      load_exts s1 r (concat (map ext_bytes es) @ rest) (length es)"
  proof (cases "length (ext x) = ncap x")
    case True
    have "x\<lparr>ncap := nc, ext := ext x @ [e], ext_total := length (locs (ext x @ [e]))\<rparr> = x1" by (cases x) (simp add: x1_def)
    moreover have "nc = (if ncap x = 0 then 4 else ncap x * 2)" using True by (simp add: nc_def)
    ultimately show ?thesis using True g e lt Cons.prems(1) st_malloc_calm [OF Cons.prems(2)] tot
      by (simp add: Let_def upd_rec_def s1_def eta del: length_greater_0_conv)
  next
    case False
    then have "x\<lparr>ext := ext x @ [e], ext_total := length (locs (ext x @ [e]))\<rparr> = x1" by (cases x) (simp add: x1_def nc_def)
    then show ?thesis using False g e lt Cons.prems(1) tot
      by (simp add: Let_def upd_rec_def s1_def eta)
  qed
  have "length (ext x1) \<le> ncap x1" using Cons.prems(3) by (auto simp: x1_def nc_def)
  moreover have "ext_total x1 = length (locs (ext x1))" "length (locs (ext x1 @ es)) < u64_mod"
    using Cons.prems(7) by (simp_all add: x1_def)
  moreover have "recs s1 r = Some x1" "oom (fd s1) = []" "file_end s1 < u64_mod"
      "\<forall>e\<in>set es. 4096 \<le> foff e \<and> e_end e \<le> file_end s1"
    using Cons.prems by (simp_all add: s1_def)
  ultimately obtain nc' where ih: "length (ext x1 @ es) \<le> nc'" "load_exts s1 r (concat (map ext_bytes es) @ rest) (length es) =
     (upd_rec s1 r (\<lambda>x. x\<lparr>ext := ext x @ es, ncap := nc', ext_total := length (locs (ext x @ es))\<rparr>), LS_OK, rest)"
    using Cons.IH by blast
  moreover have "upd_rec s1 r (\<lambda>x. x\<lparr>ext := ext x @ es, ncap := nc', ext_total := length (locs (ext x @ es))\<rparr>)
     = upd_rec s r (\<lambda>x. x\<lparr>ext := ext x @ e # es, ncap := nc', ext_total := length (locs (ext x @ e # es))\<rparr>)"
    using Cons.prems(1) by (simp add: upd_rec_def s1_def x1_def)
  ultimately show ?case using step by (intro exI [of _ nc']) (simp add: x1_def)
qed

text \<open>What a record must satisfy to be written and read back: a C string as key, and fields within the widths
  of the format.\<close>

definition savable :: "nat \<Rightarrow> ls_rec \<Rightarrow> bool" where
  "savable fe x \<longleftrightarrow> 0 < length (key x) \<and> length (key x) \<le> LS_KEY_MAX \<and> CHR 0x00 \<notin> set (key x)
     \<and> rsize x < u64_mod \<and> length (attr x) = 256 \<and> attrlen x \<le> 256 \<and> length (ext x) < 2 ^ 32
     \<and> (\<forall>e\<in>set (ext x). 4096 \<le> foff e \<and> e_end e \<le> fe) \<and> length (locs (ext x)) < u64_mod"

definition loaded :: "nat \<Rightarrow> ls_rec \<Rightarrow> ls_rec" where
  "loaded nc x = (rec_new (key x))\<lparr>rsize := rsize x, attrlen := attrlen x,
     attr := take (attrlen x) (attr x) @ zeros (256 - attrlen x), ext := ext x, ncap := nc, ext_total := length (locs (ext x))\<rparr>"

lemma byte_char [simp]: "char_of (unat (of_nat (of_char c) :: byte)) = c"
  by (simp add: unat_of_nat)

lemma load_key_bytes: "CHR 0x00 \<notin> set k \<Longrightarrow> load_key (key_bytes k) = k"
  unfolding load_key_def key_bytes_def by (auto simp: comp_def takeWhile_eq_all_conv)

lemma load_rec_spec:
  assumes inv: "toc_inv s" "ls_toc_find s (key x) = None" and q: "oom (fd s) = []" "length (tab s) * 16 < off_max"
    and fe: "file_end s < u64_mod" and x: "savable (file_end s) x"
  shows "\<exists>s' r nc. load_rec s (rec_bytes x @ rest) = (s', LS_OK, rest) \<and> toc_inv s' \<and> r \<notin> dom (recs s)
     \<and> recs s' = (recs s)(r \<mapsto> loaded nc x) \<and> length (ext x) \<le> nc
     \<and> ls_toc_find s' = (ls_toc_find s)(key x \<mapsto> r) \<and> toc_only s s' \<and> fd s' = fd s
     \<and> length (tab s') \<le> max (length (tab s)) (4 * (nrec s + 1)) \<and> nrec s' \<le> nrec s + 1"
proof -
  let ?kl = "length (key x)" and ?al = "attrlen x" and ?ne = "length (ext x)"
  let ?kb = "key_bytes (key x)" and ?ab = "take ?al (attr x)" and ?eb = "concat (map ext_bytes (ext x))"
  have sv: "0 < ?kl" "?kl \<le> 255" "CHR 0x00 \<notin> set (key x)" "rsize x < 2 ^ 64" "length (attr x) = 256" "?al \<le> 256" "?ne < 2 ^ 32"
    "\<forall>e\<in>set (ext x). 4096 \<le> foff e \<and> e_end e \<le> file_end s" "length (locs (ext x)) < u64_mod"
    using x by (auto simp: savable_def LS_KEY_MAX_def u64_mod_def)
  define w6 where "w6 = ?eb @ rest"
  define w5 where "w5 = put32 ?ne @ w6"
  define w4 where "w4 = ?ab @ w5"
  define w3 where "w3 = put32 ?al @ w4"
  define w2 where "w2 = put64 (rsize x) @ w3"
  define w1 where "w1 = ?kb @ w2"
  have w: "rec_bytes x @ rest = put32 ?kl @ w1" by (simp add: rec_bytes_def w1_def w2_def w3_def w4_def w5_def w6_def)
  have lkb: "length ?kb = ?kl" and lab: "length ?ab = ?al" using sv(5,6) by (simp_all add: key_bytes_def)
  have len: "length w1 = ?kl + 8 + 4 + ?al + 4 + 16 * ?ne + length rest" "length w3 = 4 + ?al + 4 + 16 * ?ne + length rest"
    "length w4 = ?al + 4 + 16 * ?ne + length rest" "length w6 = 16 * ?ne + length rest"
    using lkb lab by (simp_all add: w1_def w2_def w3_def w4_def w5_def w6_def length_ext_bytes)
  have g: "get32 (put32 ?kl @ w1) = ?kl" "get64 w2 = rsize x" "get32 w3 = ?al" "get32 w5 = ?ne"
    unfolding w2_def w3_def w5_def by (rule c32.dec_enc c64.dec_enc; use sv in simp)+
  have d: "drop ?kl w1 = w2" "take ?kl w1 = ?kb" "drop 8 w2 = w3" "drop 4 w3 = w4" "drop ?al w4 = w5" "take ?al w4 = ?ab" "drop 4 w5 = w6"
    using lkb lab by (simp_all add: w1_def w2_def w3_def w4_def w5_def)
  obtain s1 ro where ins: "ls_toc_insert s (key x) = (s1, ro)" by fastforce
  note sp = ls_toc_insert_spec [OF ins inv] and tb = ls_toc_insert_tab [OF ins inv q(1)]
  obtain r where ro: "ro = Some r" using sp(2) q by blast
  have ad: "toc_inv s1" "toc_only s s1" "r \<notin> dom (recs s)" "recs s1 = (recs s)(r \<mapsto> rec_new (key x))" "ls_toc_find s1 = (ls_toc_find s)(key x \<mapsto> r)"
    using sp(1) ro by (auto simp: toc_added_def)
  define x4 where "x4 = (rec_new (key x))\<lparr>rsize := rsize x, attrlen := ?al, attr := (if ?al \<noteq> 0 then blit (zeros 256) 0 ?ab else zeros 256)\<rparr>"
  define s4 where "s4 = s1\<lparr>recs := (recs s)(r \<mapsto> x4)\<rparr>"
  have s4: "upd_rec (upd_rec (upd_rec s1 r (\<lambda>x'. x'\<lparr>rsize := rsize x\<rparr>)) r (\<lambda>x'. x'\<lparr>attrlen := ?al\<rparr>)) r
      (\<lambda>x'. x'\<lparr>attr := (if ?al \<noteq> 0 then blit (attr x') 0 (take ?al w4) else attr x')\<rparr>) = s4"
    unfolding d(6) using ad(4) by (simp add: upd_rec_def s4_def x4_def rec_new_def)
  have fe4: "file_end s4 = file_end s" "fd s4 = fd s" using toc_only_sel(9) [OF ad(2)] tb(3) by (simp_all add: s4_def)
  have x4: "ext x4 = []" "ncap x4 = 0" "ext_total x4 = 0" by (simp_all add: x4_def rec_new_def)
  have "recs s4 r = Some x4" by (simp add: s4_def)
  from load_exts_spec [OF this, of "ext x" rest] obtain nc where
    le: "?ne \<le> nc" "load_exts s4 r w6 ?ne =
      (upd_rec s4 r (\<lambda>x'. x'\<lparr>ext := ext x' @ ext x, ncap := nc, ext_total := length (locs (ext x' @ ext x))\<rparr>), LS_OK, rest)"
    using x4 fe fe4 q(1) sv(8,9) by (auto simp: w6_def)
  define s' where "s' = s4\<lparr>recs := (recs s)(r \<mapsto> loaded nc x)\<rparr>"
  have "blit (zeros 256) 0 ?ab = ?ab @ zeros (256 - ?al)"
    using lab sv(6) by (simp add: blit_def zeros_def)
  then have "x4\<lparr>ext := ext x4 @ ext x, ncap := nc, ext_total := length (locs (ext x4 @ ext x))\<rparr> = loaded nc x"
    using sv(5) by (auto simp: x4_def loaded_def rec_new_def)
  then have s': "load_exts s4 r w6 ?ne = (s', LS_OK, rest)" using le(2) by (simp add: upd_rec_def s4_def s'_def)
  have "load_rec s (rec_bytes x @ rest) = load_exts s4 r w6 ?ne"
    unfolding w load_rec_def using g d(1-5,7) len sv ins ro s4 load_key_bytes [OF sv(3)] d(2)
    by (simp add: Let_def LS_KEY_MAX_def del: length_drop drop_drop)
  then have res: "load_rec s (rec_bytes x @ rest) = (s', LS_OK, rest)" using s' by simp
  have rs: "recs s' = (recs s)(r \<mapsto> loaded nc x)" by (simp add: s'_def)
  have "toc_inv s'" "ls_toc_find s' = ls_toc_find s1"
    by (rule toc_inv_recs [OF ad(1)]; auto simp: s'_def s4_def ad(4) rkey_def loaded_def rec_new_def)+
  moreover have "toc_only s s'" using ad(2) unfolding toc_only_def s'_def s4_def by (cases s; cases s1) auto
  moreover have "fd s' = fd s" "tab s' = tab s1" "nrec s' = nrec s1" using tb(3) by (simp_all add: s'_def s4_def)
  ultimately show ?thesis using res rs ad(3,5) le(1) tb(1,2)
    by (intro exI [of _ s'] exI [of _ r] exI [of _ nc]) simp
qed

lemma toc_load_spec:
  assumes "toc_inv s" "oom (fd s) = []" "file_end s < u64_mod"
    and "\<forall>x\<in>set xs. savable (file_end s) x \<and> ls_toc_find s (key x) = None" "distinct (map key xs)"
    and "length (tab s) \<le> m" "4 * (nrec s + length xs) \<le> m" "m * 16 < off_max"
  shows "\<exists>s'. toc_load s (concat (map rec_bytes xs) @ rest) (length xs) = (s', LS_OK) \<and> toc_inv s' \<and> toc_only s s' \<and> fd s' = fd s
     \<and> (\<forall>r\<in>dom (recs s). recs s' r = recs s r) \<and> (\<forall>k. k \<notin> key ` set xs \<longrightarrow> ls_toc_find s' k = ls_toc_find s k)
     \<and> (\<forall>x\<in>set xs. \<exists>r nc. ls_toc_find s' (key x) = Some r \<and> recs s' r = Some (loaded nc x) \<and> length (ext x) \<le> nc)"
  using assms
proof (induction xs arbitrary: s)
  case Nil
  then show ?case by (auto simp: toc_only_def)
next
  case (Cons x xs)
  have x: "savable (file_end s) x" "ls_toc_find s (key x) = None" using Cons.prems(4) by simp_all
  have tb: "length (tab s) * 16 < off_max" using Cons.prems(6,8) by linarith
  from load_rec_spec [OF Cons.prems(1) x(2) Cons.prems(2) tb Cons.prems(3) x(1), of "concat (map rec_bytes xs) @ rest"]
  obtain s1 r nc where l: "load_rec s (rec_bytes x @ concat (map rec_bytes xs) @ rest) = (s1, LS_OK, concat (map rec_bytes xs) @ rest)"
    "toc_inv s1" "r \<notin> dom (recs s)" "recs s1 = (recs s)(r \<mapsto> loaded nc x)" "length (ext x) \<le> nc"
    "ls_toc_find s1 = (ls_toc_find s)(key x \<mapsto> r)" "toc_only s s1" "fd s1 = fd s"
    "length (tab s1) \<le> max (length (tab s)) (4 * (nrec s + 1))" "nrec s1 \<le> nrec s + 1" by blast
  have fe: "file_end s1 = file_end s" using toc_only_sel(9) [OF l(7)] .
  have "\<forall>x\<in>set xs. savable (file_end s1) x \<and> ls_toc_find s1 (key x) = None"
    using Cons.prems(4,5) l(6) fe by (force simp: image_iff)
  moreover have "length (tab s1) \<le> m" "4 * (nrec s1 + length xs) \<le> m" using l(9,10) Cons.prems(6,7) by auto
  ultimately obtain s' where s': "toc_load s1 (concat (map rec_bytes xs) @ rest) (length xs) = (s', LS_OK)" "toc_inv s'" "toc_only s1 s'"
    "fd s' = fd s1" "\<forall>r\<in>dom (recs s1). recs s' r = recs s1 r" "\<forall>k. k \<notin> key ` set xs \<longrightarrow> ls_toc_find s' k = ls_toc_find s1 k"
    "\<forall>x\<in>set xs. \<exists>r nc. ls_toc_find s' (key x) = Some r \<and> recs s' r = Some (loaded nc x) \<and> length (ext x) \<le> nc"
    using Cons.IH [OF l(2)] Cons.prems(2,3,5,8) l(8) fe by auto
  have nk: "key x \<notin> key ` set xs" using Cons.prems(5) by simp
  have "ls_toc_find s' (key x) = Some r \<and> recs s' r = Some (loaded nc x)"
    using s'(5,6) nk l(4,6) by simp
  moreover have "\<forall>r\<in>dom (recs s). recs s' r = recs s r" using s'(5) l(3,4) by auto
  moreover have "\<forall>k. k \<notin> key ` set (x # xs) \<longrightarrow> ls_toc_find s' k = ls_toc_find s k" using s'(6) l(6) by simp
  moreover have "toc_load s (concat (map rec_bytes (x # xs)) @ rest) (length (x # xs)) = (s', LS_OK)" using l(1) s'(1) by simp
  ultimately show ?case using s' l(5,8) toc_only_trans [OF l(7) s'(3)]
    by (intro exI [of _ s']) auto
qed

subsection \<open>The free list from the gaps\<close>

lemma add64_end: "e_end e < u64_mod \<Longrightarrow> add64 (foff e) (elen e) = e_end e"
  by simp

text \<open>Extents in file order that do not overlap: the gaps between them become free, nothing else.\<close>

lemma free_gaps_spec:
  assumes "alloc_inv s" "file_wf (fd s)" "oom (fd s) = []" "\<not> teardown s"
    and "\<forall>e\<in>set es. ext_ok e \<and> e_end e \<le> fe" "sorted_wrt (\<lambda>a b. e_end a \<le> foff b) es" "\<forall>e\<in>set es. cur \<le> foff e"
    and "4096 dvd cur" "4096 \<le> cur" "fe < u64_mod" "free_set s \<inter> {cur..<fe} = {}"
  shows "\<exists>s'. free_gaps s cur es = (s', LS_OK) \<and> alloc_inv s' \<and> alloc_only s s' \<and> os_keeps (fd s) (fd s') (- free_set s')
     \<and> free_set s \<subseteq> free_set s' \<and> free_set s' \<inter> set (locs es) = {}
     \<and> free_set s' \<subseteq> free_set s \<union> {cur..<fe}"
  using assms
proof (induction es arbitrary: s cur)
  case Nil
  then show ?case using os_keeps_refl by simp
next
  case (Cons e es)
  have e: "ext_ok e" "e_end e \<le> fe" "cur \<le> foff e" using Cons.prems(5,7) by simp_all
  define h where "h = \<lparr>foff = cur, elen = foff e - cur\<rparr>"
  define s1 where "s1 = (if cur < foff e then ls_free_extents s [h] else s)"
  have s1: "alloc_inv s1 \<and> alloc_only s s1 \<and> os_keeps (fd s) (fd s1) (- free_set s1) \<and> free_set s \<subseteq> free_set s1
      \<and> free_set s1 \<subseteq> free_set s \<union> {cur..<foff e}"
  proof (cases "cur < foff e")
    case False
    then show ?thesis using Cons.prems(1,2) os_keeps_refl by (simp add: s1_def)
  next
    case True
    have sp: "set (locs [h]) = {cur..<foff e}" using True by (auto simp: set_locs h_def)
    have "ext_ok h" using True e(1) Cons.prems(8,9) by (auto simp: ext_ok_def h_def intro: dvd_diff_nat)
    moreover have "set (locs [h]) \<inter> free_set s = {}" using sp Cons.prems(11) e(2) by fastforce
    moreover have "distinct (locs [h])" by (simp add: locs_def)
    moreover have "ls_free_extents s [h] = s1" using True by (simp add: s1_def)
    ultimately show ?thesis using ls_free_extents_spec [OF Cons.prems(1,2), of "[h]" s1] sp by auto
  qed
  have al: "alloc_only s s1" using s1 by blast
  note sel = alloc_only_sel [OF al]
  have adv: "advances (fd s) (fd s1)" "file_wf (fd s1)" using s1 os_keepsD(1,2) by blast+
  have oom: "oom (fd s1) = []" using adv(1) Cons.prems(3) by (auto simp: advances_def)
  have ev: "e_end e < u64_mod" using e(2) Cons.prems(10) by linarith
  have "4096 dvd e_end e" "4096 \<le> e_end e" using e(1) by (auto simp: ext_ok_def)
  moreover have "\<forall>e'\<in>set es. e_end e \<le> foff e'" "sorted_wrt (\<lambda>a b. e_end a \<le> foff b) es" using Cons.prems(6) by auto
  moreover have fs: "free_set s1 \<inter> {e_end e..<fe} = {}" "free_set s1 \<inter> span_of e = {}"
    using s1 Cons.prems(11) e(2,3) by fastforce+
  ultimately obtain s' where s': "free_gaps s1 (e_end e) es = (s', LS_OK)" "alloc_inv s'" "alloc_only s1 s'"
    "os_keeps (fd s1) (fd s') (- free_set s')" "free_set s1 \<subseteq> free_set s'" "free_set s' \<inter> set (locs es) = {}"
    "free_set s' \<subseteq> free_set s1 \<union> {e_end e..<fe}"
    using Cons.IH [of s1 "e_end e"] s1 adv(2) oom Cons.prems(4,5,10) sel by auto
  have "free_gaps s cur (e # es) = (s', LS_OK)" using s'(1) e(3) ev by (auto simp: Let_def s1_def h_def split: if_splits)
  moreover have "free_set s' \<inter> set (locs (e # es)) = {}"
  proof -
    have "span_of e \<inter> {e_end e..<fe} = {}" by auto
    then show ?thesis using s'(6,7) fs(2) by (auto simp: set_locs)
  qed
  moreover have "os_keeps (fd s) (fd s') (- free_set s')"
  proof -
    have "os_keeps (fd s) (fd s1) (- free_set s')" using s1 s'(5) os_keeps_mono by blast
    then show ?thesis using os_keeps_trans s'(4) by blast
  qed
  moreover have "alloc_only s s'" using alloc_only_trans [OF al s'(3)] .
  moreover have "free_set s' \<subseteq> free_set s \<union> {cur..<fe}" using s'(7) s1 e(2,3) by fastforce
  ultimately show ?case using s'(2,5) s1 by blast
qed

subsection \<open>The records of a table\<close>

lemma toc_recs_spec:
  assumes "toc_inv s"
  shows "set (toc_recs s) = ran (recs s)" "distinct (map key (toc_recs s))" "length (toc_recs s) = nrec s"
    "x \<in> set (toc_recs s) \<longleftrightarrow> (\<exists>r. ls_toc_find s (key x) = Some r \<and> recs s r = Some x)"
proof -
  have tb: "set (concat (tab s)) = dom (recs s)" "distinct (concat (tab s))" "nrec s = length (concat (tab s))"
    using assms by (simp_all add: toc_inv_def)
  show sr: "set (toc_recs s) = ran (recs s)"
    unfolding toc_recs_def set_map tb(1) by (force simp: ran_def dom_def image_iff)
  have "map key (toc_recs s) = map (rkey s) (concat (tab s))"
    unfolding toc_recs_def map_map using tb(1) by (intro map_cong) (auto simp: rkey_def)
  then show "distinct (map key (toc_recs s))"
    using tb toc_invD(2) [OF assms] by (simp only: distinct_map)
  show "length (toc_recs s) = nrec s" using tb(3) by (simp add: toc_recs_def)
  show "x \<in> set (toc_recs s) \<longleftrightarrow> (\<exists>r. ls_toc_find s (key x) = Some r \<and> recs s r = Some x)"
    unfolding sr toc_find_iff [OF assms] by (auto simp: ran_def rkey_def)
qed

lemma distinct_locs_concat:
  assumes "distinct rs" "\<And>r. r \<in> set rs \<Longrightarrow> distinct (locs (f r))"
    "\<And>r r'. r \<in> set rs \<Longrightarrow> r' \<in> set rs \<Longrightarrow> r \<noteq> r' \<Longrightarrow> set (locs (f r)) \<inter> set (locs (f r')) = {}"
  shows "distinct (locs (concat (map f rs)))"
  using assms
proof (induction rs)
  case (Cons r rs)
  have "set (locs (f r)) \<inter> set (locs (concat (map f rs))) = {}"
  proof (rule equals0I)
    fix p assume "p \<in> set (locs (f r)) \<inter> set (locs (concat (map f rs)))"
    then obtain r' where "r' \<in> set rs" "p \<in> set (locs (f r))" "p \<in> set (locs (f r'))" by (auto simp: set_locs)
    then show False using Cons.prems(3) [of r r'] Cons.prems(1) by auto
  qed
  then show ?case using Cons by (simp add: locs_append)
qed simp

lemma mset_locs: "mset (locs es) = (\<Sum>e\<in>#mset es. mset [foff e..<e_end e])"
  by (induction es) (simp_all add: locs_simps)

lemma sorted_disjoint:
  assumes "sorted (map foff es)" "\<forall>e\<in>set es. 0 < elen e" "distinct (locs es)"
  shows "sorted_wrt (\<lambda>a b. e_end a \<le> foff b) es"
  using assms
proof (induction es)
  case (Cons a es)
  have "e_end a \<le> foff b" if b: "b \<in> set es" for b
  proof (rule ccontr)
    assume "\<not> e_end a \<le> foff b"
    then have "foff b \<in> span_of a" using Cons.prems(1) b by auto
    moreover have "foff b \<in> span_of b" using Cons.prems(2) b by simp
    ultimately have "foff b \<in> set [foff a..<e_end a]" "foff b \<in> set (locs es)" using b by (auto simp: set_locs)
    then show False using Cons.prems(3) by (auto simp: locs_simps)
  qed
  then show ?case using Cons by (simp add: locs_simps)
qed simp

lemma sorted_extents:
  assumes "distinct (locs es)" "\<forall>e\<in>set es. 0 < elen e"
  shows "sorted_wrt (\<lambda>a b. e_end a \<le> foff b) (sort_key foff es)"
proof -
  have "mset (locs (sort_key foff es)) = mset (locs es)" by (simp add: mset_locs)
  then show ?thesis using assms mset_eq_imp_distinct_iff by (intro sorted_disjoint) (auto simp del: sort_key_simps)
qed

subsection \<open>The image of a kept store\<close>

text \<open>What \<open>ls_close\<close> leaves of a store: the superblock, the table behind the data, and the records' bytes
  where their extents say. The table can be written if the keys are C strings within the limit and
  the extent counts fit their field.\<close>

definition toc_bytes :: "ls_store \<Rightarrow> byte list" where
  "toc_bytes s = concat (map rec_bytes (toc_recs s))"

definition image :: "os \<Rightarrow> ls_store \<Rightarrow> bool" where
  "image w s \<longleftrightarrow> file_wf w \<and> file_read w 0 4096 = superblock (file_end s) (nrec s) (toc_bytes s)
     \<and> file_read w (file_end s) (length (toc_bytes s)) = toc_bytes s \<and> file_end s + length (toc_bytes s) \<le> flen w
     \<and> (\<forall>r. \<forall>p\<in>used s r. fbytes w p = fbytes (fd s) p \<and> p < flen w)"

definition storable :: "ls_store \<Rightarrow> bool" where
  "storable s \<longleftrightarrow> (\<forall>x\<in>ran (recs s). 0 < length (key x) \<and> length (key x) \<le> LS_KEY_MAX \<and> CHR 0x00 \<notin> set (key x)
      \<and> length (ext x) < 2 ^ 32) \<and> nrec s < 2 ^ 50"

lemma in_space:
  assumes "store_inv s" "recs s r = Some x" "e \<in> set (ext x)"
  shows "4096 \<le> foff e \<and> e_end e \<le> file_end s"
proof -
  have e: "ext_ok e" using store_invD(7) [OF assms(1,2)] assms(3) by (simp add: rec_ok_def)
  have "span_of e \<inter> {file_end s..} = {}"
    using store_invD(8) [OF assms(1,2)] assms(3) by (auto simp: set_locs free_set_def)
  moreover have "e_end e - 1 \<in> span_of e" using e by (auto simp: ext_ok_def)
  ultimately have "e_end e - 1 < file_end s" by fastforce
  then show ?thesis using e by (simp add: ext_ok_def)
qed

lemma storable_savable:
  assumes "store_inv s" "storable s" "recs s r = Some x"
  shows "savable (file_end s) x"
proof -
  have "x \<in> ran (recs s)" using assms(3) by (auto simp: ran_def)
  then show ?thesis using store_invD(7) [OF assms(1,3)] assms(2) in_space [OF assms(1,3)] locs_small [OF assms(1,3)]
    unfolding savable_def storable_def rec_ok_def by simp
qed

text \<open>A table that holds the loaded form of the records of \<open>s\<close>.\<close>

definition mirrors :: "ls_store \<Rightarrow> ls_store \<Rightarrow> bool" where
  "mirrors s t \<longleftrightarrow> toc_inv t \<and> (\<forall>k. ls_toc_find s k = None \<longleftrightarrow> ls_toc_find t k = None)
     \<and> (\<forall>k r x. ls_toc_find s k = Some r \<longrightarrow> recs s r = Some x \<longrightarrow>
         (\<exists>r' nc. ls_toc_find t k = Some r' \<and> recs t r' = Some (loaded nc x) \<and> length (ext x) \<le> nc))"

lemma mirrors_rec:
  assumes "mirrors s t" "toc_inv s" "recs t r' = Some y"
  obtains r x nc where "ls_toc_find s (key y) = Some r" "ls_toc_find t (key y) = Some r'" "recs s r = Some x"
    "key x = key y" "y = loaded nc x" "length (ext x) \<le> nc"
proof -
  have t: "toc_inv t" using assms(1) by (simp add: mirrors_def)
  have f: "ls_toc_find t (key y) = Some r'" using assms(3) by (auto simp: toc_find_iff [OF t] rkey_def)
  then obtain r where r: "ls_toc_find s (key y) = Some r" using assms(1) by (fastforce simp: mirrors_def)
  then obtain x where x: "recs s r = Some x" "key x = key y" by (auto simp: toc_find_iff [OF assms(2)] rkey_def)
  then show ?thesis using that [OF r f x] assms(1,3) r f unfolding mirrors_def by fastforce
qed

lemma load_mirrors:
  assumes "store_inv s" "storable s" "toc_inv t" "recs t = Map.empty" "nrec t = 0" "length (tab t) = 64"
    "oom (fd t) = []" "file_end t = file_end s"
  shows "\<exists>t'. toc_load t (toc_bytes s) (nrec s) = (t', LS_OK) \<and> mirrors s t' \<and> toc_only t t' \<and> fd t' = fd t"
proof -
  have ti: "toc_inv s" using store_invD(1) [OF assms(1)] .
  note tr = toc_recs_spec [OF ti]
  have none: "ls_toc_find t k = None" for k
    using toc_find_iff [OF assms(3), of k] assms(4) by (cases "ls_toc_find t k") auto
  have fe: "file_end t < u64_mod" using store_invD(2) [OF assms(1)] assms(8) by (simp add: alloc_inv_def)
  have "\<forall>x\<in>set (toc_recs s). savable (file_end t) x \<and> ls_toc_find t (key x) = None"
    using tr(1) storable_savable [OF assms(1,2)] assms(8) none by (auto simp: ran_def)
  moreover have "max 64 (4 * nrec s) * 16 < off_max" using assms(2) by (simp add: storable_def off_max_def)
  ultimately obtain t' where t': "toc_load t (concat (map rec_bytes (toc_recs s)) @ []) (length (toc_recs s)) = (t', LS_OK)"
    "toc_inv t'" "toc_only t t'" "fd t' = fd t" "\<forall>k. k \<notin> key ` set (toc_recs s) \<longrightarrow> ls_toc_find t' k = ls_toc_find t k"
    "\<forall>x\<in>set (toc_recs s). \<exists>r nc. ls_toc_find t' (key x) = Some r \<and> recs t' r = Some (loaded nc x) \<and> length (ext x) \<le> nc"
    using toc_load_spec [OF assms(3,7) fe _ tr(2), of "max 64 (4 * nrec s)" "[]"] assms(5,6) tr(3) by auto
  have hit: "\<exists>r' nc. ls_toc_find t' k = Some r' \<and> recs t' r' = Some (loaded nc x) \<and> length (ext x) \<le> nc"
    if k: "ls_toc_find s k = Some r" "recs s r = Some x" for k r x
  proof -
    have "x \<in> set (toc_recs s)" "key x = k" using k tr(1) by (auto simp: ran_def toc_find_iff [OF ti] rkey_def)
    then show ?thesis using t'(6) by blast
  qed
  have "ls_toc_find s k = None \<longleftrightarrow> ls_toc_find t' k = None" for k
  proof (cases "ls_toc_find s k")
    case None
    then have "k \<notin> key ` set (toc_recs s)" using tr(4) by fastforce
    then show ?thesis using None t'(5) none by simp
  next
    case (Some r)
    then obtain x where "recs s r = Some x" by (auto simp: toc_find_iff [OF ti])
    then show ?thesis using hit [OF Some] Some by auto
  qed
  then have "mirrors s t'" using t'(2) hit by (auto simp: mirrors_def)
  then show ?thesis using t' tr(3) by (auto simp: toc_bytes_def)
qed

lemma loaded_sel [simp]:
  "key (loaded nc x) = key x" "rsize (loaded nc x) = rsize x" "ext (loaded nc x) = ext x" "mem (loaded nc x) = None"
  "ncap (loaded nc x) = nc" "ext_total (loaded nc x) = length (locs (ext x))" "mem_cap (loaded nc x) = 0"
  "attrlen (loaded nc x) = attrlen x"
  by (simp_all add: loaded_def rec_new_def)

lemma mirrors_distinct:
  assumes "store_inv s" "mirrors s t"
  shows "distinct (locs (concat (map ext (toc_recs t))))"
    "\<forall>e\<in>set (concat (map ext (toc_recs t))). ext_ok e \<and> e_end e \<le> file_end s"
    "\<And>r. used t r \<subseteq> set (locs (concat (map ext (toc_recs t))))"
    "\<And>r r'. r \<noteq> r' \<Longrightarrow> used t r \<inter> used t r' = {}"
proof -
  have ti: "toc_inv s" "toc_inv t" using store_invD(1) [OF assms(1)] assms(2) by (simp_all add: mirrors_def)
  have tb: "set (concat (tab t)) = dom (recs t)" "distinct (concat (tab t))" using ti(2) by (simp_all add: toc_inv_def)
  show dis: "used t r \<inter> used t r' = {}" if "r \<noteq> r'" for r r'
  proof (cases "r \<in> dom (recs t) \<and> r' \<in> dom (recs t)")
    case True
    then obtain y y' where y: "recs t r = Some y" "recs t r' = Some y'" by blast
    obtain q x nc where q: "ls_toc_find s (key y) = Some q" "ls_toc_find t (key y) = Some r" "recs s q = Some x" "y = loaded nc x" "key x = key y"
      using mirrors_rec [OF assms(2) ti(1) y(1)] by metis
    obtain q' x' nc' where q': "ls_toc_find s (key y') = Some q'" "ls_toc_find t (key y') = Some r'" "recs s q' = Some x'" "y' = loaded nc' x'" "key x' = key y'"
      using mirrors_rec [OF assms(2) ti(1) y(2)] by metis
    have "q \<noteq> q'"
    proof
      assume "q = q'"
      then have "key y = key y'" using q(3,5) q'(3,5) by simp
      then show False using q(2) q'(2) that by simp
    qed
    then show ?thesis using store_invD(9) [OF assms(1), of q q'] q(3,4) q'(3,4) y by (simp add: used_def)
  qed (auto simp: used_def split: option.splits)
  have m: "toc_recs t = map (\<lambda>r. the (recs t r)) (concat (tab t))" by (simp add: toc_recs_def)
  have each: "distinct (locs (ext (the (recs t r))))" if r: "r \<in> dom (recs t)" for r
  proof -
    obtain y where y: "recs t r = Some y" using r by blast
    obtain q x nc where "recs s q = Some x" "y = loaded nc x" using mirrors_rec [OF assms(2) ti(1) y] by metis
    then show ?thesis using store_invD(7) [OF assms(1)] y by (simp add: rec_ok_def)
  qed
  have "set (locs (ext (the (recs t r)))) \<inter> set (locs (ext (the (recs t r')))) = {}"
    if rr: "r \<in> dom (recs t)" "r' \<in> dom (recs t)" "r \<noteq> r'" for r r'
  proof -
    obtain y y' where "recs t r = Some y" "recs t r' = Some y'" using rr by blast
    then show ?thesis using dis [OF rr(3)] by (simp add: used_def)
  qed
  then show "distinct (locs (concat (map ext (toc_recs t))))"
    unfolding m map_map comp_def using each by (intro distinct_locs_concat [OF tb(2)]; simp only: tb(1))
  show "\<forall>e\<in>set (concat (map ext (toc_recs t))). ext_ok e \<and> e_end e \<le> file_end s"
  proof
    fix e assume "e \<in> set (concat (map ext (toc_recs t)))"
    then obtain r y where y: "recs t r = Some y" "e \<in> set (ext y)"
      using toc_recs_spec(1) [OF ti(2)] by (auto simp: ran_def)
    obtain q x nc where x: "recs s q = Some x" "y = loaded nc x" using mirrors_rec [OF assms(2) ti(1) y(1)] by metis
    then have "ext_ok e" using store_invD(7) [OF assms(1) x(1)] y by (simp add: rec_ok_def)
    then show "ext_ok e \<and> e_end e \<le> file_end s" using in_space [OF assms(1) x(1)] x(2) y(2) by simp
  qed
  show "used t r \<subseteq> set (locs (concat (map ext (toc_recs t))))" for r
  proof (cases "recs t r")
    case (Some y)
    then have "y \<in> set (toc_recs t)" using toc_recs_spec(1) [OF ti(2)] by (auto simp: ran_def)
    then show ?thesis using Some by (auto simp: used_def set_locs)
  qed (simp add: used_def)
qed

lemma rebuild_mirrors:
  assumes s: "store_inv s" and t: "mirrors s t" "fl t = []" "file_end t = file_end s" "file_wf (fd t)" "oom (fd t) = []" "\<not> teardown t"
  shows "\<exists>t'. rebuild_free_list t = (t', LS_OK) \<and> alloc_inv t' \<and> alloc_only t t' \<and> os_keeps (fd t) (fd t') (- free_set t')
     \<and> (\<forall>r. used t r \<inter> free_set t' = {})"
proof -
  let ?es = "concat (map ext (toc_recs t))"
  note d = mirrors_distinct [OF s t(1)]
  have fe: "alloc_inv s" using store_invD(2) [OF s] .
  have al: "alloc_inv t" using fe t(2,3) by (simp add: alloc_inv_def holes_ok_def)
  have fs: "free_set t = {file_end s..}" using t(2,3) by (simp add: free_set_def hole_set_def)
  show ?thesis
  proof (cases "?es = []")
    case True
    then have "used t r = {}" for r using d(3) [of r] unfolding True by simp
    then show ?thesis using True al os_keeps_refl [OF t(4)] by (simp add: rebuild_free_list_def)
  next
    case False
    let ?l = "sort_key foff ?es"
    have pos: "\<forall>e\<in>set ?es. 0 < elen e" "\<forall>e\<in>set ?es. 4096 \<le> foff e" using d(2) by (auto simp: ext_ok_def)
    have "sorted_wrt (\<lambda>a b. e_end a \<le> foff b) ?l" using sorted_extents [OF d(1) pos(1)] .
    moreover have "\<forall>e\<in>set ?l. ext_ok e \<and> e_end e \<le> file_end s" "\<forall>e\<in>set ?l. 4096 \<le> foff e" using d(2) pos(2) by simp_all
    moreover have "free_set t \<inter> {4096..<file_end s} = {}" unfolding fs by auto
    moreover have "file_end s < u64_mod" using fe by (simp add: alloc_inv_def)
    ultimately obtain t' where t': "free_gaps t 4096 ?l = (t', LS_OK)" "alloc_inv t'" "alloc_only t t'"
      "os_keeps (fd t) (fd t') (- free_set t')" "free_set t' \<inter> set (locs ?l) = {}"
      using free_gaps_spec [OF al t(4,5,6), of ?l "file_end s" 4096] by auto
    have "set (locs ?l) = set (locs ?es)" by (simp add: set_locs)
    then have "used t r \<inter> free_set t' = {}" for r using d(3) [of r] t'(5) by blast
    moreover have "rebuild_free_list t = (t', LS_OK)"
      using t'(1) False st_malloc_calm [OF t(5)] by (simp del: concat_eq_Nil_conv add: rebuild_free_list_def Let_def)
    ultimately show ?thesis using t'(2-4) by blast
  qed
qed

subsection \<open>Opening an image\<close>

lemma length_magic [simp]: "length LS_MAGIC = 8"
  by (simp add: LS_MAGIC_def key_bytes_def)

lemma length_superblock [simp]: "length (superblock fe n tb) = 4096"
  by (simp add: superblock_def)

lemma crc32_of_less: "crc32_of p < 2 ^ 32"
  unfolding crc32_of_def by (rule order_less_le_trans [OF unsigned_less]) simp

lemma superblock_fields:
  assumes "fe < u64_mod" "n < u64_mod" "length tb < u64_mod"
  shows "take 8 (superblock fe n tb) = LS_MAGIC" "get32 (drop 8 (superblock fe n tb)) = LS_FMT_VERSION"
    "sb_off (superblock fe n tb) = fe" "sb_count (superblock fe n tb) = n" "sb_end (superblock fe n tb) = fe"
    "sb_crc (superblock fe n tb) = crc32_of tb" "sb_len (superblock fe n tb) = length tb"
proof -
  have lt: "fe < 256 ^ 8" "n < 256 ^ 8" "length tb < 256 ^ 8" "crc32_of tb < 256 ^ 4" "LS_FMT_VERSION < 256 ^ 4"
    using assms crc32_of_less [of tb] by (simp_all add: u64_mod_def LS_FMT_VERSION_def)
  show "take 8 (superblock fe n tb) = LS_MAGIC" by (simp add: superblock_def)
  show "get32 (drop 8 (superblock fe n tb)) = LS_FMT_VERSION" unfolding superblock_def
    by (rule c32.dec_at) (simp_all add: LS_FMT_VERSION_def)
  show "sb_off (superblock fe n tb) = fe" unfolding superblock_def sb_off_def
    using c64.dec_at [of "LS_MAGIC @ put32 LS_FMT_VERSION @ put32 0" 16 fe] lt(1) by simp
  show "sb_count (superblock fe n tb) = n" unfolding superblock_def sb_count_def
    using c64.dec_at [of "LS_MAGIC @ put32 LS_FMT_VERSION @ put32 0 @ put64 fe" 24 n] lt(2) by simp
  show "sb_end (superblock fe n tb) = fe" unfolding superblock_def sb_end_def
    using c64.dec_at [of "LS_MAGIC @ put32 LS_FMT_VERSION @ put32 0 @ put64 fe @ put64 n" 32 fe] lt(1) by simp
  show "sb_crc (superblock fe n tb) = crc32_of tb" unfolding superblock_def sb_crc_def
    using c32.dec_at [of "LS_MAGIC @ put32 LS_FMT_VERSION @ put32 0 @ put64 fe @ put64 n @ put64 fe" 40 "crc32_of tb"] lt(4) by simp
  show "sb_len (superblock fe n tb) = length tb" unfolding superblock_def sb_len_def
    using c64.dec_at [of "LS_MAGIC @ put32 LS_FMT_VERSION @ put32 0 @ put64 fe @ put64 n @ put64 fe @ put32 (crc32_of tb) @ zeros 4" 48 "length tb"]
      lt(3) by simp
qed

text \<open>A reopened record: its bytes where they were, and capacity beyond its size still zero.\<close>

lemma loaded_ok:
  assumes "rec_ok w x" "mem x = None" "length (ext x) \<le> nc"
    and "\<forall>p\<in>set (locs (ext x)). fbytes w' p = fbytes w p \<and> p < flen w'"
  shows "rec_ok w' (loaded nc x)" "content w' (loaded nc x) = content w x" "attr_of (loaded nc x) = attr_of x"
proof -
  have a: "length (attr (loaded nc x)) = 256" "attr_of (loaded nc x) = attr_of x"
    using assms(1) by (auto simp: rec_ok_def loaded_def attr_of_def)
  then show "attr_of (loaded nc x) = attr_of x" by blast
  show "content w' (loaded nc x) = content w x" using assms(2,4) by (auto simp: content_def dest: in_set_takeD)
  have "fbytes w' (locs (ext x) ! i) = 0" if "rsize x \<le> i" "i < length (locs (ext x))" for i
    using assms(1,4) that by (simp add: rec_ok_def)
  then show "rec_ok w' (loaded nc x)" using assms a(1) by (simp add: rec_ok_def)
qed

lemma mirrored_store:
  assumes s: "store_inv s" "res_set s = {}" and t: "mirrors s t" "alloc_inv t" "io_ok (fd t) (direct t)" "\<not> teardown t"
    "resident t = 0" "lru_list (lru t) []" "memory_budget (opts t) < off_max"
    and u: "\<forall>r. used t r \<inter> free_set t = {}" and b: "\<forall>r. \<forall>p\<in>used s r. fbytes (fd t) p = fbytes (fd s) p \<and> p < flen (fd t)"
  shows "store_inv t" "store_abs t = store_abs s"
proof -
  have ti: "toc_inv s" "toc_inv t" using store_invD(1) [OF s(1)] t(1) by (simp_all add: mirrors_def)
  have view: "rec_ok (fd t) (loaded nc x)" "content (fd t) (loaded nc x) = content (fd s) x" "attr_of (loaded nc x) = attr_of x"
    if "recs s r = Some x" "length (ext x) \<le> nc" for r x nc
  proof -
    have "mem x = None" using s(2) that(1) by (auto simp: res_set_def)
    moreover have "\<forall>p\<in>set (locs (ext x)). fbytes (fd t) p = fbytes (fd s) p \<and> p < flen (fd t)"
      using b that(1) by (auto simp: used_def split: option.splits)
    ultimately show "rec_ok (fd t) (loaded nc x)" "content (fd t) (loaded nc x) = content (fd s) x" "attr_of (loaded nc x) = attr_of x"
      using loaded_ok [OF store_invD(7) [OF s(1) that(1)] _ that(2)] by blast+
  qed
  have rec: "rec_ok (fd t) y \<and> mem y = None" if y: "recs t r' = Some y" for r' y
  proof -
    obtain r x nc where "recs s r = Some x" "y = loaded nc x" "length (ext x) \<le> nc"
      using mirrors_rec [OF t(1) ti(1) y] by metis
    then show ?thesis using view(1) by simp
  qed
  then have rs: "res_set t = {}" by (auto simp: res_set_def)
  then have "tier_ok t" unfolding tier_ok_def using t(5,6,7) by (auto intro: exI [of _ "[]"])
  then show inv: "store_inv t" unfolding store_inv_def using ti(2) t(2-4) u rec mirrors_distinct(4) [OF s(1) t(1)] by blast
  show "store_abs t = store_abs s"
  proof (rule ext)
    fix k show "store_abs t k = store_abs s k"
    proof (cases "ls_toc_find s k")
      case None
      then have "ls_toc_find t k = None" using t(1) unfolding mirrors_def by blast
      then show ?thesis using None by (simp add: store_abs_def)
    next
      case (Some r)
      obtain x where x: "recs s r = Some x" using found [OF s(1) Some] by blast
      then obtain r' nc where r': "ls_toc_find t k = Some r'" "recs t r' = Some (loaded nc x)" "length (ext x) \<le> nc"
        using t(1) Some unfolding mirrors_def by blast
      then show ?thesis using view(2,3) [OF x r'(3)] store_abs_Some [OF Some x] store_abs_Some [OF r'(1,2)] by simp
    qed
  qed
qed

lemma read_image:
  assumes "ls_pread_all w d n off = (w', rc, out)" "io_ok w d" "quiet w" "off + n + 4096 \<le> off_max" "off + n \<le> flen w"
  shows "rc = LS_OK" "out = file_read w off n" "fbytes w' = fbytes w" "flen w' = flen w" "quiet w'" "io_ok w' d"
proof -
  have "off + n < u64_mod" using assms(4) by (simp add: u64_mod_def off_max_def)
  note p = ls_pread_all_spec [OF assms(1) this assms(2)]
  show "rc = LS_OK" "out = file_read w off n" "flen w' = flen w" using p(2-4) assms(3-5) by simp_all
  show "fbytes w' = fbytes w" using p(1) by (auto simp: file_frame_def)
  show "quiet w'" "io_ok w' d" using advances_quiet [OF file_frameD(1) [OF p(1)] assms(3)] io_ok_frame [OF p(1) assms(2)] .
qed

lemma open_image:
  assumes s: "store_inv s" "res_set s = {}" "storable s" "0 < nrec s"
    and w: "image w s" "quiet w" "file_end s + length (toc_bytes s) + 4096 \<le> off_max" and o': "memory_budget o' < off_max"
  shows "\<exists>t. open_file (store_init w p o' d) (flen w) = (t, LS_OK) \<and> store_inv t \<and> store_abs t = store_abs s \<and> opts t = o'
     \<and> quiet (fd t)"
proof -
  let ?fe = "file_end s" and ?tb = "toc_bytes s"
  let ?sb = "superblock ?fe (nrec s) ?tb"
  have im: "file_wf w" "file_read w 0 4096 = ?sb" "file_read w ?fe (length ?tb) = ?tb" "?fe + length ?tb \<le> flen w"
    "\<forall>r. \<forall>p\<in>used s r. fbytes w p = fbytes (fd s) p \<and> p < flen w" using w(1) by (simp_all add: image_def)
  have fe: "4096 \<le> ?fe" using store_invD(2) [OF s(1)] by (simp add: alloc_inv_def)
  have big: "?fe < u64_mod" "nrec s < u64_mod" "length ?tb < u64_mod" "?fe + length ?tb < u64_mod"
    using im(4) w(3) s(3) by (simp_all add: u64_mod_def off_max_def storable_def)
  note f = superblock_fields [OF big(1-3)]
  have "length ?tb \<noteq> 0"
  proof -
    have "toc_recs s \<noteq> []" using toc_recs_spec(3) [OF store_invD(1) [OF s(1)]] s(4) by auto
    then show ?thesis by (cases "toc_recs s") (simp_all add: toc_bytes_def rec_bytes_def put32_def)
  qed
  then have tl: "(if length ?tb = 0 then flen w - ?fe else length ?tb) = length ?tb" by simp
  have io: "io_ok w d" using im(1) w(2) by (simp add: io_ok_def quiet_def no_short_def)
  obtain w1 rc1 out1 where r1: "ls_pread_all w d 4096 0 = (w1, rc1, out1)" by (metis prod_cases3)
  have rd1: "rc1 = LS_OK" "out1 = ?sb" "fbytes w1 = fbytes w" "flen w1 = flen w" "quiet w1" "io_ok w1 d"
    using read_image [OF r1 io w(2)] w(3) im(2,4) fe by simp_all
  obtain w2 rc2 out2 where r2: "ls_pread_all w1 d (length ?tb) ?fe = (w2, rc2, out2)" by (metis prod_cases3)
  have rd2: "rc2 = LS_OK" "out2 = ?tb" and q2: "quiet w2" "fbytes w2 = fbytes w" "file_wf w2" "flen w2 = flen w" "io_ok w2 d"
    using read_image [OF r2 rd1(6,5)] w(3) im(3,4) rd1(3,4) by (simp_all add: file_read_def io_ok_def)
  define t0 where "t0 = (store_init w p o' d)\<lparr>file_end := ?fe, fd := w2\<rparr>"
  have t0: "recs t0 = Map.empty" "nrec t0 = 0" "length (tab t0) = 64" "fd t0 = w2" "file_end t0 = ?fe" "fl t0 = []"
    "\<not> teardown t0" "direct t0 = d" "opts t0 = o'" "resident t0 = 0" "lru t0 = lru (store_init w p o' d)"
    by (simp_all add: t0_def store_init_def)
  have ti0: "toc_inv t0" using store_init_toc [of w p o' d] toc_inv_cong [of t0 "store_init w p o' d"] by (simp add: t0_def)
  have om: "oom (fd t0) = []" using q2(1) t0(4) by (simp add: quiet_def)
  obtain t1 where t1: "toc_load t0 ?tb (nrec s) = (t1, LS_OK)" "mirrors s t1" "toc_only t0 t1" "fd t1 = w2"
    using load_mirrors [OF s(1,3) ti0 t0(1-3) om t0(5)] t0(4) by auto
  note sel1 = toc_only_sel [OF t1(3)]
  obtain t where t: "rebuild_free_list t1 = (t, LS_OK)" "alloc_inv t" "alloc_only t1 t" "os_keeps w2 (fd t) (- free_set t)"
    "\<forall>r. used t1 r \<inter> free_set t = {}"
    using rebuild_mirrors [OF s(1) t1(2)] sel1 t0 q2(1,3) t1(4) by (auto simp: quiet_def)
  note sel = alloc_only_sel [OF t(3)]
  have adv: "advances w2 (fd t)" using os_keepsD(1) [OF t(4)] .
  have run: "open_file (store_init w p o' d) (flen w) = (t, LS_OK)"
  proof -
    have i: "fd (store_init w p o' d) = w" "direct (store_init w p o' d) = d" by (simp_all add: store_init_def)
    have "st_malloc ((store_init w p o' d)\<lparr>fd := w1, file_end := ?fe\<rparr>) = (True, (store_init w p o' d)\<lparr>fd := w1, file_end := ?fe\<rparr>)"
      using rd1(5) by (intro st_malloc_calm) (simp add: quiet_def)
    moreover have "\<not> flen w - ?fe < length ?tb" "\<not> flen w < ?fe" using im(4) by linarith+
    ultimately have "load_store ((store_init w p o' d)\<lparr>fd := w1\<rparr>) ?sb (flen w) = (t, LS_OK)"
      unfolding load_store_def f tl Let_def using fe r2 rd2(1,2) t1(1) t(1) i by (simp add: t0_def)
    then show ?thesis unfolding open_file_def i using r1 rd1(1,2) im(4) fe by simp
  qed
  have mir: "mirrors s t"
    using t1(2) sel(4,5,6,7) ls_toc_find_cong [of t t1] toc_inv_cong [of t t1] unfolding mirrors_def by simp
  have us: "used t r = used t1 r" for r using sel(4) by (simp add: used_def)
  have bytes: "fbytes (fd t) q = fbytes (fd s) q \<and> q < flen (fd t)" if q: "q \<in> used s r" for q r
  proof -
    obtain x where x: "recs s r = Some x" "q \<in> set (locs (ext x))" using q by (auto simp: used_def split: option.splits)
    have "ls_toc_find s (key x) = Some r" using x(1) by (auto simp: toc_find_iff [OF store_invD(1) [OF s(1)]] rkey_def)
    then obtain r' nc where "recs t1 r' = Some (loaded nc x)" using t1(2) x(1) unfolding mirrors_def by blast
    then have "q \<in> used t1 r'" using x(2) by (simp add: used_def)
    then have "q \<notin> free_set t" using t(5) by blast
    then show ?thesis using os_keepsD(3,4) [OF t(4), of q] q2(2,4) im(5) q by auto
  qed
  have "io_ok (fd t) (direct t)"
    using os_keepsD(2) [OF t(4)] advances_no_short [OF adv] q2(5) sel(3) sel1(3) t0(8) by (simp add: io_ok_def)
  moreover have "lru_list (lru t) []" using sel(12) sel1(11) t0(11) by (simp add: store_init_def lru_list_def fun_eq_iff)
  moreover have "\<not> teardown t" "resident t = 0" "memory_budget (opts t) < off_max" using sel sel1 t0 o' by simp_all
  moreover have "\<forall>r. used t r \<inter> free_set t = {}" using t(5) us by simp
  ultimately have "store_inv t" "store_abs t = store_abs s" using mirrored_store [OF s(1,2) mir t(2)] bytes by blast+
  moreover have "opts t = o'" "quiet (fd t)" using sel sel1 t0 advances_quiet [OF adv q2(1)] by simp_all
  ultimately show ?thesis using run by blast
qed

end
