(* ===== verification/Lifecycle.thy ===== *)
theory Lifecycle
  imports Reopen Calls
begin

text \<open>
  The life of a store from \<open>ls_close\<close> with \<open>keep\<close> to the next \<open>ls_open\<close>: a close that reports success
  leaves the image of the store on disk, whatever failed on the way; opening an image gives a store
  with the same contents; a file that is not an image is refused, or not, as the checks of
  \<open>ls_open\<close> decide.
\<close>

subsection \<open>Closing\<close>

lemma ls_rec_free_teardown: "teardown s \<Longrightarrow> fd (ls_rec_free s r) = fd s \<and> teardown (ls_rec_free s r)"
  by (auto simp: ls_rec_free_def ls_free_extents_def Let_def split: option.splits)

lemma free_recs_teardown: "teardown s \<Longrightarrow> fd (free_recs s rs) = fd s"
  by (induction rs arbitrary: s) (simp_all add: ls_rec_free_teardown)

text \<open>Space: 4096 bytes of file stand behind every extent.\<close>

lemma length_extents: "\<forall>e\<in>set es. ext_ok e \<Longrightarrow> 4096 * length es \<le> length (locs es)"
proof (induction es)
  case (Cons e es)
  then have "4096 \<le> elen e" by (auto simp: ext_ok_def dest: dvd_imp_le)
  then show ?case using Cons by (simp add: locs_simps)
qed simp

lemma extent_count:
  assumes "store_inv s" "recs s r = Some x"
  shows "4096 * length (ext x) \<le> file_end s - 4096"
proof -
  have ok: "rec_ok (fd s) x" using store_invD(7) [OF assms] .
  have "set (locs (ext x)) \<subseteq> {4096..<file_end s}"
  proof
    fix p assume "p \<in> set (locs (ext x))"
    then obtain e where "e \<in> set (ext x)" "p \<in> span_of e" by (auto simp: set_locs)
    then show "p \<in> {4096..<file_end s}" using in_space [OF assms, of e] by auto
  qed
  then have "card (set (locs (ext x))) \<le> file_end s - 4096" using card_mono [of "{4096..<file_end s}"] by fastforce
  moreover have "card (set (locs (ext x))) = length (locs (ext x))" using ok by (simp add: rec_ok_def distinct_card)
  ultimately show ?thesis using length_extents [of "ext x"] ok by (simp add: rec_ok_def)
qed

text \<open>What can be kept: keys are C strings within the limit, nothing is in use, and there is room.\<close>

definition keepable :: "ls_store \<Rightarrow> bool" where
  "keepable s \<longleftrightarrow> (\<forall>k\<in>dom (store_abs s). 0 < length k \<and> length k \<le> LS_KEY_MAX \<and> CHR 0x00 \<notin> set k)
     \<and> (\<forall>r. \<not> is_busy s r) \<and> nrec s \<le> 2 ^ 28 \<and> demand s \<le> 2 ^ 40"

lemma spill_all_spec:
  assumes "store_inv s" "keepable s"
  shows "\<exists>s' rc. ls_spill_all s = Some (s', rc) \<and> evolves s s' \<and> file_end s' \<le> 2 ^ 40
     \<and> (rc = LS_OK \<longrightarrow> res_set s' = {}) \<and> (quiet (fd s) \<longrightarrow> rc = LS_OK)"
proof -
  have dm: "demand s \<le> u64_mod" "demand s + 4096 \<le> off_max" "demand s \<le> 2 ^ 40" using assms(2) by (simp_all add: keepable_def u64_mod_def off_max_def)
  from evict_spec [OF assms(1) dm(1), of 0 None] obtain s' rc where
    e: "ls_evict_to s 0 None = Some (s', rc)" "evolves s s'" "file_end s' \<le> demand s"
      "rc = LS_OK \<longrightarrow> resident s' \<le> 0 \<or> (\<forall>r\<in>res_set s'. is_busy s' r)" "quiet (fd s) \<longrightarrow> rc = LS_OK"
    using dm(2) by auto
  note inv = evolvesD(1) [OF e(2)]
  have idle: "\<not> is_busy s' r" for r
  proof (cases "recs s r")
    case (Some x)
    then have "busy x = 0" using assms(2) by (auto simp: keepable_def is_busy_def split: option.splits)
    then show ?thesis using evolvesD(6) [OF e(2) Some] by (auto simp: is_busy_def same_rec_def)
  qed (simp add: is_busy_def evolvesD(7) [OF e(2)])
  have "res_set s' = {}" if rc: "rc = LS_OK"
  proof (rule ccontr)
    assume ne: "res_set s' \<noteq> {}"
    then obtain r x b where r: "r \<in> res_set s'" "recs s' r = Some x" "mem x = Some b" by (auto simp: res_set_def)
    have "0 < rcap s' r" using store_invD(7) [OF inv r(2)] r by (simp add: rec_ok_def rcap_def)
    then have "0 < resident s'" using store_invD(4) [OF inv] member_le_sum [of r "res_set s'" "rcap s'"] finite_res_set [OF inv] r(1)
      by (auto simp: tier_ok_def)
    then show False using e(4) rc idle ne by auto
  qed
  then show ?thesis using e dm(3) by (auto simp: ls_spill_all_def)
qed

lemma length_concat_le: "(\<And>x. x \<in> set xs \<Longrightarrow> length (f x) \<le> n) \<Longrightarrow> length (concat (map f xs)) \<le> length xs * n"
  by (induction xs) (auto intro: add_mono)

lemma keys_find: "store_inv s \<Longrightarrow> x \<in> ran (recs s) \<Longrightarrow> key x \<in> dom (store_abs s)"
proof -
  assume inv: "store_inv s" and "x \<in> ran (recs s)"
  then obtain r where r: "recs s r = Some x" unfolding ran_def by blast
  then have "ls_toc_find s (key x) = Some r" using toc_find_iff [OF store_invD(1) [OF inv], of "key x" r] by (simp add: rkey_def domI)
  then show "key x \<in> dom (store_abs s)" using store_abs_Some [OF _ r] by blast
qed

lemma keepable_storable:
  assumes "store_inv s" "keepable s" "evolves s s'" "file_end s' \<le> 2 ^ 40"
  shows "storable s'" "length (toc_bytes s') \<le> 2 ^ 61"
proof -
  note inv = evolvesD(1) [OF assms(3)]
  have ab: "store_abs s' = store_abs s" using evolves_abs [OF assms(1,3)] .
  have x: "0 < length (key x) \<and> length (key x) \<le> 255 \<and> CHR 0x00 \<notin> set (key x) \<and> length (ext x) \<le> 2 ^ 28"
    if xr: "x \<in> ran (recs s')" for x
  proof -
    obtain r where "recs s' r = Some x" using xr unfolding ran_def by blast
    then have "length (ext x) \<le> 2 ^ 28" using extent_count [OF inv, of r x] assms(4) by simp
    moreover have "key x \<in> dom (store_abs s)" using keys_find [OF inv xr] ab by simp
    ultimately show ?thesis using assms(2) by (simp add: keepable_def LS_KEY_MAX_def)
  qed
  have n: "nrec s' \<le> 2 ^ 28" using assms(2,3) by (simp add: keepable_def evolves_def)
  show "storable s'" using x n by (fastforce simp: storable_def LS_KEY_MAX_def)
  have "length (rec_bytes x) \<le> 2 ^ 33" if xs: "x \<in> set (toc_recs s')" for x
  proof -
    obtain r where r: "recs s' r = Some x" "x \<in> ran (recs s')"
      using xs toc_recs_spec(1) [OF store_invD(1) [OF inv]] by (auto simp: ran_def)
    then have "attrlen x \<le> 256" using store_invD(7) [OF inv] by (simp add: rec_ok_def)
    then have "length (take (attrlen x) (attr x)) \<le> 256" by simp
    moreover have "length (rec_bytes x) = 20 + length (key x) + length (take (attrlen x) (attr x)) + 16 * length (ext x)"
      by (simp add: rec_bytes_def key_bytes_def length_ext_bytes)
    moreover have "length (ext x) \<le> 268435456" "length (key x) \<le> 255" using x [OF r(2)] by simp_all
    ultimately have "length (rec_bytes x) \<le> 8589934592" by linarith
    then show ?thesis by simp
  qed
  then have "length (toc_bytes s') \<le> length (toc_recs s') * 2 ^ 33"
    unfolding toc_bytes_def by (rule length_concat_le)
  then show "length (toc_bytes s') \<le> 2 ^ 61" using n toc_recs_spec(3) [OF store_invD(1) [OF inv]] by simp
qed

text \<open>The table behind the data, then the superblock; between them nothing changes.\<close>

lemma two_writes:
  assumes io: "io_ok w d" and w1: "ls_pwrite_all w d tb fe = (w1, LS_OK)" and w2: "ls_pwrite_all w1 d sb 0 = (w2, LS_OK)"
    and sz: "length sb = 4096" "4096 \<le> fe" "fe + length tb < u64_mod" "tb \<noteq> []"
  shows "file_wf w2" "file_read w2 0 4096 = sb" "file_read w2 fe (length tb) = tb" "fe + length tb \<le> flen w2" "flen w \<le> flen w2"
    "4096 \<le> p \<Longrightarrow> p < fe \<Longrightarrow> fbytes w2 p = fbytes w p" "advances w w2"
proof -
  note p1 = ls_pwrite_all_spec [OF w1 sz(3) io]
  have io1: "io_ok w1 d" using io_ok_frame [OF p1(1) io] .
  note p2 = ls_pwrite_all_spec [OF w2 _ io1]
  have small: "0 + length sb < u64_mod" using sz(1) by (simp add: u64_mod_def)
  note f1 = file_frameD [OF p1(1)] and f2 = file_frameD [OF p2(1) [OF small]]
  show "file_wf w2" "flen w \<le> flen w2" "advances w w2" using f2 f1 advances_trans by (blast intro: order_trans)+
  show "file_read w2 0 4096 = sb" using p2(2) [OF small] sz(1) by simp
  have far: "fbytes w2 p = fbytes w1 p" if "4096 \<le> p" for p using f2(4) [of p] that sz(1) by simp
  then have "file_read w2 fe (length tb) = file_read w1 fe (length tb)" using sz(2) by (simp add: file_read_def)
  then show "file_read w2 fe (length tb) = tb" using p1(2) by simp
  show "fe + length tb \<le> flen w2" using p1(3) sz(4) f2(3) by simp
  show "4096 \<le> p \<Longrightarrow> p < fe \<Longrightarrow> fbytes w2 p = fbytes w p" using far f1(4) [of p] by simp
qed

lemma fsync_props:
  assumes "ls_os_fsync w = (w', res)"
  shows "fbytes w' = fbytes w" "flen w' = flen w" "advances w w'" "quiet w \<Longrightarrow> res = Inr ()"
proof -
  obtain r w1 where n: "next_sys w = (r, w1)" by fastforce
  note p = next_sys_props [OF n]
  have e: "w' = w1" "r = Sys_ok \<Longrightarrow> res = Inr ()" using assms n by (auto simp: ls_os_fsync_def split: sysres.splits)
  show "fbytes w' = fbytes w" "flen w' = flen w" "advances w w'" using p(1,2,5) e(1) by simp_all
  show "quiet w \<Longrightarrow> res = Inr ()" using p(6) e(2) by (simp add: quiet_def)
qed

lemma used_space:
  assumes "store_inv s" "p \<in> used s r"
  shows "4096 \<le> p" "p < file_end s" "p < flen (fd s)"
proof -
  obtain x where x: "recs s r = Some x" "p \<in> set (locs (ext x))" using assms(2) by (auto simp: used_def split: option.splits)
  then obtain e where e: "e \<in> set (ext x)" "p \<in> span_of e" by (auto simp: set_locs)
  then show "4096 \<le> p" "p < file_end s" using in_space [OF assms(1) x(1) e(1)] by auto
  show "p < flen (fd s)" using store_invD(7) [OF assms(1) x(1)] x(2) by (simp add: rec_ok_def)
qed

lemma toc_bytes_Nil: "store_inv s \<Longrightarrow> 0 < nrec s \<Longrightarrow> toc_bytes s \<noteq> []"
proof -
  assume "store_inv s" "0 < nrec s"
  then have "toc_recs s \<noteq> []" using toc_recs_spec(3) [OF store_invD(1)] by fastforce
  then show ?thesis by (cases "toc_recs s") (simp_all add: toc_bytes_def rec_bytes_def put32_def)
qed

lemma write_toc_ok:
  assumes inv: "store_inv s" and wr: "write_toc s = (s', LS_OK)"
  obtains w0 w1 w2 where "fbytes w0 = fbytes (fd s)" "flen w0 = flen (fd s)" "io_ok w0 (direct s)"
    "ls_pwrite_all w0 (direct s) (toc_bytes s) (file_end s) = (w1, LS_OK)"
    "ls_pwrite_all w1 (direct s) (superblock (file_end s) (nrec s) (toc_bytes s)) 0 = (w2, LS_OK)"
    "fbytes (fd s') = fbytes w2" "flen (fd s') = flen w2"
proof -
  let ?tb = "toc_bytes s"
  obtain ok s1 where m: "st_malloc s = (ok, s1)" by fastforce
  note p = st_malloc_props [OF m] and sel = st_malloc_toc [OF m]
  have s1: "file_end s1 = file_end s" "direct s1 = direct s" using toc_only_sel [OF sel(1)] by simp_all
  have tb: "toc_bytes s1 = ?tb" using sel(2,3) by (simp add: toc_bytes_def toc_recs_def)
  have io: "io_ok (fd s1) (direct s)" using store_invD(3) [OF inv] p(2-4) file_wf_cong [OF p(2,3)]
    by (auto simp: io_ok_def intro: advances_no_short)
  have okT: "ok" using wr m by (cases ok) (auto simp: write_toc_def toc_serialise_def)
  obtain w1 rc1 where w1: "ls_pwrite_all (fd s1) (direct s) ?tb (file_end s) = (w1, rc1)" by fastforce
  obtain w2 rc2 where w2: "ls_pwrite_all w1 (direct s) (superblock (file_end s) (nrec s) ?tb) 0 = (w2, rc2)" by fastforce
  have "rc1 = LS_OK" "rc2 = LS_OK" "fbytes (fd s') = fbytes w2" "flen (fd s') = flen w2"
    using wr m okT w1 w2 tb [unfolded toc_bytes_def] s1 sel(4) fsync_props [of w2]
    by (auto simp: write_toc_def toc_serialise_def toc_bytes_def split: if_splits prod.splits sum.splits)
  then show ?thesis using that [OF p(2,3) io] w1 w2 by blast
qed

lemma write_toc_image:
  assumes inv: "store_inv s" "0 < nrec s" and wr: "write_toc s = (s', LS_OK)" and sz: "file_end s \<le> 2 ^ 40" "length (toc_bytes s) \<le> 2 ^ 61"
  shows "image (fd s') s"
proof -
  let ?tb = "toc_bytes s"
  obtain w0 w1 w2 where w0: "fbytes w0 = fbytes (fd s)" "flen w0 = flen (fd s)" "io_ok w0 (direct s)"
    and w1: "ls_pwrite_all w0 (direct s) ?tb (file_end s) = (w1, LS_OK)"
    and w2: "ls_pwrite_all w1 (direct s) (superblock (file_end s) (nrec s) ?tb) 0 = (w2, LS_OK)"
    and res: "fbytes (fd s') = fbytes w2" "flen (fd s') = flen w2" by (rule write_toc_ok [OF inv(1) wr])
  have fe: "4096 \<le> file_end s" "file_end s + length ?tb < u64_mod"
    using store_invD(2) [OF inv(1)] sz by (simp_all add: alloc_inv_def u64_mod_def)
  note t = two_writes [OF w0(3) w1 w2 length_superblock fe toc_bytes_Nil [OF inv]]
  have "file_wf (fd s')" using t(1) file_wf_cong [OF res] by simp
  moreover have "fbytes (fd s') q = fbytes (fd s) q \<and> q < flen (fd s')" if "q \<in> used s r" for q r
    using used_space [OF inv(1) that] t(5,6) w0(1,2) res by simp
  ultimately show ?thesis unfolding image_def using t(2-4) res by (simp add: file_read_def)
qed

text \<open>A quiet environment lets the table be written.\<close>

lemma write_toc_quiet:
  assumes inv: "store_inv s" and q: "quiet (fd s)" and sz: "file_end s \<le> 2 ^ 40" "length (toc_bytes s) \<le> 2 ^ 61"
  shows "\<exists>s'. write_toc s = (s', LS_OK)"
proof -
  let ?tb = "toc_bytes s"
  have m: "st_malloc s = (True, s)" using q by (intro st_malloc_calm) (simp add: quiet_def)
  have io: "io_ok (fd s) (direct s)" by (rule store_invD(3) [OF inv])
  obtain w1 rc1 where w1: "ls_pwrite_all (fd s) (direct s) ?tb (file_end s) = (w1, rc1)" by fastforce
  have lt: "file_end s + length ?tb < u64_mod" "0 + length (superblock (file_end s) (nrec s) ?tb) < u64_mod"
    using sz by (simp_all add: u64_mod_def)
  note p1 = ls_pwrite_all_spec [OF w1 lt(1) io]
  have ok1: "rc1 = LS_OK" using p1(4) q sz by (simp add: off_max_def)
  have q1: "quiet w1" using advances_quiet [OF file_frameD(1) [OF p1(1)] q] .
  obtain w2 rc2 where w2: "ls_pwrite_all w1 (direct s) (superblock (file_end s) (nrec s) ?tb) 0 = (w2, rc2)" by fastforce
  note p2 = ls_pwrite_all_spec [OF w2 lt(2) io_ok_frame [OF p1(1) io]]
  have ok2: "rc2 = LS_OK" using p2(4) q1 by (simp add: off_max_def)
  have q2: "quiet w2" using advances_quiet [OF file_frameD(1) [OF p2(1)] q1] .
  obtain w3 res where w3: "ls_os_fsync w2 = (w3, res)" by fastforce
  have "res = Inr ()" using fsync_props(4) [OF w3 q2] .
  then show ?thesis using m w1 w2 w3 ok1 ok2 by (simp add: write_toc_def toc_serialise_def toc_bytes_def)
qed

text \<open>A close that keeps the store: spilling, the table, tearing down.\<close>

lemma close_image:
  assumes "store_inv s" "keepable s" "0 < nrec s" "parallel (opts s) \<noteq> LS_SHARED" "ls_close s True = Some (w, un, LS_OK)"
  shows "\<exists>s1. store_inv s1 \<and> res_set s1 = {} \<and> storable s1 \<and> nrec s1 = nrec s \<and> store_abs s1 = store_abs s \<and> image w s1 \<and> \<not> un
     \<and> file_end s1 + length (toc_bytes s1) + 4096 \<le> off_max"
proof -
  obtain s1 rc where sp: "ls_spill_all s = Some (s1, rc)" "evolves s s1" "file_end s1 \<le> 2 ^ 40" "rc = LS_OK \<longrightarrow> res_set s1 = {}"
    using spill_all_spec [OF assms(1,2)] by blast
  obtain s2 rc2 where wt: "write_toc s1 = (s2, rc2)" by fastforce
  have c: "un = False" "w = fd s2" "rc = LS_OK" "rc2 = LS_OK"
    using assms(4,5) sp(1) wt free_recs_teardown [of "s2\<lparr>teardown := True\<rparr>"] by (auto simp: ls_close_def Let_def split: if_splits)
  note k = keepable_storable [OF assms(1,2) sp(2,3)]
  note inv = evolvesD(1) [OF sp(2)]
  have n: "nrec s1 = nrec s" using sp(2) by (simp add: evolves_def)
  have "image (fd s2) s1" using write_toc_image [OF inv _ _ sp(3) k(2)] wt c(4) n assms(3) by simp
  moreover have "file_end s1 + length (toc_bytes s1) + 4096 \<le> off_max" using sp(3) k(2) by (simp add: off_max_def)
  ultimately show ?thesis using inv sp(4) k(1) n evolves_abs [OF assms(1) sp(2)] c by blast
qed

lemma close_quiet:
  assumes "store_inv s" "keepable s" "parallel (opts s) \<noteq> LS_SHARED" "quiet (fd s)"
  shows "\<exists>w un. ls_close s True = Some (w, un, LS_OK)"
proof -
  obtain s1 rc where sp: "ls_spill_all s = Some (s1, rc)" "evolves s s1" "file_end s1 \<le> 2 ^ 40" "rc = LS_OK"
    using spill_all_spec [OF assms(1,2)] assms(4) by blast
  note k = keepable_storable [OF assms(1,2) sp(2,3)]
  obtain s2 where "write_toc s1 = (s2, LS_OK)"
    using write_toc_quiet [OF evolvesD(1) [OF sp(2)] advances_quiet [OF evolvesD(5) [OF sp(2)] assms(4)] sp(3) k(2)] by blast
  then show ?thesis using sp(1,4) assms(3) by (auto simp: ls_close_def Let_def intro: exI [of _ False])
qed

subsection \<open>Opening\<close>

lemma calm_env: "quiet w \<Longrightarrow> os_malloc w = (True, w) \<and> next_sys w = (Sys_ok, w)"
  by (simp add: quiet_def os_malloc_def next_sys_def)

lemma pool_started:
  assumes "quiet (fd s)" "0 < e_threads e"
  shows "\<exists>n. ls_pool_start s e = (s, Inr n) \<and> 0 < n \<and> n \<le> e_threads e"
proof -
  have m: "st_malloc s = (True, s)" using assms(1) by (intro st_malloc_calm) (simp add: quiet_def)
  define n where "n = (case e_get e ''LIBSPILL_IO_THREADS'' of
                 Some v \<Rightarrow> if v \<noteq> [] \<and> 0 < strtol v \<and> strtol v < 256 then nat (strtol v) else LS_THREADS_DEFAULT
               | None \<Rightarrow> LS_THREADS_DEFAULT)"
  have "0 < n" by (auto simp: n_def LS_THREADS_DEFAULT_def split: option.splits)
  moreover have "ls_pool_start s e = (s, Inr (min n (e_threads e)))"
    using m \<open>0 < n\<close> assms(2) unfolding ls_pool_start_def n_def [symmetric] by (simp add: Let_def)
  ultimately show ?thesis using assms(2) by auto
qed

lemma ls_open_file:
  assumes q: "quiet w" and nm: "name \<noteq> []" and o': "opts_take src = Some o'" "opts_refused o' = None" and th: "0 < e_threads e"
    and f: "\<And>p. \<exists>t. open_file (store_init w p o' (direct_io o')) (flen w) = (t, LS_OK) \<and> P t \<and> quiet (fd t)"
  shows "\<exists>t n. ls_open w e (Some name) src = (fd t, Inr (t, n)) \<and> P t \<and> quiet (fd t) \<and> 0 < n"
proof -
  note c = calm_env [OF q]
  obtain p where p: "build_path w e name o' = (w, Some p)" using c by (simp add: build_path_def Let_def)
  obtain t where t: "open_file (store_init w p o' (direct_io o')) (flen w) = (t, LS_OK)" "P t" "quiet (fd t)" using f by blast
  obtain n where n: "ls_pool_start t e = (t, Inr n)" "0 < n" using pool_started [OF t(3) th] by blast
  have "ls_open w e (Some name) src = (fd t, Inr (t, n))"
    using c p nm o' t(1) n(1) by (simp add: ls_open_def ls_os_open_rw_def ls_os_file_size_def)
  then show ?thesis using t n by blast
qed

lemma nonempty_recs: "store_inv s \<Longrightarrow> store_abs s \<noteq> Map.empty \<Longrightarrow> 0 < nrec s"
proof -
  assume inv: "store_inv s" and ne: "store_abs s \<noteq> Map.empty"
  obtain k r where "ls_toc_find s k = Some r" using ne by (fastforce simp: store_abs_def fun_eq_iff split: option.splits)
  then have "r \<in> dom (recs s)" by (simp add: toc_find_iff [OF store_invD(1) [OF inv]])
  then have "concat (tab s) \<noteq> []" using store_invD(1) [OF inv] unfolding toc_inv_def by (metis empty_iff list.set(1))
  then show ?thesis using store_invD(1) [OF inv] by (simp add: toc_inv_def)
qed


text \<open>A store with one empty record in it.\<close>

lemma demo_rec_recs: "recs (demo_rec b) = [0 \<mapsto> rec_new ''k'']" "nrec (demo_rec b) = 1" "fd (demo_rec b) = os_empty []"
proof -
  have n: "ls_toc_find (demo b) ''k'' = None"
    using toc_find_iff [OF store_init_toc, of _ _ _ _ "''k''"] by (cases "ls_toc_find (demo b) ''k''") (auto simp: demo_def store_init_def)
  show "recs (demo_rec b) = [0 \<mapsto> rec_new ''k'']" "nrec (demo_rec b) = 1" "fd (demo_rec b) = os_empty []"
    unfolding demo_rec_def find_or_insert_def n
    by (auto simp: ls_toc_insert_def toc_alloc_rec_def toc_link_def st_malloc_def os_malloc_def os_empty_def demo_def store_init_def Let_def)
qed

lemma demo_rec_keepable:
  "store_inv (demo_rec 100)" "keepable (demo_rec 100)" "store_abs (demo_rec 100) \<noteq> Map.empty" "quiet (fd (demo_rec 100))"
  "parallel (opts (demo_rec 100)) \<noteq> LS_SHARED" "store_abs (demo_rec 100) ''k'' = Some ([], [])"
proof -
  note d = demo_rec [OF off_max_big(1)]
  show i: "store_inv (demo_rec 100)" "quiet (fd (demo_rec 100))" by (rule d(1), rule d(5))
  show "parallel (opts (demo_rec 100)) \<noteq> LS_SHARED" using d(6) by (simp add: opts_default_def)
  have f: "ls_toc_find (demo_rec 100) k = Some r \<longleftrightarrow> r = 0 \<and> k = ''k''" for k r
    using toc_find_iff [OF store_invD(1) [OF i(1)], of k r] by (auto simp: demo_rec_recs rkey_def rec_new_def)
  show a: "store_abs (demo_rec 100) ''k'' = Some ([], [])"
    using store_abs_Some [of "demo_rec 100" "''k''" 0 "rec_new ''k''"] f by (simp add: demo_rec_recs)
  then show "store_abs (demo_rec 100) \<noteq> Map.empty" by auto
  have "k = ''k''" if k: "k \<in> dom (store_abs (demo_rec 100))" for k
  proof -
    obtain r where "ls_toc_find (demo_rec 100) k = Some r"
      using k store_abs_dom [OF i(1), of k] by (cases "ls_toc_find (demo_rec 100) k") auto
    then show ?thesis using f by simp
  qed
  then show "keepable (demo_rec 100)" using d(2) demo_rec_recs
    by (fastforce simp: keepable_def is_busy_def rec_new_def LS_KEY_MAX_def)
qed

definition env0 :: ls_env where
  "env0 = \<lparr>e_get = (\<lambda>_. None), e_pid = 1, e_threads = 4\<rparr>"

lemma opts_take_default: "opts_take None = Some (ls_opts_init opts_zero 3)" "opts_refused (ls_opts_init opts_zero 3) = None"
  "memory_budget (ls_opts_init opts_zero 3) = 0"
  by (simp_all add: opts_take_def ls_opts_init_def opts_copy_def opts_size_def opts_zero_def opts_refused_def LS_OPTS_VERSION_def)


subsection \<open>Damaged files\<close>

text \<open>What a successful \<open>ls_open\<close> has gone through.\<close>

lemma ls_os_file_size_props:
  assumes "ls_os_file_size w = (w', res)"
  shows "fbytes w' = fbytes w" "flen w' = flen w" "advances w w'" "res = Inr n \<Longrightarrow> n = flen w"
proof -
  obtain r w1 where n: "next_sys w = (r, w1)" by fastforce
  note p = next_sys_props [OF n]
  have "w' = w1" "res = Inr n \<Longrightarrow> n = flen w1" using assms n by (auto simp: ls_os_file_size_def split: sysres.splits)
  then show "fbytes w' = fbytes w" "flen w' = flen w" "advances w w'" "res = Inr n \<Longrightarrow> n = flen w" using p by simp_all
qed

lemma ls_os_open_rw_props:
  assumes "ls_os_open_rw w want = (w', res)"
  shows "fbytes w' = fbytes w" "flen w' = flen w" "advances w w'"
proof -
  obtain r1 w1 where n1: "next_sys w = (r1, w1)" by fastforce
  obtain r2 w2 where n2: "next_sys w1 = (r2, w2)" by fastforce
  note p = next_sys_props [OF n1] and p2 = next_sys_props [OF n2]
  have "w' = w1 \<or> w' = w2" using assms n1 n2 by (auto simp: ls_os_open_rw_def split: sysres.splits if_splits)
  then show "fbytes w' = fbytes w" "flen w' = flen w" "advances w w'" using p(1,2,5) p2(1,2,5) advances_trans by auto
qed

lemma build_path_props:
  assumes "build_path w e name o' = (w', po)"
  shows "fbytes w' = fbytes w" "flen w' = flen w" "advances w w'"
proof -
  obtain ok w1 where m: "os_malloc w = (ok, w1)" by fastforce
  have "w' = w1" using assms m by (auto simp: build_path_def Let_def split: if_splits)
  then show "fbytes w' = fbytes w" "flen w' = flen w" "advances w w'" using os_malloc_props [OF m] by simp_all
qed

lemma ls_open_trace:
  assumes "ls_open w e name src = (w', Inr (t, n))"
  obtains w5 p o' d s0 where "advances w w5" "fbytes w5 = fbytes w" "flen w5 = flen w" "opts_take src = Some o'" "opts_refused o' = None"
    "open_file (store_init w5 p o' d) (flen w) = (s0, LS_OK)" "ls_pool_start s0 e = (t, Inr n)"
proof -
  obtain o' where o': "opts_take src = Some o'" "opts_refused o' = None"
    using assms by (auto simp: ls_open_def split: if_splits option.splits)
  obtain nm where nm: "name = Some nm" "nm \<noteq> []" using assms by (cases name) (auto simp: ls_open_def split: if_splits)
  obtain ok1 w1 where m1: "os_malloc w = (ok1, w1)" by fastforce
  obtain ok2 w2 where m2: "os_malloc w1 = (ok2, w2)" by fastforce
  obtain w3 po where b: "build_path w2 e nm o' = (w3, po)" by fastforce
  obtain w4 r4 where r4: "ls_os_open_rw w3 (direct_io o') = (w4, r4)" by fastforce
  obtain w5 r5 where r5: "ls_os_file_size w4 = (w5, r5)" by fastforce
  note p1 = os_malloc_props [OF m1] and p2 = os_malloc_props [OF m2] and p3 = build_path_props [OF b]
    and p4 = ls_os_open_rw_props [OF r4] and p5 = ls_os_file_size_props [OF r5]
  have "advances w w2" by (rule advances_trans [OF p1(5) p2(5)])
  also note p3(3) also note p4(3) also note p5(3)
  finally have fl: "advances w w5" .
  have fb: "fbytes w5 = fbytes w" "flen w5 = flen w"
    by (simp_all only: p1(1,2) p2(1,2) p3(1,2) p4(1,2) p5(1,2))
  note u = assms [unfolded ls_open_def nm o', simplified nm o' m1 m2 b r4 r5 prod.case option.case, simplified]
  obtain d fsize pp where "r4 = Inr d" "r5 = Inr fsize" "ok1" "ok2" "po = Some pp"
    using u by (cases r4; cases r5; cases po) (auto simp: nm m2 b r4 r5 split: if_splits)
  then have "(case open_file (store_init w5 pp o' d) fsize of (s, rc) \<Rightarrow>
       if rc \<noteq> LS_OK then (fd s, Inl rc) else (case ls_pool_start s e of (s1, Inl rc) \<Rightarrow> (fd s1, Inl rc) | (s1, Inr n) \<Rightarrow> (fd s1, Inr (s1, n))))
     = (w', Inr (t, n))" using u by (simp add: nm m2 b r4 r5)
  moreover obtain s0 rc where s0: "open_file (store_init w5 pp o' d) fsize = (s0, rc)" by fastforce
  ultimately have "rc = LS_OK" "ls_pool_start s0 e = (t, Inr n)" by (auto split: if_splits prod.splits sum.splits)
  moreover have "fsize = flen w" using p5(2,4) \<open>r5 = Inr fsize\<close> fb by simp
  ultimately show ?thesis using that [OF fl fb o'] s0 by blast
qed

text \<open>A file that is opened has a table with the checksum its superblock names.\<close>

lemma open_checked:
  assumes "open_file s (flen (fd s)) = (t, LS_OK)" "io_ok (fd s) (direct s)" "4096 \<le> flen (fd s)" "sb = file_read (fd s) 0 4096" "sb_len sb \<noteq> 0"
  shows "crc32_of (file_read (fd s) (sb_off sb) (sb_len sb)) = sb_crc sb"
proof -
  let ?w = "fd s"
  obtain w1 rc1 out1 where r1: "ls_pread_all ?w (direct s) 4096 0 = (w1, rc1, out1)" by (metis prod_cases3)
  note p1 = ls_pread_all_spec [OF r1 _ assms(2)]
  have f1: "file_frame ?w w1 {}" using p1(1) by (simp add: u64_mod_def)
  have ld: "rc1 = LS_OK" "load_store (s\<lparr>fd := w1\<rparr>) sb (flen ?w) = (t, LS_OK)"
    using assms(1,3,4) r1 p1(2) by (auto simp: open_file_def u64_mod_def split: if_splits)
  have lim: "sb_off sb + sb_len sb \<le> flen ?w"
    using ld(2) assms(5) by (auto simp: load_store_def Let_def split: if_splits)
  obtain ok s1 where m: "st_malloc (s\<lparr>fd := w1, file_end := sb_end sb\<rparr>) = (ok, s1)" by fastforce
  note pm = st_malloc_props [OF m]
  have s1: "direct s1 = direct s" "fbytes (fd s1) = fbytes w1" "flen (fd s1) = flen w1" "advances w1 (fd s1)"
    using pm(2-4) arg_cong [OF pm(1), of direct] by simp_all
  have io1: "io_ok (fd s1) (direct s1)"
    using io_ok_frame [OF f1 assms(2)] s1 file_wf_cong [OF s1(2,3)] by (auto simp: io_ok_def intro: advances_no_short)
  obtain w2 rc2 tb where r2: "ls_pread_all (fd s1) (direct s1) (sb_len sb) (sb_off sb) = (w2, rc2, tb)" by (metis prod_cases3)
  have "rc2 = LS_OK \<and> crc32_of tb = sb_crc sb"
    using ld(2) m r2 assms(5) by (auto simp: load_store_def Let_def split: if_splits prod.splits)
  moreover have "sb_off sb + sb_len sb < u64_mod"
    using lim assms(2) by (simp add: io_ok_def file_wf_def u64_mod_def off_max_def)
  moreover have "fbytes w1 = fbytes ?w" using f1 by (auto simp: file_frame_def)
  ultimately show ?thesis using ls_pread_all_spec(2) [OF r2 _ io1] s1(2) by (simp add: file_read_def)
qed

lemma file_read_upd:
  "i < n \<Longrightarrow> map ((fbytes w)(off + i := b)) [off..<off + n] = (file_read w off n)[i := b]"
  by (rule nth_equalityI) (auto simp: file_read_def nth_list_update)

text \<open>C29. A damaged table is never loaded. If any one byte of the table of contents that \<open>ls_close\<close> left
  is changed, every later \<open>ls_open\<close> refuses the file, with whatever options, environment, failing calls and
  interrupts; only transfers are not short, since an uncached store does not notice those.\<close>

theorem tamper_detected:
  assumes "store_inv s" "keepable s" "store_abs s \<noteq> Map.empty" "parallel (opts s) \<noteq> LS_SHARED"
    and "ls_close s True = Some (w, un, LS_OK)"
    and "sb = file_read w 0 4096" "sb_off sb \<le> pos" "pos < sb_off sb + sb_len sb" "b \<noteq> fbytes w pos"
    and "fbytes w' = (fbytes w)(pos := b)" "flen w' = flen w" "no_short w'"
  shows "\<exists>rc. snd (ls_open w' e name src) = Inl rc"
proof (rule ccontr)
  assume "\<not> ?thesis"
  then obtain w1 t n where op: "ls_open w' e name src = (w1, Inr (t, n))"
    by (cases "ls_open w' e name src"; cases "snd (ls_open w' e name src)") auto
  obtain s1 where s1: "store_inv s1" "storable s1" "image w s1" "file_end s1 + length (toc_bytes s1) + 4096 \<le> off_max"
    using close_image [OF assms(1,2) nonempty_recs [OF assms(1,3)] assms(4,5)] by blast
  let ?fe = "file_end s1" and ?tb = "toc_bytes s1"
  have big: "?fe < u64_mod" "nrec s1 < u64_mod" "length ?tb < u64_mod" "4096 \<le> ?fe"
    using s1(1,2,4) store_invD(2) [OF s1(1)] by (simp_all add: u64_mod_def off_max_def storable_def alloc_inv_def)
  have im: "sb = superblock ?fe (nrec s1) ?tb" "file_read w ?fe (length ?tb) = ?tb" "?fe + length ?tb \<le> flen w" "file_wf w"
    using s1(3) assms(6) by (simp_all add: image_def)
  note f = superblock_fields [OF big(1-3), folded im(1)]
  define i where "i = pos - ?fe"
  have i: "pos = ?fe + i" "i < length ?tb" using assms(7,8) f by (auto simp: i_def)
  obtain w5 p o' d s0 where o5: "advances w' w5" "fbytes w5 = fbytes w'" "flen w5 = flen w'"
    "open_file (store_init w5 p o' d) (flen w') = (s0, LS_OK)" using ls_open_trace [OF op] by metis
  have sel: "fd (store_init w5 p o' d) = w5" "direct (store_init w5 p o' d) = d" by (simp_all add: store_init_def)
  have "file_wf w5" using im(3,4) i o5(2,3) assms(10,11) by (auto simp: file_wf_def)
  then have io: "io_ok w5 d" using advances_no_short [OF o5(1) assms(12)] by (simp add: io_ok_def)
  have sb: "file_read w5 0 4096 = sb"
  proof -
    have "fbytes w5 q = fbytes w q" if "q < 4096" for q using that i(1) big(4) o5(2) assms(10) by simp
    then show ?thesis unfolding assms(6) file_read_def by (intro map_cong) auto
  qed
  have tb: "file_read w5 ?fe (length ?tb) = ?tb[i := b]"
    using file_read_upd [OF i(2), of w ?fe b] im(2) o5(2) assms(10) i(1) by (simp add: file_read_def)
  have nb: "b \<noteq> ?tb ! i"
    using assms(9) arg_cong [OF im(2), of "\<lambda>l. l ! i"] i by (simp add: file_read_def)
  have "?tb \<noteq> []" using i(2) by auto
  then have "crc32_of (file_read w5 (sb_off sb) (sb_len sb)) = sb_crc sb"
    using open_checked [of "store_init w5 p o' d" s0 sb] o5(3,4) io sel sb f i(2) big(4) im(3) assms(11) by simp
  then show False using crc_detects_byte [OF i(2) nb] tb f by simp
qed

theorem tamper_detected_witness:
  "\<exists>w pos b rc. ls_close (demo_rec 100) True = Some (w, False, LS_OK) \<and> b \<noteq> fbytes w pos
     \<and> snd (ls_open (w\<lparr>fbytes := (fbytes w)(pos := b), sys := [], oom := []\<rparr>) env0 (Some ''demo'') None) = Inl rc"
proof -
  note d = demo_rec_keepable
  obtain w un where c: "ls_close (demo_rec 100) True = Some (w, un, LS_OK)" using close_quiet [OF d(1,2,5,4)] by blast
  obtain s1 where s1: "store_inv s1" "storable s1" "image w s1" "\<not> un" "nrec s1 = 1" "file_end s1 + length (toc_bytes s1) + 4096 \<le> off_max"
    using close_image [OF d(1,2) _ d(5) c] demo_rec_recs by auto
  let ?sb = "file_read w 0 4096"
  have "file_end s1 < u64_mod" "nrec s1 < u64_mod" "length (toc_bytes s1) < u64_mod" using s1(5,6) by (simp_all add: u64_mod_def off_max_def)
  note f = superblock_fields [OF this]
  have "?sb = superblock (file_end s1) (nrec s1) (toc_bytes s1)" using s1(3) by (simp add: image_def)
  then have "sb_off ?sb = file_end s1" "sb_len ?sb = length (toc_bytes s1)" using f by simp_all
  moreover have "toc_bytes s1 \<noteq> []" using toc_bytes_Nil [OF s1(1)] s1(5) by simp
  ultimately have "sb_off ?sb \<le> file_end s1" "file_end s1 < sb_off ?sb + sb_len ?sb" by simp_all
  then have "\<exists>rc. snd (ls_open (w\<lparr>fbytes := (fbytes w)(file_end s1 := fbytes w (file_end s1) + 1), sys := [], oom := []\<rparr>) env0 (Some ''demo'') None) = Inl rc"
    by (intro tamper_detected [OF d(1,2,3,5) c refl]) (simp_all add: no_short_def)
  then show ?thesis using c s1(4) by (intro exI [of _ w] exI [of _ "file_end s1"] exI [of _ "fbytes w (file_end s1) + 1"]) auto
qed

end
