(* ===== verification/Opening.thy ===== *)
theory Opening
  imports Lifecycle
begin

text \<open>
  More of the life of a store: what the versions of the option structure mean, which path a store
  gets, what closing without keeping does, and the one kept store that cannot be opened again.
\<close>

subsection \<open>Numbers in paths\<close>

lemma char_digit: "n < 10 \<Longrightarrow> is_digit (char_of (48 + n)) \<and> of_char (char_of (48 + n) :: char) = 48 + n" for n :: nat
  by (simp add: is_digit_def)

lemma nat_digits_all: "\<forall>c\<in>set (nat_digits n). is_digit c"
proof (induction n rule: nat_digits.induct)
  case (1 n)
  then show ?case using char_digit [of n] char_digit [of "n mod 10"] by (subst nat_digits.simps) (auto simp: Let_def)
qed

lemma digits_val_snoc: "\<forall>c\<in>set ds. is_digit c \<Longrightarrow> is_digit c \<Longrightarrow> digits_val (ds @ [c]) = digits_val ds * 10 + (of_char c - 48)"
proof -
  assume "\<forall>c\<in>set ds. is_digit c" "is_digit c"
  then have "takeWhile is_digit (ds @ [c]) = ds @ [c]" "takeWhile is_digit ds = ds"
    unfolding takeWhile_eq_all_conv by auto
  then show "digits_val (ds @ [c]) = digits_val ds * 10 + (of_char c - 48)"
    by (simp only: digits_val_def foldl_append foldl.simps)
qed

lemma digits_val_nat: "digits_val (nat_digits n) = n"
proof (induction n rule: nat_digits.induct)
  case (1 n)
  show ?case
  proof (cases "n < 10")
    case True
    then have "nat_digits n = [char_of (48 + n)]" by (subst nat_digits.simps) simp
    then show ?thesis using True char_digit [of n] by (simp add: digits_val_def)
  next
    case False
    have e: "nat_digits n = nat_digits (n div 10) @ [char_of (48 + n mod 10)]" using False by (subst nat_digits.simps) simp
    have "n mod 10 < 10" by simp
    note c = char_digit [OF this]
    have "digits_val (nat_digits n) = digits_val (nat_digits (n div 10)) * 10 + n mod 10"
      unfolding e using digits_val_snoc [OF nat_digits_all, of _ "n div 10"] c by simp
    then show ?thesis using 1 [OF False] by simp
  qed
qed

lemma nat_digits_length: "n < 10 ^ Suc d \<Longrightarrow> length (nat_digits n) \<le> Suc d"
proof (induction d arbitrary: n)
  case 0
  then show ?case by (subst nat_digits.simps) simp
next
  case (Suc d)
  then have "length (nat_digits (n div 10)) \<le> Suc d" by (intro Suc.IH) (simp add: less_mult_imp_div_less)
  then show ?case by (subst nat_digits.simps) simp
qed

lemma nat_digits_head: "nat_digits n \<noteq> CHR ''-'' # l"
proof
  assume e: "nat_digits n = CHR ''-'' # l"
  have "is_digit CHR ''-''" using nat_digits_all [of n] unfolding e by simp
  then show False by (simp add: is_digit_def)
qed

lemma int_digits_inj:
  assumes "int_digits a = int_digits b"
  shows "a = b"
proof -
  have s: "a < 0 \<longleftrightarrow> b < 0"
    using assms nat_digits_head [of "nat a"] nat_digits_head [of "nat b"] by (cases "a < 0"; cases "b < 0") (auto simp: int_digits_def dest: sym)
  have inj: "nat_digits m = nat_digits n \<Longrightarrow> m = n" for m n using digits_val_nat by metis
  show ?thesis
  proof (cases "a < 0")
    case True
    then have "nat (- a) = nat (- b)" using assms s by (intro inj) (simp add: int_digits_def)
    then show ?thesis using True s by simp
  next
    case False
    then have "nat a = nat b" using assms s by (intro inj) (simp add: int_digits_def)
    then show ?thesis using False s by simp
  qed
qed

lemma int_digits_length:
  assumes "- (2 ^ 31) \<le> i" "i < 2 ^ 31"
  shows "length (int_digits i) \<le> 11"
proof -
  have "nat i < 10 ^ Suc 9" "nat (- i) < 10 ^ Suc 9" using assms by simp_all
  then show ?thesis using nat_digits_length [of "nat i" 9] nat_digits_length [of "nat (- i)" 9] by (simp add: int_digits_def)
qed

subsection \<open>The path of a store\<close>

lemma resolve_rank_int:
  assumes "- (2 ^ 31) \<le> rk" "rk < 2 ^ 31" "0 \<le> e_pid e" "e_pid e < 2 ^ 31"
  shows "- (2 ^ 31) \<le> resolve_rank e rk" "resolve_rank e rk < 2 ^ 31"
proof -
  have w: "- (2 ^ 31) \<le> to_int32 i \<and> to_int32 i < 2 ^ 31" for i by (simp add: to_int32_def)
  have "- (2 ^ 31) \<le> rank_from e vs \<and> rank_from e vs < 2 ^ 31" for vs
    by (induction vs) (use assms(3,4) w in \<open>auto split: option.splits\<close>)
  then show "- (2 ^ 31) \<le> resolve_rank e rk" "resolve_rank e rk < 2 ^ 31" using assms(1,2) by (auto simp: resolve_rank_def simp del: rank_from.simps)
qed

lemma path_text_short:
  assumes "- (2 ^ 31) \<le> rank o'" "rank o' < 2 ^ 31" "0 \<le> e_pid e" "e_pid e < 2 ^ 31"
  shows "length (path_text e name o' d) < length d + length name + 64"
  using int_digits_length [OF resolve_rank_int [OF assms]] by (simp add: path_text_def)

text \<open>C30. The path of a store. \<open>build_path\<close> has room for the whole text and its terminating NUL, with the longest
  rank an \<open>int\<close> can hold: the path is the directory, the name and the suffix of the kind of store,
  uncut. The directory is the caller's; without one it is \<open>TMPDIR\<close>, or \<open>/tmp\<close>, of which the first 511
  characters are taken, so that a longer \<open>TMPDIR\<close> silently names another directory. With \<open>LS_PER_RANK\<close> two
  different ranks never get the same file.\<close>

theorem path_fits:
  assumes "- (2 ^ 31) \<le> rank o'" "rank o' < 2 ^ 31" "0 \<le> e_pid e" "e_pid e < 2 ^ 31" "build_path w e name o' = (w', Some p)"
  shows "let tmp = (case e_get e ''TMPDIR'' of None \<Rightarrow> ''/tmp'' | Some t \<Rightarrow> if t = [] then ''/tmp'' else t);
             d = (case dir o' of None \<Rightarrow> take 511 tmp | Some d \<Rightarrow> if d = [] then take 511 tmp else d)
         in p = d @ ''/'' @ name @ (if exact_name o' then [] else if parallel o' = LS_PER_RANK
                  then ''.r'' @ int_digits (resolve_rank e (rank o')) @ ''.libspill'' else ''.libspill'')
            \<and> length p < length d + length name + 64
            \<and> (\<forall>rk w2 w2' p2. \<not> exact_name o' \<and> parallel o' = LS_PER_RANK \<and> resolve_rank e rk \<noteq> resolve_rank e (rank o')
                 \<and> - (2 ^ 31) \<le> rk \<and> rk < 2 ^ 31 \<and> build_path w2 e name (o'\<lparr>rank := rk\<rparr>) = (w2', Some p2) \<longrightarrow> p2 \<noteq> p)"
proof -
  define d where "d = (case dir o' of None \<Rightarrow> ls_os_tmpdir e 512 | Some d \<Rightarrow> if d = [] then ls_os_tmpdir e 512 else d)"
  have full: "p' = path_text e name o2 d"
    if "build_path w2 e name o2 = (w2', Some p')" "- (2 ^ 31) \<le> rank o2" "rank o2 < 2 ^ 31" "dir o2 = dir o'" for w2 w2' p' o2
    using that(1) path_text_short [OF that(2,3) assms(3,4), of name d] unfolding build_path_def that(4) d_def [symmetric]
    by (auto simp: Let_def snprintf_def split: prod.splits if_splits)
  have p: "p = path_text e name o' d" using full [OF assms(5,1,2)] by simp
  have "p2 \<noteq> p" if "\<not> exact_name o'" "parallel o' = LS_PER_RANK" "resolve_rank e rk \<noteq> resolve_rank e (rank o')"
    "- (2 ^ 31) \<le> rk" "rk < 2 ^ 31" "build_path w2 e name (o'\<lparr>rank := rk\<rparr>) = (w2', Some p2)" for rk w2 w2' p2
  proof -
    have "p2 = path_text e name (o'\<lparr>rank := rk\<rparr>) d" using full [OF that(6)] that(4,5) by simp
    then show ?thesis using p that(1-3) int_digits_inj by (auto simp: path_text_def)
  qed
  moreover have "p = d @ ''/'' @ name @ (if exact_name o' then [] else if parallel o' = LS_PER_RANK
      then ''.r'' @ int_digits (resolve_rank e (rank o')) @ ''.libspill'' else ''.libspill'')"
    unfolding p path_text_def by simp
  moreover have tmp: "ls_os_tmpdir e 512 = take 511 (case e_get e ''TMPDIR'' of None \<Rightarrow> ''/tmp'' | Some t \<Rightarrow> if t = [] then ''/tmp'' else t)"
    by (simp add: ls_os_tmpdir_def snprintf_def)
  moreover have "length p < length d + length name + 64" using path_text_short [OF assms(1-4), of name d] p by simp
  ultimately show ?thesis unfolding Let_def d_def [unfolded tmp, symmetric] by blast
qed

theorem path_fits_witness:
  "\<exists>p q. build_path (os_empty []) env0 ''s'' (opts_default\<lparr>parallel := LS_PER_RANK, rank := 7, dir := Some ''/d''\<rparr>) = (os_empty [], Some p)
     \<and> p = ''/d/s.r'' @ int_digits 7 @ ''.libspill''
     \<and> build_path (os_empty []) (env0\<lparr>e_get := (\<lambda>_. Some (replicate 600 CHR ''t''))\<rparr>) ''s'' opts_default = (os_empty [], Some q)
     \<and> q = replicate 511 CHR ''t'' @ ''/s.libspill''"
proof -
  let ?o = "opts_default\<lparr>parallel := LS_PER_RANK, rank := 7, dir := Some ''/d''\<rparr>" and ?e = "env0\<lparr>e_get := (\<lambda>_. Some (replicate 600 CHR ''t''))\<rparr>"
  obtain p where b: "build_path (os_empty []) env0 ''s'' ?o = (os_empty [], Some p)"
    by (simp add: build_path_def os_malloc_def os_empty_def Let_def)
  have "p = ''/d/s.r'' @ int_digits 7 @ ''.libspill''"
    using path_fits [OF _ _ _ _ b] by (simp add: env0_def Let_def opts_default_def resolve_rank_def)
  moreover obtain q where c: "build_path (os_empty []) ?e ''s'' opts_default = (os_empty [], Some q)"
    by (simp add: build_path_def os_malloc_def os_empty_def Let_def)
  have "q = replicate 511 CHR ''t'' @ ''/s.libspill''"
    using path_fits [OF _ _ _ _ c] by (simp add: env0_def Let_def opts_default_def)
  ultimately show ?thesis using b c by blast
qed

subsection \<open>Options\<close>

text \<open>C31. Callers of every version are served. A structure of version 1, 2 or 3 is read up to the end of what
  its version declares: its declared fields are taken as they are, the later ones have their
  defaults whatever lies behind the structure in memory, and any other version is refused.
  \<open>ls_opts_init\<close> writes nothing behind the version asked for.\<close>

theorem opts_versions:
  "opts_take (Some p) = (if version p \<in> {1, 2, 3}
     then Some (p\<lparr>version := 3, exact_name := (2 \<le> version p \<and> exact_name p), durable_close := (3 \<le> version p \<and> durable_close p)\<rparr>)
     else None)
   \<and> exact_name (ls_opts_init p v) = (v = 1 \<and> exact_name p)
   \<and> durable_close (ls_opts_init p v) = (v \<in> {1, 2} \<and> durable_close p)
   \<and> version (ls_opts_init p v) \<in> {1, 2, 3}"
proof -
  have v: "v = 0 \<or> 3 < v \<or> v = 1 \<or> v = 2 \<or> v = 3" for v :: nat by arith
  have "opts_take (Some p) = (if version p \<in> {1, 2, 3}
     then Some (p\<lparr>version := 3, exact_name := (2 \<le> version p \<and> exact_name p), durable_close := (3 \<le> version p \<and> durable_close p)\<rparr>)
     else None)"
    by (cases p) (auto simp: opts_take_def opts_size_def opts_copy_def ls_opts_init_def opts_zero_def LS_OPTS_VERSION_def Let_def)
  then show ?thesis using v [of v]
    by (auto simp: ls_opts_init_def opts_copy_def opts_size_def opts_zero_def LS_OPTS_VERSION_def Let_def)
qed

subsection \<open>Closing\<close>

lemma unlink_props:
  assumes "ls_os_unlink w = (w', res)"
  shows "fbytes w' = fbytes w" "flen w' = flen w" "advances w w'" "quiet w \<Longrightarrow> res = Inr ()"
proof -
  obtain r w1 where n: "next_sys w = (r, w1)" by fastforce
  note p = next_sys_props [OF n]
  have e: "w' = w1" "r = Sys_ok \<Longrightarrow> res = Inr ()" using assms n by (auto simp: ls_os_unlink_def split: sysres.splits)
  show "fbytes w' = fbytes w" "flen w' = flen w" "advances w w'" using p(1,2,5) e(1) by simp_all
  show "quiet w \<Longrightarrow> res = Inr ()" using p(6) e(2) by (simp add: quiet_def)
qed

text \<open>C32. Closing always ends, and does only what was asked. On a well-formed store with no request running,
  \<open>ls_close\<close> returns; without \<open>keep\<close>, or for a shared store with or without it, the file's bytes stay as they
  are; the name is removed only without \<open>keep\<close> and never for a shared store; and when nothing
  fails the code is \<open>LS_OK\<close> and the name is gone exactly if that was asked.\<close>

theorem close_returns:
  assumes "store_inv s" "keepable s"
  shows "\<exists>w gone rc. ls_close s keep = Some (w, gone, rc)
     \<and> (\<not> keep \<or> parallel (opts s) = LS_SHARED \<longrightarrow> rc = LS_OK \<and> fbytes w = fbytes (fd s) \<and> flen w = flen (fd s))
     \<and> (gone \<longrightarrow> \<not> keep \<and> parallel (opts s) \<noteq> LS_SHARED \<and> path s \<noteq> None)
     \<and> (quiet (fd s) \<longrightarrow> rc = LS_OK \<and> (gone \<longleftrightarrow> \<not> keep \<and> parallel (opts s) \<noteq> LS_SHARED \<and> path s \<noteq> None))"
proof (cases "keep \<and> parallel (opts s) \<noteq> LS_SHARED")
  case True
  obtain s1 rc where sp: "ls_spill_all s = Some (s1, rc)" using spill_all_spec [OF assms] by blast
  obtain s2 rc2 where wt: "write_toc s1 = (s2, rc2)" by fastforce
  then obtain w rc' where c: "ls_close s True = Some (w, False, rc')" using sp True by (auto simp: ls_close_def Let_def)
  then show ?thesis using True close_quiet [OF assms] by auto
next
  case False
  have t: "fd (free_recs (s\<lparr>teardown := True\<rparr>) rs) = fd s" for rs by (simp add: free_recs_teardown)
  obtain w res where u: "ls_os_unlink (fd s) = (w, res)" by fastforce
  show ?thesis using False t u unlink_props [OF u] by (auto simp: ls_close_def Let_def)
qed

theorem close_returns_witness:
  "\<exists>w. ls_close (demo_rec 100) False = Some (w, True, LS_OK)"
proof -
  have "path (demo_rec 100) \<noteq> None"
    unfolding demo_rec_def find_or_insert_def
    by (auto simp: ls_toc_insert_def toc_alloc_rec_def toc_link_def st_malloc_def os_malloc_def os_empty_def demo_def store_init_def Let_def
        split: option.splits)
  then show ?thesis using close_returns [OF demo_rec_keepable(1,2), of False] demo_rec_keepable(4,5) by auto
qed

subsection \<open>New files and emptied stores\<close>

lemma open_empty_file:
  assumes "quiet w" "flen w = 0" "file_wf w" "memory_budget o' < off_max" "parallel o' \<noteq> LS_SHARED"
  shows "\<exists>t. open_file (store_init w p o' d) (flen w) = (t, LS_OK)
     \<and> (store_inv t \<and> store_abs t = Map.empty \<and> opts t = o' \<and> flen (fd t) = 4096) \<and> quiet (fd t)"
proof -
  let ?s = "store_init w p o' d"
  obtain w1 res where tr: "ls_os_ftruncate w 4096 = (w1, res)" by fastforce
  have w1: "res = Inr ()" "flen w1 = 4096" "fbytes w1 = (\<lambda>i. if i < 4096 then fbytes w i else 0)" "sys w1 = sys w" "oom w1 = oom w"
    using tr calm_env [OF assms(1)] assms(1) by (auto simp: ls_os_ftruncate_def off_max_def)
  have q: "quiet w1" using assms(1) w1(4,5) by (simp add: quiet_def)
  have io: "io_ok w1 d" using q w1(2,3) by (auto simp: io_ok_def file_wf_def no_short_def quiet_def off_max_def)
  have e: "?s\<lparr>fd := w1\<rparr> = store_init w1 p o' d" by (simp add: store_init_def)
  have "open_file ?s (flen w) = (store_init w1 p o' d, LS_OK)"
    using assms(2,5) tr w1(1) e by (simp add: open_file_def store_init_def)
  moreover have "store_inv (store_init w1 p o' d)" by (rule store_init_inv [OF io assms(4)])
  moreover have "store_abs (store_init w1 p o' d) = Map.empty"
    using toc_find_iff [OF store_init_toc [of w1 p o' d]] by (auto simp: store_abs_def store_init_def fun_eq_iff split: option.splits)
  ultimately show ?thesis using q w1(2) by (auto simp: store_init_def)
qed

text \<open>A new store is empty and well-formed. Opening a name that has no file yet succeeds when the
  environment answers: the store has no record, its invariant holds, its options are the caller's
  and its file has exactly the superblock's length; a shared store is refused with \<open>ENOENT\<close> instead.\<close>

theorem open_new:
  assumes "quiet w" "flen w = 0" "file_wf w" "name \<noteq> []" "opts_take src = Some o'" "opts_refused o' = None"
    "memory_budget o' < off_max" "0 < e_threads e"
  shows "if parallel o' = LS_SHARED then snd (ls_open w e (Some name) src) = Inl (neg_errno ENOENT)
     else \<exists>t n. ls_open w e (Some name) src = (fd t, Inr (t, n)) \<and> store_inv t \<and> store_abs t = Map.empty \<and> opts t = o'
        \<and> flen (fd t) = 4096 \<and> 0 < n"
proof (cases "parallel o' = LS_SHARED")
  case False
  have "\<exists>t n. ls_open w e (Some name) src = (fd t, Inr (t, n))
     \<and> (store_inv t \<and> store_abs t = Map.empty \<and> opts t = o' \<and> flen (fd t) = 4096) \<and> quiet (fd t) \<and> 0 < n"
    by (rule ls_open_file [OF assms(1,4,5,6,8)]) (rule open_empty_file [OF assms(1,2,3,7) False])
  then show ?thesis using False by auto
next
  case True
  note c = calm_env [OF assms(1)]
  obtain p where p: "build_path w e name o' = (w, Some p)" using c by (simp add: build_path_def Let_def)
  have "open_file (store_init w p o' (direct_io o')) 0 = (store_init w p o' (direct_io o'), neg_errno ENOENT)"
    using True by (simp add: open_file_def store_init_def)
  moreover have "neg_errno ENOENT \<noteq> LS_OK" by simp
  ultimately have "snd (ls_open w e (Some name) src) = Inl (neg_errno ENOENT)"
    using c p assms(2,4-6) by (simp add: ls_open_def ls_os_open_rw_def ls_os_file_size_def)
  then show ?thesis using True by simp
qed

theorem open_new_witness:
  "\<exists>t n. ls_open (os_empty []) env0 (Some ''demo'') None = (fd t, Inr (t, n)) \<and> store_inv t \<and> store_abs t = Map.empty"
proof -
  let ?o = "ls_opts_init opts_zero 3"
  have "parallel ?o \<noteq> LS_SHARED" by (simp add: ls_opts_init_def LS_OPTS_VERSION_def)
  moreover have "if parallel ?o = LS_SHARED then snd (ls_open (os_empty []) env0 (Some ''demo'') None) = Inl (neg_errno ENOENT)
     else \<exists>t n. ls_open (os_empty []) env0 (Some ''demo'') None = (fd t, Inr (t, n)) \<and> store_inv t \<and> store_abs t = Map.empty \<and> opts t = ?o
        \<and> flen (fd t) = 4096 \<and> 0 < n"
    by (rule open_new [OF demo_quiet _ _ _ opts_take_default(1,2)]) (simp_all add: os_empty_def file_wf_def off_max_def opts_take_default env0_def)
  ultimately show ?thesis by auto
qed

text \<open>Closing a store with no records writes an empty table and a superblock that says so.\<close>

lemma crc32_of_Nil: "crc32_of [] = 0"
  by (simp add: crc32_of_def)

lemma empty_recs:
  assumes "store_inv s" "store_abs s = Map.empty"
  shows "nrec s = 0" "toc_bytes s = []" "resident s = 0"
proof -
  have "recs s = Map.empty"
  proof (rule ext)
    fix r show "recs s r = Map.empty r"
    proof (cases "recs s r")
      case (Some x)
      then have "key x \<in> dom (store_abs s)" using keys_find [OF assms(1)] by (auto simp: ran_def)
      then show ?thesis using assms(2) by simp
    qed simp
  qed
  then have ct: "concat (tab s) = []" and rs: "res_set s = {}"
    using store_invD(1) [OF assms(1)] by (auto simp: toc_inv_def res_set_def)
  show "nrec s = 0" using store_invD(1) [OF assms(1)] unfolding toc_inv_def ct by simp
  show "toc_bytes s = []" unfolding toc_bytes_def toc_recs_def ct by simp
  show "resident s = 0" using store_invD(4) [OF assms(1)] unfolding tier_ok_def rs by simp
qed

lemma close_emptied:
  assumes inv: "store_inv s" and e: "store_abs s = Map.empty" and sh: "parallel (opts s) \<noteq> LS_SHARED"
    and c: "ls_close s True = Some (w, gone, LS_OK)"
  shows "file_read w 0 4096 = superblock (file_end s) 0 []" "\<forall>i\<ge>4096. fbytes w i = fbytes (fd s) i" "flen (fd s) \<le> flen w"
proof -
  note n = empty_recs [OF inv e]
  have sp: "ls_spill_all s = Some (s, LS_OK)" unfolding ls_spill_all_def using n(3) by (subst ls_evict_to.simps) simp
  obtain s2 rc2 where wt: "write_toc s = (s2, rc2)" by fastforce
  have c2: "w = fd s2" "rc2 = LS_OK"
    using c sh sp wt free_recs_teardown [of "s2\<lparr>teardown := True\<rparr>"] by (auto simp: ls_close_def Let_def split: if_splits)
  obtain w0 w1 w2 where w0: "fbytes w0 = fbytes (fd s)" "flen w0 = flen (fd s)" "io_ok w0 (direct s)"
    and w1: "ls_pwrite_all w0 (direct s) [] (file_end s) = (w1, LS_OK)"
    and w2: "ls_pwrite_all w1 (direct s) (superblock (file_end s) 0 []) 0 = (w2, LS_OK)"
    and res: "fbytes w = fbytes w2" "flen w = flen w2"
    using write_toc_ok [OF inv wt [unfolded c2(2)]] unfolding n(1,2) c2(1) by metis
  have e1: "w1 = w0" using w1 by (simp add: ls_pwrite_all_def rw_all_def)
  have "0 + length (superblock (file_end s) 0 []) < u64_mod" by (simp add: u64_mod_def)
  note q = ls_pwrite_all_spec [OF w2 [unfolded e1] this w0(3)]
  show "file_read w 0 4096 = superblock (file_end s) 0 []" using q(2) [OF refl] res(1) by (simp add: file_read_def)
  show "\<forall>i\<ge>4096. fbytes w i = fbytes (fd s) i" using file_frameD(4) [OF q(1)] res(1) w0(1) by simp
  show "flen (fd s) \<le> flen w" using file_frameD(3) [OF q(1)] res(2) w0(2) by simp
qed

text \<open>C34. An emptied store may not open again. If a kept store has no records and its file is longer than its
  data (the table of an earlier close, say, that held only empty records), the recorded table length
  is zero, which \<open>ls_open\<close> takes for a file of the old format: it reads the rest of the file as the
  table, and unless those bytes happen to have checksum zero it reports \<open>LS_ERR_CORRUPT\<close>.\<close>

theorem emptied_store_refused:
  assumes "store_inv s" "store_abs s = Map.empty" "parallel (opts s) \<noteq> LS_SHARED" "ls_close s True = Some (w, gone, LS_OK)"
    and "file_end s < flen w" "flen w + 4096 \<le> off_max" "crc32_of (file_read w (file_end s) (flen w - file_end s)) \<noteq> 0"
    and "fbytes w' = fbytes w" "flen w' = flen w" "quiet w'"
    and "name \<noteq> []" "opts_take src = Some o'" "opts_refused o' = None"
  shows "snd (ls_open w' e (Some name) src) = Inl LS_ERR_CORRUPT"
proof -
  let ?fe = "file_end s" and ?d = "direct_io o'"
  let ?sb = "superblock ?fe 0 []"
  note cl = close_emptied [OF assms(1-4)]
  have fe: "4096 \<le> ?fe" "?fe < u64_mod" using store_invD(2) [OF assms(1)] by (simp_all add: alloc_inv_def)
  have f: "take 8 ?sb = LS_MAGIC" "get32 (drop 8 ?sb) = LS_FMT_VERSION" "sb_off ?sb = ?fe" "sb_end ?sb = ?fe" "sb_crc ?sb = 0" "sb_len ?sb = 0"
    using superblock_fields [OF fe(2), of 0 "[]"] by (simp_all add: u64_mod_def crc32_of_Nil)
  have io: "io_ok w' ?d"
  proof -
    have "\<forall>i\<ge>flen w. fbytes w i = 0"
    proof (intro allI impI)
      fix i assume "flen w \<le> i"
      then have "4096 \<le> i" "flen (fd s) \<le> i" using assms(5) fe(1) cl(3) by simp_all
      then show "fbytes w i = 0" using cl(2) store_invD(6) [OF assms(1)] by (simp add: file_wf_def)
    qed
    then show ?thesis using assms(6,8-10) by (simp add: io_ok_def file_wf_def quiet_def no_short_def off_max_def)
  qed
  note c = calm_env [OF assms(10)]
  obtain p where p: "build_path w' e name o' = (w', Some p)" using c by (simp add: build_path_def Let_def)
  let ?s = "store_init w' p o' ?d"
  have i: "fd ?s = w'" "direct ?s = ?d" by (simp_all add: store_init_def)
  obtain w1 rc1 out1 where r1: "ls_pread_all w' ?d 4096 0 = (w1, rc1, out1)" by (metis prod_cases3)
  have rd1: "rc1 = LS_OK" "out1 = ?sb" "fbytes w1 = fbytes w" "flen w1 = flen w" "quiet w1" "io_ok w1 ?d"
    using read_image [OF r1 io assms(10)] assms(5,6,8,9) fe(1) cl(1) by (simp_all add: file_read_def)
  obtain w2 rc2 out2 where r2: "ls_pread_all w1 ?d (flen w - ?fe) ?fe = (w2, rc2, out2)" by (metis prod_cases3)
  have rd2: "rc2 = LS_OK" "out2 = file_read w ?fe (flen w - ?fe)"
    using read_image [OF r2 rd1(6,5)] assms(5,6) rd1(3,4) by (simp_all add: file_read_def)
  have m: "st_malloc (?s\<lparr>fd := w1, file_end := ?fe\<rparr>) = (True, ?s\<lparr>fd := w1, file_end := ?fe\<rparr>)"
    using rd1(5) by (intro st_malloc_calm) (simp add: quiet_def)
  have "load_store (?s\<lparr>fd := w1\<rparr>) ?sb (flen w) = (?s\<lparr>file_end := ?fe, fd := w2\<rparr>, LS_ERR_CORRUPT)"
    unfolding load_store_def f Let_def using fe(1) assms(5,7) r2 rd2 m i by simp
  then have "open_file ?s (flen w') = (?s\<lparr>file_end := ?fe, fd := w2\<rparr>, LS_ERR_CORRUPT)"
    unfolding open_file_def i using r1 rd1(1,2) assms(5,9) fe(1) by simp
  then show ?thesis using c p assms(9,11-13) by (simp add: ls_open_def ls_os_open_rw_def ls_os_file_size_def)
qed

text \<open>A store without records on a file that is one byte longer than its data.\<close>

lemma pwrite_quiet:
  assumes "quiet w" "bs \<noteq> []" "off + length bs < off_max"
  shows "ls_pwrite_all w False bs off = (file_write w off bs, LS_OK)"
proof -
  have a: "off + length bs < u64_mod" using assms(3) by (simp add: off_max_def u64_mod_def)
  have "plain_write w bs (length bs) off 0 = plain_write (file_write w off bs) bs (length bs) off (length bs)"
    using assms calm_env [OF assms(1)] a by (subst plain_write.simps) (simp add: ls_os_pwrite_def add64_def)
  also have "\<dots> = (file_write w off bs, LS_OK)" by (subst plain_write.simps) simp
  finally show ?thesis using assms(2) by (simp add: ls_pwrite_all_def rw_all_def)
qed

definition trailing :: "byte \<Rightarrow> os" where
  "trailing b = (os_empty [])\<lparr>fbytes := (\<lambda>i. if i = 4096 then b else 0), flen := 4097\<rparr>"

lemma trailing_closed:
  fixes b defines "s \<equiv> store_init (trailing b) ''demo'' opts_default False"
  shows "store_inv s" "store_abs s = Map.empty" "parallel (opts s) \<noteq> LS_SHARED" "file_end s = 4096"
    "ls_close s True = Some (file_write (trailing b) 0 (superblock 4096 0 []), False, LS_OK)"
proof -
  have q: "quiet (trailing b)" by (simp add: trailing_def quiet_def)
  show inv: "store_inv s" unfolding s_def
    by (rule store_init_inv) (auto simp: trailing_def io_ok_def file_wf_def opts_default_def off_max_def)
  show "store_abs s = Map.empty" unfolding s_def
    using toc_find_iff [OF store_init_toc [of "trailing b" "''demo''" opts_default False]]
    by (auto simp: store_abs_def store_init_def fun_eq_iff split: option.splits)
  have sel: "opts s = opts_default" "file_end s = 4096" "resident s = 0" "direct s = False" "fd s = trailing b" "nrec s = 0" "toc_recs s = []"
    by (simp_all add: s_def store_init_def toc_recs_def)
  then show "parallel (opts s) \<noteq> LS_SHARED" "file_end s = 4096" by (simp_all add: opts_default_def)
  have sp: "ls_spill_all s = Some (s, LS_OK)" unfolding ls_spill_all_def using sel(3) by (subst ls_evict_to.simps) simp
  have "superblock 4096 0 [] \<noteq> []" by (simp add: superblock_def put32_def)
  then have "ls_pwrite_all (trailing b) False (superblock 4096 0 []) 0 = (file_write (trailing b) 0 (superblock 4096 0 []), LS_OK)"
    using q by (intro pwrite_quiet) (simp_all add: off_max_def)
  moreover have "ls_pwrite_all (trailing b) False [] 4096 = (trailing b, LS_OK)" by (simp add: ls_pwrite_all_def rw_all_def)
  moreover have "st_malloc s = (True, s)" using q sel(5) by (intro st_malloc_calm) (simp add: quiet_def)
  ultimately have "write_toc s = (s\<lparr>fd := file_write (trailing b) 0 (superblock 4096 0 [])\<rparr>, LS_OK)"
    using sel by (simp add: write_toc_def toc_serialise_def opts_default_def)
  then show "ls_close s True = Some (file_write (trailing b) 0 (superblock 4096 0 []), False, LS_OK)"
    using sp sel free_recs_teardown [of "s\<lparr>fd := file_write (trailing b) 0 (superblock 4096 0 []), teardown := True\<rparr>"]
    by (simp add: ls_close_def Let_def opts_default_def)
qed

theorem emptied_store_refused_witness:
  "\<exists>b w. ls_close (store_init (trailing b) ''demo'' opts_default False) True = Some (w, False, LS_OK)
     \<and> snd (ls_open w env0 (Some ''demo'') None) = Inl LS_ERR_CORRUPT"
proof -
  obtain b :: byte where b: "crc32_of [b] \<noteq> 0" using crc_detects_byte [of 0 "[0]" 1] by force
  note c = trailing_closed [of b]
  let ?w = "file_write (trailing b) 0 (superblock 4096 0 [])"
  have ne: "superblock 4096 0 [] \<noteq> []" by (simp add: superblock_def put32_def)
  have w: "flen ?w = 4097" "fbytes ?w 4096 = b" "quiet ?w"
    using ne by (simp_all add: file_write_def trailing_def quiet_def)
  have "file_read ?w 4096 1 = [b]" using w(2) by (simp add: file_read_def)
  then have "snd (ls_open ?w env0 (Some ''demo'') None) = Inl LS_ERR_CORRUPT"
    by (intro emptied_store_refused [OF c(1-3,5) _ _ _ refl refl w(3) _ opts_take_default(1,2)]) (simp_all add: c(4) w(1) b off_max_def)
  then show ?thesis using c(5) by blast
qed

end
