(* ===== verification/Dispatch.thy ===== *)
theory Dispatch
  imports Backends Opening
begin

text \<open>
  The build with HDF5: the branches of \<open>ls_open\<close> and \<open>ls_close\<close> (\<open>src/open.c\<close>) for this backend, the dispatch
  \<open>LS_IF_HDF5\<close> at the head of every entry point of \<open>src/store.c\<close>, and the HDF5 loop of \<open>segv\<close>. A store of this
  build is a POSIX store with, for the other backend, the open HDF5 file.
\<close>

record 'f hstore =
  hs :: ls_store
  hf :: "'f option"

definition is_h5 :: "'f hstore \<Rightarrow> bool" where
  "is_h5 s \<longleftrightarrow> backend (opts (hs s)) = LS_HDF5"

subsection \<open>Opening and closing\<close>

definition opts_refused_h5 :: "ls_opts \<Rightarrow> int option" where
  "opts_refused_h5 o' =
     (if mode o' = LS_MAPPED \<and> (backend o' \<noteq> LS_POSIX \<or> memory_budget o' \<noteq> 0 \<or> direct_io o') then Some LS_ERR_INVAL
      else if parallel o' = LS_SHARED \<and> memory_budget o' \<noteq> 0 then Some LS_ERR_INVAL
      else if backend o' = LS_HDF5 \<and> (memory_budget o' \<noteq> 0 \<or> direct_io o' \<or> parallel o' = LS_SHARED) then Some LS_ERR_INVAL
      else if exact_name o' \<and> parallel o' = LS_PER_RANK then Some LS_ERR_INVAL
      else None)"

text \<open>With another backend the two builds run the same code.\<close>

lemma opts_refused_same: "backend o' \<noteq> LS_HDF5 \<Longrightarrow> opts_refused_h5 o' = opts_refused o'"
  by (auto simp: opts_refused_h5_def opts_refused_def)

definition hx_open :: "'f hdf5 \<Rightarrow> os \<Rightarrow> ls_env \<Rightarrow> string option \<Rightarrow> ls_opts option \<Rightarrow> os \<times> (int + 'f hstore \<times> nat)" where
  "hx_open L w e name src =
     (if name = None \<or> name = Some [] then (w, Inl LS_ERR_INVAL)
      else case opts_take src of
        None \<Rightarrow> (w, Inl LS_ERR_INVAL)
      | Some o' \<Rightarrow>
        if backend o' \<noteq> LS_HDF5 then
          (case ls_open w e name src of
             (w', Inl rc) \<Rightarrow> (w', Inl rc)
           | (w', Inr (s, n)) \<Rightarrow> (w', Inr (\<lparr>hs = s, hf = None\<rparr>, n)))
        else (case opts_refused_h5 o' of
           Some rc \<Rightarrow> (w, Inl rc)
         | None \<Rightarrow>
           (case os_malloc w of (ok1, w1) \<Rightarrow>
              if \<not> ok1 then (w1, Inl (neg_errno ENOMEM))
              else case os_malloc w1 of (ok2, w2) \<Rightarrow>
                (case build_path w2 e (the name) o' of (w3, po) \<Rightarrow>
                   if \<not> ok2 \<or> po = None then (w3, Inl (neg_errno ENOMEM))
                   else (case ls_os_path_size w3 of (w4, sz) \<Rightarrow>
                     let existing = (case sz of Inl _ \<Rightarrow> False | Inr n \<Rightarrow> 0 < n) in
                     (case ls_h5_open L (the po) existing of (rc, fo) \<Rightarrow>
                        if rc \<noteq> LS_OK then (w4, Inl rc)
                        else (w4, Inr (\<lparr>hs = store_init w4 (the po) o' False, hf = fo\<rparr>, 0))))))))"

definition hx_close :: "'f hdf5 \<Rightarrow> 'f hstore \<Rightarrow> bool \<Rightarrow> (os \<times> bool \<times> int) option" where
  "hx_close L s keep =
     (if is_h5 s then
        let hrc = ls_h5_close L (hf s) in
        if \<not> keep \<and> path (hs s) \<noteq> None
        then (case ls_os_unlink (fd (hs s)) of (w, res) \<Rightarrow> Some (w, res = Inr (), hrc))
        else Some (fd (hs s), False, hrc)
      else ls_close (hs s) keep)"

subsection \<open>The entry points\<close>

text \<open>A call on the HDF5 file, or on the POSIX store. \<open>None\<close>: an HDF5 store without a file, which \<open>ls_open\<close> does
  not hand out.\<close>

definition on_h5 :: "'f hstore \<Rightarrow> (ls_store \<Rightarrow> 'f \<Rightarrow> ls_store \<times> 'f \<times> 'b) \<Rightarrow> ('f hstore \<times> 'b) option" where
  "on_h5 s g = (case hf s of None \<Rightarrow> None | Some f \<Rightarrow> (case g (hs s) f of (t, f', r) \<Rightarrow> Some (\<lparr>hs = t, hf = Some f'\<rparr>, r)))"

definition on_posix :: "'f hstore \<Rightarrow> (ls_store \<Rightarrow> (ls_store \<times> 'b) option) \<Rightarrow> ('f hstore \<times> 'b) option" where
  "on_posix s g = map_option (\<lambda>(t, r). (s\<lparr>hs := t\<rparr>, r)) (g (hs s))"

definition hx_write :: "'f hdf5 \<Rightarrow> 'f hstore \<Rightarrow> string option \<Rightarrow> nat \<Rightarrow> nat \<Rightarrow> byte list option \<Rightarrow> ('f hstore \<times> int) option" where
  "hx_write L s ko off n buf =
     (if is_h5 s then on_h5 s (\<lambda>t f. h5_ls_write L t f ko off n buf)
      else on_posix s (\<lambda>t. ls_write t ko off n buf))"

definition hx_read :: "'f hdf5 \<Rightarrow> 'f hstore \<Rightarrow> string option \<Rightarrow> nat \<Rightarrow> nat \<Rightarrow> bool \<Rightarrow> ('f hstore \<times> int \<times> byte list) option" where
  "hx_read L s ko off n outp =
     (if is_h5 s then on_h5 s (\<lambda>t f. h5_ls_read L t f ko off n outp)
      else on_posix s (\<lambda>t. ls_read t ko off n outp))"

definition hx_exists :: "'f hdf5 \<Rightarrow> 'f hstore \<Rightarrow> string option \<Rightarrow> bool \<Rightarrow> ('f hstore \<times> int \<times> bool option) option" where
  "hx_exists L s ko outp =
     (if \<not> outp \<or> \<not> ls_key_ok ko then Some (s, LS_ERR_INVAL, None)
      else if is_h5 s then on_h5 s (\<lambda>t f. case ls_h5_exists L f (the ko) of (rc, b) \<Rightarrow> (t, f, rc, Some b))
      else on_posix s (\<lambda>t. Some (t, ls_exists t ko outp)))"

definition hx_size :: "'f hdf5 \<Rightarrow> 'f hstore \<Rightarrow> string option \<Rightarrow> bool \<Rightarrow> ('f hstore \<times> int \<times> nat option) option" where
  "hx_size L s ko outp =
     (if \<not> outp \<or> \<not> ls_key_ok ko then Some (s, LS_ERR_INVAL, None)
      else if is_h5 s then on_h5 s (\<lambda>t f. case ls_h5_size L f (the ko) of (f', rc, n) \<Rightarrow> (t, f', rc, if rc = LS_OK then Some n else None))
      else on_posix s (\<lambda>t. Some (t, ls_size t ko outp)))"

definition hx_erase :: "'f hdf5 \<Rightarrow> 'f hstore \<Rightarrow> string option \<Rightarrow> ('f hstore \<times> int) option" where
  "hx_erase L s ko =
     (if \<not> ls_key_ok ko then Some (s, LS_ERR_INVAL)
      else if parallel (opts (hs s)) = LS_SHARED then Some (s, LS_ERR_MODE)
      else if is_h5 s then on_h5 s (\<lambda>t f. case ls_h5_erase L f (the ko) of (f', rc) \<Rightarrow> (t, f', rc))
      else on_posix s (\<lambda>t. Some (ls_erase t ko)))"

definition hx_reserve :: "'f hdf5 \<Rightarrow> 'f hstore \<Rightarrow> string option \<Rightarrow> nat \<Rightarrow> ('f hstore \<times> int) option" where
  "hx_reserve L s ko n =
     (if \<not> ls_key_ok ko then Some (s, LS_ERR_INVAL)
      else if parallel (opts (hs s)) = LS_SHARED then Some (s, LS_ERR_MODE)
      else if is_h5 s then on_h5 s (\<lambda>t f. ls_h5_reserve L t f (the ko) n)
      else on_posix s (\<lambda>t. ls_reserve t ko n))"

definition hx_keys :: "'f hdf5 \<Rightarrow> 'f hstore \<Rightarrow> bool \<Rightarrow> ('f hstore \<times> int \<times> string list) option" where
  "hx_keys L s outp =
     (if \<not> outp then Some (s, LS_ERR_INVAL, [])
      else if is_h5 s then on_h5 s (\<lambda>t f. case ls_h5_keys L t f of (t', r) \<Rightarrow> (t', f, r))
      else on_posix s (\<lambda>t. Some (ls_keys t outp)))"

definition hx_append :: "'f hdf5 \<Rightarrow> 'f hstore \<Rightarrow> string option \<Rightarrow> nat \<Rightarrow> byte list option \<Rightarrow> ('f hstore \<times> int \<times> nat option) option" where
  "hx_append L s ko n buf =
     (if \<not> ls_key_ok ko \<or> (n \<noteq> 0 \<and> buf = None) then Some (s, LS_ERR_INVAL, None)
      else if parallel (opts (hs s)) = LS_SHARED then Some (s, LS_ERR_MODE, None)
      else if is_h5 s then on_h5 s (\<lambda>t f. case ls_h5_append L f (the ko) n (case buf of None \<Rightarrow> [] | Some bs \<Rightarrow> bs) of (f', r) \<Rightarrow> (t, f', r))
      else on_posix s (\<lambda>t. ls_append t ko n buf))"

definition hx_set_attr :: "'f hdf5 \<Rightarrow> 'f hstore \<Rightarrow> string option \<Rightarrow> byte list option \<Rightarrow> nat \<Rightarrow> ('f hstore \<times> int) option" where
  "hx_set_attr L s ko blob n =
     (if \<not> ls_key_ok ko then Some (s, LS_ERR_INVAL)
      else if LS_ATTR_MAX < n \<or> (n \<noteq> 0 \<and> blob = None) then Some (s, LS_ERR_INVAL)
      else if parallel (opts (hs s)) = LS_SHARED then Some (s, LS_ERR_MODE)
      else if is_h5 s then on_h5 s (\<lambda>t f. case ls_h5_set_attr L f (the ko) (case blob of None \<Rightarrow> [] | Some b \<Rightarrow> b) n of (f', rc) \<Rightarrow> (t, f', rc))
      else on_posix s (\<lambda>t. Some (ls_set_attr t ko blob n)))"

definition hx_get_attr :: "'f hdf5 \<Rightarrow> 'f hstore \<Rightarrow> string option \<Rightarrow> bool \<Rightarrow> nat option \<Rightarrow> ('f hstore \<times> int \<times> nat option \<times> byte list) option" where
  "hx_get_attr L s ko blob no =
     (if \<not> ls_key_ok ko \<or> no = None then Some (s, LS_ERR_INVAL, no, [])
      else if is_h5 s then on_h5 s (\<lambda>t f. case ls_h5_get_attr L f (the ko) blob (the no) of (f', rc, n, bs) \<Rightarrow> (t, f', rc, Some n, bs))
      else on_posix s (\<lambda>t. Some (t, ls_get_attr t ko blob no)))"

definition hx_accumulate :: "'f hdf5 \<Rightarrow> 'f hstore \<Rightarrow> string option \<Rightarrow> nat \<Rightarrow> nat \<Rightarrow> byte list option \<Rightarrow> ls_reduce option \<Rightarrow> ('f hstore \<times> int) option" where
  "hx_accumulate L s ko off n buf op =
     (if \<not> ls_key_ok ko \<or> op = None \<or> (n \<noteq> 0 \<and> buf = None) then Some (s, LS_ERR_INVAL)
      else if mode (opts (hs s)) \<noteq> LS_EXPLICIT then Some (s, LS_ERR_MODE)
      else if is_h5 s then on_h5 s (\<lambda>t f. ls_h5_accumulate L t f (the ko) off n (case buf of None \<Rightarrow> [] | Some bs \<Rightarrow> bs) (the op))
      else on_posix s (\<lambda>t. ls_accumulate t ko off n buf op))"

text \<open>The HDF5 loop of \<open>segv\<close>: one transfer per segment, up to the first that fails.\<close>

fun h5_segs :: "'f hdf5 \<Rightarrow> ls_store \<Rightarrow> 'f \<Rightarrow> string \<Rightarrow> ls_seg list \<Rightarrow> ls_op \<Rightarrow> byte list list \<Rightarrow> ls_store \<times> 'f \<times> int \<times> byte list list" where
  "h5_segs L s f k [] op outs = (s, f, LS_OK, outs)"
| "h5_segs L s f k (g # gs) op outs =
     (case ls_h5_rw L s f k (soff g) (slen g) (seg_bytes g) op of (s1, f1, rc, out) \<Rightarrow>
        if rc \<noteq> LS_OK then (s1, f1, rc, outs) else h5_segs L s1 f1 k gs op (outs @ [out]))"

definition hx_segv :: "'f hdf5 \<Rightarrow> 'f hstore \<Rightarrow> string option \<Rightarrow> ls_seg list option \<Rightarrow> nat \<Rightarrow> ls_op \<Rightarrow> ('f hstore \<times> int \<times> byte list list) option" where
  "hx_segv L s ko segs nseg op =
     (if \<not> ls_key_ok ko \<or> (nseg \<noteq> 0 \<and> segs = None) then Some (s, LS_ERR_INVAL, [])
      else if nseg = 0 then Some (s, LS_OK, [])
      else (case seg_check (take nseg (the segs)) 0 of
          Inl rc \<Rightarrow> Some (s, rc, [])
        | Inr hi \<Rightarrow>
            if is_h5 s then on_h5 s (\<lambda>t f. h5_segs L t f (the ko) (take nseg (the segs)) op [])
            else on_posix s (\<lambda>t. segv t ko segs nseg op)))"

subsection \<open>Properties\<close>

lemma rw_write_spec:
  assumes "h5_laws L M" "h5_name k" "bs \<noteq> []" "off + length bs < u64_mod"
    and "ls_h5_rw L s f k off (length bs) bs LS_OP_WRITE = (s', f', rc, out)"
  shows "rc = LS_OK \<Longrightarrow> h5_view M f' = kv_write (h5_view M f) k off bs"
    "k' \<noteq> k \<Longrightarrow> h5_view M f' k' = h5_view M f k'" "hcalm M f \<Longrightarrow> rc = LS_OK \<and> hcalm M f'"
proof -
  have t: "h5_transfer L f k off (length bs) bs LS_OP_WRITE = (f', rc, out)"
    using assms(3,5) by (auto simp: ls_h5_rw_def split: prod.splits if_splits)
  note sp = transfer_write_spec [OF assms(1,2,4) t]
  show "rc = LS_OK \<Longrightarrow> h5_view M f' = kv_write (h5_view M f) k off bs" "hcalm M f \<Longrightarrow> rc = LS_OK \<and> hcalm M f'"
    using sp by blast+
  show "k' \<noteq> k \<Longrightarrow> h5_view M f' k' = h5_view M f k'"
    using sp by (cases "rc = LS_OK") (auto simp: kv_write_def write_fails_def)
qed

lemma h5_segs_write:
  assumes "h5_laws L M" "h5_name k" "\<forall>g\<in>set gs. seg_ok g \<and> 0 < slen g" "h5_segs L s f k gs LS_OP_WRITE outs = (s', f', rc, outs')"
  shows "(rc = LS_OK \<longrightarrow> h5_view M f' = kv_writes (h5_view M f) k gs) \<and> (\<forall>k'. k' \<noteq> k \<longrightarrow> h5_view M f' k' = h5_view M f k')
    \<and> (hcalm M f \<longrightarrow> rc = LS_OK \<and> hcalm M f')"
  using assms(3,4)
proof (induction gs arbitrary: s f outs)
  case Nil
  then show ?case by (auto simp: kv_writes_def)
next
  case (Cons g gs)
  have g: "slen g = length (seg_bytes g)" "seg_bytes g \<noteq> []" "soff g + length (seg_bytes g) < u64_mod"
    using Cons.prems(1) by (auto simp: seg_ok_def seg_bytes_def split: option.splits)
  obtain s1 f1 rc1 out where t: "ls_h5_rw L s f k (soff g) (slen g) (seg_bytes g) LS_OP_WRITE = (s1, f1, rc1, out)"
    by (metis prod_cases4)
  note sp = rw_write_spec [OF assms(1,2) g(2,3) t [unfolded g(1)]]
  show ?case
  proof (cases "rc1 = LS_OK")
    case True
    have "h5_segs L s1 f1 k gs LS_OP_WRITE (outs @ [out]) = (s', f', rc, outs')"
      using Cons.prems(2) t True by simp
    then show ?thesis using Cons.IH [of s1 f1] Cons.prems(1) sp True by (auto simp: kv_writes_def)
  next
    case False
    then have "f' = f1" "rc = rc1" using Cons.prems(2) t by auto
    then show ?thesis using sp False by auto
  qed
qed

text \<open>C4. A vectored write to an HDF5 store equals the writes it lists, as on the POSIX backend. On a store whose
  file keeps the laws, with segments of at least one byte, \<open>ls_writev\<close> returns; if it reports success
  the keys and bytes are those that single writes of the segments give, in their order and with
  their overlaps; other keys never change; and it succeeds when no call of the library fails.\<close>

theorem h5_writev_is_writes:
  assumes "h5_laws L M" "is_h5 s" "hf s = Some f" "ls_key_ok (Some k)" "h5_name k"
    and "gs \<noteq> []" "\<forall>g\<in>set gs. seg_ok g \<and> 0 < slen g"
  shows "\<exists>s' f' rc outs. hx_segv L s (Some k) (Some gs) (length gs) LS_OP_WRITE = Some (s', rc, outs) \<and> hf s' = Some f'
    \<and> (\<forall>k'. k' \<noteq> k \<longrightarrow> h5_view M f' k' = h5_view M f k')
    \<and> (rc = LS_OK \<longrightarrow> h5_view M f' = foldl (\<lambda>m g. kv_write m k (soff g) (seg_bytes g)) (h5_view M f) gs)
    \<and> (hcalm M f \<longrightarrow> rc = LS_OK)"
proof -
  obtain t f' rc outs where h: "h5_segs L (hs s) f k gs LS_OP_WRITE [] = (t, f', rc, outs)" by (metis prod_cases4)
  have "seg_check gs 0 = Inr (max 0 (seg_top gs))" using assms(7) by (intro seg_check_top) blast
  then have "hx_segv L s (Some k) (Some gs) (length gs) LS_OP_WRITE = Some (\<lparr>hs = t, hf = Some f'\<rparr>, rc, outs)"
    using assms(2-4,6) h by (simp add: hx_segv_def on_h5_def)
  then show ?thesis using h5_segs_write [OF assms(1,5,7) h] by (auto simp: kv_writes_def)
qed

theorem h5_writev_is_writes_witness:
  "\<exists>s' f' outs. hx_segv mem_lib \<lparr>hs = (demo 0)\<lparr>opts := opts_default\<lparr>backend := LS_HDF5\<rparr>\<rparr>, hf = Some mem0\<rparr> (Some ''k'')
       (Some [\<lparr>soff = 2, slen = 2, sbuf = Some [1, 2]\<rparr>, \<lparr>soff = 0, slen = 3, sbuf = Some [3, 4, 5]\<rparr>]) 2 LS_OP_WRITE
       = Some (s', LS_OK, outs) \<and> hf s' = Some f' \<and> h5_view mem_sem f' ''k'' = Some ([3, 4, 5, 2], [])"
proof -
  let ?gs = "[\<lparr>soff = 2, slen = 2, sbuf = Some [1, 2 :: byte]\<rparr>, \<lparr>soff = 0, slen = 3, sbuf = Some [3, 4, 5]\<rparr>]"
  let ?s = "\<lparr>hs = (demo 0)\<lparr>opts := opts_default\<lparr>backend := LS_HDF5\<rparr>\<rparr>, hf = Some mem0\<rparr>"
  have g: "\<forall>g\<in>set ?gs. seg_ok g \<and> 0 < slen g" by (simp add: seg_ok_def seg_bytes_def u64_mod_def)
  have h: "is_h5 ?s" by (simp add: is_h5_def)
  have "kv_write (kv_write Map.empty ''k'' 2 [1, 2]) ''k'' 0 [3, 4, 5] ''k'' = Some ([3, 4, 5, 2 :: byte], [])"
    by (simp add: kv_write_def patch_def grown_def blit_def zeros_def numeral_eq_Suc)
  then show ?thesis
    using h5_writev_is_writes [OF mem_laws h _ key_k(1) h5_name_k _ g, of mem0] mem0_view
    by (auto simp: seg_bytes_def numeral_2_eq_2)
qed

text \<open>C5. Transfers of no bytes are where the backends part. On the POSIX backend a write of no bytes at an
  offset creates the record and grows it with zeros to the offset, and a read of no bytes from a
  missing key is \<open>LS_ERR_NOKEY\<close>; on the HDF5 backend both report success and do nothing.\<close>

theorem empty_transfers_differ:
  assumes "store_inv s" "ls_key_ok (Some k)" "off < u64_mod" "fits s off" "calm s off" "parallel (opts s) \<noteq> LS_SHARED" "store_abs s k = None"
  shows "(\<exists>s'. ls_write s (Some k) off 0 (Some []) = Some (s', LS_OK) \<and> store_abs s' k = Some (zeros off, []))
    \<and> (\<exists>s' out. ls_read s (Some k) off 0 True = Some (s', LS_ERR_NOKEY, out))
    \<and> h5_ls_write L t f (Some k) off 0 (Some []) = (t, f, LS_OK)
    \<and> h5_ls_read L t f (Some k) off 0 True = (t, f, LS_OK, [])"
proof -
  have nf: "\<not> kv_frozen (opts s) (store_abs s) k off" using assms(6) by (simp add: kv_frozen_def)
  have "\<exists>s'. ls_write s (Some k) off 0 (Some []) = Some (s', LS_OK) \<and> store_abs s' = kv_write (store_abs s) k off []"
    using ls_write_spec [OF assms(1,2), of off "[]"] assms(3-5) nf by (auto simp: write_outcome_def)
  moreover have "kv_write (store_abs s) k off [] k = Some (zeros off, [])"
    using assms(7) by (simp add: kv_write_def kv_get_def patch_def)
  moreover have "\<exists>s' out. ls_read s (Some k) off 0 True = Some (s', LS_ERR_NOKEY, out)"
    using ls_read_spec [OF assms(1-3), of 0] assms(3,7) by auto
  ultimately show ?thesis
    using assms(2) by (auto simp: h5_ls_write_def h5_ls_read_def ls_h5_rw_def)
qed

theorem empty_transfers_differ_witness:
  "\<exists>s'. ls_write (demo 100) (Some ''k'') 2 0 (Some []) = Some (s', LS_OK) \<and> store_abs s' ''k'' = Some ([0, 0], [])
     \<and> h5_ls_write mem_lib (demo 0) mem0 (Some ''k'') 2 0 (Some []) = (demo 0, mem0, LS_OK)"
proof -
  have c: "fits (demo 100) 2" "calm (demo 100) 2" by (rule demo_room; simp)+
  have "zeros 2 = [0, 0]" by (simp add: zeros_def numeral_2_eq_2)
  moreover have "parallel (opts (demo 100)) \<noteq> LS_SHARED" by (simp add: opts_default_def)
  moreover have "store_abs (demo 100) ''k'' = None" using off_max_big(1) by simp
  ultimately show ?thesis
    using empty_transfers_differ [OF demo_inv [OF off_max_big(1)] key_k(1) _ c, of mem_lib "demo 0" mem0] by (auto simp: u64_mod_def)
qed

text \<open>Opening a new HDF5 store: options the backend cannot serve are refused, and otherwise the store has the
  file that \<open>H5Fcreate\<close> made, under the path the POSIX backend would use.\<close>

lemma hx_open_new:
  assumes "quiet w" "flen w = 0" "name \<noteq> []" "opts_take src = Some o'" "backend o' = LS_HDF5" "opts_refused_h5 o' = None"
    and "build_path w e name o' = (w, Some p)" "H5Fcreate L p = Some f"
  shows "hx_open L w e (Some name) src = (w, Inr (\<lparr>hs = store_init w p o' False, hf = Some f\<rparr>, 0))"
  using assms by (simp add: hx_open_def os_malloc_def quiet_def ls_os_path_size_def next_sys_def ls_h5_open_def)

lemma hx_open_refuses:
  assumes "opts_take src = Some o'" "backend o' = LS_HDF5" "memory_budget o' \<noteq> 0 \<or> direct_io o' \<or> parallel o' = LS_SHARED \<or> mode o' = LS_MAPPED"
    and "name \<noteq> []"
  shows "hx_open L w e (Some name) src = (w, Inl LS_ERR_INVAL)"
proof -
  have "opts_refused_h5 o' = Some LS_ERR_INVAL" using assms(2,3) by (auto simp: opts_refused_h5_def)
  then show ?thesis using assms by (simp add: hx_open_def)
qed

end
