(* ===== verification/Cray.thy ===== *)
theory Cray
  imports Opening
begin

text \<open>
  The Cray word-addressable interface over the store, \<open>compat/crayio/crayio_libspill.c\<close>: a growing table of
  units, one store per unit with one record, word addresses from one. The lemmas show that a unit is
  an array of words and that units do not affect each other.
\<close>

subsection \<open>The unit table\<close>

definition CRAY_KEY :: string where "CRAY_KEY = ''w''"

record cray_unit =
  ustore :: "ls_store option"
  uopen :: bool
  uname :: string

text \<open>\<open>uname\<close> is not in the source: it says which file the descriptor of the unit's store refers to. The
  file system is a map from store names to files, which two units opened under one name share;
  \<open>cmem\<close> decides which allocations of this layer succeed.\<close>

record cray =
  units :: "cray_unit list"
  files :: "string \<Rightarrow> os"
  cmem :: os

definition unit0 :: cray_unit where
  "unit0 = \<lparr>ustore = None, uopen = False, uname = []\<rparr>"

function double_to :: "nat \<Rightarrow> nat \<Rightarrow> nat" where
  "double_to n want = (if 0 < n \<and> n < want then double_to (n * 2) want else n)"
  by pat_completeness auto
termination
  by (relation "measure (\<lambda>(n, want). want - n)") auto

declare double_to.simps [simp del]

text \<open>\<open>None\<close>: the size of the new table does not fit \<open>size_t\<close>, and the loop that clears it runs past what
  \<open>realloc\<close> returned. \<open>False\<close>: the call returned 0.\<close>

definition ensure_unit :: "cray \<Rightarrow> int \<Rightarrow> (cray \<times> bool) option" where
  "ensure_unit c u =
     (if u < 0 then Some (c, False)
      else if length (units c) \<le> nat u then
        let n = double_to (if units c \<noteq> [] then length (units c) else 16) (nat u + 1) in
        if u64_mod \<le> n * 16 then None
        else (case os_malloc (cmem c) of (ok, w) \<Rightarrow>
          if \<not> ok then Some (c\<lparr>cmem := w\<rparr>, False)
          else Some (c\<lparr>units := units c @ replicate (n - length (units c)) unit0, cmem := w\<rparr>, True))
      else Some (c, True))"

definition unit_open :: "cray \<Rightarrow> int \<Rightarrow> nat option" where
  "unit_open c u = (if u < 0 \<or> length (units c) \<le> nat u \<or> \<not> uopen (units c ! nat u) then None else Some (nat u))"

text \<open>The store of a unit sees the file as it is, whoever wrote it last, and what it does to the file
  is there for every other unit of that name.\<close>

definition unit_store :: "cray \<Rightarrow> nat \<Rightarrow> ls_store option" where
  "unit_store c i = map_option (\<lambda>s. s\<lparr>fd := files c (uname (units c ! i))\<rparr>) (ustore (units c ! i))"

definition unit_put :: "cray \<Rightarrow> nat \<Rightarrow> ls_store \<Rightarrow> cray" where
  "unit_put c i s = c\<lparr>files := (files c)(uname (units c ! i) := fd s), units := (units c)[i := (units c ! i)\<lparr>ustore := Some s\<rparr>]\<rparr>"

subsection \<open>The calls\<close>

text \<open>The name a unit is opened under: the caller's, cut to the buffer, or the Fortran default.\<close>

definition unit_name :: "int \<Rightarrow> string \<Rightarrow> int \<Rightarrow> string" where
  "unit_name u name lennam =
     (if 0 < lennam then takeWhile (\<lambda>c. c \<noteq> CHR 0x00) (take (min (nat lennam) 255) name)
      else let v = to_int32 u in
        ''fort.'' @ (if v < 0 then ''-'' else []) @ (if \<bar>v\<bar> < 10 then ''0'' else []) @ nat_digits (nat \<bar>v\<bar>))"

definition wopen :: "cray \<Rightarrow> ls_env \<Rightarrow> int \<Rightarrow> string \<Rightarrow> int \<Rightarrow> (cray \<times> int) option" where
  "wopen c e u name lennam = do {
     (c1, ok) \<leftarrow> ensure_unit c u;
     if u < 0 \<or> \<not> ok then Some (c1, -1)
     else if uopen (units c1 ! nat u) then Some (c1, 0)
     else let nm = unit_name u name lennam in
       case ls_open (files c1 nm) e (Some nm) (Some (ls_opts_init opts_zero LS_OPTS_VERSION)) of (w, res) \<Rightarrow>
         (case res of
            Inl rc \<Rightarrow> Some (c1\<lparr>files := (files c1)(nm := w), units := (units c1)[nat u := (units c1 ! nat u)\<lparr>ustore := None\<rparr>]\<rparr>, -6)
          | Inr (s, n) \<Rightarrow> Some (c1\<lparr>files := (files c1)(nm := w), units := (units c1)[nat u := \<lparr>ustore = Some s, uopen = True, uname = nm\<rparr>]\<rparr>, 0))
   }"

definition wclose :: "cray \<Rightarrow> int \<Rightarrow> (cray \<times> int) option" where
  "wclose c u =
     (case unit_open c u of
        None \<Rightarrow> Some (c, -1)
      | Some i \<Rightarrow> do {
          s \<leftarrow> unit_store c i;
          (w, gone, rc) \<leftarrow> ls_close s True;
          Some (c\<lparr>files := (files c)(uname (units c ! i) := w),
                  units := (units c)[i := (units c ! i)\<lparr>ustore := None, uopen := False\<rparr>]\<rparr>, if rc = LS_OK then 0 else -6)
        })"

text \<open>Unsigned 64-bit arithmetic on the Fortran integers.\<close>

definition byte_off :: "int \<Rightarrow> nat" where
  "byte_off addr = nat ((addr - 1) * 8 mod int u64_mod)"

definition byte_count :: "int \<Rightarrow> nat" where
  "byte_count n = nat (n * 8 mod int u64_mod)"

definition getwa :: "cray \<Rightarrow> int \<Rightarrow> int \<Rightarrow> int \<Rightarrow> (cray \<times> int \<times> byte list) option" where
  "getwa c u addr n =
     (case unit_open c u of
        None \<Rightarrow> Some (c, -1, [])
      | Some i \<Rightarrow>
          if addr \<le> 0 \<or> n < 0 then Some (c, -4, [])
          else if n = 0 then Some (c, 0, [])
          else do {
            s \<leftarrow> unit_store c i;
            (s', rc, out) \<leftarrow> ls_read s (Some CRAY_KEY) (byte_off addr) (byte_count n) True;
            Some (unit_put c i s',
                  if rc = LS_ERR_RANGE \<or> rc = LS_ERR_NOKEY then -5 else if rc \<noteq> LS_OK then -4 else 0, out)
          })"

definition putwa :: "cray \<Rightarrow> int \<Rightarrow> byte list \<Rightarrow> int \<Rightarrow> int \<Rightarrow> (cray \<times> int) option" where
  "putwa c u src addr n =
     (case unit_open c u of
        None \<Rightarrow> Some (c, -1)
      | Some i \<Rightarrow>
          if addr \<le> 0 \<or> n < 0 then Some (c, -4)
          else if n = 0 then Some (c, 0)
          else do {
            s \<leftarrow> unit_store c i;
            (s', rc) \<leftarrow> ls_write s (Some CRAY_KEY) (byte_off addr) (byte_count n) (Some src);
            Some (unit_put c i s', if rc = LS_OK then 0 else -6)
          })"

fun close_units :: "cray \<Rightarrow> cray_unit list \<Rightarrow> cray option" where
  "close_units c [] = Some c"
| "close_units c (x # xs) =
     (if uopen x then do {
        s \<leftarrow> ustore x;
        (w, gone, rc) \<leftarrow> ls_close (s\<lparr>fd := files c (uname x)\<rparr>) False;
        close_units (c\<lparr>files := (files c)(uname x := w)\<rparr>) xs
      } else close_units c xs)"

definition ls_crayio_reset :: "cray \<Rightarrow> cray option" where
  "ls_crayio_reset c = map_option (\<lambda>c. c\<lparr>units := []\<rparr>) (close_units c (units c))"

subsection \<open>The table grows\<close>

lemma double_to_bounds:
  assumes "0 < n"
  shows "want \<le> double_to n want" "n \<le> double_to n want" "n < want \<Longrightarrow> double_to n want < 2 * want"
proof -
  have "0 < n \<longrightarrow> want \<le> double_to n want \<and> n \<le> double_to n want \<and> (n < want \<longrightarrow> double_to n want < 2 * want)"
  proof (induction n want rule: double_to.induct)
    case (1 n want)
    then show ?case using double_to.simps [of n want] double_to.simps [of "n * 2" want] by (cases "n * 2 < want") auto
  qed
  then show "want \<le> double_to n want" "n \<le> double_to n want" "n < want \<Longrightarrow> double_to n want < 2 * want" using assms by blast+
qed

lemma ensure_unit_spec:
  assumes "0 \<le> u" "u < 2 ^ 58" "oom (cmem c) = []" "length (units c) < 2 ^ 58"
  shows "\<exists>c1. ensure_unit c u = Some (c1, True) \<and> nat u < length (units c1) \<and> length (units c) \<le> length (units c1)
     \<and> (\<forall>j<length (units c). units c1 ! j = units c ! j) \<and> (\<forall>j<length (units c1). length (units c) \<le> j \<longrightarrow> units c1 ! j = unit0)
     \<and> files c1 = files c"
proof (cases "length (units c) \<le> nat u")
  case True
  let ?n0 = "if units c \<noteq> [] then length (units c) else 16"
  define n where "n = double_to ?n0 (nat u + 1)"
  have n0: "0 < ?n0" by simp
  note b = double_to_bounds [OF n0, of "nat u + 1", folded n_def]
  have u: "nat u < 2 ^ 58" using assms(1,2) by simp
  have "n < 2 ^ 59 \<or> n = 16"
  proof (cases "?n0 < nat u + 1")
    case True
    then have "n < 2 * (nat u + 1)" using b(3) by blast
    then show ?thesis using u by simp
  next
    case False
    then have "n = ?n0" unfolding n_def by (subst double_to.simps) simp
    then show ?thesis using assms(4) by (simp split: if_splits)
  qed
  then have small: "n * 16 < u64_mod" by (auto simp: u64_mod_def)
  obtain ok w where m: "os_malloc (cmem c) = (ok, w)" by fastforce
  have "ok" using os_malloc_props(6) [OF m] assms(3) by blast
  then have "ensure_unit c u = Some (c\<lparr>units := units c @ replicate (n - length (units c)) unit0, cmem := w\<rparr>, True)"
    using True small m assms(1) by (simp add: ensure_unit_def Let_def n_def)
  moreover have "length (units c) \<le> n" "nat u < n" using b(1) True by linarith+
  ultimately show ?thesis by (auto simp: nth_append)
qed (use assms(1) in \<open>auto simp: ensure_unit_def\<close>)

text \<open>Opening a unit on a file that does not exist yet, with an operating system that does not fail.\<close>

lemma wopen_new:
  assumes u: "0 \<le> u" "u < 2 ^ 58" "oom (cmem c) = []" "length (units c) < 2 ^ 58" and cl: "unit_open c u = None"
    and nm: "unit_name u name lennam \<noteq> []" and w: "w = files c (unit_name u name lennam)" "quiet w" "flen w = 0" "file_wf w" "0 < e_threads e"
  shows "\<exists>c1 s. wopen c e u name lennam = Some (c1, 0) \<and> unit_open c1 u = Some (nat u) \<and> unit_store c1 (nat u) = Some s
     \<and> store_inv s \<and> store_abs s = Map.empty \<and> (\<forall>j<length (units c). j \<noteq> nat u \<longrightarrow> units c1 ! j = units c ! j)"
proof -
  let ?nm = "unit_name u name lennam" and ?o = "ls_opts_init opts_zero LS_OPTS_VERSION"
  obtain c1 where e: "ensure_unit c u = Some (c1, True)" "nat u < length (units c1)" "length (units c) \<le> length (units c1)" "files c1 = files c"
    "\<forall>j<length (units c). units c1 ! j = units c ! j" "\<forall>j<length (units c1). length (units c) \<le> j \<longrightarrow> units c1 ! j = unit0"
    using ensure_unit_spec [OF u] by blast
  have closed: "\<not> uopen (units c1 ! nat u)"
    using cl e(2,5,6) u(1) by (cases "nat u < length (units c)") (auto simp: unit_open_def unit0_def split: if_splits)
  have o: "opts_take (Some ?o) = Some ?o" "opts_refused ?o = None" "memory_budget ?o < off_max" "parallel ?o \<noteq> LS_SHARED"
    by (simp_all add: opts_take_def opts_refused_def opts_copy_def opts_size_def ls_opts_init_def opts_zero_def LS_OPTS_VERSION_def off_max_def)
  obtain t n where op: "ls_open w e (Some ?nm) (Some ?o) = (fd t, Inr (t, n))" "store_inv t" "store_abs t = Map.empty"
    using open_new [OF w(2-4) nm o(1,2,3) w(5)] o(4) by auto
  have "wopen c e u name lennam = Some (c1\<lparr>files := (files c1)(?nm := fd t), units := (units c1)[nat u := \<lparr>ustore = Some t, uopen = True, uname = ?nm\<rparr>]\<rparr>, 0)"
    using e(1,4) closed u(1) op(1) w(1) by (simp add: wopen_def Let_def)
  then show ?thesis using op e(2,3,5) u(1) by (auto simp: unit_open_def unit_store_def)
qed

subsection \<open>Words\<close>

lemma byte_off_id: "0 < addr \<Longrightarrow> (addr - 1) * 8 < int u64_mod \<Longrightarrow> byte_off addr = nat ((addr - 1) * 8)"
  and byte_count_id: "0 \<le> n \<Longrightarrow> n * 8 < int u64_mod \<Longrightarrow> byte_count n = nat (n * 8)"
  by (simp_all add: byte_off_def byte_count_def)

text \<open>The bytes of a unit, and the range of words a call is about.\<close>

definition in_words :: "int \<Rightarrow> int \<Rightarrow> bool" where
  "in_words addr n \<longleftrightarrow> 0 < addr \<and> 0 < n \<and> (addr - 1 + n) * 8 < int u64_mod"

definition w_off :: "int \<Rightarrow> nat" where "w_off addr = nat ((addr - 1) * 8)"
definition w_len :: "int \<Rightarrow> nat" where "w_len n = nat (n * 8)"

lemma in_words_bytes:
  assumes "in_words addr n"
  shows "byte_off addr = w_off addr" "byte_count n = w_len n" "w_off addr + w_len n < u64_mod" "0 < w_len n"
proof -
  have a: "0 < addr" "0 < n" "(addr - 1) * 8 + n * 8 < int u64_mod" using assms by (simp_all add: in_words_def algebra_simps)
  then show "byte_off addr = w_off addr" "byte_count n = w_len n"
    by (simp_all add: byte_off_id byte_count_id w_off_def w_len_def)
  show "w_off addr + w_len n < u64_mod" "0 < w_len n" using a by (simp_all add: w_off_def w_len_def)
qed

lemma cray_key: "ls_key_ok (Some CRAY_KEY)"
  by (simp add: ls_key_ok_def LS_KEY_MAX_def CRAY_KEY_def)

lemma putwa_spec:
  assumes u: "unit_open c u = Some i" "unit_store c i = Some s" and s: "store_inv s" "parallel (opts s) \<noteq> LS_SHARED"
    and a: "in_words addr n" "length src = w_len n" and fit: "fits s (w_off addr + w_len n)"
  shows "\<exists>s' e. putwa c u src addr n = Some (unit_put c i s', e)
     \<and> e \<in> {0, -6} \<and> write_outcome s CRAY_KEY (w_off addr) src s' (if e = 0 then LS_OK else LS_ERR_BACKEND)"
proof -
  note b = in_words_bytes [OF a(1)]
  have nf: "\<not> kv_frozen (opts s) (store_abs s) CRAY_KEY (w_off addr + length src)" using s(2) by (simp add: kv_frozen_def)
  obtain s' rc where w: "ls_write s (Some CRAY_KEY) (w_off addr) (length src) (Some src) = Some (s', rc)"
    "write_outcome s CRAY_KEY (w_off addr) src s' rc"
    using ls_write_spec [OF s(1) cray_key, of "w_off addr" src] b(3) fit nf a(2) by auto
  have g: "0 < addr" "0 < n" using a(1) by (simp_all add: in_words_def)
  have "putwa c u src addr n = Some (unit_put c i s', if rc = LS_OK then 0 else -6)"
    using u w(1) b(1,2) g a(2) by (simp add: putwa_def)
  moreover have "write_outcome s CRAY_KEY (w_off addr) src s' (if rc = LS_OK then LS_OK else LS_ERR_BACKEND)"
    using w(2) by (auto simp: write_outcome_def LS_ERR_BACKEND_def LS_OK_def)
  ultimately show ?thesis by (intro exI [of _ s'] exI [of _ "if rc = LS_OK then 0 else -6"]) auto
qed

lemma getwa_spec:
  assumes u: "unit_open c u = Some i" "unit_store c i = Some s" and s: "store_inv s" and a: "in_words addr n"
  shows "\<exists>s' e out. getwa c u addr n = Some (unit_put c i s', e, out)
     \<and> store_inv s' \<and> store_abs s' = store_abs s
     \<and> (let d = fst (kv_get (store_abs s) CRAY_KEY) in
          if length d < w_off addr + w_len n then e = -5
          else (e = 0 \<longrightarrow> out = part d (w_off addr) (w_len n)) \<and> (quiet (fd s) \<and> file_end s + 4096 \<le> off_max \<longrightarrow> e = 0))"
proof -
  note b = in_words_bytes [OF a]
  have g: "0 < addr" "0 < n" using a by (simp_all add: in_words_def)
  have lt: "w_off addr < u64_mod" "w_len n < u64_mod" using b(3) by linarith+
  obtain s' rc out where r: "ls_read s (Some CRAY_KEY) (w_off addr) (w_len n) True = Some (s', rc, out)" "store_inv s'" "store_abs s' = store_abs s"
    "case store_abs s CRAY_KEY of
          None \<Rightarrow> rc = (if u64_mod \<le> w_off addr + w_len n then LS_ERR_RANGE else LS_ERR_NOKEY)
        | Some (c, a) \<Rightarrow> if length c < w_off addr + w_len n then rc = LS_ERR_RANGE
            else (rc = LS_OK \<longrightarrow> out = part c (w_off addr) (w_len n)) \<and> (quiet (fd s) \<and> file_end s + 4096 \<le> off_max \<longrightarrow> rc = LS_OK)"
    using ls_read_spec [OF s cray_key lt] by blast
  let ?e = "if rc = LS_ERR_RANGE \<or> rc = LS_ERR_NOKEY then -5 else if rc \<noteq> LS_OK then -4 else 0 :: int"
  have "getwa c u addr n = Some (unit_put c i s', ?e, out)"
    using u r(1) b(1,2) g by (simp add: getwa_def)
  moreover have "let d = fst (kv_get (store_abs s) CRAY_KEY) in
          if length d < w_off addr + w_len n then ?e = -5
          else (?e = 0 \<longrightarrow> out = part d (w_off addr) (w_len n)) \<and> (quiet (fd s) \<and> file_end s + 4096 \<le> off_max \<longrightarrow> ?e = 0)"
  proof (cases "store_abs s CRAY_KEY")
    case None
    then show ?thesis using r(4) b(4) by simp
  next
    case (Some v)
    then show ?thesis using r(4) by (cases v) (auto simp: Let_def)
  qed
  ultimately show ?thesis using r(2,3) by blast
qed

text \<open>With 64-bit Fortran integers the multiplication by eight wraps: addresses that differ by \<open>2\<^sup>6\<^sup>1\<close> words name
  the same bytes.\<close>

lemma byte_off_aliases: "byte_off (addr + 2 ^ 61) = byte_off addr"
proof -
  have "((addr + 2 ^ 61) - 1) * 8 = (addr - 1) * 8 + int u64_mod" by (simp add: u64_mod_def)
  then show ?thesis unfolding byte_off_def by (simp only: mod_add_self2)
qed

text \<open>What a call on one unit does to the units.\<close>

lemma unit_put_props:
  assumes "unit_open c u = Some i"
  shows "unit_open (unit_put c i s) u = Some i" "unit_store (unit_put c i s) i = Some s"
    "j \<noteq> i \<Longrightarrow> units (unit_put c i s) ! j = units c ! j"
    "j \<noteq> i \<Longrightarrow> uname (units c ! j) \<noteq> uname (units c ! i) \<Longrightarrow> unit_store (unit_put c i s) j = unit_store c j"
  using assms by (auto simp: unit_open_def unit_store_def unit_put_def split: if_splits)

text \<open>C8. A unit is an array of words. On an open unit, \<open>putwa\<close> returns, changes no other unit whose file has
  another name, and fails only with code -6 (never when the system does not fail). After it succeeds, \<open>getwa\<close> of
  any range of words returns; its code is -5 where the range runs past the last word written
  so far; otherwise, if it succeeds, the result has the bytes of the new words where they were put and of
  the old ones elsewhere, with zeros in gaps, and when the system does not fail it does succeed.\<close>

theorem cray_words:
  assumes "unit_open c u = Some i" "unit_store c i = Some s" "store_inv s" "parallel (opts s) \<noteq> LS_SHARED"
    and "in_words addr n" "length src = w_len n" "fits s (w_off addr + w_len n)"
  shows "\<exists>c1 e. putwa c u src addr n = Some (c1, e) \<and> e \<in> {0, -6} \<and> (calm s (w_off addr + w_len n) \<longrightarrow> e = 0)
     \<and> (\<forall>j. j \<noteq> i \<longrightarrow> units c1 ! j = units c ! j \<and> (uname (units c ! j) \<noteq> uname (units c ! i) \<longrightarrow> unit_store c1 j = unit_store c j))
     \<and> (e = 0 \<longrightarrow> (\<forall>b m. in_words b m \<longrightarrow> (\<exists>c2 e2 out. getwa c1 u b m = Some (c2, e2, out)
          \<and> (let d = patch (fst (kv_get (store_abs s) CRAY_KEY)) (w_off addr) src in
               if length d < w_off b + w_len m then e2 = -5
               else (e2 = 0 \<longrightarrow> out = part d (w_off b) (w_len m)) \<and> (calm s (w_off addr + w_len n) \<longrightarrow> e2 = 0)))))"
proof -
  obtain s' e where p: "putwa c u src addr n = Some (unit_put c i s', e)"
    "e \<in> {0, -6}" "write_outcome s CRAY_KEY (w_off addr) src s' (if e = 0 then LS_OK else LS_ERR_BACKEND)"
    using putwa_spec [OF assms] by blast
  let ?c = "unit_put c i s'"
  note u = unit_put_props [OF assms(1), where s = s']
  have inv: "store_inv s'" and ab: "e = 0 \<longrightarrow> store_abs s' = kv_write (store_abs s) CRAY_KEY (w_off addr) src"
    and calm: "calm s (w_off addr + w_len n) \<longrightarrow> e = 0"
    and still: "calm s (w_off addr + w_len n) \<longrightarrow> quiet (fd s') \<and> file_end s' + 4096 \<le> off_max"
    using p(3) assms(6) advances_quiet [of "fd s" "fd s'"]
    by (auto simp: write_outcome_def calm_def roomy_def LS_ERR_BACKEND_def LS_OK_def split: if_splits)
  have "\<exists>c2 e2 out. getwa ?c u b m = Some (c2, e2, out)
          \<and> (let d = patch (fst (kv_get (store_abs s) CRAY_KEY)) (w_off addr) src in
               if length d < w_off b + w_len m then e2 = -5
               else (e2 = 0 \<longrightarrow> out = part d (w_off b) (w_len m)) \<and> (calm s (w_off addr + w_len n) \<longrightarrow> e2 = 0))"
    if "e = 0" "in_words b m" for b m
  proof -
    have "fst (kv_get (store_abs s') CRAY_KEY) = patch (fst (kv_get (store_abs s) CRAY_KEY)) (w_off addr) src"
      using ab that(1) by (simp add: kv_write_def)
    then show ?thesis using getwa_spec [OF u(1,2) inv that(2)] still by (auto simp: Let_def split: if_splits)
  qed
  then show ?thesis using p(1,2) calm u(3,4) by (intro exI [of _ ?c] exI [of _ e]) auto
qed

definition demo_cray :: cray where
  "demo_cray = \<lparr>units = [unit0, \<lparr>ustore = Some (demo 100), uopen = True, uname = ''u''\<rparr>], files = (\<lambda>_. os_empty []), cmem = os_empty []\<rparr>"

theorem cray_words_witness:
  "\<exists>c1 c2 c3 out. putwa demo_cray 1 [1, 2, 3, 4, 5, 6, 7, 8] 2 1 = Some (c1, 0) \<and> getwa c1 1 3 1 = Some (c2, -5, out)
     \<and> getwa c1 1 1 2 = Some (c3, 0, [0, 0, 0, 0, 0, 0, 0, 0, 1, 2, 3, 4, 5, 6, 7, 8])"
proof -
  let ?b = "[1, 2, 3, 4, 5, 6, 7, 8 :: byte]" and ?s = "demo 100"
  have u: "unit_open demo_cray 1 = Some 1" "unit_store demo_cray 1 = Some ?s"
    by (simp_all add: unit_open_def unit_store_def demo_cray_def demo_def store_init_def)
  have w: "in_words 2 1" "length ?b = w_len 1" "w_off 2 + w_len 1 = 16" "in_words 3 1" "w_off 3 + w_len 1 = 24" "in_words 1 2" "w_off 1 = 0" "w_len 2 = 16"
    by (simp_all add: in_words_def u64_mod_def w_len_def w_off_def)
  have p: "parallel (opts ?s) \<noteq> LS_SHARED" by (simp add: opts_default_def)
  have f: "fits ?s (w_off 2 + w_len 1)" "calm ?s (w_off 2 + w_len 1)" unfolding w(3) by (rule demo_room; simp)+
  have d: "patch [] (w_off 2) ?b = [0, 0, 0, 0, 0, 0, 0, 0, 1, 2, 3, 4, 5, 6, 7, 8]" (is "_ = ?d")
    by (simp add: patch_def grown_def blit_def w_off_def zeros_def numeral_eq_Suc)
  have k: "fst (kv_get (store_abs ?s) CRAY_KEY) = []" using off_max_big(1) by simp
  obtain c1 e where r: "putwa demo_cray 1 ?b 2 1 = Some (c1, e)" "calm ?s (w_off 2 + w_len 1) \<longrightarrow> e = 0"
    "e = 0 \<longrightarrow> (\<forall>b m. in_words b m \<longrightarrow> (\<exists>c2 e2 out. getwa c1 1 b m = Some (c2, e2, out)
        \<and> (if length ?d < w_off b + w_len m then e2 = -5 else (e2 = 0 \<longrightarrow> out = part ?d (w_off b) (w_len m)) \<and> (calm ?s (w_off 2 + w_len 1) \<longrightarrow> e2 = 0))))"
    using cray_words [OF u demo_inv [OF off_max_big(1)] p w(1,2) f(1)] unfolding k d Let_def by blast
  have e: "e = 0" using r(2) f(2) by blast
  note g = r(3) [THEN mp, OF e, rule_format]
  obtain c2 out where "getwa c1 1 3 1 = Some (c2, -5, out)" using g [OF w(4)] w(5) by auto
  moreover obtain c3 where "getwa c1 1 1 2 = Some (c3, 0, part ?d 0 16)" using g [OF w(6)] w(7,8) f(2) by auto
  moreover have "part ?d 0 16 = ?d" by (simp add: Prelude.part_def)
  ultimately show ?thesis using r(1) e by auto
qed

end
