(* ===== verification/Floor.thy ===== *)
theory Floor
  imports RawIO
begin

text \<open>
  The contract of \<open>src/os.h\<close> that \<open>rw_all\<close> of \<open>src/store.c\<close> relies on, stated once for every
  platform. \<open>write_loop\<close> and \<open>read_loop\<close> are the buffered loops of \<open>rw_all\<close>, with the platform's
  \<open>ls_os_pwrite\<close> and \<open>ls_os_pread\<close> as arguments; they are \<open>partial_function\<close>s, so a loop that never
  ends has the value \<open>None\<close>. The locale \<open>positional_file\<close> lists what a floor promises (positional,
  possibly short transfers, errors that are not zero, interrupts that end) and proves that the
  loops return and are all-or-nothing. This theory interprets it for POSIX, where the loops are
  those of theory \<open>RawIO\<close>; theory \<open>Windows\<close> interprets it for Win32.
\<close>

subsection \<open>The loops of \<open>rw_all\<close> over any floor\<close>

partial_function (option) write_loop ::
  "('w \<Rightarrow> byte list \<Rightarrow> nat \<Rightarrow> 'w \<times> (int + nat)) \<Rightarrow> 'w \<Rightarrow> byte list \<Rightarrow> nat \<Rightarrow> nat \<Rightarrow> nat
     \<Rightarrow> ('w \<times> int) option" where
  "write_loop pw w cp n off dn =
     (if dn < n then
        (case pw w (take (n - dn) (drop dn cp)) (add64 off dn) of
           (w', Inl e) \<Rightarrow>
             if e = errno_val EINTR then write_loop pw w' cp n off dn else Some (w', - e)
         | (w', Inr r) \<Rightarrow>
             if r = 0 then Some (w', neg_errno ENOSPC) else write_loop pw w' cp n off (dn + r))
      else Some (w, LS_OK))"

partial_function (option) read_loop ::
  "('w \<Rightarrow> nat \<Rightarrow> nat \<Rightarrow> 'w \<times> (int + byte list)) \<Rightarrow> 'w \<Rightarrow> byte list \<Rightarrow> nat \<Rightarrow> nat \<Rightarrow> nat
     \<Rightarrow> ('w \<times> int \<times> byte list) option" where
  "read_loop pr w p n off dn =
     (if dn < n then
        (case pr w (n - dn) (add64 off dn) of
           (w', Inl e) \<Rightarrow>
             if e = errno_val EINTR then read_loop pr w' p n off dn else Some (w', - e, p)
         | (w', Inr bs) \<Rightarrow>
             if bs = [] then Some (w', neg_errno EIO, p)
             else read_loop pr w' (p @ bs) n off (dn + length bs))
      else Some (w, LS_OK, p))"

subsection \<open>What a floor promises\<close>

locale positional_file =
  fixes pread :: "'w \<Rightarrow> nat \<Rightarrow> nat \<Rightarrow> 'w \<times> (int + byte list)"
    and pwrite :: "'w \<Rightarrow> byte list \<Rightarrow> nat \<Rightarrow> 'w \<times> (int + nat)"
    and content :: "'w \<Rightarrow> nat \<Rightarrow> byte"
    and extent :: "'w \<Rightarrow> nat"
    and good :: "'w \<Rightarrow> bool"
    and settled :: "'w \<Rightarrow> bool"
    and patience :: "'w \<Rightarrow> nat"
  assumes pread_frame:
    "\<lbrakk>good w; off + n < off_max; pread w n off = (w', got)\<rbrakk>
     \<Longrightarrow> good w' \<and> content w' = content w \<and> extent w' = extent w \<and> patience w' \<le> patience w
       \<and> (settled w \<longrightarrow> settled w')"
    and pread_bytes:
    "\<lbrakk>good w; off + n < off_max; pread w n off = (w', Inr bs)\<rbrakk>
     \<Longrightarrow> length bs \<le> n \<and> bs = map (content w) [off..<off + length bs]"
    and pread_error:
    "\<lbrakk>good w; off + n < off_max; pread w n off = (w', Inl e)\<rbrakk>
     \<Longrightarrow> e \<noteq> 0 \<and> (e = errno_val EINTR \<longrightarrow> patience w' < patience w)"
    and pread_settled:
    "\<lbrakk>good w; off + n < off_max; settled w; 0 < n; off + n \<le> extent w\<rbrakk>
     \<Longrightarrow> \<exists>w' bs. pread w n off = (w', Inr bs) \<and> bs \<noteq> []"
    and pwrite_frame:
    "\<lbrakk>good w; off + length bs < off_max; pwrite w bs off = (w', put)\<rbrakk>
     \<Longrightarrow> good w' \<and> (\<forall>i. i \<notin> ival off (length bs) \<longrightarrow> content w' i = content w i)
       \<and> extent w \<le> extent w' \<and> patience w' \<le> patience w \<and> (settled w \<longrightarrow> settled w')"
    and pwrite_bytes:
    "\<lbrakk>good w; off + length bs < off_max; pwrite w bs off = (w', Inr k)\<rbrakk>
     \<Longrightarrow> k \<le> length bs \<and> (\<forall>i<k. content w' (off + i) = bs ! i) \<and> (0 < k \<longrightarrow> off + k \<le> extent w')"
    and pwrite_error:
    "\<lbrakk>good w; off + length bs < off_max; pwrite w bs off = (w', Inl e)\<rbrakk>
     \<Longrightarrow> e \<noteq> 0 \<and> (e = errno_val EINTR \<longrightarrow> patience w' < patience w)"
    and pwrite_settled:
    "\<lbrakk>good w; off + length bs < off_max; settled w; bs \<noteq> []\<rbrakk>
     \<Longrightarrow> \<exists>w' k. pwrite w bs off = (w', Inr k) \<and> 0 < k"
begin

text \<open>\<open>wrote cp off w dn w' rc\<close>: from \<open>w\<close>, the bytes of \<open>cp\<close> from \<open>dn\<close> on were to be written at \<open>off + dn\<close>,
  and \<open>w'\<close>, \<open>rc\<close> is an all-or-nothing answer.\<close>

definition wrote :: "byte list \<Rightarrow> nat \<Rightarrow> 'w \<Rightarrow> nat \<Rightarrow> 'w \<Rightarrow> int \<Rightarrow> bool" where
  "wrote cp off w dn w' rc \<longleftrightarrow> good w' \<and> extent w \<le> extent w'
    \<and> (settled w \<longrightarrow> settled w' \<and> rc = LS_OK)
    \<and> (\<forall>i. i \<notin> ival (off + dn) (length cp - dn) \<longrightarrow> content w' i = content w i)
    \<and> (rc = LS_OK \<longrightarrow> (\<forall>i<length cp. dn \<le> i \<longrightarrow> content w' (off + i) = cp ! i)
                      \<and> (dn < length cp \<longrightarrow> off + length cp \<le> extent w'))"

lemma write_step:
  assumes "good w" "off + length cp < off_max" "dn < length cp"
    and "pwrite w (take (length cp - dn) (drop dn cp)) (add64 off dn) = (v, res)"
  shows "good v" "extent w \<le> extent v" "patience v \<le> patience w" "settled w \<Longrightarrow> settled v"
    and "\<forall>i. i \<notin> ival (off + dn) (length cp - dn) \<longrightarrow> content v i = content w i"
    and "res = Inl e \<Longrightarrow> e \<noteq> 0 \<and> \<not> settled w \<and> (e = errno_val EINTR \<longrightarrow> patience v < patience w)"
    and "res = Inr k \<Longrightarrow> dn + k \<le> length cp \<and> (settled w \<longrightarrow> 0 < k)
           \<and> (\<forall>i. dn \<le> i \<and> i < dn + k \<longrightarrow> content v (off + i) = cp ! i)
           \<and> (0 < k \<longrightarrow> off + (dn + k) \<le> extent v)"
proof -
  let ?bs = "take (length cp - dn) (drop dn cp)"
  have pos: "add64 off dn = off + dn"
    using assms(2,3) off_max_less by (intro add64_small) linarith
  have room: "off + dn + length ?bs < off_max" using assms(2,3) by simp
  have call: "pwrite w ?bs (off + dn) = (v, res)" using assms(4) by (simp only: pos)
  show "good v" "extent w \<le> extent v" "patience v \<le> patience w" "settled w \<Longrightarrow> settled v"
    "\<forall>i. i \<notin> ival (off + dn) (length cp - dn) \<longrightarrow> content v i = content w i"
    using pwrite_frame [OF assms(1) room call] by simp_all
  have sett: "settled w \<Longrightarrow> \<exists>k. res = Inr k \<and> 0 < k"
    using pwrite_settled [OF assms(1) room] call assms(3) by force
  show "res = Inl e \<Longrightarrow> e \<noteq> 0 \<and> \<not> settled w \<and> (e = errno_val EINTR \<longrightarrow> patience v < patience w)"
    using pwrite_error [OF assms(1) room] call sett by auto
  assume "res = Inr k"
  then have *: "k \<le> length cp - dn" "\<forall>i<k. content v (off + dn + i) = ?bs ! i"
      "0 < k \<longrightarrow> off + dn + k \<le> extent v"
    using pwrite_bytes [OF assms(1) room, of v k] call by auto
  have "content v (off + i) = cp ! i" if "dn \<le> i" "i < dn + k" for i
    using *(2) [rule_format, of "i - dn"] that *(1) by simp
  then show "dn + k \<le> length cp \<and> (settled w \<longrightarrow> 0 < k)
      \<and> (\<forall>i. dn \<le> i \<and> i < dn + k \<longrightarrow> content v (off + i) = cp ! i)
      \<and> (0 < k \<longrightarrow> off + (dn + k) \<le> extent v)"
    using * sett \<open>res = Inr k\<close> assms(3) by (simp add: add.assoc)
qed

text \<open>A call that moved \<open>k\<close> bytes (none, when it was interrupted), followed by the rest of the loop.\<close>

lemma wrote_after:
  assumes "wrote cp off v (dn + k) w' rc" "dn + k \<le> length cp" "extent w \<le> extent v"
    and "settled w \<longrightarrow> settled v"
    and "\<forall>i. i \<notin> ival (off + dn) (length cp - dn) \<longrightarrow> content v i = content w i"
    and "\<forall>i. dn \<le> i \<and> i < dn + k \<longrightarrow> content v (off + i) = cp ! i"
    and "0 < k \<longrightarrow> off + (dn + k) \<le> extent v"
  shows "wrote cp off w dn w' rc"
proof -
  have out: "\<forall>i. i \<notin> ival (off + (dn + k)) (length cp - (dn + k)) \<longrightarrow> content w' i = content v i"
    using assms(1) by (simp add: wrote_def)
  have "content w' i = content w i" if "i \<notin> ival (off + dn) (length cp - dn)" for i
    using out assms(2,5) that by simp
  moreover have "content w' (off + i) = cp ! i" if "rc = LS_OK" "i < length cp" "dn \<le> i" for i
    using assms(1,6) out that by (cases "dn + k \<le> i") (auto simp: wrote_def)
  moreover have "off + length cp \<le> extent w'" if "rc = LS_OK" "dn < length cp"
    using assms(1,2,7) that by (cases "dn + k < length cp") (auto simp: wrote_def)
  ultimately show ?thesis using assms(1,3,4) by (auto simp: wrote_def simp del: ival_iff)
qed

text \<open>The writing loop returns, and its answer is all-or-nothing.\<close>

lemma write_loop_returns:
  assumes "good w" "off + length cp < off_max" "dn \<le> length cp"
  shows "\<exists>w' rc. write_loop pwrite w cp (length cp) off dn = Some (w', rc) \<and> wrote cp off w dn w' rc"
  using assms(1,3)
proof (induction "(w, dn)" arbitrary: w dn
    rule: wf_induct_rule [OF wf_measures [of "[\<lambda>(w, dn). patience w, \<lambda>(w, dn). length cp - dn]"]])
  case (1 w dn)
  show ?case
  proof (cases "dn < length cp")
    case False
    then show ?thesis
      using "1.prems" by (subst write_loop.simps) (simp add: wrote_def)
  next
    case True
    obtain v res where call: "pwrite w (take (length cp - dn) (drop dn cp)) (add64 off dn) = (v, res)"
      by fastforce
    note st = write_step [OF "1.prems"(1) assms(2) True call]
    show ?thesis
    proof (cases res)
      case (Inl e)
      show ?thesis
      proof (cases "e = errno_val EINTR")
        case intr: True
        have "\<exists>w' rc. write_loop pwrite v cp (length cp) off dn = Some (w', rc)
            \<and> wrote cp off v dn w' rc"
          by (rule "1.hyps") (use st(1) st(6) [OF Inl] intr "1.prems"(2) in auto)
        moreover have "write_loop pwrite w cp (length cp) off dn = write_loop pwrite v cp (length cp) off dn"
          using True call Inl intr by (subst write_loop.simps) simp
        ultimately show ?thesis
          using wrote_after [of cp off v dn 0] st "1.prems"(2) by fastforce
      next
        case False
        then have "write_loop pwrite w cp (length cp) off dn = Some (v, - e)"
          using True call Inl by (subst write_loop.simps) simp
        then show ?thesis using st(1,2,5) st(6) [OF Inl] by (simp add: wrote_def LS_OK_def)
      qed
    next
      case (Inr k)
      note sk = st(7) [OF Inr]
      show ?thesis
      proof (cases "k = 0")
        case True
        then have "write_loop pwrite w cp (length cp) off dn = Some (v, neg_errno ENOSPC)"
          using \<open>dn < length cp\<close> call Inr by (subst write_loop.simps) simp
        then show ?thesis using st(1,2,5) sk True by (simp add: wrote_def)
      next
        case False
        have "\<exists>w' rc. write_loop pwrite v cp (length cp) off (dn + k) = Some (w', rc)
            \<and> wrote cp off v (dn + k) w' rc"
          by (rule "1.hyps") (use st(1,3) sk False True in auto)
        moreover have "write_loop pwrite w cp (length cp) off dn
            = write_loop pwrite v cp (length cp) off (dn + k)"
          using True call Inr False by (subst write_loop.simps) simp
        ultimately show ?thesis
          using wrote_after [of cp off v dn k _ _ w] st(2,4,5) sk by metis
      qed
    qed
  qed
qed

text \<open>\<open>fetched off n w dn w' rc bs\<close>: \<open>bs\<close> is what a read of the range from \<open>dn\<close> on delivered.\<close>

definition fetched :: "nat \<Rightarrow> nat \<Rightarrow> 'w \<Rightarrow> nat \<Rightarrow> 'w \<Rightarrow> int \<Rightarrow> byte list \<Rightarrow> bool" where
  "fetched off n w dn w' rc bs \<longleftrightarrow> good w' \<and> content w' = content w \<and> extent w' = extent w
    \<and> (settled w \<longrightarrow> settled w' \<and> (off + n \<le> extent w \<longrightarrow> rc = LS_OK))
    \<and> (rc = LS_OK \<longrightarrow> bs = map (content w) [off + dn..<off + n])"

lemma read_step:
  assumes "good w" "off + n < off_max" "dn < n" "pread w (n - dn) (add64 off dn) = (v, res)"
  shows "good v" "content v = content w" "extent v = extent w" "patience v \<le> patience w"
    and "settled w \<Longrightarrow> settled v"
    and "res = Inl e \<Longrightarrow> e \<noteq> 0 \<and> \<not> (settled w \<and> off + n \<le> extent w)
           \<and> (e = errno_val EINTR \<longrightarrow> patience v < patience w)"
    and "res = Inr bs \<Longrightarrow> dn + length bs \<le> n \<and> (settled w \<and> off + n \<le> extent w \<longrightarrow> bs \<noteq> [])
           \<and> bs = map (content w) [off + dn..<off + (dn + length bs)]"
proof -
  have pos: "add64 off dn = off + dn"
    using assms(2,3) off_max_less by (intro add64_small) linarith
  have room: "off + dn + (n - dn) < off_max" using assms(2,3) by simp
  have call: "pread w (n - dn) (off + dn) = (v, res)" using assms(4) by (simp only: pos)
  show "good v" "content v = content w" "extent v = extent w" "patience v \<le> patience w"
    "settled w \<Longrightarrow> settled v"
    using pread_frame [OF assms(1) room call] by simp_all
  have sett: "settled w \<Longrightarrow> off + n \<le> extent w \<Longrightarrow> \<exists>bs. res = Inr bs \<and> bs \<noteq> []"
    using pread_settled [OF assms(1) room] call assms(3) by force
  show "res = Inl e \<Longrightarrow> e \<noteq> 0 \<and> \<not> (settled w \<and> off + n \<le> extent w)
      \<and> (e = errno_val EINTR \<longrightarrow> patience v < patience w)"
    using pread_error [OF assms(1) room] call sett by auto
  assume "res = Inr bs"
  then show "dn + length bs \<le> n \<and> (settled w \<and> off + n \<le> extent w \<longrightarrow> bs \<noteq> [])
      \<and> bs = map (content w) [off + dn..<off + (dn + length bs)]"
    using pread_bytes [OF assms(1) room, of v bs] call sett assms(3) by (auto simp: add.assoc)
qed

lemma fetched_after:
  assumes "fetched off n v (dn + length b1) w' rc b2" "dn + length b1 \<le> n"
    and "content v = content w" "extent v = extent w" "settled w \<longrightarrow> settled v"
    and "b1 = map (content w) [off + dn..<off + (dn + length b1)]"
  shows "fetched off n w dn w' rc (b1 @ b2)"
proof -
  let ?m = "off + (dn + length b1)"
  have "[off + dn..<off + n] = [off + dn..<?m] @ [?m..<off + n]"
    using upt_add_eq_append [of "off + dn" ?m "n - (dn + length b1)"] assms(2) by simp
  then have "map (content w) [off + dn..<off + n] = b1 @ map (content w) [?m..<off + n]"
    using assms(6) by (metis map_append)
  then show ?thesis using assms(1,3-5) by (auto simp: fetched_def)
qed

lemma read_loop_returns:
  assumes "good w" "off + n < off_max" "dn \<le> n"
  shows "\<exists>w' rc bs. read_loop pread w p n off dn = Some (w', rc, p @ bs)
    \<and> fetched off n w dn w' rc bs"
  using assms(1,3)
proof (induction "(w, dn)" arbitrary: w dn p
    rule: wf_induct_rule [OF wf_measures [of "[\<lambda>(w, dn). patience w, \<lambda>(w, dn). n - dn]"]])
  case (1 w dn)
  show ?case
  proof (cases "dn < n")
    case False
    then show ?thesis
      using "1.prems" by (subst read_loop.simps) (simp add: fetched_def)
  next
    case True
    obtain v res where call: "pread w (n - dn) (add64 off dn) = (v, res)" by fastforce
    note st = read_step [OF "1.prems"(1) assms(2) True call]
    show ?thesis
    proof (cases res)
      case (Inl e)
      show ?thesis
      proof (cases "e = errno_val EINTR")
        case intr: True
        have "\<exists>w' rc bs. read_loop pread v p n off dn = Some (w', rc, p @ bs)
            \<and> fetched off n v dn w' rc bs"
          by (rule "1.hyps") (use st(1) st(6) [OF Inl] intr "1.prems"(2) in auto)
        moreover have "read_loop pread w p n off dn = read_loop pread v p n off dn"
          using True call Inl intr by (subst read_loop.simps) simp
        ultimately show ?thesis
          using fetched_after [of off n v dn "[]"] st(2,3,5) "1.prems"(2) by fastforce
      next
        case False
        then have "read_loop pread w p n off dn = Some (v, - e, p @ [])"
          using True call Inl by (subst read_loop.simps) simp
        then show ?thesis using st(1,2,3,5) st(6) [OF Inl] unfolding fetched_def LS_OK_def
          by (metis neg_equal_0_iff_equal)
      qed
    next
      case (Inr bs)
      note sk = st(7) [OF Inr]
      show ?thesis
      proof (cases "bs = []")
        case True
        then have "read_loop pread w p n off dn = Some (v, neg_errno EIO, p @ [])"
          using \<open>dn < n\<close> call Inr by (subst read_loop.simps) simp
        then show ?thesis using st(1,2,3,5) sk True unfolding fetched_def
          by (metis neg_errno_neq_OK)
      next
        case False
        have "\<exists>w' rc b2. read_loop pread v (p @ bs) n off (dn + length bs) = Some (w', rc, (p @ bs) @ b2)
            \<and> fetched off n v (dn + length bs) w' rc b2"
          by (rule "1.hyps") (use st(1,4) sk False True in \<open>auto simp: diff_less_mono2\<close>)
        moreover have "read_loop pread w p n off dn = read_loop pread v (p @ bs) n off (dn + length bs)"
          using True call Inr False by (subst read_loop.simps) simp
        ultimately show ?thesis
          using fetched_after [of off n v dn bs _ _ _ w] st(2,3,5) sk by (metis append.assoc)
      qed
    qed
  qed
qed

text \<open>What was written is read back, whatever other calls did to other parts of the file.\<close>

lemma read_back_written:
  assumes "good w" "off + length cp < off_max" "\<forall>i<length cp. content w (off + i) = cp ! i"
  shows "\<exists>w' rc bs. read_loop pread w [] (length cp) off 0 = Some (w', rc, bs) \<and> good w'
    \<and> content w' = content w \<and> (rc = LS_OK \<longrightarrow> bs = cp)
    \<and> (settled w \<and> off + length cp \<le> extent w \<longrightarrow> rc = LS_OK)"
proof -
  have "map (content w) [off..<off + length cp] = cp"
    using assms(3) by (intro nth_equalityI) auto
  then show ?thesis
    using read_loop_returns [OF assms(1,2), of 0 "[]"] by (fastforce simp: fetched_def)
qed

end

subsection \<open>POSIX keeps the contract\<close>

text \<open>\<open>ls_os_pread\<close> and \<open>ls_os_pwrite\<close> of theory \<open>Os\<close>, with \<open>errno\<close> as the number that C returns.\<close>

definition posix_pread :: "os \<Rightarrow> nat \<Rightarrow> nat \<Rightarrow> os \<times> (int + byte list)" where
  "posix_pread w n off = apsnd (map_sum errno_val id) (ls_os_pread w n off)"

definition posix_pwrite :: "os \<Rightarrow> byte list \<Rightarrow> nat \<Rightarrow> os \<times> (int + nat)" where
  "posix_pwrite w bs off = apsnd (map_sum errno_val id) (ls_os_pwrite w bs off)"

lemma errno_val_EINTR: "errno_val e = errno_val EINTR \<longleftrightarrow> e = EINTR"
  by (cases e) auto

lemma errno_val_neq_0 [simp]: "errno_val e \<noteq> 0"
  by (cases e) auto

lemma posix_pwrite_call:
  "ls_os_pwrite w bs off = (v, Inl e) \<Longrightarrow> posix_pwrite w bs off = (v, Inl (errno_val e))"
  "ls_os_pwrite w bs off = (v, Inr k) \<Longrightarrow> posix_pwrite w bs off = (v, Inr k)"
  by (simp_all add: posix_pwrite_def)

lemma posix_pread_call:
  "ls_os_pread w n off = (v, Inl e) \<Longrightarrow> posix_pread w n off = (v, Inl (errno_val e))"
  "ls_os_pread w n off = (v, Inr bs) \<Longrightarrow> posix_pread w n off = (v, Inr bs)"
  by (simp_all add: posix_pread_def)

text \<open>The loops of theory \<open>RawIO\<close> are the general ones over this floor.\<close>

lemma write_loop_posix:
  "write_loop posix_pwrite w cp n off dn = Some (plain_write w cp n off dn)"
proof (induction w cp n off dn rule: plain_write.induct)
  case (1 w cp n off dn)
  obtain v res where "ls_os_pwrite w (take (n - dn) (drop dn cp)) (add64 off dn) = (v, res)"
    by fastforce
  then show ?case
    using "1.IH" [of v res]
    by (cases res; subst write_loop.simps, subst plain_write.simps)
       (auto simp: posix_pwrite_call errno_val_EINTR neg_errno_def simp del: errno_val.simps)
qed

lemma read_loop_posix:
  "read_loop posix_pread w p n off dn = Some (plain_read w p n off dn)"
proof (induction w p n off dn rule: plain_read.induct)
  case (1 w p n off dn)
  obtain v res where "ls_os_pread w (n - dn) (add64 off dn) = (v, res)"
    by fastforce
  then show ?case
    using "1.IH" [of v res]
    by (cases res; subst read_loop.simps, subst plain_read.simps)
       (auto simp: posix_pread_call errno_val_EINTR neg_errno_def simp del: errno_val.simps)
qed

lemma posix_pread_cases:
  assumes "posix_pread w n off = (w', got)"
  obtains e where "ls_os_pread w n off = (w', Inl e)" "got = Inl (errno_val e)"
  | bs where "ls_os_pread w n off = (w', Inr bs)" "got = Inr bs"
  using assms by (cases "ls_os_pread w n off"; cases "snd (ls_os_pread w n off)")
    (auto simp: posix_pread_def)

lemma posix_pwrite_cases:
  assumes "posix_pwrite w bs off = (w', put)"
  obtains e where "ls_os_pwrite w bs off = (w', Inl e)" "put = Inl (errno_val e)"
  | k where "ls_os_pwrite w bs off = (w', Inr k)" "put = Inr k"
  using assms by (cases "ls_os_pwrite w bs off"; cases "snd (ls_os_pwrite w bs off)")
    (auto simp: posix_pwrite_def)

lemma progressed_shrinks:
  assumes "progressed w w'"
  shows "length (sys w') \<le> length (sys w)" "sys w = [] \<Longrightarrow> sys w' = []"
  using advances_length [OF progressed_advances [OF assms]] by auto

lemma posix_pread_laws:
  assumes "file_wf w" "off + n < off_max" "posix_pread w n off = (w', got)"
  shows "file_wf w' \<and> fbytes w' = fbytes w \<and> flen w' = flen w \<and> progressed w w'"
    and "got = Inr bs \<Longrightarrow> length bs \<le> n \<and> bs = map (fbytes w) [off..<off + length bs]
           \<and> (sys w = [] \<longrightarrow> length bs = min n (flen w - off))"
    and "got = Inl e \<Longrightarrow> sys w \<noteq> [] \<and> e \<noteq> 0"
proof -
  obtain res where call: "ls_os_pread w n off = (w', res)" "got = map_sum errno_val id res"
    using assms(3) by (cases rule: posix_pread_cases) auto
  note sp = ls_os_pread_spec [OF call(1)]
  show "file_wf w' \<and> fbytes w' = fbytes w \<and> flen w' = flen w \<and> progressed w w'"
    using sp assms(1) file_wf_cong by blast
  show "got = Inr bs \<Longrightarrow> length bs \<le> n \<and> bs = map (fbytes w) [off..<off + length bs]
      \<and> (sys w = [] \<longrightarrow> length bs = min n (flen w - off))"
    using sp(4) call(2) by (cases res) (auto simp: file_read_def)
  show "got = Inl e \<Longrightarrow> sys w \<noteq> [] \<and> e \<noteq> 0"
    using call assms(2)
    by (cases res) (auto simp: ls_os_pread_def next_sys_def split: list.splits sysres.splits)
qed

lemma posix_pwrite_laws:
  assumes "file_wf w" "off + length bs < off_max" "posix_pwrite w bs off = (w', put)"
  shows "file_frame w w' (ival off (length bs)) \<and> progressed w w'"
    and "put = Inr k \<Longrightarrow> k \<le> length bs \<and> (\<forall>i<k. fbytes w' (off + i) = bs ! i)
           \<and> (0 < k \<longrightarrow> off + k \<le> flen w') \<and> (sys w = [] \<longrightarrow> k = length bs)"
    and "put = Inl e \<Longrightarrow> sys w \<noteq> [] \<and> e \<noteq> 0"
proof -
  obtain res where call: "ls_os_pwrite w bs off = (w', res)" "put = map_sum errno_val id res"
    using assms(3) by (cases rule: posix_pwrite_cases) auto
  note sp = ls_os_pwrite_spec [OF call(1)] and fr = ls_os_pwrite_frame [OF call(1) assms(1)]
  have "ival off (case res of Inl _ \<Rightarrow> 0 | Inr k \<Rightarrow> k) \<subseteq> ival off (length bs)"
    using sp(2) by (cases res) auto
  then show "file_frame w w' (ival off (length bs)) \<and> progressed w w'"
    using sp(1) file_frame_mono [OF fr(1)] by blast
  show "put = Inr k \<Longrightarrow> k \<le> length bs \<and> (\<forall>i<k. fbytes w' (off + i) = bs ! i)
      \<and> (0 < k \<longrightarrow> off + k \<le> flen w') \<and> (sys w = [] \<longrightarrow> k = length bs)"
    using sp(2) fr(2) [of k] call(2) by (cases res) auto
  show "put = Inl e \<Longrightarrow> sys w \<noteq> [] \<and> e \<noteq> 0"
    using call assms(2)
    by (cases res) (auto simp: ls_os_pwrite_def next_sys_def Let_def split: list.splits sysres.splits)
qed

interpretation pxf: positional_file posix_pread posix_pwrite fbytes flen file_wf
  "\<lambda>w. sys w = []" "\<lambda>w. length (sys w)"
proof (unfold_locales, goal_cases)
  case (1 w off n w' got)
  then show ?case using posix_pread_laws(1) progressed_shrinks by blast
next
  case (2 w off n w' bs)
  then show ?case using posix_pread_laws(2) by blast
next
  case (3 w off n w' e)
  then show ?case using posix_pread_laws(1,3) by (metis progressed_def)
next
  case (4 w off n)
  then show ?case
    using posix_pread_laws(2,3) [OF 4(1,2)]
    by (cases "posix_pread w n off"; cases "snd (posix_pread w n off)") fastforce+
next
  case (5 w off bs w' put)
  then show ?case
    using posix_pwrite_laws(1) [OF 5] progressed_shrinks by (auto simp: file_frame_def)
next
  case (6 w off bs w' k)
  then show ?case using posix_pwrite_laws(2) by blast
next
  case (7 w off bs w' e)
  then show ?case using posix_pwrite_laws(1,3) by (metis progressed_def)
next
  case (8 w off bs)
  then show ?case
    using posix_pwrite_laws(2,3) [OF 8(1,2)]
    by (cases "posix_pwrite w bs off"; cases "snd (posix_pwrite w bs off)") fastforce+
qed

text \<open>So the buffered loop of \<open>RawIO\<close> has the platform-independent specification.\<close>

lemma plain_write_floor:
  assumes "file_wf w" "off + length cp < off_max" "plain_write w cp (length cp) off 0 = (w', rc)"
  shows "pxf.wrote cp off w 0 w' rc"
  using pxf.write_loop_returns [OF assms(1,2), of 0] assms(3) by (simp add: write_loop_posix)

lemma plain_read_floor:
  assumes "file_wf w" "off + n < off_max" "plain_read w [] n off 0 = (w', rc, bs)"
  shows "pxf.fetched off n w 0 w' rc bs"
  using pxf.read_loop_returns [OF assms(1,2), of 0 "[]"] assms(3) by (simp add: read_loop_posix)

subsection \<open>The system's text for an error\<close>

text \<open>\<open>strerror_r\<close> of the GNU library is an argument: \<open>Inl m\<close> when the text was left in the buffer, \<open>Inr\<close> of another
  string, or of a null pointer, when it was not. \<open>None\<close>: a buffer of length zero.\<close>

definition ls_os_strerror :: "(int \<Rightarrow> nat \<Rightarrow> string + string option) \<Rightarrow> int \<Rightarrow> nat \<Rightarrow> string option" where
  "ls_os_strerror strerror_r errnum buflen =
     (if buflen = 0 then None
      else Some (take (buflen - 1)
        (case strerror_r errnum buflen of
           Inl m \<Rightarrow> m
         | Inr p \<Rightarrow> snprintf buflen (case p of Some m \<Rightarrow> m | None \<Rightarrow> ''unknown error''))))"

text \<open>As \<open>os.h\<close> has it: the result always fits the buffer with its NUL, and there is always a text when the
  library has one.\<close>

lemma os_strerror_something:
  assumes "2 \<le> buflen" "\<And>m. strerror_r errnum buflen = Inl m \<or> strerror_r errnum buflen = Inr (Some m) \<Longrightarrow> m \<noteq> []"
  shows "\<exists>m. ls_os_strerror strerror_r errnum buflen = Some m \<and> m \<noteq> [] \<and> length m < buflen"
  using assms by (auto simp: ls_os_strerror_def snprintf_def take_eq_Nil split: sum.splits option.splits)

end
