(* ===== verification/Windows.thy ===== *)
theory Windows
  imports Floor Persist "HOL-Library.Multiset"
begin

text \<open>
  The platform floor on Windows (\<open>src/os_win32.c\<close>). The Win32 and CRT calls it makes are fields
  of a record \<open>'f win32\<close> over a state \<open>'f\<close> of the system; \<open>win_laws\<close> states what their
  documentation says of them, in terms of the bytes and the length of the file behind a
  handle (\<open>'f win_view\<close>). A \<open>DWORD\<close> is a \<open>32 word\<close> and an offset crosses the interface as two of them. A
  call that fails has the value \<open>Inl\<close>: of the Win32 code where the code asks \<open>GetLastError\<close>, of
  \<open>errno\<close> where the CRT sets it. \<open>errno\<close> is an \<open>int\<close> here, because the translation can set it to 0.
\<close>

unbundle bit_operations_syntax

subsection \<open>The system calls\<close>

type_synonym dword = "32 word"

record 'f win32 =
  get_osfhandle :: "'f \<Rightarrow> int \<Rightarrow> int"
  sopen_s :: "'f \<Rightarrow> string \<Rightarrow> 'f \<times> (int + int)"
  crt_close :: "'f \<Rightarrow> int \<Rightarrow> 'f \<times> (int + unit)"
  ReadFile :: "'f \<Rightarrow> int \<Rightarrow> dword \<Rightarrow> dword \<Rightarrow> dword \<Rightarrow> 'f \<times> (dword + byte list)"
  WriteFile :: "'f \<Rightarrow> int \<Rightarrow> byte list \<Rightarrow> dword \<Rightarrow> dword \<Rightarrow> dword \<Rightarrow> 'f \<times> (dword + dword)"
  chsize_s :: "'f \<Rightarrow> int \<Rightarrow> int \<Rightarrow> 'f \<times> int"
  FlushFileBuffers :: "'f \<Rightarrow> int \<Rightarrow> 'f \<times> (dword + unit)"
  GetFileSizeEx :: "'f \<Rightarrow> int \<Rightarrow> 'f \<times> (dword + int)"
  stat64 :: "'f \<Rightarrow> string \<Rightarrow> 'f \<times> (int + int)"
  crt_unlink :: "'f \<Rightarrow> string \<Rightarrow> 'f \<times> (int + unit)"
  crt_getpid :: "'f \<Rightarrow> int"
  GetTempPathA :: "'f \<Rightarrow> dword \<Rightarrow> dword \<times> string"
  strerror_s :: "nat \<Rightarrow> int \<Rightarrow> string option"

definition ERROR_SUCCESS :: dword where "ERROR_SUCCESS = 0"
definition ERROR_FILE_NOT_FOUND :: dword where "ERROR_FILE_NOT_FOUND = 2"
definition ERROR_PATH_NOT_FOUND :: dword where "ERROR_PATH_NOT_FOUND = 3"
definition ERROR_ACCESS_DENIED :: dword where "ERROR_ACCESS_DENIED = 5"
definition ERROR_INVALID_HANDLE :: dword where "ERROR_INVALID_HANDLE = 6"
definition ERROR_NOT_ENOUGH_MEMORY :: dword where "ERROR_NOT_ENOUGH_MEMORY = 8"
definition ERROR_OUTOFMEMORY :: dword where "ERROR_OUTOFMEMORY = 14"
definition ERROR_SHARING_VIOLATION :: dword where "ERROR_SHARING_VIOLATION = 32"
definition ERROR_HANDLE_EOF :: dword where "ERROR_HANDLE_EOF = 38"
definition ERROR_FILE_EXISTS :: dword where "ERROR_FILE_EXISTS = 80"
definition ERROR_INVALID_PARAMETER :: dword where "ERROR_INVALID_PARAMETER = 87"
definition ERROR_DISK_FULL :: dword where "ERROR_DISK_FULL = 112"
definition ERROR_ALREADY_EXISTS :: dword where "ERROR_ALREADY_EXISTS = 183"

lemmas win32_codes = ERROR_SUCCESS_def ERROR_FILE_NOT_FOUND_def ERROR_PATH_NOT_FOUND_def
  ERROR_ACCESS_DENIED_def ERROR_INVALID_HANDLE_def ERROR_NOT_ENOUGH_MEMORY_def
  ERROR_OUTOFMEMORY_def ERROR_SHARING_VIOLATION_def ERROR_HANDLE_EOF_def ERROR_FILE_EXISTS_def
  ERROR_INVALID_PARAMETER_def ERROR_DISK_FULL_def ERROR_ALREADY_EXISTS_def

text \<open>Two \<open>errno\<close> values of the Windows CRT that the other theories have no use for.\<close>

definition EEXIST_crt :: int where "EEXIST_crt = 17"
definition ENOSYS_crt :: int where "ENOSYS_crt = 40"

subsection \<open>The floor's operations\<close>

definition set_errno_from_win32 :: "dword \<Rightarrow> int" where
  "set_errno_from_win32 e =
     (if e = ERROR_SUCCESS then 0
      else if e = ERROR_FILE_NOT_FOUND \<or> e = ERROR_PATH_NOT_FOUND then errno_val ENOENT
      else if e = ERROR_ACCESS_DENIED \<or> e = ERROR_SHARING_VIOLATION then errno_val EACCES
      else if e = ERROR_FILE_EXISTS \<or> e = ERROR_ALREADY_EXISTS then EEXIST_crt
      else if e = ERROR_NOT_ENOUGH_MEMORY \<or> e = ERROR_OUTOFMEMORY then errno_val ENOMEM
      else if e = ERROR_DISK_FULL then errno_val ENOSPC
      else if e = ERROR_INVALID_HANDLE then errno_val EBADF
      else if e = ERROR_INVALID_PARAMETER then errno_val EINVAL
      else if e = ERROR_HANDLE_EOF then 0
      else errno_val EIO)"

text \<open>\<open>None\<close> is \<open>INVALID_HANDLE_VALUE\<close>.\<close>

definition handle_of :: "'f win32 \<Rightarrow> 'f \<Rightarrow> int \<Rightarrow> int option" where
  "handle_of W f d = (let h = get_osfhandle W f d in if h = -1 then None else Some h)"

text \<open>The descriptor, and whether uncached I/O was granted: never, whatever was wanted.\<close>

definition win_open_rw :: "'f win32 \<Rightarrow> 'f \<Rightarrow> string \<Rightarrow> bool \<Rightarrow> 'f \<times> (int + int) \<times> bool" where
  "win_open_rw W f nm want_direct = (case sopen_s W f nm of (f', r) \<Rightarrow> (f', r, False))"

definition win_close :: "'f win32 \<Rightarrow> 'f \<Rightarrow> int \<Rightarrow> 'f \<times> (int + unit)" where
  "win_close W f d = crt_close W f d"

text \<open>The length of one transfer, and the two halves of its offset.\<close>

definition want_of :: "nat \<Rightarrow> dword" where
  "want_of n = (if 0xFFFFFFFF < n then 0xFFFFFFFF else word_of_nat n)"

definition ov_offset :: "nat \<Rightarrow> dword" where
  "ov_offset off = ucast (word_of_nat off AND (0xFFFFFFFF :: 64 word))"

definition ov_offset_high :: "nat \<Rightarrow> dword" where
  "ov_offset_high off = ucast (drop_bit 32 (word_of_nat off :: 64 word))"

definition win_pread :: "'f win32 \<Rightarrow> int \<Rightarrow> 'f \<Rightarrow> nat \<Rightarrow> nat \<Rightarrow> 'f \<times> (int + byte list)" where
  "win_pread W d f n off =
     (case handle_of W f d of
        None \<Rightarrow> (f, Inl (errno_val EBADF))
      | Some h \<Rightarrow>
          (case ReadFile W f h (want_of n) (ov_offset off) (ov_offset_high off) of
             (f', Inl e) \<Rightarrow>
               if e = ERROR_HANDLE_EOF then (f', Inr []) else (f', Inl (set_errno_from_win32 e))
           | (f', Inr bs) \<Rightarrow> (f', Inr bs)))"

definition win_pwrite :: "'f win32 \<Rightarrow> int \<Rightarrow> 'f \<Rightarrow> byte list \<Rightarrow> nat \<Rightarrow> 'f \<times> (int + nat)" where
  "win_pwrite W d f buf off =
     (case handle_of W f d of
        None \<Rightarrow> (f, Inl (errno_val EBADF))
      | Some h \<Rightarrow>
          (case WriteFile W f h buf (want_of (length buf)) (ov_offset off) (ov_offset_high off) of
             (f', Inl e) \<Rightarrow> (f', Inl (set_errno_from_win32 e))
           | (f', Inr k) \<Rightarrow> (f', Inr (unat k))))"

text \<open>The cast \<open>(__int64) len\<close>.\<close>

definition win_ftruncate :: "'f win32 \<Rightarrow> 'f \<Rightarrow> int \<Rightarrow> nat \<Rightarrow> 'f \<times> (int + unit)" where
  "win_ftruncate W f d len =
     (case chsize_s W f d (sint (word_of_nat len :: 64 word)) of
        (f', e) \<Rightarrow> if e \<noteq> 0 then (f', Inl e) else (f', Inr ()))"

definition win_fsync :: "'f win32 \<Rightarrow> 'f \<Rightarrow> int \<Rightarrow> 'f \<times> (int + unit)" where
  "win_fsync W f d =
     (case handle_of W f d of
        None \<Rightarrow> (f, Inl (errno_val EBADF))
      | Some h \<Rightarrow>
          (case FlushFileBuffers W f h of
             (f', Inl e) \<Rightarrow> (f', Inl (set_errno_from_win32 e))
           | (f', Inr _) \<Rightarrow> (f', Inr ())))"

definition win_file_size :: "'f win32 \<Rightarrow> 'f \<Rightarrow> int \<Rightarrow> 'f \<times> (int + nat)" where
  "win_file_size W f d =
     (case handle_of W f d of
        None \<Rightarrow> (f, Inl (errno_val EBADF))
      | Some h \<Rightarrow>
          (case GetFileSizeEx W f h of
             (f', Inl e) \<Rightarrow> (f', Inl (set_errno_from_win32 e))
           | (f', Inr q) \<Rightarrow> (f', Inr (nat (q mod 2 ^ 64)))))"

definition win_path_size :: "'f win32 \<Rightarrow> 'f \<Rightarrow> string \<Rightarrow> 'f \<times> (int + nat)" where
  "win_path_size W f nm =
     (case stat64 W f nm of
        (f', Inl e) \<Rightarrow> (f', Inl e)
      | (f', Inr sz) \<Rightarrow> (f', Inr (nat (sz mod 2 ^ 64))))"

definition win_unlink :: "'f win32 \<Rightarrow> 'f \<Rightarrow> string \<Rightarrow> 'f \<times> (int + unit)" where
  "win_unlink W f nm = crt_unlink W f nm"

definition win_getpid :: "'f win32 \<Rightarrow> 'f \<Rightarrow> int" where
  "win_getpid W f = crt_getpid W f"

definition win_zero_range :: "'f \<Rightarrow> int \<Rightarrow> nat \<Rightarrow> nat \<Rightarrow> 'f \<times> (int + unit)" where
  "win_zero_range f d off len = (f, Inl ENOSYS_crt)"

text \<open>The loop that cuts trailing separators off: the new length of the string in the buffer.\<close>

fun cut_seps :: "string \<Rightarrow> nat \<Rightarrow> nat" where
  "cut_seps buf 0 = 0"
| "cut_seps buf (Suc n) =
     (if buf ! n = CHR 0x5C \<or> buf ! n = CHR ''/'' then cut_seps buf n else Suc n)"

text \<open>\<open>None\<close>: a buffer of length zero, which is left alone.\<close>

definition win_tmpdir :: "'f win32 \<Rightarrow> 'f \<Rightarrow> nat \<Rightarrow> string option" where
  "win_tmpdir W f buflen =
     (if buflen = 0 then None
      else case GetTempPathA W f (word_of_nat buflen) of (n, buf) \<Rightarrow>
        if n = 0 \<or> buflen \<le> unat n then Some (snprintf buflen ''.'')
        else let m = cut_seps buf (unat n) in
          if m = 0 then Some (snprintf buflen ''.'') else Some (take m buf))"

definition win_strerror :: "'f win32 \<Rightarrow> int \<Rightarrow> nat \<Rightarrow> string option" where
  "win_strerror W errnum buflen =
     (if buflen = 0 then None
      else case strerror_s W buflen errnum of
          None \<Rightarrow> Some (snprintf buflen (''errno '' @ int_digits errnum))
        | Some m \<Rightarrow> Some (take (buflen - 1) m))"

text \<open>\<open>ls_pwrite_all\<close> and \<open>ls_pread_all\<close> on this floor: uncached I/O is never granted, so \<open>rw_all\<close> is its
  buffered loop.\<close>

definition win_pwrite_all :: "'f win32 \<Rightarrow> int \<Rightarrow> 'f \<Rightarrow> byte list \<Rightarrow> nat \<Rightarrow> ('f \<times> int) option" where
  "win_pwrite_all W d f bs off =
     (if bs = [] then Some (f, LS_OK) else write_loop (win_pwrite W d) f bs (length bs) off 0)"

definition win_pread_all :: "'f win32 \<Rightarrow> int \<Rightarrow> 'f \<Rightarrow> nat \<Rightarrow> nat \<Rightarrow> ('f \<times> int \<times> byte list) option" where
  "win_pread_all W d f n off =
     (if n = 0 then Some (f, LS_OK, []) else read_loop (win_pread W d) f [] n off 0)"

subsection \<open>What the calls are documented to do\<close>

text \<open>The file behind a handle, and whether the coming transfers are free of trouble.\<close>

record 'f win_view =
  vbytes :: "'f \<Rightarrow> int \<Rightarrow> nat \<Rightarrow> byte"
  vlen :: "'f \<Rightarrow> int \<Rightarrow> nat"
  vcalm :: "'f \<Rightarrow> bool"

text \<open>The position an \<open>OVERLAPPED\<close> structure names.\<close>

definition ov_pos :: "dword \<Rightarrow> dword \<Rightarrow> nat" where
  "ov_pos lo hi = unat lo + 2 ^ 32 * unat hi"

text \<open>A read starts at the position given, moves no more than asked and changes no file; a failed
  call leaves an error code that is not \<open>ERROR_SUCCESS\<close>. Inside the file and without trouble it
  moves something.\<close>

definition read_law :: "'f win32 \<Rightarrow> 'f win_view \<Rightarrow> bool" where
  "read_law W S \<longleftrightarrow> (\<forall>f h want lo hi f' r. ReadFile W f h want lo hi = (f', r) \<longrightarrow>
     get_osfhandle W f' = get_osfhandle W f \<and> vbytes S f' = vbytes S f \<and> vlen S f' = vlen S f
     \<and> (vcalm S f \<longrightarrow> vcalm S f')
     \<and> (case r of
          Inl e \<Rightarrow> e \<noteq> ERROR_SUCCESS \<and> \<not> (vcalm S f \<and> 0 < unat want \<and> ov_pos lo hi < vlen S f h)
        | Inr bs \<Rightarrow> length bs \<le> unat want
            \<and> bs = map (vbytes S f h) [ov_pos lo hi..<ov_pos lo hi + length bs]
            \<and> (vcalm S f \<and> 0 < unat want \<and> ov_pos lo hi < vlen S f h \<longrightarrow> bs \<noteq> [])))"

text \<open>A write changes nothing outside the range it was given and never shortens the file. It
  fails with a code that is neither \<open>ERROR_SUCCESS\<close> nor \<open>ERROR_HANDLE_EOF\<close>.\<close>

definition write_law :: "'f win32 \<Rightarrow> 'f win_view \<Rightarrow> bool" where
  "write_law W S \<longleftrightarrow> (\<forall>f h buf want lo hi f' r.
     unat want \<le> length buf \<longrightarrow> WriteFile W f h buf want lo hi = (f', r) \<longrightarrow>
     get_osfhandle W f' = get_osfhandle W f
     \<and> (\<forall>i. i \<notin> ival (ov_pos lo hi) (unat want) \<longrightarrow> vbytes S f' h i = vbytes S f h i)
     \<and> vlen S f h \<le> vlen S f' h \<and> (vcalm S f \<longrightarrow> vcalm S f')
     \<and> (case r of
          Inl e \<Rightarrow> e \<noteq> ERROR_SUCCESS \<and> e \<noteq> ERROR_HANDLE_EOF
            \<and> \<not> (vcalm S f \<and> ov_pos lo hi + unat want < off_max)
        | Inr k \<Rightarrow> unat k \<le> unat want
            \<and> (\<forall>i<unat k. vbytes S f' h (ov_pos lo hi + i) = buf ! i)
            \<and> (0 < unat k \<longrightarrow> ov_pos lo hi + unat k \<le> vlen S f' h)
            \<and> (vcalm S f \<and> 0 < unat want \<and> ov_pos lo hi + unat want < off_max \<longrightarrow> 0 < unat k)))"

text \<open>\<open>GetTempPathA\<close>: the length of the path it stored, or, when the buffer is too short, the size
  it needs.\<close>

definition temp_law :: "'f win32 \<Rightarrow> bool" where
  "temp_law W \<longleftrightarrow> (\<forall>f n k buf. GetTempPathA W f n = (k, buf) \<longrightarrow> unat k < unat n \<longrightarrow> length buf = unat k)"

definition win_laws :: "'f win32 \<Rightarrow> 'f win_view \<Rightarrow> bool" where
  "win_laws W S \<longleftrightarrow> read_law W S \<and> write_law W S \<and> temp_law W"

lemmas read_lawD = read_law_def [THEN iffD1, rule_format]
lemmas write_lawD = write_law_def [THEN iffD1, rule_format]
lemmas win_lawsD = win_laws_def [THEN iffD1]

subsection \<open>Offsets and lengths cross the interface\<close>

lemma want_of_bounds:
  "unat (want_of n) \<le> n" "0 < n \<Longrightarrow> 0 < unat (want_of n)"
proof -
  have "unat (want_of n) = (if 0xFFFFFFFF < n then 0xFFFFFFFF else n)"
    by (auto simp: want_of_def unat_of_nat take_bit_eq_mod)
  then show "unat (want_of n) \<le> n" "0 < n \<Longrightarrow> 0 < unat (want_of n)" by auto
qed

text \<open>No offset below \<open>2\<^sup>6\<^sup>4\<close> loses a bit.\<close>

lemma ov_pos_split:
  assumes "off < u64_mod"
  shows "ov_pos (ov_offset off) (ov_offset_high off) = off"
proof -
  have w: "unat (word_of_nat off :: 64 word) = off"
    using assms by (simp add: unat_of_nat take_bit_eq_mod u64_mod_def)
  have "word_of_nat off AND (0xFFFFFFFF :: 64 word) = take_bit 32 (word_of_nat off)"
    by (simp add: take_bit_eq_mask mask_eq_exp_minus_1)
  then have "unat (ov_offset off) = off mod 2 ^ 32"
    using w unfolding ov_offset_def
    by (simp only: unsigned_ucast_eq unsigned_take_bit_eq) (simp add: take_bit_eq_mod)
  moreover have "unat (ov_offset_high off) = off div 2 ^ 32"
    using w assms unfolding ov_offset_high_def
    by (simp only: unsigned_ucast_eq unsigned_drop_bit_eq)
       (simp add: take_bit_eq_mod drop_bit_eq_div u64_mod_def)
  ultimately show ?thesis by (simp add: ov_pos_def)
qed

text \<open>The translation yields 0 for the two codes it lists, and never \<open>EINTR\<close>: the loops of \<open>rw_all\<close> do
  not retry on Windows.\<close>

lemma set_errno_zero:
  "set_errno_from_win32 e = 0 \<longleftrightarrow> e = ERROR_SUCCESS \<or> e = ERROR_HANDLE_EOF"
  by (auto simp: set_errno_from_win32_def EEXIST_crt_def win32_codes)

lemma set_errno_not_EINTR: "set_errno_from_win32 e \<noteq> errno_val EINTR"
  by (simp add: set_errno_from_win32_def EEXIST_crt_def)

subsection \<open>Windows keeps the contract\<close>

lemma win_pread_laws:
  assumes "win_laws W S" "handle_of W f d = Some h" "off + n < off_max"
    and "win_pread W d f n off = (f', got)"
  shows "get_osfhandle W f' = get_osfhandle W f \<and> vbytes S f' = vbytes S f \<and> vlen S f' = vlen S f
      \<and> (vcalm S f \<longrightarrow> vcalm S f')"
    and "got = Inr bs \<Longrightarrow> length bs \<le> n \<and> bs = map (vbytes S f h) [off..<off + length bs]"
    and "got = Inl e \<Longrightarrow> e \<noteq> 0 \<and> e \<noteq> errno_val EINTR"
    and "vcalm S f \<Longrightarrow> 0 < n \<Longrightarrow> off + n \<le> vlen S f h \<Longrightarrow> \<exists>bs. got = Inr bs \<and> bs \<noteq> []"
proof -
  obtain r where call: "ReadFile W f h (want_of n) (ov_offset off) (ov_offset_high off) = (f', r)"
    and got: "got = (case r of Inl e \<Rightarrow> if e = ERROR_HANDLE_EOF then Inr [] else Inl (set_errno_from_win32 e)
                     | Inr bs \<Rightarrow> Inr bs)"
    using assms(2,4) by (auto simp: win_pread_def split: prod.splits sum.splits if_splits)
  have "off < u64_mod" using assms(3) off_max_less by linarith
  note law = read_lawD [OF win_lawsD [OF assms(1), THEN conjunct1] call, unfolded ov_pos_split [OF this]]
  show "get_osfhandle W f' = get_osfhandle W f \<and> vbytes S f' = vbytes S f \<and> vlen S f' = vlen S f
      \<and> (vcalm S f \<longrightarrow> vcalm S f')"
    using law by blast
  show "got = Inr bs \<Longrightarrow> length bs \<le> n \<and> bs = map (vbytes S f h) [off..<off + length bs]"
    using law got want_of_bounds(1) [of n] by (auto split: sum.splits if_splits)
  show "got = Inl e \<Longrightarrow> e \<noteq> 0 \<and> e \<noteq> errno_val EINTR"
    using law got set_errno_zero set_errno_not_EINTR by (auto split: sum.splits if_splits)
  show "\<exists>bs. got = Inr bs \<and> bs \<noteq> []" if "vcalm S f" "0 < n" "off + n \<le> vlen S f h"
    using law got that want_of_bounds(2) [of n] by (auto split: sum.splits)
qed

lemma win_pwrite_laws:
  assumes "win_laws W S" "handle_of W f d = Some h" "off + length buf < off_max"
    and "win_pwrite W d f buf off = (f', put)"
  shows "get_osfhandle W f' = get_osfhandle W f
      \<and> (\<forall>i. i \<notin> ival off (length buf) \<longrightarrow> vbytes S f' h i = vbytes S f h i)
      \<and> vlen S f h \<le> vlen S f' h \<and> (vcalm S f \<longrightarrow> vcalm S f')"
    and "put = Inr k \<Longrightarrow> k \<le> length buf \<and> (\<forall>i<k. vbytes S f' h (off + i) = buf ! i)
      \<and> (0 < k \<longrightarrow> off + k \<le> vlen S f' h)"
    and "put = Inl e \<Longrightarrow> e \<noteq> 0 \<and> e \<noteq> errno_val EINTR"
    and "vcalm S f \<Longrightarrow> buf \<noteq> [] \<Longrightarrow> \<exists>k. put = Inr k \<and> 0 < k"
proof -
  let ?want = "want_of (length buf)"
  obtain r where call: "WriteFile W f h buf ?want (ov_offset off) (ov_offset_high off) = (f', r)"
    and put: "put = (case r of Inl e \<Rightarrow> Inl (set_errno_from_win32 e) | Inr k \<Rightarrow> Inr (unat k))"
    using assms(2,4) by (auto simp: win_pwrite_def split: prod.splits sum.splits)
  have "off < u64_mod" using assms(3) off_max_less by linarith
  note law = write_lawD [OF win_lawsD [OF assms(1), THEN conjunct2, THEN conjunct1] want_of_bounds(1) call,
      unfolded ov_pos_split [OF this]]
  show "get_osfhandle W f' = get_osfhandle W f
      \<and> (\<forall>i. i \<notin> ival off (length buf) \<longrightarrow> vbytes S f' h i = vbytes S f h i)
      \<and> vlen S f h \<le> vlen S f' h \<and> (vcalm S f \<longrightarrow> vcalm S f')"
    using law want_of_bounds(1) [of "length buf"] by auto
  show "put = Inr k \<Longrightarrow> k \<le> length buf \<and> (\<forall>i<k. vbytes S f' h (off + i) = buf ! i)
      \<and> (0 < k \<longrightarrow> off + k \<le> vlen S f' h)"
    using law put want_of_bounds(1) [of "length buf"] by (auto split: sum.splits)
  show "put = Inl e \<Longrightarrow> e \<noteq> 0 \<and> e \<noteq> errno_val EINTR"
    using law put set_errno_zero set_errno_not_EINTR by (auto split: sum.splits)
  show "\<exists>k. put = Inr k \<and> 0 < k" if "vcalm S f" "buf \<noteq> []"
    using law put that want_of_bounds [of "length buf"] assms(3) by (auto split: sum.splits)
qed

text \<open>Any system that behaves as documented gives \<open>rw_all\<close> the floor it relies on.\<close>

interpretation wnf: positional_file "win_pread W d" "win_pwrite W d" "\<lambda>f. vbytes S f h"
  "\<lambda>f. vlen S f h" "\<lambda>f. win_laws W S \<and> handle_of W f d = Some h" "vcalm S" "\<lambda>_. 0"
  for W :: "'f win32" and S :: "'f win_view" and d h :: int
proof (unfold_locales, goal_cases)
  case (1 f off n f' got)
  then show ?case using win_pread_laws(1) [of W S f d h] by (simp add: handle_of_def)
next
  case (2 f off n f' bs)
  show ?case by (rule win_pread_laws(2) [OF 2(1) [THEN conjunct1] 2(1) [THEN conjunct2] 2(2,3) refl])
next
  case (3 f off n f' e)
  show ?case using win_pread_laws(3) [OF 3(1) [THEN conjunct1] 3(1) [THEN conjunct2] 3(2,3) refl] by simp
next
  case (4 f off n)
  then show ?case using win_pread_laws(4) [of W S f d h off n] by (metis surj_pair)
next
  case (5 f off bs f' put)
  then show ?case using win_pwrite_laws(1) [of W S f d h off bs f' put] by (simp add: handle_of_def)
next
  case (6 f off bs f' k)
  show ?case by (rule win_pwrite_laws(2) [OF 6(1) [THEN conjunct1] 6(1) [THEN conjunct2] 6(2,3) refl])
next
  case (7 f off bs f' e)
  show ?case using win_pwrite_laws(3) [OF 7(1) [THEN conjunct1] 7(1) [THEN conjunct2] 7(2,3) refl] by simp
next
  case (8 f off bs)
  then show ?case using win_pwrite_laws(4) [of W S f d h off bs] by (metis surj_pair)
qed

lemma win_pwrite_all_loop:
  "win_pwrite_all W d f bs off = write_loop (win_pwrite W d) f bs (length bs) off 0"
  by (simp add: win_pwrite_all_def write_loop.simps [of _ f "[]"])

lemma win_pread_all_loop:
  "win_pread_all W d f n off = read_loop (win_pread W d) f [] n off 0"
  by (simp add: win_pread_all_def read_loop.simps [of _ f "[]" 0])

subsection \<open>A system that keeps the laws\<close>

text \<open>One file, the one of theory \<open>Os\<close>, open under descriptor 3 with handle 100. The script of
  outcomes makes transfers short or fail.\<close>

definition sim_read :: "os \<Rightarrow> nat \<Rightarrow> nat \<Rightarrow> os \<times> (dword + byte list)" where
  "sim_read w n off =
     (case next_sys w of (r, w') \<Rightarrow>
        (case r of
           Sys_err e \<Rightarrow> (w', Inl ERROR_ACCESS_DENIED)
         | _ \<Rightarrow> if flen w' \<le> off then (w', Inl ERROR_HANDLE_EOF)
                else (w', Inr (file_read w' off (granted r (min n (flen w' - off)))))))"

definition sim_write :: "os \<Rightarrow> byte list \<Rightarrow> nat \<Rightarrow> nat \<Rightarrow> os \<times> (dword + dword)" where
  "sim_write w buf n off =
     (case next_sys w of (r, w') \<Rightarrow>
        (case r of
           Sys_err e \<Rightarrow> (w', Inl ERROR_DISK_FULL)
         | _ \<Rightarrow> let k = granted r n in (file_write w' off (take k buf), Inr (word_of_nat k))))"

definition sim_win :: "os win32" where
  "sim_win = \<lparr>
     get_osfhandle = (\<lambda>w d. if d = 3 then 100 else -1),
     sopen_s = (\<lambda>w nm. (w, Inr 3)),
     crt_close = (\<lambda>w d. (w, Inr ())),
     ReadFile = (\<lambda>w h want lo hi. sim_read w (unat want) (ov_pos lo hi)),
     WriteFile = (\<lambda>w h buf want lo hi. sim_write w buf (unat want) (ov_pos lo hi)),
     chsize_s = (\<lambda>w d n. (w, 0)),
     FlushFileBuffers = (\<lambda>w h. (w, Inr ())),
     GetFileSizeEx = (\<lambda>w h. (w, Inr (int (flen w)))),
     stat64 = (\<lambda>w nm. (w, Inr (int (flen w)))),
     crt_unlink = (\<lambda>w nm. (w, Inr ())),
     crt_getpid = (\<lambda>w. 7),
     GetTempPathA = (\<lambda>w n. (8, ''C:'' @ [CHR 0x5C] @ ''Temp'' @ [CHR 0x5C])),
     strerror_s = (\<lambda>n e. None)\<rparr>"

definition sim_view :: "os win_view" where
  "sim_view = \<lparr>vbytes = (\<lambda>w h. fbytes w), vlen = (\<lambda>w h. flen w), vcalm = (\<lambda>w. sys w = [])\<rparr>"

lemma sim_sel [simp]:
  "get_osfhandle sim_win w d = (if d = 3 then 100 else -1)"
  "ReadFile sim_win w h want lo hi = sim_read w (unat want) (ov_pos lo hi)"
  "WriteFile sim_win w h buf want lo hi = sim_write w buf (unat want) (ov_pos lo hi)"
  "vbytes sim_view w h = fbytes w" "vlen sim_view w h = flen w" "vcalm sim_view w \<longleftrightarrow> sys w = []"
  by (simp_all add: sim_win_def sim_view_def)

lemma sim_same: "get_osfhandle sim_win w = get_osfhandle sim_win v"
  "vbytes sim_view w = vbytes sim_view v \<longleftrightarrow> fbytes w = fbytes v"
  "vlen sim_view w = vlen sim_view v \<longleftrightarrow> flen w = flen v"
  by (simp_all add: fun_eq_iff)

lemma sim_read_law: "read_law sim_win sim_view"
proof -
  have "fbytes w' = fbytes w \<and> flen w' = flen w \<and> (sys w = [] \<longrightarrow> sys w' = [])
     \<and> (case r of Inl e \<Rightarrow> e \<noteq> ERROR_SUCCESS \<and> \<not> (sys w = [] \<and> 0 < n \<and> off < flen w)
        | Inr bs \<Rightarrow> length bs \<le> n \<and> bs = map (fbytes w) [off..<off + length bs]
            \<and> (sys w = [] \<and> 0 < n \<and> off < flen w \<longrightarrow> bs \<noteq> []))"
    if "sim_read w n off = (w', r)" for w n off w' r
  proof -
    obtain x v where nx: "next_sys w = (x, v)" by fastforce
    show ?thesis
      using that nx next_sys_props [OF nx]
      by (auto simp: sim_read_def file_read_def win32_codes split: sysres.splits if_splits)
  qed
  then show ?thesis
    unfolding read_law_def sim_sel sim_same by blast
qed

lemma unat_of_granted: "unat (word_of_nat (granted r (unat (n :: dword))) :: dword) = granted r (unat n)"
proof -
  have "granted r (unat n) \<le> unat n" by (cases r) auto
  moreover have "unat n < 2 ^ 32" using unsigned_less [of n] by simp
  ultimately have "granted r (unat n) < 2 ^ 32" by simp
  then show ?thesis by (simp add: unat_of_nat take_bit_eq_mod)
qed

lemma sim_write_law: "write_law sim_win sim_view"
proof -
  have "(\<forall>i. i \<notin> ival off (unat n) \<longrightarrow> fbytes w' i = fbytes w i) \<and> flen w \<le> flen w' \<and> (sys w = [] \<longrightarrow> sys w' = [])
     \<and> (case r of Inl e \<Rightarrow> e \<noteq> ERROR_SUCCESS \<and> e \<noteq> ERROR_HANDLE_EOF \<and> \<not> (sys w = [] \<and> off + unat n < off_max)
        | Inr k \<Rightarrow> unat k \<le> unat n \<and> (\<forall>i<unat k. fbytes w' (off + i) = buf ! i)
            \<and> (0 < unat k \<longrightarrow> off + unat k \<le> flen w')
            \<and> (sys w = [] \<and> 0 < unat n \<and> off + unat n < off_max \<longrightarrow> 0 < unat k))"
    if "unat n \<le> length buf" "sim_write w buf (unat n) off = (w', r)" for w w' :: os and n :: dword and off buf r
  proof -
    obtain x v where nx: "next_sys w = (x, v)" by fastforce
    note v = next_sys_props [OF nx]
    have g: "granted x (unat n) \<le> unat n" by (cases x) auto
    show ?thesis
    proof (cases "\<exists>e. x = Sys_err e")
      case True
      then show ?thesis
        using that nx v by (auto simp: sim_write_def win32_codes)
    next
      case False
      define k where "k = granted x (unat n)"
      have "w' = file_write v off (take k buf)" "r = Inr (word_of_nat k)"
        using False that(2) nx by (auto simp: sim_write_def k_def Let_def split: sysres.splits)
      moreover have "unat (word_of_nat k :: dword) = k"
        unfolding k_def by (rule unat_of_granted)
      moreover have "sys w = [] \<Longrightarrow> k = unat n" "k \<le> unat n"
        using v(6) g unfolding k_def by auto
      ultimately show ?thesis
        using that(1) v by (auto simp: file_write_def)
    qed
  qed
  then show ?thesis
    unfolding write_law_def sim_sel sim_same by blast
qed

lemma sim_laws: "win_laws sim_win sim_view"
  unfolding win_laws_def
  by (intro conjI sim_read_law sim_write_law) (simp add: temp_law_def sim_win_def)

subsection \<open>Properties\<close>

text \<open>C1. On Windows, over any system that keeps the documented laws and at any offset whose range
  ends below \<open>2\<^sup>6\<^sup>3\<close>, \<open>ls_pwrite_all\<close> returns; nothing outside the range changes; if it reports
  success every byte is in the file, and \<open>ls_pread_all\<close> of the range then returns, with exactly
  those bytes if it reports success. Without trouble both succeed.\<close>

theorem win_write_read_back:
  assumes "win_laws W S" "handle_of W f d = Some h" "off + length bs < off_max"
  shows "\<exists>f' rc. win_pwrite_all W d f bs off = Some (f', rc) \<and> handle_of W f' d = Some h
    \<and> (\<forall>i. i \<notin> ival off (length bs) \<longrightarrow> vbytes S f' h i = vbytes S f h i)
    \<and> (vcalm S f \<longrightarrow> rc = LS_OK \<and> vcalm S f')
    \<and> (rc = LS_OK \<longrightarrow> (\<forall>i<length bs. vbytes S f' h (off + i) = bs ! i)
        \<and> (\<exists>f'' rc' bs'. win_pread_all W d f' (length bs) off = Some (f'', rc', bs')
             \<and> (rc' = LS_OK \<longrightarrow> bs' = bs) \<and> (vcalm S f' \<longrightarrow> rc' = LS_OK)))"
proof -
  let ?wrote = "wnf.wrote S h W d bs off f 0"
  obtain f' rc where wr: "win_pwrite_all W d f bs off = Some (f', rc)" and "?wrote f' rc"
    using wnf.write_loop_returns [of W S f d h off bs 0] assms by (auto simp: win_pwrite_all_loop)
  note w = this(2) [unfolded wnf.wrote_def]
  show ?thesis
  proof (cases "bs = []")
    case True
    then show ?thesis using assms(2) by (simp add: win_pwrite_all_def win_pread_all_def)
  next
    case False
    have "\<exists>f'' rc' bs'. win_pread_all W d f' (length bs) off = Some (f'', rc', bs')
        \<and> (rc' = LS_OK \<longrightarrow> bs' = bs) \<and> (vcalm S f' \<longrightarrow> rc' = LS_OK)" if "rc = LS_OK"
      using wnf.read_back_written [of W S f' d h off bs] w that assms(3) False
      unfolding win_pread_all_loop by fastforce
    then show ?thesis using wr w by auto
  qed
qed

theorem win_write_read_back_witness:
  "win_laws sim_win sim_view \<and> handle_of sim_win (os_empty []) 3 = Some 100
   \<and> 2 ^ 33 + 5 + length ([1, 2, 3] :: byte list) < off_max
   \<and> (\<exists>f'. win_pwrite_all sim_win 3 (os_empty []) [1, 2, 3] (2 ^ 33 + 5) = Some (f', LS_OK)
        \<and> (\<exists>f''. win_pread_all sim_win 3 f' 3 (2 ^ 33 + 5) = Some (f'', LS_OK, [1, 2, 3])))"
proof -
  have h: "handle_of sim_win (os_empty []) 3 = Some 100"
    by (simp add: handle_of_def sim_win_def)
  have r: "2 ^ 33 + 5 + length ([1, 2, 3] :: byte list) < off_max"
    by (simp add: off_max_def)
  have c: "vcalm sim_view (os_empty [])" by (simp add: sim_view_def)
  show ?thesis
    using win_write_read_back [OF sim_laws h r] sim_laws h r c by (auto simp: numeral_3_eq_3)
qed

text \<open>\<open>os.h\<close> promises that the temporary directory is never empty and never ends in a separator. Windows
  keeps the promise for every buffer of at least two characters and whatever \<open>GetTempPathA\<close>
  answers; POSIX copies \<open>TMPDIR\<close> as it is, trailing separator included.\<close>

lemma cut_seps_le: "cut_seps buf n \<le> n"
  by (induction n) (auto intro: le_SucI)

lemma cut_seps_last:
  "cut_seps buf n = Suc m \<Longrightarrow> buf ! m \<noteq> CHR 0x5C \<and> buf ! m \<noteq> CHR ''/''"
  by (induction n) (auto split: if_splits)

lemma win_tmpdir_contract:
  assumes "temp_law W" "2 \<le> buflen" "buflen < 2 ^ 32"
  shows "\<exists>d. win_tmpdir W f buflen = Some d \<and> d \<noteq> [] \<and> last d \<noteq> CHR 0x5C \<and> last d \<noteq> CHR ''/''
    \<and> length d < buflen"
proof -
  obtain n buf where g: "GetTempPathA W f (word_of_nat buflen) = (n, buf)" by fastforce
  have dot: "snprintf buflen ''.'' = ''.''" using assms(2) by (simp add: snprintf_def)
  show ?thesis
  proof (cases "n = 0 \<or> buflen \<le> unat n \<or> cut_seps buf (unat n) = 0")
    case True
    then have "win_tmpdir W f buflen = Some ''.''"
      using g dot assms(2) by (auto simp: win_tmpdir_def)
    then show ?thesis using assms(2) by simp
  next
    case False
    then obtain m where m: "cut_seps buf (unat n) = Suc m" by (meson not0_implies_Suc)
    have "unat (word_of_nat buflen :: dword) = buflen"
      using assms(3) by (simp add: unat_of_nat take_bit_eq_mod)
    then have len: "length buf = unat n"
      using assms(1) g False unfolding temp_law_def by force
    have "Suc m \<le> unat n" using cut_seps_le m by metis
    then have "last (take (Suc m) buf) = buf ! m" "length (take (Suc m) buf) = Suc m"
      using len by (simp_all add: take_Suc_conv_app_nth)
    moreover have "win_tmpdir W f buflen = Some (take (Suc m) buf)"
      using False g m assms(2) by (simp add: win_tmpdir_def)
    ultimately show ?thesis
      using cut_seps_last [OF m] False \<open>Suc m \<le> unat n\<close> by force
  qed
qed

theorem tmpdir_separator:
  assumes "temp_law W" "2 \<le> buflen" "buflen < 2 ^ 32"
  shows "(\<exists>d. win_tmpdir W f buflen = Some d \<and> d \<noteq> [] \<and> last d \<noteq> CHR 0x5C \<and> last d \<noteq> CHR ''/''
           \<and> length d < buflen)
    \<and> (\<forall>e d. e_get e ''TMPDIR'' = Some (d @ ''/'') \<and> length d + 1 < buflen
         \<longrightarrow> last (ls_os_tmpdir e buflen) = CHR ''/'')"
  using win_tmpdir_contract [OF assms] by (auto simp: ls_os_tmpdir_def snprintf_def)

theorem tmpdir_separator_witness:
  "temp_law sim_win \<and> win_tmpdir sim_win (os_empty []) 512 = Some (''C:'' @ [CHR 0x5C] @ ''Temp'')
   \<and> last (ls_os_tmpdir \<lparr>e_get = (\<lambda>_. Some ''/scratch/''), e_pid = 1, e_threads = 1\<rparr> 512) = CHR ''/''"
proof -
  have t: "temp_law sim_win" using sim_laws by (simp add: win_laws_def)
  have "\<forall>d. e_get (\<lparr>e_get = (\<lambda>_. Some ''/scratch/''), e_pid = 1, e_threads = 1\<rparr>) ''TMPDIR''
      = Some (d @ ''/'') \<and> length d + 1 < 512 \<longrightarrow>
      last (ls_os_tmpdir \<lparr>e_get = (\<lambda>_. Some ''/scratch/''), e_pid = 1, e_threads = 1\<rparr> 512) = CHR ''/''"
    using tmpdir_separator [OF t, of 512 "os_empty []"] by simp
  then have "last (ls_os_tmpdir \<lparr>e_get = (\<lambda>_. Some ''/scratch/''), e_pid = 1, e_threads = 1\<rparr> 512) = CHR ''/''"
    by (elim allE [of _ "''/scratch''"]) simp
  moreover have "win_tmpdir sim_win (os_empty []) 512 = Some (''C:'' @ [CHR 0x5C] @ ''Temp'')"
  proof -
    let ?p = "''C:'' @ [CHR 0x5C] @ ''Temp'' @ [CHR 0x5C]"
    have "cut_seps ?p 8 = 7" by (simp add: eval_nat_numeral)
    then show ?thesis by (simp add: win_tmpdir_def sim_win_def)
  qed
  ultimately show ?thesis using t by simp
qed

subsection \<open>Threads\<close>

text \<open>
  \<open>ls_thread_create\<close> hands the new thread a block of the heap that holds the worker's function and
  argument (together \<open>'c\<close>); \<open>ls_thread_main\<close> copies the block, frees it and calls the worker. \<open>tramp\<close> is
  the heap of these blocks, \<open>begun\<close> lists the blocks of threads that exist but have not run yet,
  \<open>called\<close> the workers that were called, \<open>handles\<close> the thread handles that are open.
\<close>

record 'c wthreads =
  tramp :: "nat \<rightharpoonup> 'c"
  brk :: nat
  begun :: "nat list"
  called :: "'c list"
  handles :: "int list"

definition wthreads0 :: "'c wthreads" where
  "wthreads0 = \<lparr>tramp = Map.empty, brk = 0, begun = [], called = [], handles = []\<rparr>"

text \<open>\<open>alive\<close> is the outcome of \<open>malloc\<close>, \<open>h\<close> that of \<open>_beginthreadex\<close>: an errno or a handle.\<close>

definition win_thread_create ::
  "bool \<Rightarrow> int + int \<Rightarrow> 'c \<Rightarrow> 'c wthreads \<Rightarrow> 'c wthreads \<times> (int + int)" where
  "win_thread_create alive h c T =
     (if \<not> alive then (T, Inl (errno_val ENOMEM))
      else let tr = brk T; T1 = T\<lparr>tramp := (tramp T)(tr \<mapsto> c), brk := Suc tr\<rparr> in
        (case h of
           Inl e \<Rightarrow> (T1\<lparr>tramp := (tramp T1)(tr := None)\<rparr>, Inl e)
         | Inr hh \<Rightarrow> (T1\<lparr>begun := begun T1 @ [tr], handles := handles T1 @ [hh]\<rparr>, Inr hh)))"

text \<open>\<open>None\<close>: the block was freed before.\<close>

definition win_thread_main :: "nat \<Rightarrow> 'c wthreads \<Rightarrow> 'c wthreads option" where
  "win_thread_main p T =
     (case tramp T p of
        None \<Rightarrow> None
      | Some c \<Rightarrow> Some (T\<lparr>tramp := (tramp T)(p := None), called := called T @ [c]\<rparr>))"

text \<open>A null handle is not waited on.\<close>

definition win_thread_join :: "int \<Rightarrow> 'c wthreads \<Rightarrow> 'c wthreads" where
  "win_thread_join h T = (if h = 0 then T else T\<lparr>handles := remove1 h (handles T)\<rparr>)"

text \<open>The steps a process takes: a call of \<open>ls_thread_create\<close> with its two outcomes, the start of the
  thread at position \<open>i\<close> of \<open>begun\<close>, a join.\<close>

datatype 'c wt_event = Create bool "int + int" 'c | Enter nat | Join int

fun wt_step :: "'c wt_event \<Rightarrow> 'c wthreads \<Rightarrow> 'c wthreads option" where
  "wt_step (Create alive h c) T = Some (fst (win_thread_create alive h c T))"
| "wt_step (Enter i) T =
     (if i < length (begun T)
      then win_thread_main (begun T ! i) (T\<lparr>begun := remove_at i (begun T)\<rparr>) else Some T)"
| "wt_step (Join h) T = Some (win_thread_join h T)"

fun wt_run :: "'c wt_event list \<Rightarrow> 'c wthreads \<Rightarrow> 'c wthreads option" where
  "wt_run [] T = Some T"
| "wt_run (ev # evs) T = (case wt_step ev T of None \<Rightarrow> None | Some T' \<Rightarrow> wt_run evs T')"

text \<open>The workers asked for by the calls that succeeded.\<close>

fun wt_created :: "'c wt_event list \<Rightarrow> 'c list" where
  "wt_created [] = []"
| "wt_created (Create True (Inr h) c # evs) = c # wt_created evs"
| "wt_created (_ # evs) = wt_created evs"

definition wt_inv :: "'c wthreads \<Rightarrow> bool" where
  "wt_inv T \<longleftrightarrow> distinct (begun T) \<and> dom (tramp T) = set (begun T) \<and> (\<forall>p\<in>set (begun T). p < brk T)"

text \<open>Workers called so far and workers still to be called.\<close>

definition wt_total :: "'c wthreads \<Rightarrow> 'c list" where
  "wt_total T = called T @ map (the \<circ> tramp T) (begun T)"

lemma remove_at_mset:
  assumes "i < length xs"
  shows "mset (remove_at i xs) = mset xs - {#xs ! i#}" "mset xs = add_mset (xs ! i) (mset (remove_at i xs))"
proof -
  have "xs = take i xs @ xs ! i # drop (Suc i) xs" using assms by (rule id_take_nth_drop)
  then have "mset xs = mset (take i xs) + (add_mset (xs ! i) (mset (drop (Suc i) xs)))"
    by (metis mset.simps(2) mset_append)
  then show "mset (remove_at i xs) = mset xs - {#xs ! i#}" "mset xs = add_mset (xs ! i) (mset (remove_at i xs))"
    by (simp_all add: remove_at_def)
qed

lemma wt_step_inv:
  assumes "wt_inv T"
  shows "\<exists>T'. wt_step ev T = Some T' \<and> wt_inv T'
    \<and> mset (wt_total T') = mset (wt_total T) + mset (wt_created [ev])"
proof (cases ev)
  case (Create alive h c)
  have same: "image_mset (the \<circ> (tramp T)(brk T := x)) (mset (begun T))
      = image_mset (the \<circ> tramp T) (mset (begun T))" for x
    using assms by (intro image_mset_cong) (auto simp: wt_inv_def)
  have "brk T \<notin> dom (tramp T)" using assms by (auto simp: wt_inv_def)
  then show ?thesis
    using assms Create
    by (cases alive; cases h)
       (auto simp: same win_thread_create_def wt_inv_def wt_total_def Let_def less_Suc_eq)
next
  case (Enter i)
  show ?thesis
  proof (cases "i < length (begun T)")
    case True
    let ?p = "begun T ! i" and ?rest = "remove_at i (begun T)"
    have mb: "mset (begun T) = add_mset ?p (mset ?rest)" using True by (rule remove_at_mset)
    have p: "?p \<in> set (begun T)" using True by simp
    then obtain c where c: "tramp T ?p = Some c" using assms by (auto simp: wt_inv_def)
    have d: "distinct (?p # ?rest)" "set (begun T) = insert ?p (set ?rest)"
      using assms mb unfolding wt_inv_def
      by (metis mset.simps(2) mset_eq_imp_distinct_iff, metis mset.simps(2) mset_eq_setD list.simps(15))
    then have same: "image_mset (the \<circ> (tramp T)(?p := None)) (mset ?rest)
        = image_mset (the \<circ> tramp T) (mset ?rest)"
      by (intro image_mset_cong) auto
    have "mset (map (the \<circ> tramp T) (begun T)) = add_mset c (mset (map (the \<circ> tramp T) ?rest))"
      using mb c by simp
    moreover have "wt_step ev T = Some (T\<lparr>begun := ?rest, tramp := (tramp T)(?p := None),
        called := called T @ [c]\<rparr>)"
      using True c Enter by (simp add: win_thread_main_def)
    ultimately show ?thesis
      using assms d Enter by (auto simp: same wt_inv_def wt_total_def)
  qed (use assms Enter in simp)
next
  case (Join h)
  then show ?thesis
    using assms by (auto simp: win_thread_join_def wt_inv_def wt_total_def)
qed

text \<open>No block is ever read after it was freed, whatever the order in which threads start; none leaks:
  the blocks in the heap are those of threads still to run, one each; and the workers called,
  with those still to be called, are exactly those that were asked for.\<close>

theorem trampolines_balanced:
  "\<exists>T. wt_run evs wthreads0 = Some T \<and> dom (tramp T) = set (begun T) \<and> distinct (begun T)
     \<and> mset (called T) + mset (map (the \<circ> tramp T) (begun T)) = mset (wt_created evs)"
proof -
  have created: "mset (wt_created (ev # es)) = mset (wt_created [ev]) + mset (wt_created es)"
    for ev :: "'a wt_event" and es
    by (cases ev rule: wt_event.exhaust; cases "case ev of Create a h c \<Rightarrow> a | _ \<Rightarrow> False";
        cases "case ev of Create a h c \<Rightarrow> h | _ \<Rightarrow> Inl 0") auto
  have "\<exists>T'. wt_run evs T = Some T' \<and> wt_inv T' \<and> mset (wt_total T') = mset (wt_total T) + mset (wt_created evs)"
    if "wt_inv T" for T
    using that
  proof (induction evs arbitrary: T)
    case Nil
    then show ?case by simp
  next
    case (Cons ev es)
    then show ?case
      using wt_step_inv [OF Cons.prems, of ev] created [of ev es] by fastforce
  qed
  from this [of wthreads0] show ?thesis
    by (auto simp: wthreads0_def wt_inv_def wt_total_def)
qed

end
