(* ===== verification/Async.thy ===== *)
theory Async
  imports Opening
begin

text \<open>
  The asynchronous layer (\<open>src/async.c\<close>): requests in a linked queue, a pool of worker threads, and
  the calls that submit, wait for and test a request and that stop the pool.

  A pool holds the store, the caller's buffers, the requests by address, the pointers of the queue
  and of the list of live requests, and for each worker the point it has reached. Each step below
  is one critical section of the code; the call of \<open>ls_rw\<close> that a worker makes between two of them
  is one step on the store. A worker that finds nothing to do waits on \<open>q_cv\<close>: it has no step until
  there is a request or the pool stops.
\<close>

subsection \<open>Requests and workers\<close>

record ls_req =
  r_op :: ls_op
  r_key :: string
  r_off :: nat
  r_n :: nat
  r_buf :: "nat option"
  status :: int
  rdone :: bool

text \<open>Where a worker is: at the top of its loop, with a request in \<open>ls_rw\<close>, with its result, with the result
  published, or returned.\<close>

datatype wstate = W_idle | W_run nat | W_pub nat int | W_acct int | W_exit

record pool =
  pst :: ls_store
  umem :: "nat \<Rightarrow> byte list"
  reqs :: "nat \<Rightarrow> ls_req option"
  rfresh :: nat
  qh :: "nat option"
  qt :: "nat option"
  q_next :: "nat \<Rightarrow> nat option"
  live :: "nat option"
  l_next :: "nat \<Rightarrow> nat option"
  l_prev :: "nat \<Rightarrow> nat option"
  stop :: bool
  drain_err :: int
  inflight :: nat
  wk :: "wstate list"

definition pool_init :: "ls_store \<Rightarrow> nat \<Rightarrow> (nat \<Rightarrow> byte list) \<Rightarrow> pool" where
  "pool_init s n m = \<lparr>pst = s, umem = m, reqs = Map.empty, rfresh = 0, qh = None, qt = None, q_next = (\<lambda>_. None),
     live = None, l_next = (\<lambda>_. None), l_prev = (\<lambda>_. None), stop = False, drain_err = LS_OK, inflight = 0,
     wk = replicate n W_idle\<rparr>"

text \<open>Unlinking from the list of live requests, and freeing.\<close>

definition req_release :: "pool \<Rightarrow> nat \<Rightarrow> pool" where
  "req_release p r =
     (let p1 = (case l_prev p r of
                  Some a \<Rightarrow> p\<lparr>l_next := (l_next p)(a := l_next p r)\<rparr>
                | None \<Rightarrow> p\<lparr>live := l_next p r\<rparr>);
          p2 = (case l_next p1 r of
                  Some b \<Rightarrow> p1\<lparr>l_prev := (l_prev p1)(b := l_prev p1 r)\<rparr>
                | None \<Rightarrow> p1)
      in p2\<lparr>reqs := (reqs p2)(r := None), l_next := (l_next p2)(r := None), l_prev := (l_prev p2)(r := None),
            q_next := (q_next p2)(r := None)\<rparr>)"

subsection \<open>The worker\<close>

text \<open>Taking a request off the queue, or leaving. \<open>None\<close>: the worker waits.\<close>

definition worker_take :: "pool \<Rightarrow> nat \<Rightarrow> pool option" where
  "worker_take p i =
     (case qh p of
        None \<Rightarrow> if stop p then Some (p\<lparr>wk := (wk p)[i := W_exit]\<rparr>) else None
      | Some r \<Rightarrow>
          (let p1 = p\<lparr>qh := q_next p r\<rparr>;
               p2 = (if qh p1 = None then p1\<lparr>qt := None\<rparr> else p1)
           in Some (p2\<lparr>wk := (wk p2)[i := W_run r]\<rparr>)))"

definition req_buf :: "pool \<Rightarrow> ls_req \<Rightarrow> byte list option" where
  "req_buf p x = map_option (\<lambda>a. take (r_n x) (umem p a)) (r_buf x)"

definition worker_rw :: "pool \<Rightarrow> nat \<Rightarrow> nat \<Rightarrow> pool option" where
  "worker_rw p i r = do {
     x \<leftarrow> reqs p r;
     (s', rc, out) \<leftarrow> ls_rw (pst p) (Some (r_key x)) (r_off x) (r_n x)
       (r_op x = LS_OP_READ \<and> r_buf x \<noteq> None) (if r_op x = LS_OP_WRITE then req_buf p x else None) (r_op x);
     let p1 = p\<lparr>pst := s'\<rparr>;
     let p2 = (case (r_op x, r_buf x) of
                 (LS_OP_READ, Some a) \<Rightarrow> p1\<lparr>umem := (umem p1)(a := blit (umem p1 a) 0 out)\<rparr>
               | _ \<Rightarrow> p1);
     Some (p2\<lparr>wk := (wk p2)[i := W_pub r rc]\<rparr>)
   }"

definition worker_publish :: "pool \<Rightarrow> nat \<Rightarrow> nat \<Rightarrow> int \<Rightarrow> pool" where
  "worker_publish p i r rc =
     p\<lparr>reqs := (reqs p)(r := map_option (\<lambda>x. x\<lparr>status := rc, rdone := True\<rparr>) (reqs p r)), wk := (wk p)[i := W_acct rc]\<rparr>"

definition worker_account :: "pool \<Rightarrow> nat \<Rightarrow> int \<Rightarrow> pool" where
  "worker_account p i rc =
     p\<lparr>drain_err := (if rc \<noteq> LS_OK \<and> drain_err p = LS_OK then rc else drain_err p),
       inflight := sub64 (inflight p) 1, wk := (wk p)[i := W_idle]\<rparr>"

definition worker :: "pool \<Rightarrow> nat \<Rightarrow> pool option" where
  "worker p i =
     (case wk p ! i of
        W_idle \<Rightarrow> worker_take p i
      | W_run r \<Rightarrow> worker_rw p i r
      | W_pub r rc \<Rightarrow> Some (worker_publish p i r rc)
      | W_acct rc \<Rightarrow> Some (worker_account p i rc)
      | W_exit \<Rightarrow> None)"

subsection \<open>The calls\<close>

definition submit :: "pool \<Rightarrow> string option \<Rightarrow> nat \<Rightarrow> nat \<Rightarrow> nat option \<Rightarrow> ls_op \<Rightarrow> bool \<Rightarrow> pool \<times> int \<times> nat option" where
  "submit p ko off n buf op outp =
     (if \<not> outp \<or> \<not> ls_key_ok ko \<or> (n \<noteq> 0 \<and> buf = None) then (p, LS_ERR_INVAL, None)
      else if mode (opts (pst p)) \<noteq> LS_EXPLICIT \<or> backend (opts (pst p)) \<noteq> LS_POSIX then (p, LS_ERR_MODE, None)
      else if length (wk p) = 0 then (p, LS_ERR_BACKEND, None)
      else (case st_malloc (pst p) of (ok, s') \<Rightarrow>
        let p0 = p\<lparr>pst := s'\<rparr> in
        if \<not> ok then (p0, neg_errno ENOMEM, None)
        else if stop p then (p0, LS_ERR_BUSY, None)
        else let r = rfresh p;
                 x = \<lparr>r_op = op, r_key = the ko, r_off = off, r_n = n, r_buf = buf, status = 0, rdone = False\<rparr>;
                 p1 = p0\<lparr>reqs := (reqs p0)(r \<mapsto> x), rfresh := r + 1, l_next := (l_next p0)(r := live p0)\<rparr>;
                 p2 = (case live p1 of Some h \<Rightarrow> p1\<lparr>l_prev := (l_prev p1)(h := Some r)\<rparr> | None \<Rightarrow> p1);
                 p3 = p2\<lparr>live := Some r\<rparr>;
                 p4 = (case qt p3 of Some t \<Rightarrow> p3\<lparr>q_next := (q_next p3)(t := Some r)\<rparr> | None \<Rightarrow> p3\<lparr>qh := Some r\<rparr>)
             in (p4\<lparr>qt := Some r, inflight := add64 (inflight p4) 1\<rparr>, LS_OK, Some r)))"

definition ls_awrite :: "pool \<Rightarrow> string option \<Rightarrow> nat \<Rightarrow> nat \<Rightarrow> nat option \<Rightarrow> bool \<Rightarrow> pool \<times> int \<times> nat option" where
  "ls_awrite p ko off n buf outp = submit p ko off n buf LS_OP_WRITE outp"

definition ls_aread :: "pool \<Rightarrow> string option \<Rightarrow> nat \<Rightarrow> nat \<Rightarrow> nat option \<Rightarrow> bool \<Rightarrow> pool \<times> int \<times> nat option" where
  "ls_aread p ko off n buf outp = submit p ko off n buf LS_OP_READ outp"

text \<open>\<open>ls_wait\<close> blocks (\<open>None\<close>) until the request is done.\<close>

definition ls_wait :: "pool \<Rightarrow> nat option \<Rightarrow> (pool \<times> int) option" where
  "ls_wait p req =
     (case req of
        None \<Rightarrow> Some (p, LS_ERR_INVAL)
      | Some r \<Rightarrow> do {
          x \<leftarrow> reqs p r;
          if rdone x then Some (req_release p r, status x) else None
        })"

definition ls_test :: "pool \<Rightarrow> nat option \<Rightarrow> bool \<Rightarrow> (int \<times> bool option) option" where
  "ls_test p req outp =
     (case req of
        None \<Rightarrow> Some (LS_ERR_INVAL, None)
      | Some r \<Rightarrow> if \<not> outp then Some (LS_ERR_INVAL, None) else do { x \<leftarrow> reqs p r; Some (LS_OK, Some (rdone x)) })"

text \<open>\<open>ls_pool_stop\<close>: the flag, the joins (\<open>None\<close> while a worker has not returned), the release of what
  nobody waited for.\<close>

definition pool_stop_flag :: "pool \<Rightarrow> pool" where
  "pool_stop_flag p = p\<lparr>stop := True\<rparr>"

partial_function (option) release_live :: "pool \<Rightarrow> pool option" where
  "release_live p = (case live p of None \<Rightarrow> Some p | Some r \<Rightarrow> release_live (req_release p r))"

definition pool_stop_join :: "pool \<Rightarrow> pool option" where
  "pool_stop_join p = (if \<forall>w\<in>set (wk p). w = W_exit then release_live (p\<lparr>wk := []\<rparr>) else None)"

subsection \<open>Steps\<close>

datatype event = E_submit nat | E_take nat | E_rw nat int | E_done nat int | E_wait nat int | E_tau

inductive pstep :: "pool \<Rightarrow> event \<Rightarrow> pool \<Rightarrow> bool" where
  submit: "submit p ko off n buf op outp = (p', rc, ro) \<Longrightarrow> pstep p (case ro of Some r \<Rightarrow> E_submit r | None \<Rightarrow> E_tau) p'"
| take: "i < length (wk p) \<Longrightarrow> wk p ! i = W_idle \<Longrightarrow> worker p i = Some p' \<Longrightarrow>
    pstep p (case qh p of Some r \<Rightarrow> E_take r | None \<Rightarrow> E_tau) p'"
| rw: "i < length (wk p) \<Longrightarrow> wk p ! i = W_run r \<Longrightarrow> worker p i = Some p' \<Longrightarrow> wk p' ! i = W_pub r rc \<Longrightarrow> pstep p (E_rw r rc) p'"
| publish: "i < length (wk p) \<Longrightarrow> wk p ! i = W_pub r rc \<Longrightarrow> worker p i = Some p' \<Longrightarrow> pstep p (E_done r rc) p'"
| account: "i < length (wk p) \<Longrightarrow> wk p ! i = W_acct rc \<Longrightarrow> worker p i = Some p' \<Longrightarrow> pstep p E_tau p'"
| wait: "ls_wait p (Some r) = Some (p', rc) \<Longrightarrow> pstep p (E_wait r rc) p'"
| stop: "pstep p E_tau (pool_stop_flag p)"
| caller: "(\<forall>x\<in>ran (reqs p). \<forall>a. r_buf x = Some a \<longrightarrow> m a = umem p a) \<Longrightarrow> pstep p E_tau (p\<lparr>umem := m\<rparr>)"

inductive runs :: "pool \<Rightarrow> event list \<Rightarrow> pool \<Rightarrow> bool" where
  refl: "runs p [] p"
| step: "runs p es q \<Longrightarrow> pstep q e q' \<Longrightarrow> runs p (es @ [e]) q'"

subsection \<open>The lists behind the pointers\<close>

definition qlist :: "pool \<Rightarrow> nat list \<Rightarrow> bool" where
  "qlist p q \<longleftrightarrow> distinct q \<and> qh p = hd_opt q \<and> qt p = hd_opt (rev q) \<and> (\<forall>r\<in>set q. q_next p r = succ_in q r)"

definition llist :: "pool \<Rightarrow> nat list \<Rightarrow> bool" where
  "llist p l \<longleftrightarrow> distinct l \<and> live p = hd_opt l \<and> l_next p = succ_in l \<and> l_prev p = succ_in (rev l)"

lemma qlist_take:
  assumes "qlist p q" "qh p = Some r"
  obtains q' where "q = r # q'" "q_next p r = hd_opt q'" "qlist (p\<lparr>qh := hd_opt q', qt := (if q' = [] then None else qt p)\<rparr>) q'"
proof -
  obtain q' where q: "q = r # q'" using assms by (cases q) (auto simp: qlist_def)
  have "q_next p r = hd_opt q'" "\<forall>z\<in>set q'. q_next p z = succ_in q' z" using assms(1) q by (auto simp: qlist_def)
  then show ?thesis using that q assms(1) by (auto simp: qlist_def)
qed

lemma succ_in_snoc: "distinct (q @ [r]) \<Longrightarrow> z \<in> set q \<Longrightarrow> succ_in (q @ [r]) z = (if hd_opt (rev q) = Some z then Some r else succ_in q z)"
proof (induction q)
  case (Cons a q)
  then show ?case by (cases q rule: rev_cases) (auto dest: hd_opt_Some)
qed simp

lemma qlist_push:
  assumes "qlist p q" "r \<notin> set q" "q_next p r = None"
  shows "qlist (p\<lparr>q_next := (case qt p of Some t \<Rightarrow> (q_next p)(t := Some r) | None \<Rightarrow> q_next p),
      qh := (case qt p of Some t \<Rightarrow> qh p | None \<Rightarrow> Some r), qt := Some r\<rparr>) (q @ [r])"
proof (cases q rule: rev_cases)
  case Nil
  then show ?thesis using assms by (auto simp: qlist_def)
next
  case (snoc us t)
  have d: "distinct (q @ [r])" "qt p = Some t" using assms(1,2) snoc by (auto simp: qlist_def)
  have "succ_in (q @ [r]) r = None" using d(1) by (simp add: succ_in_append)
  then show ?thesis using assms d snoc succ_in_snoc [OF d(1)] by (auto simp: qlist_def)
qed

lemma llist_push:
  assumes "llist p l" "r \<notin> set l"
  shows "llist (p\<lparr>l_next := (l_next p)(r := live p),
      l_prev := (case live p of Some h \<Rightarrow> (l_prev p)(h := Some r) | None \<Rightarrow> l_prev p), live := Some r\<rparr>) (r # l)"
proof (cases l)
  case Nil
  then show ?thesis using assms by (auto simp: llist_def fun_eq_iff)
next
  case (Cons h ys)
  have d: "distinct (rev l @ [r])" using assms by (auto simp: llist_def)
  have "succ_in (rev (r # l)) z = (if z = h then Some r else succ_in (rev l) z)" for z
  proof (cases "z \<in> set (rev l)")
    case True
    then show ?thesis using succ_in_snoc [OF d True] Cons by simp
  next
    case False
    then show ?thesis using Cons d by (simp add: succ_in_append)
  qed
  then have "succ_in (rev (r # l)) = (succ_in (rev l))(h := Some r)" by auto
  moreover have "succ_in (r # l) = (succ_in l)(r := Some h)" using Cons by auto
  ultimately show ?thesis using assms Cons by (simp add: llist_def)
qed

lemma llist_release:
  assumes "llist p l" "r \<in> set l"
  shows "llist (req_release p r) (remove1 r l)"
proof -
  obtain xs ys where l: "l = xs @ r # ys" using assms(2) by (meson split_list)
  have d: "distinct (xs @ r # ys)" "distinct (rev ys @ r # rev xs)" using assms(1) l by (auto simp: llist_def)
  have rm: "remove1 r l = xs @ ys" using d(1) l by (simp add: remove1_append)
  have at: "l_next p r = hd_opt ys" "l_prev p r = hd_opt (rev xs)" using succ_in_at [OF d(1)] assms(1) l by (simp_all add: llist_def)
  have ln: "l_next p = succ_in (xs @ r # ys)" "l_prev p = succ_in (rev ys @ r # rev xs)" using assms(1) l by (simp_all add: llist_def)
  have nx: "succ_in (xs @ ys) = (case hd_opt (rev xs) of None \<Rightarrow> (l_next p)(r := None) | Some a \<Rightarrow> (l_next p)(a := hd_opt ys, r := None))"
    unfolding ln(1) by (rule succ_in_remove [OF d(1)])
  have pv: "succ_in (rev (xs @ ys)) = (case hd_opt ys of None \<Rightarrow> (l_prev p)(r := None) | Some b \<Rightarrow> (l_prev p)(b := hd_opt (rev xs), r := None))"
    unfolding ln(2) using succ_in_remove [OF d(2)] by simp
  have neq: "hd_opt (rev xs) \<noteq> Some r" "hd_opt ys \<noteq> Some r" using d(1) hd_opt_Some [of "rev xs" r] hd_opt_Some [of ys r] by auto
  have hd: "live p = hd_opt (xs @ r # ys)" using assms(1) l by (simp add: llist_def)
  show ?thesis unfolding llist_def rm nx pv
    using d(1) at neq hd by (cases "hd_opt (rev xs)"; cases "hd_opt ys") (auto simp: req_release_def Let_def)
qed

lemma req_release_sel [simp]:
  "reqs (req_release p r) = (reqs p)(r := None)" "qh (req_release p r) = qh p" "qt (req_release p r) = qt p"
  "q_next (req_release p r) = (q_next p)(r := None)" "wk (req_release p r) = wk p" "stop (req_release p r) = stop p"
  "inflight (req_release p r) = inflight p" "rfresh (req_release p r) = rfresh p" "pst (req_release p r) = pst p"
  "umem (req_release p r) = umem p" "drain_err (req_release p r) = drain_err p"
  by (auto simp: req_release_def Let_def split: option.splits)

subsection \<open>The invariant\<close>

definition carries :: "wstate \<Rightarrow> nat option" where
  "carries v = (case v of W_run r \<Rightarrow> Some r | W_pub r _ \<Rightarrow> Some r | _ \<Rightarrow> None)"

definition working :: "wstate \<Rightarrow> bool" where
  "working v \<longleftrightarrow> v \<noteq> W_idle \<and> v \<noteq> W_exit"

definition held :: "pool \<Rightarrow> nat set" where
  "held p = {r. \<exists>v\<in>set (wk p). carries v = Some r}"

text \<open>The queue is a list of unfinished requests, the live list holds every request; no request is in two
  hands; a request is unfinished exactly while it is queued or held; \<open>inflight\<close> counts the requests
  queued and in work; a worker has left only if the pool is stopped and drained.\<close>

definition pool_ok :: "pool \<Rightarrow> nat list \<Rightarrow> bool" where
  "pool_ok p q \<longleftrightarrow> qlist p q \<and> (\<exists>l. llist p l \<and> set l = dom (reqs p)) \<and> (\<forall>r\<in>dom (reqs p). r < rfresh p)
     \<and> (\<forall>r. r \<notin> dom (reqs p) \<longrightarrow> q_next p r = None) \<and> set q \<union> held p \<subseteq> dom (reqs p) \<and> set q \<inter> held p = {}
     \<and> (\<forall>i j r. i < length (wk p) \<longrightarrow> j < length (wk p) \<longrightarrow> carries (wk p ! i) = Some r \<longrightarrow> carries (wk p ! j) = Some r \<longrightarrow> i = j)
     \<and> (\<forall>r x. reqs p r = Some x \<longrightarrow> (rdone x \<longleftrightarrow> r \<notin> set q \<union> held p))
     \<and> inflight p = (length q + length (filter working (wk p))) mod u64_mod
     \<and> (W_exit \<in> set (wk p) \<longrightarrow> stop p \<and> q = [])"

lemma length_filter_update:
  "i < length xs \<Longrightarrow> length (filter P (xs[i := v])) + (if P (xs ! i) then 1 else 0) = length (filter P xs) + (if P v then 1 else 0)"
proof (induction xs arbitrary: i)
  case (Cons a xs)
  then show ?case by (cases i) auto
qed simp

lemma held_nth: "r \<in> held p \<longleftrightarrow> (\<exists>j<length (wk p). carries (wk p ! j) = Some r)"
  unfolding held_def mem_Collect_eq by (metis in_set_conv_nth)

lemma held_update:
  assumes "i < length (wk p)" "wk p' = (wk p)[i := v]"
    "\<forall>j<length (wk p). j \<noteq> i \<longrightarrow> carries (wk p ! j) \<noteq> carries (wk p ! i) \<or> carries (wk p ! i) = None"
  shows "held p' = held p - {r. carries (wk p ! i) = Some r} \<union> {r. carries v = Some r}"
proof (rule set_eqI)
  fix r
  have "r \<in> held p' \<longleftrightarrow> (\<exists>j<length (wk p). carries ((wk p)[i := v] ! j) = Some r)"
    unfolding held_nth assms(2) by simp
  also have "\<dots> \<longleftrightarrow> carries v = Some r \<or> (\<exists>j<length (wk p). j \<noteq> i \<and> carries (wk p ! j) = Some r)"
    using assms(1) by (auto simp: nth_list_update)
  also have "\<dots> \<longleftrightarrow> r \<in> held p - {r. carries (wk p ! i) = Some r} \<union> {r. carries v = Some r}"
    using assms(1,3) by (auto simp: held_nth)
  finally show "r \<in> held p' \<longleftrightarrow> r \<in> held p - {r. carries (wk p ! i) = Some r} \<union> {r. carries v = Some r}" .
qed

lemma pool_okD:
  assumes "pool_ok p q"
  shows "qlist p q" "\<exists>l. llist p l \<and> set l = dom (reqs p)" "\<forall>r\<in>dom (reqs p). r < rfresh p"
    "set q \<subseteq> dom (reqs p)" "held p \<subseteq> dom (reqs p)" "set q \<inter> held p = {}"
    "reqs p r = Some x \<Longrightarrow> rdone x \<longleftrightarrow> r \<notin> set q \<union> held p"
    "inflight p = (length q + length (filter working (wk p))) mod u64_mod" "W_exit \<in> set (wk p) \<Longrightarrow> stop p \<and> q = []"
    "i < length (wk p) \<Longrightarrow> carries (wk p ! i) = Some z \<Longrightarrow> z \<in> held p"
    "i < length (wk p) \<Longrightarrow> \<forall>j<length (wk p). j \<noteq> i \<longrightarrow> carries (wk p ! j) \<noteq> carries (wk p ! i) \<or> carries (wk p ! i) = None"
proof -
  show "qlist p q" "\<exists>l. llist p l \<and> set l = dom (reqs p)" "\<forall>r\<in>dom (reqs p). r < rfresh p"
    "set q \<subseteq> dom (reqs p)" "held p \<subseteq> dom (reqs p)" "set q \<inter> held p = {}"
    "inflight p = (length q + length (filter working (wk p))) mod u64_mod" "W_exit \<in> set (wk p) \<Longrightarrow> stop p \<and> q = []"
    using assms unfolding pool_ok_def by simp_all
  show "reqs p r = Some x \<Longrightarrow> rdone x \<longleftrightarrow> r \<notin> set q \<union> held p" using assms unfolding pool_ok_def by blast
  show "i < length (wk p) \<Longrightarrow> carries (wk p ! i) = Some z \<Longrightarrow> z \<in> held p" by (auto simp: held_nth)
  have "\<forall>i j r. i < length (wk p) \<longrightarrow> j < length (wk p) \<longrightarrow> carries (wk p ! i) = Some r \<longrightarrow> carries (wk p ! j) = Some r \<longrightarrow> i = j"
    using assms unfolding pool_ok_def by (elim conjE)
  then show "i < length (wk p) \<Longrightarrow> \<forall>j<length (wk p). j \<noteq> i \<longrightarrow> carries (wk p ! j) \<noteq> carries (wk p ! i) \<or> carries (wk p ! i) = None"
    by (cases "carries (wk p ! i)") auto
qed

text \<open>A worker moves: what else has to be checked.\<close>

lemma pool_ok_move:
  assumes ok: "pool_ok p q" and i: "i < length (wk p)" and w': "wk p' = (wk p)[i := v]"
    and same: "live p' = live p" "l_next p' = l_next p" "l_prev p' = l_prev p" "rfresh p' = rfresh p" "q_next p' = q_next p" "stop p' = stop p"
    and dm: "dom (reqs p') = dom (reqs p)" and q': "qlist p' q'" "set q' \<subseteq> set q"
    and hv: "\<And>r. carries v = Some r \<Longrightarrow> r \<in> dom (reqs p) \<and> r \<notin> set q' \<and> (r \<notin> held p \<or> carries (wk p ! i) = Some r)"
    and dn: "\<And>r x. reqs p' r = Some x \<Longrightarrow> rdone x \<longleftrightarrow> r \<notin> set q' \<union> held p'"
    and fl: "inflight p' = (length q' + length (filter working (wk p'))) mod u64_mod" and ex: "v = W_exit \<Longrightarrow> stop p \<and> q' = []"
  shows "pool_ok p' q'"
proof -
  note o = pool_okD [OF ok]
  have h: "held p' = held p - {r. carries (wk p ! i) = Some r} \<union> {r. carries v = Some r}" by (rule held_update [OF i w' o(11) [OF i]])
  have "set q' \<union> held p' \<subseteq> dom (reqs p')" using o(4,5) h hv q'(2) dm by auto
  moreover have "set q' \<inter> held p' = {}" using h hv q'(2) o(6) by auto
  moreover have "j = k" if "j < length (wk p')" "k < length (wk p')" "carries (wk p' ! j) = Some r" "carries (wk p' ! k) = Some r" for j k r
  proof -
    have un: "a = b" if "a < length (wk p)" "b < length (wk p)" "carries (wk p ! a) = Some r" "carries (wk p ! b) = Some r" for a b
      using ok that unfolding pool_ok_def by blast
    have "a = i" if "a < length (wk p)" "a \<noteq> i" "carries v = Some r" "carries (wk p ! a) = Some r" for a
      using hv [OF that(3)] o(10) [OF that(1,4)] un [OF that(1) i that(4)] by blast
    then show ?thesis using that un i unfolding w' by (auto simp: nth_list_update split: if_splits)
  qed
  moreover have "W_exit \<in> set (wk p') \<longrightarrow> stop p' \<and> q' = []"
  proof
    assume "W_exit \<in> set (wk p')"
    then have "v = W_exit \<or> W_exit \<in> set (wk p)" unfolding w' using set_update_subset_insert by fastforce
    then show "stop p' \<and> q' = []" using ex o(9) q'(2) same(6) by auto
  qed
  moreover have "\<exists>l. llist p' l \<and> set l = dom (reqs p')" using o(2) same(1-3) dm by (simp add: llist_def)
  moreover have "\<forall>r. r \<notin> dom (reqs p') \<longrightarrow> q_next p' r = None" using ok same(5) dm by (simp add: pool_ok_def)
  moreover have "\<forall>r\<in>dom (reqs p'). r < rfresh p'" using o(3) same(4) dm by simp
  ultimately show ?thesis unfolding pool_ok_def using q'(1) dn fl by blast
qed

subsection \<open>Every step keeps the invariant\<close>

lemma carries_simps [simp]: "carries W_idle = None" "carries W_exit = None" "carries (W_run r) = Some r" "carries (W_pub r rc) = Some r" "carries (W_acct rc) = None"
  by (simp_all add: carries_def)

lemma working_simps [simp]: "\<not> working W_idle" "\<not> working W_exit" "working (W_run r)" "working (W_pub r rc)" "working (W_acct rc)"
  by (simp_all add: working_def)

lemma sub64_Suc: "sub64 (Suc n mod u64_mod) 1 = n mod u64_mod"
proof -
  have m: "1 mod u64_mod = 1" "0 < u64_mod" by (simp_all add: u64_mod_def)
  have "sub64 (Suc n mod u64_mod) 1 = (Suc n + (u64_mod - 1)) mod u64_mod" unfolding sub64_def m(1) by (rule mod_add_left_eq)
  also have "Suc n + (u64_mod - 1) = n + u64_mod" using m(2) by simp
  finally show ?thesis by simp
qed

lemma take_ok:
  assumes ok: "pool_ok p q" and i: "i < length (wk p)" and v: "wk p ! i = W_idle" and t: "worker_take p i = Some p'"
  shows "case qh p of None \<Rightarrow> pool_ok p' q \<and> q = [] | Some r \<Rightarrow> \<exists>q'. q = r # q' \<and> pool_ok p' q'"
proof (cases "qh p")
  case None
  have q: "q = []" using pool_okD(1) [OF ok] None by (simp add: qlist_def)
  have p': "p' = p\<lparr>wk := (wk p)[i := W_exit]\<rparr>" "stop p" using t None by (auto simp: worker_take_def split: if_splits)
  have h: "held p' = held p" using held_update [OF i, of p' W_exit] pool_okD(11) [OF ok i] v p'(1) by simp
  have "pool_ok p' q"
    by (rule pool_ok_move [OF ok i, of p' W_exit])
      (use p' q v pool_okD(1,7,8) [OF ok] h length_filter_update [OF i, of working W_exit] in \<open>auto simp: qlist_def\<close>)
  then show ?thesis using None q by simp
next
  case (Some r)
  obtain q' where q': "q = r # q'" "q_next p r = hd_opt q'" "qlist (p\<lparr>qh := hd_opt q', qt := (if q' = [] then None else qt p)\<rparr>) q'"
    by (rule qlist_take [OF pool_okD(1) [OF ok] Some])
  have p': "p' = p\<lparr>qh := hd_opt q', qt := (if q' = [] then None else qt p), wk := (wk p)[i := W_run r]\<rparr>"
    using t Some q'(2) by (auto simp: worker_take_def Let_def)
  have d: "r \<notin> set q'" "r \<in> dom (reqs p)" "r \<notin> held p" using pool_okD(1,4,6) [OF ok] q'(1) by (auto simp: qlist_def)
  have h: "held p' = insert r (held p)" using held_update [OF i, of p' "W_run r"] pool_okD(11) [OF ok i] v p' by simp
  have n: "length (filter working (wk p')) = Suc (length (filter working (wk p)))"
    using length_filter_update [OF i, of working "W_run r"] v p' by simp
  have "pool_ok p' q'"
  proof (rule pool_ok_move [OF ok i, of p' "W_run r"])
    show "qlist p' q'" using q'(3) by (simp add: p' qlist_def)
    show "rdone x \<longleftrightarrow> z \<notin> set q' \<union> held p'" if "reqs p' z = Some x" for z x
      using pool_okD(7) [OF ok, of z x] that h q'(1) by (auto simp: p')
    show "inflight p' = (length q' + length (filter working (wk p'))) mod u64_mod"
      using pool_okD(8) [OF ok] n q'(1) by (simp add: p')
  qed (use d q'(1) v in \<open>auto simp: p'\<close>)
  then show ?thesis using Some q'(1) by simp
qed

lemma rw_ok:
  assumes ok: "pool_ok p q" and i: "i < length (wk p)" and v: "wk p ! i = W_run r" and t: "worker_rw p i r = Some p'"
  shows "pool_ok p' q" "\<exists>rc. wk p' = (wk p)[i := W_pub r rc]" "reqs p' = reqs p"
proof -
  obtain rc where p': "wk p' = (wk p)[i := W_pub r rc]" "reqs p' = reqs p" "live p' = live p" "l_next p' = l_next p" "l_prev p' = l_prev p"
    "rfresh p' = rfresh p" "q_next p' = q_next p" "stop p' = stop p" "qh p' = qh p" "qt p' = qt p" "inflight p' = inflight p"
    using t by (auto simp: worker_rw_def Let_def split: bind_splits ls_op.splits option.splits prod.splits)
  have h: "held p' = held p" using held_update [OF i p'(1) pool_okD(11) [OF ok i]] pool_okD(10) [OF ok i] v by auto
  have n: "length (filter working (wk p')) = length (filter working (wk p))"
    using length_filter_update [OF i, of working "W_pub r rc"] v p'(1) by simp
  show "pool_ok p' q"
  proof (rule pool_ok_move [OF ok i p'(1)])
    show "qlist p' q" using pool_okD(1) [OF ok] p' by (simp add: qlist_def)
    show "rdone x \<longleftrightarrow> z \<notin> set q \<union> held p'" if "reqs p' z = Some x" for z x
      using pool_okD(7) [OF ok, of z x] that h p'(2) by simp
  qed (use p' n pool_okD(5,6,8) [OF ok] pool_okD(10) [OF ok i] v in auto)
  show "\<exists>rc. wk p' = (wk p)[i := W_pub r rc]" "reqs p' = reqs p" using p' by blast+
qed

lemma publish_ok:
  assumes ok: "pool_ok p q" and i: "i < length (wk p)" and v: "wk p ! i = W_pub r rc"
  shows "pool_ok (worker_publish p i r rc) q"
proof -
  let ?p = "worker_publish p i r rc"
  have w': "wk ?p = (wk p)[i := W_acct rc]" by (simp add: worker_publish_def)
  have r: "r \<in> held p" "r \<in> dom (reqs p)" "r \<notin> set q" using pool_okD(10) [OF ok i] pool_okD(5,6) [OF ok] v by auto
  have h: "held ?p = held p - {r}" using held_update [OF i w' pool_okD(11) [OF ok i]] v by auto
  have n: "length (filter working (wk ?p)) = length (filter working (wk p))"
    using length_filter_update [OF i, of working "W_acct rc"] v w' by simp
  show ?thesis
  proof (rule pool_ok_move [OF ok i w'])
    show "qlist ?p q" using pool_okD(1) [OF ok] by (simp add: qlist_def worker_publish_def)
    show "rdone x \<longleftrightarrow> z \<notin> set q \<union> held ?p" if "reqs ?p z = Some x" for z x
      using that pool_okD(7) [OF ok, of z] h r by (cases "z = r") (auto simp: worker_publish_def)
    show "dom (reqs ?p) = dom (reqs p)" using r(2) by (auto simp: worker_publish_def)
  qed (use n pool_okD(8) [OF ok] in \<open>auto simp: worker_publish_def\<close>)
qed

lemma account_ok:
  assumes ok: "pool_ok p q" and i: "i < length (wk p)" and v: "wk p ! i = W_acct rc"
  shows "pool_ok (worker_account p i rc) q"
proof -
  let ?p = "worker_account p i rc"
  have w': "wk ?p = (wk p)[i := W_idle]" by (simp add: worker_account_def)
  have h: "held ?p = held p" using held_update [OF i w' pool_okD(11) [OF ok i]] v by auto
  have n: "Suc (length (filter working (wk ?p))) = length (filter working (wk p))"
    using length_filter_update [OF i, of working W_idle] v w' by simp
  show ?thesis
  proof (rule pool_ok_move [OF ok i w'])
    show "qlist ?p q" using pool_okD(1) [OF ok] by (simp add: qlist_def worker_account_def)
    show "rdone x \<longleftrightarrow> z \<notin> set q \<union> held ?p" if "reqs ?p z = Some x" for z x
      using that pool_okD(7) [OF ok, of z x] h by (auto simp: worker_account_def)
    show "inflight ?p = (length q + length (filter working (wk ?p))) mod u64_mod"
    proof -
      have "inflight ?p = sub64 ((length q + Suc (length (filter working (wk ?p)))) mod u64_mod) 1"
        using pool_okD(8) [OF ok] n by (simp add: worker_account_def)
      also have "\<dots> = (length q + length (filter working (wk ?p))) mod u64_mod"
        using sub64_Suc [of "length q + length (filter working (wk ?p))"] by simp
      finally show ?thesis .
    qed
  qed (auto simp: worker_account_def)
qed

lemma release_ok:
  assumes ok: "pool_ok p q" and r: "reqs p r = Some x" "rdone x"
  shows "pool_ok (req_release p r) q"
proof -
  let ?p = "req_release p r"
  note o = pool_okD [OF ok]
  have nr: "r \<notin> set q" "r \<notin> held p" using o(7) [OF r(1)] r(2) by auto
  obtain l where l: "llist p l" "set l = dom (reqs p)" using o(2) by blast
  have "llist ?p (remove1 r l)" using llist_release [OF l(1)] l(2) r(1) by auto
  moreover have "set (remove1 r l) = dom (reqs ?p)" using l by (auto simp: llist_def)
  moreover have "held ?p = held p" by (simp add: held_def)
  moreover have "qlist ?p q" using o(1) nr(1) by (auto simp: qlist_def)
  moreover have "\<forall>z. z \<notin> dom (reqs ?p) \<longrightarrow> q_next ?p z = None" using ok by (auto simp: pool_ok_def)
  moreover have "\<forall>i j r. i < length (wk p) \<longrightarrow> j < length (wk p) \<longrightarrow> carries (wk p ! i) = Some r \<longrightarrow> carries (wk p ! j) = Some r \<longrightarrow> i = j"
    using ok unfolding pool_ok_def by (elim conjE)
  moreover have "rdone y \<longleftrightarrow> z \<notin> set q \<union> held p" if "reqs ?p z = Some y" for z y
    using that o(7) [of z y] by (auto split: if_splits)
  ultimately show ?thesis unfolding pool_ok_def using o(3-6,8,9) nr by auto
qed

lemma submit_some:
  assumes "submit p ko off n buf op outp = (p', rc, Some r)"
  shows "r = rfresh p" "rc = LS_OK" "\<not> stop p" "outp" "ls_key_ok ko" "n \<noteq> 0 \<longrightarrow> buf \<noteq> None" "0 < length (wk p)"
    "\<exists>s'. st_malloc (pst p) = (True, s') \<and> p' = p\<lparr>pst := s', rfresh := r + 1,
       reqs := (reqs p)(r \<mapsto> \<lparr>r_op = op, r_key = the ko, r_off = off, r_n = n, r_buf = buf, status = 0, rdone = False\<rparr>),
       l_next := (l_next p)(r := live p), l_prev := (case live p of Some h \<Rightarrow> (l_prev p)(h := Some r) | None \<Rightarrow> l_prev p), live := Some r,
       q_next := (case qt p of Some t \<Rightarrow> (q_next p)(t := Some r) | None \<Rightarrow> q_next p),
       qh := (case qt p of Some t \<Rightarrow> qh p | None \<Rightarrow> Some r), qt := Some r, inflight := add64 (inflight p) 1\<rparr>"
  using assms by (auto simp: submit_def Let_def split: if_splits prod.splits option.splits)

lemma submit_none:
  assumes "submit p ko off n buf op outp = (p', rc, None)"
  shows "\<exists>s'. p' = p\<lparr>pst := s'\<rparr> \<and> fbytes (fd s') = fbytes (fd (pst p))" "rc \<noteq> LS_OK"
proof -
  obtain ok s' where m: "st_malloc (pst p) = (ok, s')" by fastforce
  note a = st_malloc_props(2) [OF m]
  have "p' = p \<or> p' = p\<lparr>pst := s'\<rparr>" "rc \<noteq> LS_OK"
    using assms m by (auto simp: submit_def Let_def split: if_splits)
  then show "\<exists>s'. p' = p\<lparr>pst := s'\<rparr> \<and> fbytes (fd s') = fbytes (fd (pst p))" "rc \<noteq> LS_OK"
    using a by (auto intro: exI [of _ "pst p"])
qed

lemma pool_ok_cong:
  assumes "pool_ok p q" "qh p' = qh p" "qt p' = qt p" "q_next p' = q_next p" "live p' = live p" "l_next p' = l_next p" "l_prev p' = l_prev p"
    "reqs p' = reqs p" "rfresh p' = rfresh p" "wk p' = wk p" "inflight p' = inflight p" "stop p \<longrightarrow> stop p'"
  shows "pool_ok p' q"
  using assms unfolding pool_ok_def qlist_def llist_def held_def by (simp only:) blast

lemma submit_ok:
  assumes ok: "pool_ok p q" and s: "submit p ko off n buf op outp = (p', rc, Some r)"
  shows "pool_ok p' (q @ [r])"
proof -
  note o = pool_okD [OF ok] and sb = submit_some [OF s]
  have nr: "r \<notin> dom (reqs p)" using o(3) sb(1) by fastforce
  then have nq: "r \<notin> set q" "r \<notin> held p" "q_next p r = None" using o(4,5) ok by (auto simp: pool_ok_def)
  obtain s' where p': "p' = p\<lparr>pst := s', rfresh := r + 1,
       reqs := (reqs p)(r \<mapsto> \<lparr>r_op = op, r_key = the ko, r_off = off, r_n = n, r_buf = buf, status = 0, rdone = False\<rparr>),
       l_next := (l_next p)(r := live p), l_prev := (case live p of Some h \<Rightarrow> (l_prev p)(h := Some r) | None \<Rightarrow> l_prev p), live := Some r,
       q_next := (case qt p of Some t \<Rightarrow> (q_next p)(t := Some r) | None \<Rightarrow> q_next p),
       qh := (case qt p of Some t \<Rightarrow> qh p | None \<Rightarrow> Some r), qt := Some r, inflight := add64 (inflight p) 1\<rparr>" using sb(8) by blast
  obtain l where l: "llist p l" "set l = dom (reqs p)" using o(2) by blast
  have "llist p' (r # l)" using llist_push [OF l(1)] l(2) nr by (simp add: p' llist_def)
  moreover have "set (r # l) = dom (reqs p')" using l(2) by (auto simp: p')
  ultimately have "\<exists>l. llist p' l \<and> set l = dom (reqs p')" by blast
  moreover have "qlist p' (q @ [r])" using qlist_push [OF o(1) nq(1,3)] by (simp add: p' qlist_def)
  moreover have h: "held p' = held p" "wk p' = wk p" by (simp_all add: p' held_def)
  moreover have "\<forall>z. z \<notin> dom (reqs p') \<longrightarrow> q_next p' z = None"
  proof (intro allI impI)
    fix z assume z: "z \<notin> dom (reqs p')"
    have "qt p = Some t \<Longrightarrow> t \<in> dom (reqs p)" for t using o(1,4) hd_opt_Some [of "rev q" t] by (auto simp: qlist_def)
    then show "q_next p' z = None" using z ok by (auto simp: p' pool_ok_def split: option.splits)
  qed
  moreover have "\<forall>i j r. i < length (wk p) \<longrightarrow> j < length (wk p) \<longrightarrow> carries (wk p ! i) = Some r \<longrightarrow> carries (wk p ! j) = Some r \<longrightarrow> i = j"
    using ok unfolding pool_ok_def by (elim conjE)
  moreover have "rdone y \<longleftrightarrow> z \<notin> set (q @ [r]) \<union> held p'" if "reqs p' z = Some y" for z y
    using that o(7) [of z y] h(1) by (auto simp: p' split: if_splits)
  moreover have "inflight p' = (length (q @ [r]) + length (filter working (wk p'))) mod u64_mod"
  proof -
    have "inflight p' = (inflight p + 1) mod u64_mod" by (simp add: p' add64_def)
    then show ?thesis using o(8) h(2) mod_Suc_eq [of "length q + length (filter working (wk p))" u64_mod] by simp
  qed
  moreover have "W_exit \<notin> set (wk p)" using o(9) sb(3) by blast
  moreover have "\<forall>z\<in>dom (reqs p'). z < rfresh p'" using o(3) sb(1) by (auto simp: p' less_Suc_eq)
  moreover have "set (q @ [r]) \<union> held p' \<subseteq> dom (reqs p')" "set (q @ [r]) \<inter> held p' = {}" using o(4,5,6) nq h(1) by (auto simp: p')
  ultimately show ?thesis unfolding pool_ok_def by (auto simp del: set_append)
qed

lemma pool_init_ok: "pool_ok (pool_init s n m) []"
proof -
  have "\<not> working W_idle" "carries W_idle = None" by simp_all
  then show ?thesis
    by (auto simp: pool_ok_def pool_init_def qlist_def llist_def held_def fun_eq_iff intro!: exI [of _ "[]"])
qed

lemma pstep_ok:
  assumes "pstep p e p'" "pool_ok p q"
  shows "\<exists>q'. pool_ok p' q' \<and> (case e of E_submit r \<Rightarrow> q' = q @ [r] | E_take r \<Rightarrow> q = r # q' | _ \<Rightarrow> q' = q)"
  using assms
proof (induction rule: pstep.induct)
  case (submit p ko off n buf op outp p' rc ro)
  show ?case
  proof (cases ro)
    case None
    obtain s' where "p' = p\<lparr>pst := s'\<rparr>" using submit_none [OF submit.hyps [unfolded None]] by blast
    then show ?thesis using None pool_ok_cong [OF submit.prems, of p'] by simp
  next
    case (Some r)
    then show ?thesis using submit_ok [OF submit.prems] submit.hyps by simp
  qed
next
  case (take i p p')
  have "worker_take p i = Some p'" using take.hyps by (simp add: worker_def)
  then show ?case using take_ok [OF take.prems take.hyps(1,2)] by (auto split: option.splits)
next
  case (rw i p r p' rc)
  have "worker_rw p i r = Some p'" using rw.hyps by (simp add: worker_def)
  then show ?case using rw_ok(1) [OF rw.prems rw.hyps(1,2)] by simp
next
  case (publish i p r rc p')
  have "p' = worker_publish p i r rc" using publish.hyps by (simp add: worker_def)
  then show ?case using publish_ok [OF publish.prems publish.hyps(1,2)] by simp
next
  case (account i p rc p')
  have "p' = worker_account p i rc" using account.hyps by (simp add: worker_def)
  then show ?case using account_ok [OF account.prems account.hyps(1,2)] by simp
next
  case (wait p r p' rc)
  then obtain x where "reqs p r = Some x" "rdone x" "p' = req_release p r"
    by (auto simp: ls_wait_def split: bind_splits if_splits)
  then show ?case using release_ok [OF wait.prems] by simp
next
  case (stop p)
  then show ?case using pool_ok_cong [OF stop, of "pool_stop_flag p"] by (simp add: pool_stop_flag_def)
next
  case (caller p m)
  then show ?case using pool_ok_cong [OF caller.prems, of "p\<lparr>umem := m\<rparr>"] by simp
qed

definition submitted :: "event list \<Rightarrow> nat list" where
  "submitted es = concat (map (\<lambda>e. case e of E_submit r \<Rightarrow> [r] | _ \<Rightarrow> []) es)"

definition taken :: "event list \<Rightarrow> nat list" where
  "taken es = concat (map (\<lambda>e. case e of E_take r \<Rightarrow> [r] | _ \<Rightarrow> []) es)"

lemma runs_ok:
  assumes "runs p es p'" "pool_ok p []"
  shows "\<exists>q. pool_ok p' q \<and> submitted es = taken es @ q"
  using assms
proof (induction rule: runs.induct)
  case (refl p)
  then show ?case by (auto simp: submitted_def taken_def)
next
  case (step p es q e q')
  then obtain w where w: "pool_ok q w" "submitted es = taken es @ w" by blast
  obtain w' where "pool_ok q' w'" "case e of E_submit r \<Rightarrow> w' = w @ [r] | E_take r \<Rightarrow> w = r # w' | _ \<Rightarrow> w' = w"
    using pstep_ok [OF step.hyps(2) w(1)] by blast
  then show ?case using w(2) by (auto simp: submitted_def taken_def split: event.splits)
qed

end
