(* ===== verification/Pool.thy ===== *)
theory Pool
  imports Async
begin

text \<open>
  Properties of the asynchronous layer: requests are taken in the order of submission, each is run
  exactly once, \<open>ls_wait\<close> returns what \<open>ls_rw\<close> returned, and a stopped pool drains and leaves nothing
  behind.
\<close>

subsection \<open>Results\<close>

definition ran_of :: "nat \<Rightarrow> event list \<Rightarrow> event list" where
  "ran_of r es = filter (\<lambda>e. \<exists>rc. e = E_rw r rc) es"

text \<open>What the trace says of the requests of a state.\<close>

definition told :: "pool \<Rightarrow> nat list \<Rightarrow> event list \<Rightarrow> bool" where
  "told p q es \<longleftrightarrow> (\<forall>r. length (ran_of r es) \<le> 1)
     \<and> (\<forall>r. r \<in> set q \<or> W_run r \<in> set (wk p) \<or> rfresh p \<le> r \<longrightarrow> ran_of r es = [])
     \<and> (\<forall>r rc. W_pub r rc \<in> set (wk p) \<longrightarrow> E_rw r rc \<in> set es)
     \<and> (\<forall>r x. reqs p r = Some x \<longrightarrow> rdone x \<longrightarrow> E_rw r (status x) \<in> set es)"

lemma ran_of_snoc: "ran_of r (es @ [e]) = ran_of r es @ (if \<exists>rc. e = E_rw r rc then [e] else [])"
  by (simp add: ran_of_def)

lemma told_quiet:
  assumes "told p q es" "\<And>r rc. e \<noteq> E_rw r rc" "rfresh p \<le> rfresh p'"
    and "\<And>r. r \<in> set q' \<Longrightarrow> r \<in> set q \<or> rfresh p \<le> r" "\<And>r. W_run r \<in> set (wk p') \<Longrightarrow> W_run r \<in> set (wk p) \<or> r \<in> set q"
    and "\<And>r rc. W_pub r rc \<in> set (wk p') \<Longrightarrow> W_pub r rc \<in> set (wk p)"
    and "\<And>r x. reqs p' r = Some x \<Longrightarrow> rdone x \<Longrightarrow> reqs p r = Some x \<or> W_pub r (status x) \<in> set (wk p)"
  shows "told p' q' (es @ [e])"
proof -
  have n: "ran_of r (es @ [e]) = ran_of r es" for r using assms(2) by (simp add: ran_of_snoc)
  have a: "\<forall>r. r \<in> set q \<or> W_run r \<in> set (wk p) \<or> rfresh p \<le> r \<longrightarrow> ran_of r es = []" using assms(1) unfolding told_def by blast
  have "ran_of r es = []" if "r \<in> set q' \<or> W_run r \<in> set (wk p') \<or> rfresh p' \<le> r" for r
    using that a assms(3) assms(4,5) [of r] by (meson order_trans)
  then show ?thesis using assms(1) assms(6,7) unfolding told_def n set_append by blast
qed

lemma in_update: "v \<in> set (xs[i := w]) \<Longrightarrow> v = w \<or> v \<in> set xs"
  using set_update_subset_insert [of xs i w] by blast

lemma told_rw:
  assumes "told p q es" "pool_ok p q" "i < length (wk p)" "wk p ! i = W_run r" "worker_rw p i r = Some p'" "wk p' ! i = W_pub r rc"
  shows "told p' q (es @ [E_rw r rc])"
proof -
  note o = pool_okD [OF assms(2)] and k = rw_ok [OF assms(2-5)]
  have w: "wk p' = (wk p)[i := W_pub r rc]" using k(2) assms(3,6) by auto
  have fr: "rfresh p' = rfresh p" using assms(5) by (auto simp: worker_rw_def Let_def split: bind_splits ls_op.splits option.splits prod.splits)
  have r: "r \<in> held p" "r \<notin> set q" "r < rfresh p" using o(10) [OF assms(3)] o(3,5,6) assms(4) by auto
  have z: "ran_of r es = []" using assms(1,3,4) unfolding told_def by (metis nth_mem)
  have no: "W_run r \<notin> set (wk p')"
  proof
    assume "W_run r \<in> set (wk p')"
    then obtain j where j: "j < length (wk p)" "(wk p)[i := W_pub r rc] ! j = W_run r" unfolding w in_set_conv_nth by auto
    then have "j \<noteq> i" by auto
    then have "wk p ! j = W_run r" using j(2) by simp
    then show False using o(11) [OF assms(3)] j(1) \<open>j \<noteq> i\<close> assms(4) by force
  qed
  have run: "W_run z \<in> set (wk p') \<Longrightarrow> W_run z \<in> set (wk p)" for z using in_update [of "W_run z" "wk p" i] w by auto
  have pub: "W_pub z c \<in> set (wk p') \<Longrightarrow> (z = r \<and> c = rc) \<or> W_pub z c \<in> set (wk p)" for z c using in_update [of "W_pub z c" "wk p" i] w by auto
  have n: "ran_of z (es @ [E_rw r rc]) = (if z = r then [E_rw r rc] else ran_of z es)" for z using z by (simp add: ran_of_snoc)
  have "ran_of y es = [] \<and> y \<noteq> r" if "y \<in> set q \<or> W_run y \<in> set (wk p') \<or> rfresh p' \<le> y" for y
    using that assms(1) run [of y] no r fr unfolding told_def by auto
  moreover have "length (ran_of y es) \<le> 1" for y using assms(1) unfolding told_def by blast
  moreover have "E_rw y c \<in> set (es @ [E_rw r rc])" if "W_pub y c \<in> set (wk p')" for y c
    using assms(1) pub [OF that] unfolding told_def by auto
  moreover have "E_rw y (status x) \<in> set (es @ [E_rw r rc])" if "reqs p' y = Some x" "rdone x" for y x
    using assms(1) that k(3) unfolding told_def by auto
  ultimately show ?thesis unfolding told_def n by auto
qed

lemma told_step:
  assumes "pstep p e p'" "pool_ok p q" "told p q es"
    and "pool_ok p' q'" "case e of E_submit r \<Rightarrow> q' = q @ [r] | E_take r \<Rightarrow> q = r # q' | _ \<Rightarrow> q' = q"
  shows "told p' q' (es @ [e])"
  using assms
proof (induction rule: pstep.induct)
  case (submit p ko off n buf op outp p' rc ro)
  show ?case
  proof (cases ro)
    case None
    obtain s' where "p' = p\<lparr>pst := s'\<rparr>" using submit_none [OF submit.hyps [unfolded None]] by blast
    then show ?thesis using None submit.prems(4) by (intro told_quiet [OF submit.prems(2)]) auto
  next
    case (Some r)
    note s = submit_some [OF submit.hyps [unfolded Some]]
    show ?thesis using s(1,8) Some submit.prems(4) by (intro told_quiet [OF submit.prems(2)]) (auto split: if_splits)
  qed
next
  case (take i p p')
  have t: "worker_take p i = Some p'" using take.hyps by (simp add: worker_def)
  show ?case
  proof (cases "qh p")
    case None
    then have "p' = p\<lparr>wk := (wk p)[i := W_exit]\<rparr>" using t by (auto simp: worker_take_def split: if_splits)
    then show ?thesis using None take.prems(4) by (intro told_quiet [OF take.prems(2)]) (auto dest!: in_update)
  next
    case (Some r)
    then have w: "wk p' = (wk p)[i := W_run r]" "reqs p' = reqs p" "rfresh p' = rfresh p" using t by (auto simp: worker_take_def Let_def)
    have "q = r # q'" using Some take.prems(4) by simp
    then show ?thesis using w Some by (intro told_quiet [OF take.prems(2)]) (auto dest!: in_update)
  qed
next
  case (rw i p r p' rc)
  then show ?case using told_rw [OF rw.prems(2,1) rw.hyps(1,2)] by (simp add: worker_def)
next
  case (publish i p r rc p')
  have p': "p' = worker_publish p i r rc" using publish.hyps by (simp add: worker_def)
  have "W_pub r rc \<in> set (wk p)" using publish.hyps(1,2) by (metis nth_mem)
  then show ?case using publish.prems(4) p'
    by (intro told_quiet [OF publish.prems(2)]) (auto simp: worker_publish_def dest!: in_update split: if_splits)
next
  case (account i p rc p')
  have "p' = worker_account p i rc" using account.hyps by (simp add: worker_def)
  then show ?case using account.prems(4) by (intro told_quiet [OF account.prems(2)]) (auto simp: worker_account_def dest!: in_update)
next
  case (wait p r p' rc)
  then have "p' = req_release p r" by (auto simp: ls_wait_def split: bind_splits if_splits)
  then show ?case using wait.prems(4) by (intro told_quiet [OF wait.prems(2)]) (auto split: if_splits)
next
  case (stop p)
  then show ?case by (intro told_quiet [OF stop.prems(2)]) (auto simp: pool_stop_flag_def)
next
  case (caller p m)
  then show ?case by (intro told_quiet [OF caller.prems(2)]) auto
qed

lemma runs_told:
  assumes "runs p es p'" "pool_ok p []" "reqs p = Map.empty" "\<forall>v\<in>set (wk p). v = W_idle"
  shows "\<exists>q. pool_ok p' q \<and> submitted es = taken es @ q \<and> told p' q es"
  using assms
proof (induction rule: runs.induct)
  case (refl p)
  then have "told p [] []" by (auto simp: told_def ran_of_def)
  then show ?case using refl by (auto simp: submitted_def taken_def)
next
  case (step p es q e q')
  then obtain w where w: "pool_ok q w" "submitted es = taken es @ w" "told q w es" by blast
  obtain w' where w': "pool_ok q' w'" "case e of E_submit r \<Rightarrow> w' = w @ [r] | E_take r \<Rightarrow> w = r # w' | _ \<Rightarrow> w' = w"
    using pstep_ok [OF step.hyps(2) w(1)] by blast
  have "submitted (es @ [e]) = taken (es @ [e]) @ w'" using w(2) w'(2) by (auto simp: submitted_def taken_def split: event.splits)
  then show ?case using w' told_step [OF step.hyps(2) w(1,3) w'] by blast
qed

subsection \<open>One request runs\<close>

text \<open>\<open>ls_rw\<close> on behalf of a request: it returns, keeps the store well-formed, and takes a bounded amount of
  file space.\<close>

lemma rw_read_returns:
  assumes "store_inv s" "ls_key_ok (Some k)" "off < u64_mod" "n < u64_mod" "n \<noteq> 0 \<longrightarrow> outp"
  shows "\<exists>s' rc out. ls_rw s (Some k) off n outp None LS_OP_READ = Some (s', rc, out) \<and> store_inv s' \<and> opts s' = opts s
     \<and> store_abs s' = store_abs s \<and> file_end s' = file_end s"
proof -
  have "ls_read s (Some k) off n True = ls_rw s (Some k) off n outp None LS_OP_READ"
    using assms(2,5) by (cases "n = 0") (simp_all add: ls_read_def ls_rw_def)
  then show ?thesis using ls_read_spec [OF assms(1-4)] by auto
qed

lemma finite_keys:
  assumes "store_inv s"
  shows "finite (dom (store_abs s))"
proof -
  have "dom (store_abs s) \<subseteq> rkey s ` dom (recs s)"
    using toc_find_iff [OF store_invD(1) [OF assms]] by (auto simp: store_abs_def split: option.splits)
  then show ?thesis using card_keys(2) [OF assms] finite_surj by blast
qed

lemma card_insert_le1: "finite A \<Longrightarrow> card (insert x A) \<le> card A + 1"
  by (simp add: card_insert_if)

lemma rw_write_returns:
  assumes "store_inv s" "ls_key_ok (Some k)" "off + n < u64_mod" "fits s (off + n)" "n \<noteq> 0 \<longrightarrow> wb \<noteq> None" "\<forall>bs. wb = Some bs \<longrightarrow> length bs = n"
  shows "\<exists>s' rc out. ls_rw s (Some k) off n False wb LS_OP_WRITE = Some (s', rc, out) \<and> store_inv s' \<and> opts s' = opts s
     \<and> card (dom (store_abs s')) \<le> card (dom (store_abs s)) + 1 \<and> file_end s' \<le> demand s + (off + n) + 4095"
proof -
  define bs where "bs = (case wb of None \<Rightarrow> [] | Some bs \<Rightarrow> bs)"
  have l: "length bs = n" using assms(5,6) by (cases wb) (auto simp: bs_def)
  have w: "ls_write s (Some k) off (length bs) (Some bs) = map_option (\<lambda>(s', rc, out). (s', rc)) (ls_rw s (Some k) off n False wb LS_OP_WRITE)"
  proof -
    have "ls_rw s (Some k) off n False (Some bs) LS_OP_WRITE = ls_rw s (Some k) off n False wb LS_OP_WRITE"
    proof (cases wb)
      case None
      then have "n = 0" using assms(5) by simp
      then show ?thesis unfolding ls_rw_def bs_def None option.case ls_op.case by simp
    qed (simp add: bs_def)
    then show ?thesis using assms(2) l by (cases "ls_rw s (Some k) off n False wb LS_OP_WRITE") (auto simp: ls_write_def)
  qed
  have fin: "finite (dom (store_abs s))" by (rule finite_keys [OF assms(1)])
  obtain s' rc where o: "ls_write s (Some k) off (length bs) (Some bs) = Some (s', rc)"
    "if kv_frozen (opts s) (store_abs s) k (off + length bs)
     then rc = LS_ERR_MODE \<and> store_inv s' \<and> opts s' = opts s \<and> advances (fd s) (fd s') \<and> store_abs s' = store_abs s \<and> file_end s' = file_end s
     else write_outcome s k off bs s' rc" using ls_write_spec [OF assms(1,2), of off bs] assms(3,4) l by auto
  have "dom (store_abs s') \<subseteq> insert k (dom (store_abs s))"
    using o(2) by (cases "rc = LS_OK") (auto simp: write_outcome_def kv_write_def write_fails_def split: if_splits)
  then have "card (dom (store_abs s')) \<le> card (dom (store_abs s)) + 1"
    using card_mono [OF finite.insertI [OF fin]] card_insert_le1 [OF fin, of k] by (meson order_trans)
  moreover have "file_end s \<le> demand s" by (simp add: demand_def)
  then have "store_inv s'" "opts s' = opts s" "file_end s' \<le> demand s + (off + n) + 4095"
    using o(2) l by (auto simp: write_outcome_def split: if_splits)
  moreover obtain out where "ls_rw s (Some k) off n False wb LS_OP_WRITE = Some (s', rc, out)"
    using w o(1) by (cases "ls_rw s (Some k) off n False wb LS_OP_WRITE") auto
  ultimately show ?thesis by blast
qed

text \<open>Enough room for every request that has not run yet, each with a buffer of the promised size.\<close>

definition pend :: "pool \<Rightarrow> nat list \<Rightarrow> nat set" where
  "pend p q = set q \<union> {r. W_run r \<in> set (wk p)}"

definition top_of :: "pool \<Rightarrow> nat \<Rightarrow> nat" where
  "top_of p r = (case reqs p r of Some x \<Rightarrow> (if r_op x = LS_OP_WRITE then r_off x + r_n x else 0) | None \<Rightarrow> 0)"

definition req_ok :: "pool \<Rightarrow> ls_req \<Rightarrow> bool" where
  "req_ok p x \<longleftrightarrow> ls_key_ok (Some (r_key x)) \<and> r_off x < u64_mod \<and> r_n x < u64_mod \<and> (r_n x \<noteq> 0 \<longrightarrow> r_buf x \<noteq> None)
     \<and> (\<forall>a. r_buf x = Some a \<longrightarrow> r_n x \<le> length (umem p a))"

definition step_cost :: "ls_store \<Rightarrow> nat \<Rightarrow> nat" where
  "step_cost s m = memory_budget (opts s) + 4096 * (card (dom (store_abs s)) + m) + 4096"

definition room :: "pool \<Rightarrow> nat list \<Rightarrow> bool" where
  "room p q \<longleftrightarrow> store_inv (pst p) \<and> (\<forall>r\<in>pend p q. \<forall>x. reqs p r = Some x \<longrightarrow> req_ok p x)
     \<and> file_end (pst p) + (card (pend p q) + 1) * step_cost (pst p) (card (pend p q)) + (\<Sum>r\<in>pend p q. top_of p r) + 4096 \<le> u64_mod"

lemma finite_pend: "finite (pend p q)"
proof -
  have "{r. W_run r \<in> set (wk p)} \<subseteq> (\<lambda>v. the (carries v)) ` set (wk p)" by (force simp: image_iff)
  then show ?thesis unfolding pend_def using finite_surj by blast
qed

lemma room_arith:
  assumes "fe + (Suc m + 1) * (b + 4096 * (c + Suc m) + 4096) + (t + rest) + 4096 \<le> (u :: nat)" "d \<le> fe + b + 4096 * c" "fe' \<le> d + t + 4095" "c' \<le> c + 1"
  shows "d + t + 4096 \<le> u" "fe' + (m + 1) * (b + 4096 * (c' + m) + 4096) + rest + 4096 \<le> u"
proof -
  define x where "x = b + 4096 * (c + Suc m) + 4096"
  define y where "y = (m + 1) * x"
  have "(Suc m + 1) * x = y + x" by (simp add: y_def)
  then have e: "fe + y + x + (t + rest) + 4096 \<le> u" using assms(1) unfolding x_def [symmetric] by linarith
  have x: "b + 4096 * c + 4096 \<le> x" by (simp add: x_def)
  then show "d + t + 4096 \<le> u" using assms(2) e by linarith
  have "(m + 1) * (b + 4096 * (c' + m) + 4096) \<le> y"
    unfolding y_def by (rule mult_le_mono2) (use assms(4) in \<open>simp add: x_def\<close>)
  then show "fe' + (m + 1) * (b + 4096 * (c' + m) + 4096) + rest + 4096 \<le> u" using e x assms(2,3) by linarith
qed

lemma pend_rw:
  assumes ok: "pool_ok p q" and i: "i < length (wk p)" and v: "wk p ! i = W_run r" and w': "wk p' = (wk p)[i := W_pub r rc]"
  shows "pend p' q \<subseteq> pend p q - {r}"
proof
  note o = pool_okD [OF ok]
  fix z assume "z \<in> pend p' q"
  then consider "z \<in> set q" | "W_run z \<in> set ((wk p)[i := W_pub r rc])" unfolding pend_def w' by blast
  then show "z \<in> pend p q - {r}"
  proof cases
    case 1
    then show ?thesis using o(6) o(10) [OF i] v by (auto simp: pend_def)
  next
    case 2
    then obtain j where j: "j < length (wk p)" "(wk p)[i := W_pub r rc] ! j = W_run z" unfolding in_set_conv_nth by auto
    then have "j \<noteq> i" by auto
    then have zj: "wk p ! j = W_run z" using j(2) by simp
    then have "z \<noteq> r" using o(11) [OF i] v j(1) \<open>j \<noteq> i\<close> by force
    then show ?thesis using zj j(1) nth_mem by (force simp: pend_def)
  qed
qed

lemma serve_returns:
  assumes inv: "store_inv s" and rx: "req_ok p x" and fit: "r_op x = LS_OP_WRITE \<Longrightarrow> r_off x + r_n x < u64_mod \<and> fits s (r_off x + r_n x)"
  shows "\<exists>s' rc out. ls_rw s (Some (r_key x)) (r_off x) (r_n x) (r_op x = LS_OP_READ \<and> r_buf x \<noteq> None)
       (if r_op x = LS_OP_WRITE then req_buf p x else None) (r_op x) = Some (s', rc, out)
     \<and> store_inv s' \<and> opts s' = opts s \<and> card (dom (store_abs s')) \<le> card (dom (store_abs s)) + 1
     \<and> file_end s' \<le> demand s + (if r_op x = LS_OP_WRITE then r_off x + r_n x else 0) + 4095"
proof (cases "r_op x")
  case LS_OP_READ
  then show ?thesis using rw_read_returns [OF inv, of "r_key x" "r_off x" "r_n x" "r_buf x \<noteq> None"] rx
    by (auto simp: req_ok_def demand_def)
next
  case LS_OP_WRITE
  have "\<forall>bs. req_buf p x = Some bs \<longrightarrow> length bs = r_n x" "r_n x \<noteq> 0 \<longrightarrow> req_buf p x \<noteq> None"
    using rx by (auto simp: req_buf_def req_ok_def)
  then show ?thesis using rw_write_returns [OF inv, of "r_key x" "r_off x" "r_n x" "req_buf p x"] rx LS_OP_WRITE fit
    by (auto simp: req_ok_def)
qed

text \<open>A worker that has a request finishes its call, and there is still room for the others.\<close>

lemma worker_rw_returns:
  assumes ok: "pool_ok p q" and rm: "room p q" and i: "i < length (wk p)" and v: "wk p ! i = W_run r"
  shows "\<exists>p'. worker_rw p i r = Some p' \<and> room p' q \<and> stop p' = stop p"
proof -
  note o = pool_okD [OF ok]
  have r: "r \<in> held p" "r \<notin> set q" "r \<in> pend p q" using o(10) [OF i] v o(6) i by (auto simp: pend_def dest: nth_mem)
  obtain x where x: "reqs p r = Some x" using r(1) o(5) by blast
  have inv: "store_inv (pst p)" and rx: "req_ok p x" using rm r(3) x unfolding room_def by blast+
  let ?s = "pst p" and ?rest = "pend p q - {r}"
  let ?m = "card ?rest" and ?t = "top_of p r"
  have m: "card (pend p q) = Suc ?m" using card_Suc_Diff1 [OF finite_pend r(3)] by simp
  have sm: "(\<Sum>z\<in>pend p q. top_of p z) = ?t + (\<Sum>z\<in>?rest. top_of p z)" by (rule sum.remove [OF finite_pend r(3)])
  have bound: "file_end ?s + (Suc ?m + 1) * (memory_budget (opts ?s) + 4096 * (card (dom (store_abs ?s)) + Suc ?m) + 4096)
      + (?t + (\<Sum>z\<in>?rest. top_of p z)) + 4096 \<le> u64_mod" using rm m sm by (simp add: room_def step_cost_def)
  note db = demand_bound [OF inv]
  have t: "?t = (if r_op x = LS_OP_WRITE then r_off x + r_n x else 0)" using x by (simp add: top_of_def)
  have "fits (pst p) ?t" using room_arith(1) [OF bound db order_refl le_add1] by (simp add: fits_def)
  moreover have "?t < u64_mod" using bound by linarith
  ultimately have "r_op x = LS_OP_WRITE \<Longrightarrow> r_off x + r_n x < u64_mod \<and> fits ?s (r_off x + r_n x)" using t by simp
  note sr = serve_returns [OF inv rx this, folded t]
  obtain s' rc out where rw: "ls_rw ?s (Some (r_key x)) (r_off x) (r_n x) (r_op x = LS_OP_READ \<and> r_buf x \<noteq> None)
      (if r_op x = LS_OP_WRITE then req_buf p x else None) (r_op x) = Some (s', rc, out)"
    and s': "store_inv s'" "opts s' = opts ?s" "card (dom (store_abs s')) \<le> card (dom (store_abs ?s)) + 1" "file_end s' \<le> demand ?s + ?t + 4095" using sr by blast
  then obtain p' where p': "worker_rw p i r = Some p'" using x by (auto simp: worker_rw_def Let_def)
  have sel: "pst p' = s'" "reqs p' = reqs p" "wk p' = (wk p)[i := W_pub r rc]" "stop p' = stop p" "\<And>a. length (umem p a) \<le> length (umem p' a)"
    using p' x rw by (auto simp: worker_rw_def Let_def blit_def split: ls_op.splits option.splits)
  note pd = pend_rw [OF ok i v sel(3)]
  have top: "top_of p' = top_of p" using sel(2) by (simp add: top_of_def fun_eq_iff)
  have cm: "card (pend p' q) \<le> ?m" by (rule card_mono) (use pd finite_pend in auto)
  have "(\<Sum>z\<in>pend p' q. top_of p' z) \<le> (\<Sum>z\<in>?rest. top_of p z)" unfolding top by (rule sum_mono2) (use pd finite_pend in auto)
  moreover have "(card (pend p' q) + 1) * step_cost s' (card (pend p' q)) \<le> (?m + 1) * step_cost s' ?m"
    by (rule mult_le_mono) (use cm in \<open>auto simp: step_cost_def\<close>)
  moreover have "file_end s' + (?m + 1) * step_cost s' ?m + (\<Sum>z\<in>?rest. top_of p z) + 4096 \<le> u64_mod"
    using room_arith(2) [OF bound db s'(4,3)] s'(2) by (simp add: step_cost_def)
  ultimately have "file_end s' + (card (pend p' q) + 1) * step_cost s' (card (pend p' q)) + (\<Sum>z\<in>pend p' q. top_of p' z) + 4096 \<le> u64_mod"
    by linarith
  moreover have "req_ok p' y" if "z \<in> pend p' q" "reqs p' z = Some y" for z y
  proof -
    have "req_ok p y" using rm that pd sel(2) unfolding room_def by auto
    then show ?thesis using sel(5) unfolding req_ok_def by (meson order_trans)
  qed
  ultimately show ?thesis using p' s'(1) sel(1,4) unfolding room_def by auto
qed

lemma room_cong:
  assumes rm: "room p q" and s: "pst p' = pst p" "umem p' = umem p" and pd: "pend p' q' \<subseteq> pend p q"
    and rq: "\<forall>r\<in>pend p' q'. reqs p' r = reqs p r"
  shows "room p' q'"
proof -
  let ?m = "card (pend p q)" and ?m' = "card (pend p' q')"
  have m: "?m' \<le> ?m" by (rule card_mono [OF finite_pend pd])
  have "(\<Sum>r\<in>pend p' q'. top_of p' r) = (\<Sum>r\<in>pend p' q'. top_of p r)" by (rule sum.cong) (use rq in \<open>auto simp: top_of_def\<close>)
  also have "\<dots> \<le> (\<Sum>r\<in>pend p q. top_of p r)" by (rule sum_mono2 [OF finite_pend pd]) simp
  finally have "(\<Sum>r\<in>pend p' q'. top_of p' r) \<le> (\<Sum>r\<in>pend p q. top_of p r)" .
  moreover have "(?m' + 1) * step_cost (pst p) ?m' \<le> (?m + 1) * step_cost (pst p) ?m"
    by (rule mult_le_mono) (use m in \<open>auto simp: step_cost_def\<close>)
  moreover have "file_end (pst p) + (?m + 1) * step_cost (pst p) ?m + (\<Sum>r\<in>pend p q. top_of p r) + 4096 \<le> u64_mod"
    using rm by (simp add: room_def)
  ultimately have "file_end (pst p') + (?m' + 1) * step_cost (pst p') ?m' + (\<Sum>r\<in>pend p' q'. top_of p' r) + 4096 \<le> u64_mod"
    unfolding s(1) by linarith
  moreover have "req_ok p' x" if "r \<in> pend p' q'" "reqs p' r = Some x" for r x
    using that rm pd rq s(2) unfolding room_def req_ok_def by auto
  ultimately show ?thesis using rm s(1) unfolding room_def by auto
qed

subsection \<open>Draining\<close>

text \<open>Only workers move. Each step brings the pool one unit nearer to rest.\<close>

inductive wruns :: "pool \<Rightarrow> nat \<Rightarrow> pool \<Rightarrow> bool" where
  refl: "wruns p 0 p"
| step: "wruns p k p1 \<Longrightarrow> i < length (wk p1) \<Longrightarrow> worker p1 i = Some p2 \<Longrightarrow> wruns p (Suc k) p2"

definition weight :: "wstate \<Rightarrow> nat" where
  "weight v = (case v of W_idle \<Rightarrow> 1 | W_run _ \<Rightarrow> 4 | W_pub _ _ \<Rightarrow> 3 | W_acct _ \<Rightarrow> 2 | W_exit \<Rightarrow> 0)"

definition work_left :: "pool \<Rightarrow> nat list \<Rightarrow> nat" where
  "work_left p q = 4 * length q + sum_list (map weight (wk p))"

lemma weight_simps [simp]: "weight W_idle = 1" "weight (W_run r) = 4" "weight (W_pub r rc) = 3" "weight (W_acct rc) = 2" "weight W_exit = 0"
  by (simp_all add: weight_def)

lemma weight_update:
  assumes "i < length ws"
  shows "sum_list (map weight (ws[i := v])) + weight (ws ! i) = sum_list (map weight ws) + weight v"
  using assms
proof (induction ws arbitrary: i)
  case (Cons w ws)
  then show ?case by (cases i) auto
qed simp

lemma pend_move:
  assumes "wk p' = (wk p)[i := v]" "\<And>r. v = W_run r \<Longrightarrow> r \<in> set q" "set q' \<subseteq> set q"
  shows "pend p' q' \<subseteq> pend p q"
proof
  fix z assume "z \<in> pend p' q'"
  then have "z \<in> set q' \<or> W_run z = v \<or> W_run z \<in> set (wk p)" using in_update [of "W_run z" "wk p" i v] assms(1) by (auto simp: pend_def)
  then show "z \<in> pend p q" using assms(2,3) by (auto simp: pend_def)
qed

lemma worker_step:
  assumes ok: "pool_ok p q" and rm: "room p q" and i: "i < length (wk p)" and w: "worker p i = Some p'"
  shows "\<exists>q'. pool_ok p' q' \<and> room p' q' \<and> Suc (work_left p' q') = work_left p q \<and> stop p' = stop p \<and> length (wk p') = length (wk p)"
proof (cases "wk p ! i")
  case W_idle
  then have t: "worker_take p i = Some p'" using w by (simp add: worker_def)
  note k = take_ok [OF ok i W_idle t]
  show ?thesis
  proof (cases "qh p")
    case None
    then have p': "p' = p\<lparr>wk := (wk p)[i := W_exit]\<rparr>" "pool_ok p' q" using t k by (auto simp: worker_take_def split: if_splits)
    then have "room p' q" by (intro room_cong [OF rm] pend_move [of p' p i W_exit]) auto
    then show ?thesis using p' weight_update [OF i, of W_exit] W_idle by (intro exI [of _ q]) (auto simp: work_left_def)
  next
    case (Some r)
    then obtain q' where q': "q = r # q'" "pool_ok p' q'" using k by auto
    have p': "wk p' = (wk p)[i := W_run r]" "pst p' = pst p" "umem p' = umem p" "reqs p' = reqs p" "stop p' = stop p"
      using t Some by (auto simp: worker_take_def Let_def split: if_splits)
    have "room p' q'" by (rule room_cong [OF rm p'(2,3) pend_move [OF p'(1)]]) (use q'(1) p'(4) in auto)
    then show ?thesis using q' p'(1,5) weight_update [OF i, of "W_run r"] W_idle by (intro exI [of _ q']) (auto simp: work_left_def)
  qed
next
  case (W_run r)
  have t: "worker_rw p i r = Some p'" using w W_run by (simp add: worker_def)
  obtain rc where "wk p' = (wk p)[i := W_pub r rc]" using rw_ok(2) [OF ok i W_run t] by blast
  then show ?thesis using rw_ok(1) [OF ok i W_run t] worker_rw_returns [OF ok rm i W_run] t weight_update [OF i, of "W_pub r rc"] W_run
    by (intro exI [of _ q]) (auto simp: work_left_def)
next
  case (W_pub r rc)
  have p': "p' = worker_publish p i r rc" using w W_pub by (simp add: worker_def)
  have r: "r \<in> held p" using pool_okD(10) [OF ok i] W_pub by simp
  have "r \<notin> pend p q"
  proof
    assume "r \<in> pend p q"
    then have "W_run r \<in> set (wk p)" using r pool_okD(6) [OF ok] by (auto simp: pend_def)
    then obtain j where "j < length (wk p)" "wk p ! j = W_run r" by (auto simp: in_set_conv_nth)
    then show False using pool_okD(11) [OF ok i] W_pub by force
  qed
  then have "room p' q" using p' pend_move [of p' p i "W_acct rc" q q] by (intro room_cong [OF rm]) (auto simp: worker_publish_def)
  then show ?thesis using publish_ok [OF ok i W_pub] p' weight_update [OF i, of "W_acct rc"] W_pub
    by (intro exI [of _ q]) (auto simp: work_left_def worker_publish_def)
next
  case (W_acct rc)
  have p': "p' = worker_account p i rc" using w W_acct by (simp add: worker_def)
  have "room p' q" using p' pend_move [of p' p i W_idle q q] by (intro room_cong [OF rm]) (auto simp: worker_account_def)
  then show ?thesis using account_ok [OF ok i W_acct] p' weight_update [OF i, of W_idle] W_acct
    by (intro exI [of _ q]) (auto simp: work_left_def worker_account_def)
next
  case W_exit
  then show ?thesis using w by (simp add: worker_def)
qed

lemma wruns_step:
  assumes "wruns p k p'" "pool_ok p q" "room p q"
  shows "\<exists>q'. pool_ok p' q' \<and> room p' q' \<and> k + work_left p' q' = work_left p q \<and> stop p' = stop p \<and> length (wk p') = length (wk p)"
  using assms
proof (induction rule: wruns.induct)
  case (refl p)
  then show ?case by auto
next
  case (step p k p1 i p2)
  obtain q1 where q1: "pool_ok p1 q1" "room p1 q1" "k + work_left p1 q1 = work_left p q" "stop p1 = stop p" "length (wk p1) = length (wk p)"
    using step.IH [OF step.prems] by blast
  obtain q2 where "pool_ok p2 q2" "room p2 q2" "Suc (work_left p2 q2) = work_left p1 q1" "stop p2 = stop p1" "length (wk p2) = length (wk p1)"
    using worker_step [OF q1(1,2) step.hyps(2,3)] by blast
  then show ?case using q1 by (intro exI [of _ q2]) simp
qed

text \<open>The release of what nobody waited for.\<close>

lemma release_live_all:
  assumes "llist p l" "set l = dom (reqs p)"
  shows "\<exists>p'. release_live p = Some p' \<and> reqs p' = Map.empty \<and> pst p' = pst p"
  using assms
proof (induction l arbitrary: p)
  case Nil
  then have "live p = None" "reqs p = Map.empty" by (auto simp: llist_def)
  then show ?case by (subst release_live.simps) simp
next
  case (Cons r l)
  have r: "live p = Some r" "r \<notin> set l" using Cons.prems(1) by (simp_all add: llist_def)
  have a: "llist (req_release p r) l" using llist_release [OF Cons.prems(1), of r] by simp
  have b: "set l = dom (reqs (req_release p r))" using Cons.prems(2) r(2) by auto
  obtain p' where "release_live (req_release p r) = Some p'" "reqs p' = Map.empty" "pst p' = pst p"
    using Cons.IH [OF a b] by auto
  then show ?case using r(1) by (subst release_live.simps) simp
qed

lemma at_rest:
  assumes ok: "pool_ok p q" and rm: "room p q" and st: "stop p" and none: "\<forall>i<length (wk p). worker p i = None"
  shows "\<forall>v\<in>set (wk p). v = W_exit"
proof
  fix v assume "v \<in> set (wk p)"
  then obtain i where i: "i < length (wk p)" "wk p ! i = v" by (auto simp: in_set_conv_nth)
  have n: "worker p i = None" using none i(1) by simp
  show "v = W_exit"
  proof (cases v)
    case W_idle
    then show ?thesis using n st i(2) by (auto simp: worker_def worker_take_def Let_def split: option.splits)
  next
    case (W_run r)
    then show ?thesis using n worker_rw_returns [OF ok rm i(1)] i(2) by (auto simp: worker_def)
  qed (use n i(2) in \<open>auto simp: worker_def\<close>)
qed

lemma exited:
  assumes ok: "pool_ok p q" and ex: "\<forall>v\<in>set (wk p). v = W_exit" and n: "0 < length (wk p)"
  shows "q = []" "inflight p = 0" "\<forall>x\<in>ran (reqs p). rdone x"
    "\<exists>p'. pool_stop_join p = Some p' \<and> reqs p' = Map.empty \<and> pst p' = pst p"
proof -
  have "wk p ! 0 \<in> set (wk p)" using n by simp
  then have "W_exit \<in> set (wk p)" using ex by metis
  then show q: "q = []" using pool_okD(9) [OF ok] by blast
  have "filter working (wk p) = []" using ex by (auto simp: filter_empty_conv)
  then show "inflight p = 0" using pool_okD(8) [OF ok] q by simp
  have "held p = {}" using ex by (auto simp: held_def)
  then show "\<forall>x\<in>ran (reqs p). rdone x" using pool_okD(7) [OF ok] q by (auto simp: ran_def)
  obtain l where l: "llist p l" "set l = dom (reqs p)" using pool_okD(2) [OF ok] by blast
  have "llist (p\<lparr>wk := []\<rparr>) l" using l(1) by (simp add: llist_def)
  then show "\<exists>p'. pool_stop_join p = Some p' \<and> reqs p' = Map.empty \<and> pst p' = pst p"
    using release_live_all [of "p\<lparr>wk := []\<rparr>" l] l(2) ex by (simp add: pool_stop_join_def)
qed

lemma sum_weights: "sum_list (map weight ws) \<le> 4 * length ws"
proof (induction ws)
  case (Cons v ws)
  then show ?case by (cases v) auto
qed simp

lemma runs_length: "runs p es p' \<Longrightarrow> length (wk p') = length (wk p)"
proof (induction rule: runs.induct)
  case (step p es q e q')
  have "length (wk q') = length (wk q)" using step.hyps(2)
  proof cases
    case (submit ko off n buf op outp rc ro)
    then show ?thesis using submit_none(1) [of q ko off n buf op outp q' rc] submit_some(8) [of q ko off n buf op outp q' rc] by (cases ro) auto
  next
    case (wait r rc)
    then show ?thesis by (auto simp: ls_wait_def split: bind_splits if_splits)
  qed (auto simp: worker_def worker_take_def worker_rw_def worker_publish_def worker_account_def pool_stop_flag_def Let_def
      split: option.splits bind_splits if_splits ls_op.splits)
  then show ?case using step.IH by simp
qed simp

subsection \<open>A small pool\<close>

text \<open>One worker, one write of two bytes submitted.\<close>

definition demo_pool :: pool where
  "demo_pool = pool_init (demo 100) 1 (\<lambda>_. [7, 8])"

definition demo_req :: ls_req where
  "demo_req = \<lparr>r_op = LS_OP_WRITE, r_key = ''k'', r_off = 0, r_n = 2, r_buf = Some 0, status = 0, rdone = False\<rparr>"

definition demo_sub :: pool where
  "demo_sub = demo_pool\<lparr>reqs := [0 \<mapsto> demo_req], rfresh := 1, live := Some 0, qh := Some 0, qt := Some 0, inflight := 1\<rparr>"

lemma demo_submit: "ls_awrite demo_pool (Some ''k'') 0 2 (Some 0) True = (demo_sub, LS_OK, Some 0)"
proof -
  have "st_malloc (demo 100) = (True, demo 100)" by (intro st_malloc_calm) simp
  moreover have "add64 0 1 = 1" by (simp add: add64_def u64_mod_def)
  moreover have "(\<lambda>_. None)(0 := None) = (\<lambda>_ :: nat. None :: nat option)" by auto
  ultimately show ?thesis using key_k(1)
    by (simp add: ls_awrite_def submit_def demo_pool_def demo_sub_def demo_req_def pool_init_def opts_default_def Let_def)
qed

lemma demo_runs: "runs (pool_init (demo 100) 1 (\<lambda>_. [7, 8])) [E_submit 0] demo_sub"
  using runs.step [OF runs.refl pstep.submit [OF demo_submit [unfolded ls_awrite_def]]] by (simp add: demo_pool_def)

lemma demo_stop_runs: "runs (pool_init (demo 100) 1 (\<lambda>_. [7, 8])) [E_submit 0, E_tau] (pool_stop_flag demo_sub)"
  using runs.step [OF demo_runs pstep.stop] by simp

text \<open>The worker's way through the request, before or after the pool is told to stop.\<close>

lemma demo_chain:
  "\<exists>p1 p2 p3. worker (demo_sub\<lparr>stop := b\<rparr>) 0 = Some p1 \<and> wk p1 = [W_run 0] \<and> worker p1 0 = Some p2 \<and> wk p2 = [W_pub 0 LS_OK]
     \<and> worker p2 0 = Some p3 \<and> wk p3 = [W_acct LS_OK] \<and> qh p3 = None \<and> stop p3 = b
     \<and> reqs p3 0 = Some (demo_req\<lparr>status := LS_OK, rdone := True\<rparr>)"
proof -
  define p1 where "p1 = demo_sub\<lparr>stop := b, qh := None, qt := None, wk := [W_run 0]\<rparr>"
  have w1: "worker (demo_sub\<lparr>stop := b\<rparr>) 0 = Some p1"
    by (simp add: worker_def worker_take_def Let_def p1_def demo_sub_def demo_pool_def pool_init_def)
  have sel: "wk p1 = [W_run 0]" "reqs p1 0 = Some demo_req" "pst p1 = demo 100" "umem p1 0 = [7, 8]" "qh p1 = None" "stop p1 = b"
    by (simp_all add: p1_def demo_sub_def demo_pool_def pool_init_def)
  obtain s where "ls_write (demo 100) (Some ''k'') 0 (length [7, 8 :: byte]) (Some [7, 8]) = Some (s, LS_OK)" using demo_write [of 0 "[7, 8]"] by auto
  then obtain out where rw: "ls_rw (demo 100) (Some ''k'') 0 2 False (Some [7, 8]) LS_OP_WRITE = Some (s, LS_OK, out)"
    using key_k(1) by (auto simp: ls_write_def numeral_2_eq_2 split: bind_splits)
  define p2 where "p2 = p1\<lparr>pst := s, wk := [W_pub 0 LS_OK]\<rparr>"
  have w2: "worker p1 0 = Some p2" using sel rw by (simp add: worker_def worker_rw_def demo_req_def req_buf_def p2_def Let_def)
  define p3 where "p3 = worker_publish p2 0 0 LS_OK"
  have w3: "worker p2 0 = Some p3" by (simp add: worker_def p2_def p3_def)
  show ?thesis using w1 w2 w3 sel
    by (intro exI [of _ p1] exI [of _ p2] exI [of _ p3]) (simp add: p2_def p3_def worker_publish_def)
qed

lemma demo_wait:
  "\<exists>p p' es. runs (pool_init (demo 100) 1 (\<lambda>_. [7, 8])) es p \<and> ls_wait p (Some 0) = Some (p', LS_OK)"
proof -
  have e: "demo_sub\<lparr>stop := False\<rparr> = demo_sub" by (simp add: demo_sub_def demo_pool_def pool_init_def)
  obtain p1 p2 p3 where c: "worker demo_sub 0 = Some p1" "wk p1 = [W_run 0]" "worker p1 0 = Some p2" "wk p2 = [W_pub 0 LS_OK]"
    "worker p2 0 = Some p3" "reqs p3 0 = Some (demo_req\<lparr>status := LS_OK, rdone := True\<rparr>)" using demo_chain [of False] unfolding e by blast
  have w: "wk demo_sub = [W_idle]" by (simp add: demo_sub_def demo_pool_def pool_init_def)
  have s1: "pstep demo_sub (case qh demo_sub of Some r \<Rightarrow> E_take r | None \<Rightarrow> E_tau) p1"
    by (rule pstep.take [of 0]) (simp_all add: c w)
  have s2: "pstep p1 (E_rw 0 LS_OK) p2" by (rule pstep.rw [of 0]) (simp_all add: c)
  have s3: "pstep p2 (E_done 0 LS_OK) p3" by (rule pstep.publish [of 0]) (simp_all add: c)
  note runs.step [OF runs.step [OF runs.step [OF demo_runs s1] s2] s3]
  moreover have "ls_wait p3 (Some 0) = Some (req_release p3 0, LS_OK)" using c(6) by (simp add: ls_wait_def)
  ultimately show ?thesis by blast
qed

lemma demo_drained:
  "\<exists>p. wruns (pool_stop_flag demo_sub) 5 p \<and> wk p = [W_exit]"
proof -
  have e: "demo_sub\<lparr>stop := True\<rparr> = pool_stop_flag demo_sub" by (simp add: pool_stop_flag_def)
  obtain p1 p2 p3 where c: "worker (pool_stop_flag demo_sub) 0 = Some p1" "wk p1 = [W_run 0]" "worker p1 0 = Some p2" "wk p2 = [W_pub 0 LS_OK]"
    "worker p2 0 = Some p3" "wk p3 = [W_acct LS_OK]" "qh p3 = None" "stop p3" using demo_chain [of True] unfolding e by blast
  define p4 where "p4 = worker_account p3 0 LS_OK"
  define p5 where "p5 = p4\<lparr>wk := [W_exit]\<rparr>"
  have w: "wk (pool_stop_flag demo_sub) = [W_idle]" by (simp add: pool_stop_flag_def demo_sub_def demo_pool_def pool_init_def)
  have p4: "worker p3 0 = Some p4" "wk p4 = [W_idle]" using c(6) by (simp_all add: worker_def p4_def worker_account_def)
  have p5: "worker p4 0 = Some p5" using p4(2) c(6-8) by (simp add: worker_def worker_take_def p5_def p4_def worker_account_def)
  have l: "0 < length (wk (pool_stop_flag demo_sub))" "0 < length (wk p1)" "0 < length (wk p2)" "0 < length (wk p3)" "0 < length (wk p4)"
    by (simp_all add: w c p4)
  note wruns.step [OF wruns.step [OF wruns.step [OF wruns.step [OF wruns.step [OF wruns.refl l(1) c(1)] l(2) c(3)] l(3) c(5)] l(4) p4(1)] l(5) p5]
  then show ?thesis by (auto simp: p5_def numeral_eq_Suc)
qed

lemma demo_pool_room: "room (pool_stop_flag demo_sub) [0]"
proof -
  have p: "pend (pool_stop_flag demo_sub) [0] = {0}" by (auto simp: pend_def pool_stop_flag_def demo_sub_def demo_pool_def pool_init_def)
  have "store_inv (demo 100)" by (rule demo_inv [OF off_max_big(1)])
  moreover have "dom (store_abs (demo 100)) = {}" using off_max_big(1) by simp
  ultimately show ?thesis using key_k(1) unfolding room_def p
    by (simp add: pool_stop_flag_def demo_sub_def demo_pool_def pool_init_def demo_req_def req_ok_def step_cost_def top_of_def u64_mod_def)
qed

subsection \<open>Properties\<close>

text \<open>C35. The queue is first in, first out, and nothing is lost. In every reachable state of the pool, however
  workers, callers and \<open>ls_close\<close> interleave, the requests submitted so far are those taken so far followed
  by the linked queue, in this order; \<open>inflight\<close> counts exactly the requests queued and in the hands of
  a worker; and a request that was not released is done exactly if it is neither queued nor held.\<close>

theorem queue_is_fifo:
  assumes "runs (pool_init s n m) es p"
  shows "\<exists>q. qlist p q \<and> submitted es = taken es @ q \<and> inflight p = (length q + length (filter working (wk p))) mod u64_mod
     \<and> (\<forall>r x. reqs p r = Some x \<longrightarrow> (rdone x \<longleftrightarrow> r \<notin> set q \<and> (\<forall>v\<in>set (wk p). carries v \<noteq> Some r)))"
proof -
  obtain q where q: "pool_ok p q" "submitted es = taken es @ q" using runs_ok [OF assms pool_init_ok] by blast
  then show ?thesis using pool_okD(1,8) [OF q(1)] pool_okD(7) [OF q(1)] by (intro exI [of _ q]) (auto simp: held_def)
qed

theorem queue_is_fifo_witness:
  "\<exists>p. ls_awrite demo_pool (Some ''k'') 0 2 (Some 0) True = (p, LS_OK, Some 0) \<and> qlist p [0] \<and> inflight p = 1"
proof -
  obtain q where "qlist demo_sub q" "submitted [E_submit 0] = taken [E_submit 0] @ q" using queue_is_fifo [OF demo_runs] by blast
  then have "qlist demo_sub [0]" by (simp add: submitted_def taken_def)
  then show ?thesis using demo_submit by (simp add: demo_sub_def)
qed

text \<open>A step in the middle of a run, and what becomes of a request: its result is set, the rest stays.\<close>

lemma runs_split:
  assumes "runs p es p'" "e \<in> set es"
  shows "\<exists>es1 es2 q q'. es = es1 @ e # es2 \<and> runs p es1 q \<and> pstep q e q' \<and> runs q' es2 p'"
  using assms
proof (induction rule: runs.induct)
  case (step p es q e' q')
  show ?case
  proof (cases "e \<in> set es")
    case True
    then obtain es1 es2 a b where "es = es1 @ e # es2" "runs p es1 a" "pstep a e b" "runs b es2 q" using step.IH by blast
    then show ?thesis using runs.step [OF _ step.hyps(2)] by (intro exI [of _ es1] exI [of _ "es2 @ [e']"] exI [of _ a] exI [of _ b]) simp
  next
    case False
    then have "e = e'" using step.prems by simp
    then show ?thesis using step.hyps runs.refl by blast
  qed
qed simp

definition same_req :: "ls_req \<Rightarrow> ls_req \<Rightarrow> bool" where
  "same_req x y \<longleftrightarrow> y = x\<lparr>status := status y, rdone := rdone y\<rparr>"

lemma same_req_trans: "same_req x y \<Longrightarrow> same_req y z \<Longrightarrow> same_req x z"
  by (cases x; cases y; cases z) (auto simp: same_req_def)

lemma same_req_refl [simp]: "same_req x x"
  by (simp add: same_req_def)

lemma pstep_same_req:
  assumes "pstep p e p'"
  shows "rfresh p \<le> rfresh p' \<and> (\<forall>r<rfresh p. \<forall>y. reqs p' r = Some y \<longrightarrow> (\<exists>x. reqs p r = Some x \<and> same_req x y))"
  using assms
proof (induction rule: pstep.induct)
  case (submit p ko off n buf op outp p' rc ro)
  show ?case
  proof (cases ro)
    case None
    obtain s' where "p' = p\<lparr>pst := s'\<rparr>" using submit_none [OF submit.hyps [unfolded None]] by blast
    then show ?thesis by auto
  next
    case (Some k)
    note s = submit_some [OF submit.hyps [unfolded Some]]
    then have "rfresh p' = Suc (rfresh p)" "\<forall>r<rfresh p. reqs p' r = reqs p r" by auto
    then show ?thesis by auto
  qed
next
  case (take i p p')
  then show ?case by (auto simp: worker_def worker_take_def Let_def split: option.splits if_splits)
next
  case (rw i p k p' rc)
  then have "worker_rw p i k = Some p'" by (simp add: worker_def)
  then have "reqs p' = reqs p" "rfresh p' = rfresh p"
    by (auto simp: worker_rw_def Let_def split: bind_splits ls_op.splits option.splits prod.splits)
  then show ?case by auto
next
  case (publish i p k rc p')
  then show ?case by (auto simp: worker_def worker_publish_def same_req_def split: if_splits)
next
  case (account i p rc p')
  then show ?case by (auto simp: worker_def worker_account_def)
next
  case (wait p k p' rc)
  then have "p' = req_release p k" by (auto simp: ls_wait_def split: bind_splits if_splits)
  then show ?case by (auto split: if_splits)
qed (auto simp: pool_stop_flag_def)

lemma runs_same_req:
  assumes "runs p es p'" "reqs p' r = Some y" "r < rfresh p"
  shows "\<exists>x. reqs p r = Some x \<and> same_req x y"
proof -
  have "rfresh p \<le> rfresh p' \<and> (\<forall>y. reqs p' r = Some y \<longrightarrow> (\<exists>x. reqs p r = Some x \<and> same_req x y))"
    using assms(1,3)
  proof (induction rule: runs.induct)
    case (step p es q e q')
    then show ?case using pstep_same_req [OF step.hyps(2)] same_req_trans by (meson le_trans less_le_trans)
  qed simp
  then show ?thesis using assms(2) by blast
qed

text \<open>The step that runs a request is the call of \<open>ls_rw\<close>.\<close>

lemma rw_step_calls:
  assumes "pstep p (E_rw r rc) p'"
  shows "\<exists>x out. reqs p r = Some x \<and> reqs p' = reqs p \<and> rfresh p' = rfresh p
     \<and> ls_rw (pst p) (Some (r_key x)) (r_off x) (r_n x) (r_op x = LS_OP_READ \<and> r_buf x \<noteq> None)
          (if r_op x = LS_OP_WRITE then req_buf p x else None) (r_op x) = Some (pst p', rc, out)
     \<and> (\<forall>a. r_op x = LS_OP_READ \<and> r_buf x = Some a \<longrightarrow> umem p' a = blit (umem p a) 0 out)"
  using assms
proof (cases rule: pstep.cases)
  case (rw i)
  then have "worker_rw p i r = Some p'" by (simp add: worker_def)
  then show ?thesis using rw(1,4)
    by (auto simp: worker_rw_def Let_def split: bind_splits ls_op.splits option.splits prod.splits)
qed (auto split: option.splits)

text \<open>C36. \<open>ls_wait\<close> returns the result of its own request. If it returns, the request was run exactly once in the
  history: at that point a worker called \<open>ls_rw\<close> on the store with the key, offset, length and buffer of this
  request, the code that \<open>ls_wait\<close> returns is the one this call returned, the store went on from the
  state it left, and the bytes of a read are the ones it delivered. The request is gone afterwards.\<close>

theorem wait_returns_result:
  assumes "runs (pool_init s n m) es p" "ls_wait p (Some r) = Some (p', rc)"
  shows "ran_of r es = [E_rw r rc] \<and> reqs p' = (reqs p)(r := None) \<and> pst p' = pst p
    \<and> (\<exists>es1 es2 q q' x out. es = es1 @ E_rw r rc # es2 \<and> runs (pool_init s n m) es1 q \<and> runs q' es2 p
        \<and> reqs q r = Some x \<and> reqs p r = Some (x\<lparr>status := rc, rdone := True\<rparr>)
        \<and> ls_rw (pst q) (Some (r_key x)) (r_off x) (r_n x) (r_op x = LS_OP_READ \<and> r_buf x \<noteq> None)
             (if r_op x = LS_OP_WRITE then req_buf q x else None) (r_op x) = Some (pst q', rc, out)
        \<and> (\<forall>a. r_op x = LS_OP_READ \<and> r_buf x = Some a \<longrightarrow> umem q' a = blit (umem q a) 0 out))"
proof -
  have i: "reqs (pool_init s n m) = Map.empty" "\<forall>v\<in>set (wk (pool_init s n m)). v = W_idle" by (simp_all add: pool_init_def)
  obtain q where q: "pool_ok p q" "told p q es" using runs_told [OF assms(1) pool_init_ok i] by blast
  obtain y where y: "reqs p r = Some y" "rdone y" "p' = req_release p r" "rc = status y"
    using assms(2) by (auto simp: ls_wait_def split: bind_splits if_splits)
  have ran: "E_rw r rc \<in> set (ran_of r es)" "E_rw r rc \<in> set es" using q(2) y unfolding told_def ran_of_def by auto
  moreover have "length (ran_of r es) \<le> 1" using q(2) unfolding told_def by blast
  ultimately have one: "ran_of r es = [E_rw r rc]" by (cases "ran_of r es") auto
  obtain es1 es2 a b where sp: "es = es1 @ E_rw r rc # es2" "runs (pool_init s n m) es1 a" "pstep a (E_rw r rc) b" "runs b es2 p"
    using runs_split [OF assms(1) ran(2)] by blast
  obtain x out where x: "reqs a r = Some x" "reqs b = reqs a" "rfresh b = rfresh a"
    "ls_rw (pst a) (Some (r_key x)) (r_off x) (r_n x) (r_op x = LS_OP_READ \<and> r_buf x \<noteq> None)
        (if r_op x = LS_OP_WRITE then req_buf a x else None) (r_op x) = Some (pst b, rc, out)"
    "\<forall>u. r_op x = LS_OP_READ \<and> r_buf x = Some u \<longrightarrow> umem b u = blit (umem a u) 0 out"
    using rw_step_calls [OF sp(3)] by blast
  obtain qa where "pool_ok a qa" using runs_ok [OF sp(2) pool_init_ok] by blast
  then have "r < rfresh b" using pool_okD(3) x(1,3) by force
  then obtain x' where "reqs b r = Some x'" "same_req x' y" using runs_same_req [OF sp(4) y(1)] by blast
  then have "reqs p r = Some (x\<lparr>status := rc, rdone := True\<rparr>)" using x(1,2) y by (simp add: same_req_def)
  moreover have "reqs p' = (reqs p)(r := None)" "pst p' = pst p" using y(3) by simp_all
  ultimately show ?thesis using one sp x(1,4,5) by blast
qed

theorem wait_returns_result_witness:
  "\<exists>es p p' (q :: pool) (q' :: pool) x out. ls_wait p (Some 0) = Some (p', LS_OK) \<and> ran_of 0 es = [E_rw 0 LS_OK] \<and> reqs p' 0 = None
     \<and> reqs q 0 = Some x \<and> ls_rw (pst q) (Some (r_key x)) (r_off x) (r_n x) (r_op x = LS_OP_READ \<and> r_buf x \<noteq> None)
          (if r_op x = LS_OP_WRITE then req_buf q x else None) (r_op x) = Some (pst q', LS_OK, out)"
proof -
  obtain p p' es where w: "runs (pool_init (demo 100) 1 (\<lambda>_. [7, 8])) es p" "ls_wait p (Some 0) = Some (p', LS_OK)" using demo_wait by blast
  note r = wait_returns_result [OF w]
  then obtain q q' :: pool and x out where "reqs q 0 = Some x" "ls_rw (pst q) (Some (r_key x)) (r_off x) (r_n x) (r_op x = LS_OP_READ \<and> r_buf x \<noteq> None)
      (if r_op x = LS_OP_WRITE then req_buf q x else None) (r_op x) = Some (pst q', LS_OK, out)" by blast
  moreover have "ran_of 0 es = [E_rw 0 LS_OK]" "reqs p' 0 = None" using r by simp_all
  ultimately show ?thesis using w(2) by blast
qed

text \<open>\<open>ls_close\<close> of a store with a pool first stops the pool (the flag, then the joins and the release) and
  goes on with the store the workers left. Once they have returned, that is \<open>ls_close\<close> of theory \<open>Persist\<close>.\<close>

definition pool_close :: "pool \<Rightarrow> bool \<Rightarrow> (os \<times> bool \<times> int) option" where
  "pool_close p keep = do { p' \<leftarrow> pool_stop_join (pool_stop_flag p); ls_close (pst p') keep }"

lemma pool_close_drained:
  assumes "pool_ok p q" "\<forall>v\<in>set (wk p). v = W_exit" "0 < length (wk p)"
  shows "pool_close p keep = ls_close (pst p) keep"
proof -
  have "stop p" using assms(2,3) pool_okD(9) [OF assms(1)] by (metis nth_mem)
  then have "pool_stop_flag p = p" by (simp add: pool_stop_flag_def)
  then show ?thesis using exited(4) [OF assms] by (auto simp: pool_close_def)
qed

text \<open>C37. A stopped pool drains. Once \<open>ls_close\<close> has set the stop flag, the workers can take only a bounded
  number of steps, whatever their order; and where none of them can move any more, every worker has
  returned, every request is done and \<open>inflight\<close> is zero, so the joins of \<open>ls_pool_stop\<close> come back and
  it frees every request. \<open>room\<close> says that the pending writes fit into the 64-bit file space and
  that the callers' buffers are as long as promised.\<close>

theorem stopped_pool_drains:
  assumes "runs (pool_init s n m) es p" "0 < n" "stop p" "q = drop (length (taken es)) (submitted es)" "room p q" "wruns p k p'"
  shows "k \<le> 4 * length q + 4 * n
     \<and> ((\<exists>i<length (wk p'). worker p' i \<noteq> None)
        \<or> (\<forall>v\<in>set (wk p'). v = W_exit) \<and> inflight p' = 0 \<and> (\<forall>x\<in>ran (reqs p'). rdone x)
          \<and> (\<exists>p''. pool_stop_join p' = Some p'' \<and> reqs p'' = Map.empty \<and> pst p'' = pst p'))"
proof -
  obtain q0 where q0: "pool_ok p q0" "submitted es = taken es @ q0" using runs_ok [OF assms(1) pool_init_ok] by blast
  have ok: "pool_ok p q" using q0 assms(4) by simp
  have len: "length (wk p) = n" using runs_length [OF assms(1)] by (simp add: pool_init_def)
  obtain q' where q': "pool_ok p' q'" "room p' q'" "k + work_left p' q' = work_left p q" "stop p' = stop p" "length (wk p') = length (wk p)"
    using wruns_step [OF assms(6) ok assms(5)] by blast
  have "sum_list (map weight (wk p)) \<le> 4 * n" using sum_weights [of "wk p"] len by simp
  then have b: "k \<le> 4 * length q + 4 * n" using q'(3) unfolding work_left_def by linarith
  show ?thesis
  proof (cases "\<exists>i<length (wk p'). worker p' i \<noteq> None")
    case False
    then have ex: "\<forall>v\<in>set (wk p'). v = W_exit" using at_rest [OF q'(1,2)] q'(4) assms(3) by blast
    show ?thesis using b ex exited [OF q'(1) ex] q'(5) len assms(2) by auto
  qed (use b in blast)
qed

theorem stopped_pool_drains_witness:
  "\<exists>p p'. wruns (pool_stop_flag demo_sub) 5 p \<and> inflight p = 0 \<and> pool_stop_join p = Some p' \<and> reqs p' = Map.empty"
proof -
  obtain p where p: "wruns (pool_stop_flag demo_sub) 5 p" "wk p = [W_exit]" using demo_drained by blast
  have q: "[0] = drop (length (taken [E_submit 0, E_tau])) (submitted [E_submit 0, E_tau])" by (simp add: submitted_def taken_def)
  have "\<not> (\<exists>i<length (wk p). worker p i \<noteq> None)" using p(2) by (simp add: worker_def)
  then show ?thesis using stopped_pool_drains [OF demo_stop_runs _ _ q demo_pool_room p(1)] p(1) by (auto simp: pool_stop_flag_def)
qed

end
