(* ===== verification/Ownership.thy ===== *)
theory Ownership
  imports Prelude "HOL-Library.Multiset"
begin

text \<open>
  Move-only handles, the discipline both classes of \<open>include/libspill.hpp\<close> follow: an object holds at
  most one handle, moving takes it out of the source with \<open>std::exchange\<close>, and whoever still holds it
  releases it. \<open>own_move\<close> lists the changes of ownership that are allowed; the locale \<open>move_only\<close> is a
  program whose steps make only such changes, and it is interpreted for \<open>class store\<close> (theory \<open>Cxx\<close>)
  and \<open>class request\<close> (theory \<open>Requests\<close>).
\<close>

text \<open>Which object holds which handle, the handles that are alive, those given out and those released
  so far; handles given out later are at least \<open>nxt\<close>.\<close>

record own =
  holds :: "nat \<Rightarrow> nat option"
  alive :: "nat set"
  given :: "nat list"
  released :: "nat list"
  nxt :: nat

inductive own_move :: "own \<Rightarrow> own \<Rightarrow> bool" where
  acquire: "holds v a = None \<Longrightarrow>
    own_move v (v\<lparr>holds := (holds v)(a := Some (nxt v)), alive := insert (nxt v) (alive v),
                  given := given v @ [nxt v], nxt := Suc (nxt v)\<rparr>)"
| move: "holds v a = None \<Longrightarrow> a \<noteq> b \<Longrightarrow>
    own_move v (v\<lparr>holds := (holds v)(a := holds v b, b := None)\<rparr>)"
| release: "holds v a = Some p \<Longrightarrow> p \<in> alive v \<Longrightarrow>
    own_move v (v\<lparr>holds := (holds v)(a := None), alive := alive v - {p}, released := released v @ [p]\<rparr>)"

text \<open>Every handle that is alive has exactly one holder, no object holds a dead one, and each handle
  given out is alive or was released, once.\<close>

definition own_inv :: "own \<Rightarrow> bool" where
  "own_inv v \<longleftrightarrow>
     (\<forall>p\<in>alive v. \<exists>!a. holds v a = Some p) \<and> (\<forall>a p. holds v a = Some p \<longrightarrow> p \<in> alive v)
     \<and> distinct (given v) \<and> distinct (released v) \<and> set (released v) \<inter> alive v = {}
     \<and> set (given v) = set (released v) \<union> alive v \<and> (\<forall>p\<in>set (given v). p < nxt v)"

lemma own_invD:
  assumes "own_inv v"
  shows "p \<in> alive v \<Longrightarrow> \<exists>!a. holds v a = Some p" "holds v a = Some p \<Longrightarrow> p \<in> alive v"
    "distinct (given v)" "distinct (released v)" "set (released v) \<inter> alive v = {}"
    "set (given v) = set (released v) \<union> alive v" "p \<in> set (given v) \<Longrightarrow> p < nxt v"
  using assms by (auto simp: own_inv_def)

lemma own_inv_unique:
  "own_inv v \<Longrightarrow> holds v a = Some p \<Longrightarrow> holds v b = Some p \<Longrightarrow> a = b"
  using own_invD(1,2) by blast

lemma own_move_inv:
  assumes "own_move v v'" "own_inv v"
  shows "own_inv v'"
  using assms(1)
proof cases
  case (acquire a)
  note D = own_invD [OF assms(2)]
  have new: "nxt v \<notin> alive v" "nxt v \<notin> set (given v)" "nxt v \<notin> set (released v)"
    using D(6,7) by blast+
  then have unheld: "\<And>b. holds v b \<noteq> Some (nxt v)" using D(2) by blast
  have "\<exists>!b. ((holds v)(a := Some (nxt v))) b = Some p" if new_p: "p \<in> insert (nxt v) (alive v)" for p
  proof (cases "p = nxt v")
    case True
    then show ?thesis using unheld by (intro ex1I [of _ a]) (auto split: if_splits)
  next
    case False
    then obtain b where "holds v b = Some p" using D(1) new_p by blast
    then show ?thesis
      using False acquire(2) own_inv_unique [OF assms(2)] by (intro ex1I [of _ b]) (auto split: if_splits)
  qed
  moreover have "\<forall>b p. ((holds v)(a := Some (nxt v))) b = Some p \<longrightarrow> p \<in> insert (nxt v) (alive v)"
    using D(2) by auto
  moreover have "\<forall>p\<in>set (given v @ [nxt v]). p < Suc (nxt v)" using D(7) by (auto intro: less_SucI)
  ultimately show ?thesis
    using acquire(1) new D(3,4,5,6) by (simp add: own_inv_def)
next
  case (move a b)
  note D = own_invD [OF assms(2)]
  have "\<exists>!c. ((holds v)(a := holds v b, b := None)) c = Some p" if p: "p \<in> alive v" for p
  proof -
    obtain c where c: "holds v c = Some p" using D(1) p by blast
    have "c \<noteq> a" using c move(2) by auto
    then show ?thesis
      using c move own_inv_unique [OF assms(2)]
      by (cases "c = b") (auto intro!: ex1I [of _ "if c = b then a else c"] split: if_splits)
  qed
  moreover have "\<forall>c p. ((holds v)(a := holds v b, b := None)) c = Some p \<longrightarrow> p \<in> alive v"
    using D(2) by auto
  ultimately show ?thesis
    using move(1) D(3-7) by (simp add: own_inv_def)
next
  case (release a p)
  note D = own_invD [OF assms(2)]
  have "\<exists>!c. ((holds v)(a := None)) c = Some q" if q: "q \<in> alive v - {p}" for q
  proof -
    obtain c where c: "holds v c = Some q" using D(1) q by blast
    then have "c \<noteq> a" using release(2) q by auto
    then show ?thesis
      using c own_inv_unique [OF assms(2)] by (intro ex1I [of _ c]) (auto split: if_splits)
  qed
  moreover have "\<forall>c q. ((holds v)(a := None)) c = Some q \<longrightarrow> q \<in> alive v - {p}"
    using D(2) own_inv_unique [OF assms(2) release(2)] by auto
  moreover have "p \<notin> set (released v)" using D(5) release(3) by blast
  ultimately show ?thesis
    using release(1,3) D(3-7) by (auto simp: own_inv_def)
qed

lemma own_moves_inv: "own_move\<^sup>*\<^sup>* v v' \<Longrightarrow> own_inv v \<Longrightarrow> own_inv v'"
  by (induction rule: rtranclp_induct) (auto intro: own_move_inv)

text \<open>Once nothing is held, everything given out has been released, once.\<close>

lemma own_all_released:
  assumes "own_inv v" "\<forall>a. holds v a = None"
  shows "alive v = {}" "mset (released v) = mset (given v)"
proof -
  show "alive v = {}" using own_invD(1) [OF assms(1)] assms(2) by force
  then have "set (released v) = set (given v)" using own_invD(6) [OF assms(1)] by simp
  then show "mset (released v) = mset (given v)"
    using own_invD(3,4) [OF assms(1)] by (simp add: set_eq_iff_mset_eq_distinct)
qed

locale move_only =
  fixes step :: "'w \<Rightarrow> 'w \<Rightarrow> bool" and view :: "'w \<Rightarrow> own"
  assumes step_moves: "step w w' \<Longrightarrow> own_move\<^sup>*\<^sup>* (view w) (view w')"
begin

lemma steps_inv: "step\<^sup>*\<^sup>* w w' \<Longrightarrow> own_inv (view w) \<Longrightarrow> own_inv (view w')"
  by (induction rule: rtranclp_induct) (auto intro: own_moves_inv step_moves)

lemma held_alive: "step\<^sup>*\<^sup>* w w' \<Longrightarrow> own_inv (view w) \<Longrightarrow> holds (view w') a = Some p \<Longrightarrow> p \<in> alive (view w')"
  using steps_inv own_invD(2) by blast

lemma nothing_leaks:
  "step\<^sup>*\<^sup>* w w' \<Longrightarrow> own_inv (view w) \<Longrightarrow> \<forall>a. holds (view w') a = None
   \<Longrightarrow> mset (released (view w')) = mset (given (view w'))"
  using steps_inv own_all_released by blast

end

end
