(* ===== verification/Cxx.thy ===== *)
theory Cxx
  imports Opening Ownership
begin

text \<open>
  The C++ layer (\<open>include/libspill.hpp\<close>): errors as exceptions, options, and \<open>class store\<close> over the C
  calls of the other theories. \<open>class request\<close> is in theory \<open>Requests\<close>.

  The program's state has the \<open>ls_store\<close> objects of the C heap by address, and the C++ objects by
  number; a C++ object holds the address of its store, its \<open>keep\<close> flag and the buffer in which it
  terminates keys. A member function has the value \<open>Inl\<close> of the exception it throws or \<open>Inr\<close> of what it
  returns; \<open>None\<close> means that the C layer would be given a store that does not exist any more (or that
  the C call itself has no value). The text of the system's errors is the argument \<open>tx\<close>, the file at the
  path of a new store is the argument \<open>w\<close>.
\<close>

subsection \<open>Errors and options\<close>

definition LS_ERRBUF_MIN :: nat where "LS_ERRBUF_MIN = 128"

record cxx_error =
  ecode :: int
  ewhat :: string

definition error_build :: "(int \<Rightarrow> string) \<Rightarrow> int \<Rightarrow> string \<Rightarrow> string" where
  "error_build tx c msg =
     msg @ '': '' @ (case ls_strerror tx c True LS_ERRBUF_MIN of None \<Rightarrow> [] | Some m \<Rightarrow> m)"

definition cxx_error :: "(int \<Rightarrow> string) \<Rightarrow> int \<Rightarrow> string \<Rightarrow> cxx_error" where
  "cxx_error tx c msg = \<lparr>ecode = c, ewhat = error_build tx c msg\<rparr>"

definition is_errno :: "cxx_error \<Rightarrow> bool" where
  "is_errno x \<longleftrightarrow> ecode x < 0 \<and> - 1000 < ecode x"

definition check :: "(int \<Rightarrow> string) \<Rightarrow> int \<Rightarrow> string \<Rightarrow> 'a \<Rightarrow> cxx_error + 'a" where
  "check tx rc msg val = (if rc \<noteq> LS_OK then Inl (cxx_error tx rc msg) else Inr val)"

record cxx_options =
  x_backend :: ls_backend
  x_mode :: ls_mode
  x_parallel :: ls_parallel
  x_rank :: int
  x_memory_budget :: nat
  x_dir :: string
  x_direct_io :: bool
  x_exact_name :: bool
  x_durable_close :: bool

definition options0 :: cxx_options where
  "options0 = \<lparr>x_backend = LS_POSIX, x_mode = LS_EXPLICIT, x_parallel = LS_LOCAL, x_rank = -1,
     x_memory_budget = 0, x_dir = [], x_direct_io = False, x_exact_name = False, x_durable_close = False\<rparr>"

text \<open>The bytes that \<open>c_str ()\<close> points at, up to the first NUL: what a C function sees of a string.\<close>

definition c_str :: "string \<Rightarrow> string" where
  "c_str s = takeWhile (\<lambda>c. c \<noteq> CHR 0x00) s"

text \<open>\<open>junk\<close> is what the uninitialised \<open>ls_opts o\<close> holds before \<open>ls_opts_default\<close>.\<close>

definition to_c :: "ls_opts \<Rightarrow> cxx_options \<Rightarrow> ls_opts" where
  "to_c junk q = (ls_opts_init junk LS_OPTS_VERSION)\<lparr>
     backend := x_backend q, mode := x_mode q, parallel := x_parallel q, rank := x_rank q,
     memory_budget := x_memory_budget q, dir := (if x_dir q = [] then None else Some (c_str (x_dir q))),
     direct_io := x_direct_io q, exact_name := x_exact_name q, durable_close := x_durable_close q\<rparr>"

subsection \<open>The program's state\<close>

record cxx_store =
  sp :: "nat option"
  keepf :: bool
  kbuf :: string

record cxx =
  c_heap :: "nat \<rightharpoonup> ls_store"
  c_brk :: nat
  objs :: "nat \<rightharpoonup> cxx_store"
  c_opened :: "nat list"
  c_closed :: "nat list"

definition cxx0 :: cxx where
  "cxx0 = \<lparr>c_heap = Map.empty, c_brk = 0, objs = Map.empty, c_opened = [], c_closed = []\<rparr>"

text \<open>A C call on a store that may be \<open>NULL\<close>: every entry point refuses it with \<open>LS_ERR_INVAL\<close>.\<close>

definition c_call :: "cxx \<Rightarrow> nat option \<Rightarrow> (ls_store \<Rightarrow> (ls_store \<times> int \<times> 'b) option) \<Rightarrow> 'b
    \<Rightarrow> (cxx \<times> int \<times> 'b) option" where
  "c_call X p f z =
     (case p of
        None \<Rightarrow> Some (X, LS_ERR_INVAL, z)
      | Some a \<Rightarrow>
          (case c_heap X a of
             None \<Rightarrow> None
           | Some s \<Rightarrow>
               (case f s of
                  None \<Rightarrow> None
                | Some (s', rc, r) \<Rightarrow> Some (X\<lparr>c_heap := (c_heap X)(a \<mapsto> s')\<rparr>, rc, r))))"

text \<open>\<open>ls_close\<close> frees the store whatever it returns.\<close>

definition c_close :: "cxx \<Rightarrow> nat option \<Rightarrow> bool \<Rightarrow> (cxx \<times> int) option" where
  "c_close X p keep =
     (case p of
        None \<Rightarrow> Some (X, LS_ERR_INVAL)
      | Some a \<Rightarrow>
          (case c_heap X a of
             None \<Rightarrow> None
           | Some s \<Rightarrow>
               (case ls_close s keep of
                  None \<Rightarrow> None
                | Some (w, gone, rc) \<Rightarrow>
                    Some (X\<lparr>c_heap := (c_heap X)(a := None), c_closed := c_closed X @ [a]\<rparr>, rc))))"

subsection \<open>Construction, moving, closing\<close>

definition store_ctor ::
  "(int \<Rightarrow> string) \<Rightarrow> ls_opts \<Rightarrow> os \<Rightarrow> ls_env \<Rightarrow> cxx \<Rightarrow> nat \<Rightarrow> string \<Rightarrow> cxx_options \<Rightarrow> cxx \<times> (cxx_error + unit)" where
  "store_ctor tx junk w e X a name opt =
     (case ls_open w e (Some (c_str name)) (Some (to_c junk opt)) of
        (w', Inl err) \<Rightarrow> (X, Inl (cxx_error tx err (''ls_open('' @ name @ '')'')))
      | (w', Inr (s, n)) \<Rightarrow>
          (X\<lparr>c_heap := (c_heap X)(c_brk X \<mapsto> s), c_brk := Suc (c_brk X),
             objs := (objs X)(a \<mapsto> \<lparr>sp = Some (c_brk X), keepf = False, kbuf = []\<rparr>),
             c_opened := c_opened X @ [c_brk X]\<rparr>, Inr ()))"

definition set_obj :: "cxx \<Rightarrow> nat \<Rightarrow> (cxx_store \<Rightarrow> cxx_store) \<Rightarrow> cxx" where
  "set_obj X a f = X\<lparr>objs := (objs X)(a := map_option f (objs X a))\<rparr>"

definition store_move_ctor :: "cxx \<Rightarrow> nat \<Rightarrow> nat \<Rightarrow> cxx option" where
  "store_move_ctor X a b =
     (case objs X b of
        None \<Rightarrow> None
      | Some B \<Rightarrow>
          Some (X\<lparr>objs := (objs X)(b \<mapsto> B\<lparr>sp := None\<rparr>, a \<mapsto> \<lparr>sp = sp B, keepf = keepf B, kbuf = []\<rparr>)\<rparr>))"

definition store_shut :: "cxx \<Rightarrow> nat \<Rightarrow> cxx option" where
  "store_shut X a =
     (case objs X a of
        None \<Rightarrow> None
      | Some A \<Rightarrow>
          (case sp A of
             None \<Rightarrow> Some X
           | Some p \<Rightarrow> map_option fst (c_close (set_obj X a (\<lambda>A. A\<lparr>sp := None\<rparr>)) (Some p) (keepf A))))"

definition store_move_assign :: "cxx \<Rightarrow> nat \<Rightarrow> nat \<Rightarrow> cxx option" where
  "store_move_assign X a b =
     (if a = b then Some X
      else case store_shut X a of
        None \<Rightarrow> None
      | Some X1 \<Rightarrow>
          (case objs X1 b of
             None \<Rightarrow> None
           | Some B \<Rightarrow> Some (set_obj (set_obj X1 b (\<lambda>B. B\<lparr>sp := None\<rparr>)) a (\<lambda>A. A\<lparr>sp := sp B, keepf := keepf B\<rparr>))))"

definition store_dtor :: "cxx \<Rightarrow> nat \<Rightarrow> cxx option" where
  "store_dtor X a = map_option (\<lambda>X1. X1\<lparr>objs := (objs X1)(a := None)\<rparr>) (store_shut X a)"

definition store_keep :: "cxx \<Rightarrow> nat \<Rightarrow> bool \<Rightarrow> cxx" where
  "store_keep X a b = set_obj X a (\<lambda>A. A\<lparr>keepf := b\<rparr>)"

definition store_close :: "(int \<Rightarrow> string) \<Rightarrow> cxx \<Rightarrow> nat \<Rightarrow> (cxx \<times> (cxx_error + unit)) option" where
  "store_close tx X a =
     (case objs X a of
        None \<Rightarrow> None
      | Some A \<Rightarrow>
          (case sp A of
             None \<Rightarrow> Some (X, Inr ())
           | Some p \<Rightarrow>
               map_option (\<lambda>(X1, rc). (X1, check tx rc ''ls_close'' ()))
                 (c_close (set_obj X a (\<lambda>A. A\<lparr>sp := None\<rparr>)) (Some p) (keepf A))))"

subsection \<open>The calls with a key\<close>

text \<open>\<open>k\<close> copies the key into the object's one buffer; the C call reads it from there.\<close>

definition k_assign :: "cxx \<Rightarrow> nat \<Rightarrow> string \<Rightarrow> cxx" where
  "k_assign X a kk = set_obj X a (\<lambda>A. A\<lparr>kbuf := kk\<rparr>)"

definition on_kbuf :: "cxx \<Rightarrow> nat \<Rightarrow> (string option \<Rightarrow> ls_store \<Rightarrow> (ls_store \<times> int \<times> 'b) option) \<Rightarrow> 'b
    \<Rightarrow> (cxx \<times> int \<times> 'b) option" where
  "on_kbuf X a f z =
     (case objs X a of None \<Rightarrow> None | Some A \<Rightarrow> c_call X (sp A) (f (Some (c_str (kbuf A)))) z)"

definition member :: "(int \<Rightarrow> string) \<Rightarrow> cxx \<Rightarrow> nat \<Rightarrow> string \<Rightarrow> string
    \<Rightarrow> (string option \<Rightarrow> ls_store \<Rightarrow> (ls_store \<times> int \<times> 'b) option) \<Rightarrow> 'b \<Rightarrow> (cxx \<times> (cxx_error + 'b)) option" where
  "member tx X a msg kk f z =
     map_option (\<lambda>(X1, rc, r). (X1, check tx rc msg r)) (on_kbuf (k_assign X a kk) a f z)"

definition c_write :: "nat \<Rightarrow> byte list \<Rightarrow> string option \<Rightarrow> ls_store \<Rightarrow> (ls_store \<times> int \<times> unit) option" where
  "c_write off v ko s = map_option (\<lambda>(s', rc). (s', rc, ())) (ls_write s ko off (length v) (Some v))"

definition store_write :: "(int \<Rightarrow> string) \<Rightarrow> cxx \<Rightarrow> nat \<Rightarrow> string \<Rightarrow> nat \<Rightarrow> byte list \<Rightarrow> (cxx \<times> (cxx_error + unit)) option" where
  "store_write tx X a kk off v = member tx X a ''ls_write'' kk (c_write off v) ()"

definition store_read :: "(int \<Rightarrow> string) \<Rightarrow> cxx \<Rightarrow> nat \<Rightarrow> string \<Rightarrow> nat \<Rightarrow> nat \<Rightarrow> (cxx \<times> (cxx_error + byte list)) option" where
  "store_read tx X a kk off n = member tx X a ''ls_read'' kk (\<lambda>ko s. ls_read s ko off n True) []"

definition store_append :: "(int \<Rightarrow> string) \<Rightarrow> cxx \<Rightarrow> nat \<Rightarrow> string \<Rightarrow> byte list \<Rightarrow> (cxx \<times> (cxx_error + nat)) option" where
  "store_append tx X a kk v = member tx X a ''ls_append'' kk
     (\<lambda>ko s. map_option (\<lambda>(s', rc, off). (s', rc, case off of None \<Rightarrow> 0 | Some off \<Rightarrow> off)) (ls_append s ko (length v) (Some v))) 0"

text \<open>The element type is \<open>double\<close> or \<open>float\<close>; \<open>add\<close> is the machine's scaled addition on one element.\<close>

definition store_accumulate :: "(int \<Rightarrow> string) \<Rightarrow> cxx \<Rightarrow> nat \<Rightarrow> string \<Rightarrow> nat \<Rightarrow> byte list \<Rightarrow> bool \<Rightarrow> ls_reduce
    \<Rightarrow> (cxx \<times> (cxx_error + unit)) option" where
  "store_accumulate tx X a kk off v is_double add = member tx X a ''ls_accumulate'' kk
     (\<lambda>ko s. map_option (\<lambda>(s', rc). (s', rc, ()))
        (ls_accumulate s ko off (length v) (Some v) (Some (if is_double then ls_add_f64 add else ls_add_f32 add)))) ()"

definition store_writev :: "(int \<Rightarrow> string) \<Rightarrow> cxx \<Rightarrow> nat \<Rightarrow> string \<Rightarrow> ls_seg list \<Rightarrow> (cxx \<times> (cxx_error + byte list list)) option" where
  "store_writev tx X a kk segs = member tx X a ''ls_writev'' kk (\<lambda>ko s. ls_writev s ko (Some segs) (length segs)) []"

definition store_readv :: "(int \<Rightarrow> string) \<Rightarrow> cxx \<Rightarrow> nat \<Rightarrow> string \<Rightarrow> ls_seg list \<Rightarrow> (cxx \<times> (cxx_error + byte list list)) option" where
  "store_readv tx X a kk segs = member tx X a ''ls_readv'' kk (\<lambda>ko s. ls_readv s ko (Some segs) (length segs)) []"

definition store_has :: "(int \<Rightarrow> string) \<Rightarrow> cxx \<Rightarrow> nat \<Rightarrow> string \<Rightarrow> (cxx \<times> (cxx_error + bool)) option" where
  "store_has tx X a kk = member tx X a ''ls_exists'' kk
     (\<lambda>ko s. case ls_exists s ko True of (rc, f) \<Rightarrow> Some (s, rc, f = Some True)) False"

definition store_size :: "(int \<Rightarrow> string) \<Rightarrow> cxx \<Rightarrow> nat \<Rightarrow> string \<Rightarrow> (cxx \<times> (cxx_error + nat)) option" where
  "store_size tx X a kk = member tx X a ''ls_size'' kk
     (\<lambda>ko s. case ls_size s ko True of (rc, n) \<Rightarrow> Some (s, rc, case n of None \<Rightarrow> 0 | Some n \<Rightarrow> n)) 0"

definition store_reserve :: "(int \<Rightarrow> string) \<Rightarrow> cxx \<Rightarrow> nat \<Rightarrow> string \<Rightarrow> nat \<Rightarrow> (cxx \<times> (cxx_error + unit)) option" where
  "store_reserve tx X a kk n = member tx X a ''ls_reserve'' kk
     (\<lambda>ko s. map_option (\<lambda>(s', rc). (s', rc, ())) (ls_reserve s ko n)) ()"

definition store_erase :: "(int \<Rightarrow> string) \<Rightarrow> cxx \<Rightarrow> nat \<Rightarrow> string \<Rightarrow> (cxx \<times> (cxx_error + unit)) option" where
  "store_erase tx X a kk = member tx X a ''ls_erase'' kk
     (\<lambda>ko s. case ls_erase s ko of (s', rc) \<Rightarrow> Some (s', rc, ())) ()"

definition store_keys :: "(int \<Rightarrow> string) \<Rightarrow> cxx \<Rightarrow> nat \<Rightarrow> (cxx \<times> (cxx_error + string list)) option" where
  "store_keys tx X a =
     (case objs X a of
        None \<Rightarrow> None
      | Some A \<Rightarrow> map_option (\<lambda>(X1, rc, ks). (X1, check tx rc ''ls_keys'' ks))
          (c_call X (sp A) (\<lambda>s. Some (ls_keys s True)) []))"

definition store_set_attr :: "(int \<Rightarrow> string) \<Rightarrow> cxx \<Rightarrow> nat \<Rightarrow> string \<Rightarrow> byte list \<Rightarrow> (cxx \<times> (cxx_error + unit)) option" where
  "store_set_attr tx X a kk blob = member tx X a ''ls_set_attr'' kk
     (\<lambda>ko s. case ls_set_attr s ko (Some blob) (length blob) of (s', rc) \<Rightarrow> Some (s', rc, ())) ()"

text \<open>First the length, then, if there is anything, the bytes, with the length as the room there is.\<close>

definition attr_call :: "bool \<Rightarrow> nat \<Rightarrow> string option \<Rightarrow> ls_store \<Rightarrow> (ls_store \<times> int \<times> nat \<times> byte list) option" where
  "attr_call blob n ko s =
     (case ls_get_attr s ko blob (Some n) of (rc, m, bs) \<Rightarrow> Some (s, rc, case m of None \<Rightarrow> n | Some m \<Rightarrow> m, bs))"

definition store_get_attr :: "(int \<Rightarrow> string) \<Rightarrow> cxx \<Rightarrow> nat \<Rightarrow> string \<Rightarrow> (cxx \<times> (cxx_error + byte list)) option" where
  "store_get_attr tx X a kk =
     (case member tx X a ''ls_get_attr'' kk (attr_call False 0) (0, []) of
        None \<Rightarrow> None
      | Some (X1, Inl err) \<Rightarrow> Some (X1, Inl err)
      | Some (X1, Inr (n, _)) \<Rightarrow>
          if n = 0 then Some (X1, Inr [])
          else (case member tx X1 a ''ls_get_attr'' kk (attr_call True n) (0, []) of
              None \<Rightarrow> None
            | Some (X2, Inl err) \<Rightarrow> Some (X2, Inl err)
            | Some (X2, Inr (m, bs)) \<Rightarrow> Some (X2, Inr (take m (bs @ zeros (m - length bs))))))"

definition cxx_store_exists :: "(int \<Rightarrow> string) \<Rightarrow> ls_opts \<Rightarrow> os \<Rightarrow> ls_env \<Rightarrow> string \<Rightarrow> cxx_options \<Rightarrow> os \<times> (cxx_error + bool)" where
  "cxx_store_exists tx junk w e name opt =
     (case ls_store_exists w e (Some (c_str name)) (Some (to_c junk opt)) True of
        (w', rc, found) \<Rightarrow> (w', check tx rc ''ls_store_exists'' (found = Some True)))"

subsection \<open>Programs\<close>

text \<open>What a program can do with its objects. An object is constructed where there is none.\<close>

inductive cxx_step :: "cxx \<Rightarrow> cxx \<Rightarrow> bool" where
  ctor: "objs X a = None \<Longrightarrow> store_ctor tx junk w e X a name opt = (X', r) \<Longrightarrow> cxx_step X X'"
| move_ctor: "objs X a = None \<Longrightarrow> store_move_ctor X a b = Some X' \<Longrightarrow> cxx_step X X'"
| move_assign: "objs X a \<noteq> None \<Longrightarrow> store_move_assign X a b = Some X' \<Longrightarrow> cxx_step X X'"
| dtor: "store_dtor X a = Some X' \<Longrightarrow> cxx_step X X'"
| keep: "cxx_step X (store_keep X a b)"
| close_m: "store_close tx X a = Some (X', r) \<Longrightarrow> cxx_step X X'"
| write_m: "store_write tx X a kk off v = Some (X', r) \<Longrightarrow> cxx_step X X'"
| read: "store_read tx X a kk off n = Some (X', rb) \<Longrightarrow> cxx_step X X'"
| append_m: "store_append tx X a kk v = Some (X', rn) \<Longrightarrow> cxx_step X X'"
| accumulate: "store_accumulate tx X a kk off v dbl add = Some (X', r) \<Longrightarrow> cxx_step X X'"
| writev: "store_writev tx X a kk segs = Some (X', rv) \<Longrightarrow> cxx_step X X'"
| readv: "store_readv tx X a kk segs = Some (X', rv) \<Longrightarrow> cxx_step X X'"
| has: "store_has tx X a kk = Some (X', rt) \<Longrightarrow> cxx_step X X'"
| size: "store_size tx X a kk = Some (X', rn) \<Longrightarrow> cxx_step X X'"
| reserve: "store_reserve tx X a kk n = Some (X', r) \<Longrightarrow> cxx_step X X'"
| erase: "store_erase tx X a kk = Some (X', r) \<Longrightarrow> cxx_step X X'"
| keys: "store_keys tx X a = Some (X', rk) \<Longrightarrow> cxx_step X X'"
| set_attr: "store_set_attr tx X a kk v = Some (X', r) \<Longrightarrow> cxx_step X X'"
| get_attr: "store_get_attr tx X a kk = Some (X', rb) \<Longrightarrow> cxx_step X X'"

text \<open>Who holds which store.\<close>

definition cxx_view :: "cxx \<Rightarrow> own" where
  "cxx_view X = \<lparr>holds = (\<lambda>a. Option.bind (objs X a) sp), alive = dom (c_heap X), given = c_opened X,
     released = c_closed X, nxt = c_brk X\<rparr>"

lemma view_simps [simp]:
  "holds (cxx_view X) a = Option.bind (objs X a) sp" "alive (cxx_view X) = dom (c_heap X)"
  "given (cxx_view X) = c_opened X" "released (cxx_view X) = c_closed X" "nxt (cxx_view X) = c_brk X"
  by (simp_all add: cxx_view_def)

lemma view_eqI:
  assumes "\<And>a. Option.bind (objs X' a) sp = Option.bind (objs X a) sp" "dom (c_heap X') = dom (c_heap X)"
    "c_opened X' = c_opened X" "c_closed X' = c_closed X" "c_brk X' = c_brk X"
  shows "cxx_view X' = cxx_view X"
  using assms by (simp add: cxx_view_def)

lemma held_upd:
  "(\<lambda>x. Option.bind (if x = a then Some A else g x) sp) = (\<lambda>x. Option.bind (g x) sp)(a := sp A)"
  by (auto simp: fun_eq_iff)

lemma set_obj_view:
  assumes "\<And>A. sp (f A) = sp A"
  shows "cxx_view (set_obj X a f) = cxx_view X"
  by (rule view_eqI) (auto simp: set_obj_def assms split: option.splits bind_splits)

lemma c_call_view: "c_call X p f z = Some (X', rc, r) \<Longrightarrow> cxx_view X' = cxx_view X"
  by (rule view_eqI) (auto simp: c_call_def split: option.splits prod.splits if_splits)

lemma member_view: "member tx X a msg kk f z = Some (X', r) \<Longrightarrow> cxx_view X' = cxx_view X"
proof -
  assume "member tx X a msg kk f z = Some (X', r)"
  then obtain A :: cxx_store and rc b where "c_call (k_assign X a kk) (sp A) (f (Some (c_str (kbuf A)))) z = Some (X', rc, b)"
    by (auto simp: member_def on_kbuf_def split: option.splits)
  then have "cxx_view X' = cxx_view (k_assign X a kk)" by (rule c_call_view)
  also have "\<dots> = cxx_view X" unfolding k_assign_def by (rule set_obj_view) simp
  finally show ?thesis .
qed

lemma get_attr_view: "store_get_attr tx X a kk = Some (X', r) \<Longrightarrow> cxx_view X' = cxx_view X"
  by (auto simp: store_get_attr_def split: option.splits sum.splits prod.splits if_splits dest!: member_view)

lemma keys_view: "store_keys tx X a = Some (X', r) \<Longrightarrow> cxx_view X' = cxx_view X"
  by (auto simp: store_keys_def split: option.splits dest!: c_call_view)

text \<open>The calls that change who holds a store.\<close>

lemma ctor_view:
  assumes "objs X a = None" "store_ctor tx junk w e X a name opt = (X', r)"
  shows "own_move\<^sup>*\<^sup>* (cxx_view X) (cxx_view X')"
proof (cases "snd (ls_open w e (Some (c_str name)) (Some (to_c junk opt)))")
  case (Inl err)
  then show ?thesis using assms(2) by (auto simp: store_ctor_def split: prod.splits)
next
  case (Inr q)
  then have X': "X' = X\<lparr>c_heap := (c_heap X)(c_brk X \<mapsto> fst q), c_brk := Suc (c_brk X),
      objs := (objs X)(a \<mapsto> \<lparr>sp = Some (c_brk X), keepf = False, kbuf = []\<rparr>), c_opened := c_opened X @ [c_brk X]\<rparr>"
    using assms(2) by (auto simp: store_ctor_def split: prod.splits)
  have "own_move (cxx_view X) (cxx_view X')"
    using own_move.acquire [of "cxx_view X" a] assms(1)
    by (simp add: X' cxx_view_def held_upd)
  then show ?thesis by blast
qed

lemma close_view:
  assumes "objs X a = Some A" "sp A = Some p" "c_close (set_obj X a (\<lambda>A. A\<lparr>sp := None\<rparr>)) (Some p) b = Some (X', rc)"
  shows "own_move\<^sup>*\<^sup>* (cxx_view X) (cxx_view X')" "objs X' = (objs X)(a \<mapsto> A\<lparr>sp := None\<rparr>)"
proof -
  have X': "X' = X\<lparr>objs := (objs X)(a \<mapsto> A\<lparr>sp := None\<rparr>), c_heap := (c_heap X)(p := None), c_closed := c_closed X @ [p]\<rparr>"
    and p: "p \<in> dom (c_heap X)"
    using assms by (auto simp: c_close_def set_obj_def split: option.splits prod.splits)
  have "own_move (cxx_view X) (cxx_view X')"
    using own_move.release [of "cxx_view X" a p] assms(1,2) p
    by (simp add: X' cxx_view_def held_upd)
  then show "own_move\<^sup>*\<^sup>* (cxx_view X) (cxx_view X')" by blast
  show "objs X' = (objs X)(a \<mapsto> A\<lparr>sp := None\<rparr>)" using X' by simp
qed

lemma shut_view:
  assumes "store_shut X a = Some X'"
  shows "own_move\<^sup>*\<^sup>* (cxx_view X) (cxx_view X')" "Option.bind (objs X' a) sp = None" "objs X' a \<noteq> None"
  using assms close_view by (auto simp: store_shut_def split: option.splits)

text \<open>Moving, into an object that holds nothing.\<close>

lemma move_view:
  assumes "Option.bind (objs X a) sp = None" "a \<noteq> b" "objs X b = Some B" "sp A = sp B"
    "X' = X\<lparr>objs := (objs X)(b \<mapsto> B\<lparr>sp := None\<rparr>, a \<mapsto> A)\<rparr>"
  shows "own_move\<^sup>*\<^sup>* (cxx_view X) (cxx_view X')"
proof -
  have "own_move (cxx_view X) (cxx_view X')"
    using own_move.move [of "cxx_view X" a b] assms
    by (simp add: cxx_view_def held_upd fun_upd_twist)
  then show ?thesis by blast
qed

lemma move_assign_view:
  assumes "store_move_assign X a b = Some X'"
  shows "own_move\<^sup>*\<^sup>* (cxx_view X) (cxx_view X')"
proof (cases "a = b")
  case True
  then show ?thesis using assms by (simp add: store_move_assign_def)
next
  case False
  then obtain X1 B where X1: "store_shut X a = Some X1" "objs X1 b = Some B"
    and X': "X' = set_obj (set_obj X1 b (\<lambda>B. B\<lparr>sp := None\<rparr>)) a (\<lambda>A. A\<lparr>sp := sp B, keepf := keepf B\<rparr>)"
    using assms by (auto simp: store_move_assign_def split: option.splits)
  obtain A where A: "objs X1 a = Some A" using shut_view(3) [OF X1(1)] by blast
  have "own_move\<^sup>*\<^sup>* (cxx_view X1) (cxx_view X')"
    by (rule move_view [OF shut_view(2) [OF X1(1)] False X1(2)])
       (use False A X1(2) in \<open>simp_all add: X' set_obj_def\<close>)
  then show ?thesis using shut_view(1) [OF X1(1)] by simp
qed

lemma dtor_view:
  assumes "store_dtor X a = Some X'"
  shows "own_move\<^sup>*\<^sup>* (cxx_view X) (cxx_view X')"
proof -
  obtain X1 where X1: "store_shut X a = Some X1" "X' = X1\<lparr>objs := (objs X1)(a := None)\<rparr>"
    using assms by (auto simp: store_dtor_def)
  have "cxx_view X' = cxx_view X1"
    by (rule view_eqI) (use shut_view(2) [OF X1(1)] in \<open>simp_all add: X1(2)\<close>)
  then show ?thesis using shut_view(1) [OF X1(1)] by simp
qed

lemmas member_defs = store_write_def store_read_def store_append_def store_accumulate_def store_writev_def
  store_readv_def store_has_def store_size_def store_reserve_def store_erase_def store_set_attr_def

interpretation cxs: move_only cxx_step cxx_view
proof
  fix X X'
  assume "cxx_step X X'"
  then show "own_move\<^sup>*\<^sup>* (cxx_view X) (cxx_view X')"
  proof cases
    case (ctor a tx junk w e name opt r)
    then show ?thesis by (rule ctor_view)
  next
    case (move_ctor a b)
    then obtain B where "objs X b = Some B"
      and "X' = X\<lparr>objs := (objs X)(b \<mapsto> B\<lparr>sp := None\<rparr>, a \<mapsto> \<lparr>sp = sp B, keepf = keepf B, kbuf = []\<rparr>)\<rparr>"
      by (auto simp: store_move_ctor_def split: option.splits)
    then show ?thesis using move_ctor(1) by (intro move_view [of X a b B]) auto
  next
    case (move_assign a b)
    show ?thesis by (rule move_assign_view [OF move_assign(2)])
  next
    case (dtor a)
    then show ?thesis by (rule dtor_view)
  next
    case (keep a b)
    have "cxx_view X' = cxx_view X" unfolding keep store_keep_def by (rule set_obj_view) simp
    then show ?thesis by simp
  next
    case (close_m tx a r)
    then show ?thesis by (auto simp: store_close_def split: option.splits intro: close_view(1))
  qed (auto simp: member_defs dest!: member_view get_attr_view keys_view)
qed

lemma cxx0_inv: "own_inv (cxx_view cxx0)"
  by (simp add: own_inv_def cxx0_def)

subsection \<open>What the members pass on\<close>

text \<open>The options that \<open>ls_open\<close> works with are those of the C++ structure, whatever the uninitialised
  structure held: the version is always right.\<close>

lemma to_c_accepted:
  "opts_take (Some (to_c junk q)) = Some (to_c junk q)" "to_c junk q = to_c opts_zero q"
  by (simp_all add: opts_take_def to_c_def ls_opts_init_def opts_copy_def opts_size_def opts_zero_def
      LS_OPTS_VERSION_def Let_def)

lemma check_throws:
  "check tx (neg_errno e) msg val = Inl (cxx_error tx (neg_errno e) msg) \<and> is_errno (cxx_error tx (neg_errno e) msg)"
  "check tx LS_ERR_NOKEY msg val = Inl (cxx_error tx LS_ERR_NOKEY msg) \<and> \<not> is_errno (cxx_error tx LS_ERR_NOKEY msg)"
  using errno_val_range [of e]
  by (auto simp: check_def is_errno_def cxx_error_def neg_errno_def LS_OK_def LS_ERR_NOKEY_def)

text \<open>A member of a store that was closed or moved from throws \<open>LS_ERR_INVAL\<close>.\<close>

lemma closed_throws:
  assumes "objs X a = Some A" "sp A = None"
  shows "member tx X a msg kk f z = Some (k_assign X a kk, Inl (cxx_error tx LS_ERR_INVAL msg))"
  using assms by (simp add: member_def on_kbuf_def k_assign_def set_obj_def c_call_def check_def)

lemma write_lands:
  assumes "objs X a = Some A" "sp A = Some p" "c_heap X p = Some s" "store_inv s" "ls_key_ok (Some (c_str kk))"
    and "off + length v < u64_mod" "fits s (off + length v)"
    and "on_kbuf (k_assign X a kk) a (c_write off v) () = Some (X', LS_OK, u)"
  shows "\<exists>s'. c_heap X' p = Some s' \<and> store_inv s' \<and> store_abs s' = kv_write (store_abs s) (c_str kk) off v"
proof -
  obtain s' where s': "ls_write s (Some (c_str kk)) off (length v) (Some v) = Some (s', LS_OK)" "c_heap X' p = Some s'"
    using assms(1-3,8)
    by (auto simp: on_kbuf_def k_assign_def set_obj_def c_call_def c_write_def split: option.splits)
  have "st_wrote s (c_str kk) off v s'" using s'(1) assms(5-7) by (simp add: st_wrote_def)
  then show ?thesis using kvs.wrote_view [OF assms(4)] s'(2) by blast
qed

lemma k_assign_twice: "k_assign (k_assign X a ka) a kb = k_assign X a kb"
  by (cases "objs X a") (simp_all add: k_assign_def set_obj_def)

subsection \<open>Properties\<close>

text \<open>C9. Every store a C++ program opens is closed exactly once. In every state a program can reach by
  constructing, moving, assigning, closing and destroying store objects and calling their members,
  a store that is open is held by exactly one object, no object holds a store that was closed, no
  store was closed twice, and every store opened is open or was closed; once no object is left
  the stores closed are those opened.\<close>

theorem stores_closed_once:
  assumes "cxx_step\<^sup>*\<^sup>* cxx0 X"
  shows "(\<forall>p\<in>dom (c_heap X). \<exists>!a. \<exists>A. objs X a = Some A \<and> sp A = Some p)
    \<and> (\<forall>a A p. objs X a = Some A \<longrightarrow> sp A = Some p \<longrightarrow> p \<in> dom (c_heap X))
    \<and> distinct (c_closed X) \<and> set (c_closed X) \<inter> dom (c_heap X) = {}
    \<and> set (c_opened X) = set (c_closed X) \<union> dom (c_heap X)
    \<and> (objs X = Map.empty \<longrightarrow> mset (c_closed X) = mset (c_opened X))"
proof -
  have inv: "own_inv (cxx_view X)" using cxs.steps_inv [OF assms cxx0_inv] .
  have held: "(\<exists>A. objs X a = Some A \<and> sp A = Some p) \<longleftrightarrow> Option.bind (objs X a) sp = Some p" for a p
    by (auto simp: bind_eq_Some_conv)
  have "\<forall>a A p. objs X a = Some A \<longrightarrow> sp A = Some p \<longrightarrow> p \<in> dom (c_heap X)"
    using own_invD(2) [OF inv] by (metis view_simps(1,2) bind.bind_lunit)
  then show ?thesis
    unfolding held using own_invD(1,4-6) [OF inv] own_all_released(2) [OF inv] by simp
qed

text \<open>A store is opened in object 1, moved to object 2, and both objects are destroyed.\<close>

lemma demo_program:
  "\<exists>X1 X2 X3 X4. cxx_step cxx0 X1 \<and> store_move_ctor X1 2 1 = Some X2 \<and> store_dtor X2 1 = Some X3
     \<and> store_dtor X3 2 = Some X4 \<and> cxx_step\<^sup>*\<^sup>* cxx0 X4 \<and> objs X4 = Map.empty \<and> c_opened X4 = [0]"
proof -
  let ?o = "to_c opts_zero options0" and ?tx = "\<lambda>_ :: int. ''error''"
  have o: "opts_refused ?o = None" "memory_budget ?o = 0" "parallel ?o = LS_LOCAL"
    by (simp_all add: to_c_def options0_def ls_opts_init_def opts_refused_def LS_OPTS_VERSION_def)
  have "if parallel ?o = LS_SHARED then snd (ls_open (os_empty []) env0 (Some ''demo'') (Some ?o)) = Inl (neg_errno ENOENT)
     else \<exists>t n. ls_open (os_empty []) env0 (Some ''demo'') (Some ?o) = (fd t, Inr (t, n)) \<and> store_inv t
        \<and> store_abs t = Map.empty \<and> opts t = ?o \<and> flen (fd t) = 4096 \<and> 0 < n"
    by (rule open_new [OF demo_quiet _ _ _ to_c_accepted(1) o(1)])
       (simp_all add: os_empty_def file_wf_def off_max_def env0_def o(2))
  then obtain t n where t: "ls_open (os_empty []) env0 (Some ''demo'') (Some ?o) = (fd t, Inr (t, n))" "opts t = ?o"
    using o(3) by auto
  obtain w g rc where cl: "ls_close t False = Some (w, g, rc)"
    using t(2) o(3)
    by (cases "path t"; cases "ls_os_unlink (fd (free_recs (t\<lparr>teardown := True\<rparr>) (concat (tab t))))")
       (auto simp: ls_close_def Let_def)
  let ?A = "\<lparr>sp = Some 0, keepf = False, kbuf = []\<rparr>"
  define X1 where "X1 = \<lparr>c_heap = [0 \<mapsto> t], c_brk = 1, objs = [1 \<mapsto> ?A], c_opened = [0], c_closed = []\<rparr>"
  define X2 where "X2 = X1\<lparr>objs := [1 \<mapsto> ?A\<lparr>sp := None\<rparr>, 2 \<mapsto> ?A]\<rparr>"
  define X3 where "X3 = X1\<lparr>objs := [2 \<mapsto> ?A]\<rparr>"
  define X4 where "X4 = X1\<lparr>objs := Map.empty, c_heap := Map.empty, c_closed := [0]\<rparr>"
  have "c_str ''demo'' = ''demo''" by (simp add: c_str_def)
  then have "store_ctor ?tx opts_zero (os_empty []) env0 cxx0 1 ''demo'' options0 = (X1, Inr ())"
    using t(1) by (simp add: store_ctor_def cxx0_def X1_def)
  then have s1: "cxx_step cxx0 X1" by (intro cxx_step.ctor) (simp_all add: cxx0_def)
  have m: "store_move_ctor X1 2 1 = Some X2" by (simp add: store_move_ctor_def X1_def X2_def)
  have d1: "store_dtor X2 1 = Some X3"
    by (auto simp: store_dtor_def store_shut_def X1_def X2_def X3_def fun_eq_iff)
  have d2: "store_dtor X3 2 = Some X4"
    using cl by (simp add: store_dtor_def store_shut_def set_obj_def c_close_def X1_def X3_def X4_def fun_upd_def fun_eq_iff)
  have s2: "cxx_step X1 X2" using m by (intro cxx_step.move_ctor) (simp_all add: X1_def)
  have s3: "cxx_step X2 X3" "cxx_step X3 X4" using d1 d2 by (auto intro: cxx_step.dtor)
  have "cxx_step\<^sup>*\<^sup>* cxx0 X4"
    by (rule rtranclp.rtrancl_into_rtrancl [OF rtranclp.rtrancl_into_rtrancl [OF
          rtranclp.rtrancl_into_rtrancl [OF r_into_rtranclp [of cxx_step, OF s1] s2] s3(1)] s3(2)])
  moreover have "objs X4 = Map.empty" "c_opened X4 = [0]" by (simp_all add: X4_def X1_def)
  ultimately show ?thesis using s1 m d1 d2 by blast
qed

theorem stores_closed_once_witness:
  "\<exists>X1 X2 X3 X4. cxx_step cxx0 X1 \<and> store_move_ctor X1 2 1 = Some X2 \<and> store_dtor X2 1 = Some X3
     \<and> store_dtor X3 2 = Some X4 \<and> c_closed X4 = [0]"
proof -
  obtain X1 X2 X3 X4 where X: "cxx_step cxx0 X1" "store_move_ctor X1 2 1 = Some X2" "store_dtor X2 1 = Some X3"
    "store_dtor X3 2 = Some X4" "cxx_step\<^sup>*\<^sup>* cxx0 X4" "objs X4 = Map.empty" "c_opened X4 = [0]"
    using demo_program by blast
  have "mset (c_closed X4) = {#0#}" using stores_closed_once [OF X(5)] X(6,7) by simp
  then have "c_closed X4 = [0]" by simp
  then show ?thesis using X(1-4) by blast
qed

text \<open>C19. Two threads, two keys, one store object: the key of one thread's write can be replaced by the
  other's. The first thread has called \<open>k\<close> for \<open>ka\<close>, the second calls \<open>k\<close> for \<open>kb\<close>, then the first makes its C
  call: its bytes are written under \<open>kb\<close>, the call reports success, and \<open>ka\<close> is left as it was.\<close>

theorem key_buffer_shared:
  assumes "objs X a = Some A" "sp A = Some p" "c_heap X p = Some s" "store_inv s" "ls_key_ok (Some (c_str kb))"
    and "off + length v < u64_mod" "fits s (off + length v)" "c_str ka \<noteq> c_str kb"
    and "on_kbuf (k_assign (k_assign X a ka) a kb) a (c_write off v) () = Some (X', LS_OK, ())"
  shows "\<exists>s'. c_heap X' p = Some s' \<and> store_inv s' \<and> store_abs s' = kv_write (store_abs s) (c_str kb) off v
    \<and> store_abs s' (c_str ka) = store_abs s (c_str ka)"
  using write_lands [OF assms(1-7) assms(9) [unfolded k_assign_twice]] assms(8) by (auto simp: kv_write_def)

theorem key_buffer_shared_witness:
  "\<exists>X' s'. on_kbuf (k_assign (k_assign (cxx0\<lparr>c_heap := [0 \<mapsto> demo 100], objs := [5 \<mapsto> \<lparr>sp = Some 0, keepf = False, kbuf = []\<rparr>]\<rparr>)
       5 ''j'') 5 ''k'') 5 (c_write 0 [1, 2]) () = Some (X', LS_OK, ())
     \<and> c_heap X' 0 = Some s' \<and> store_abs s' ''j'' = None \<and> store_abs s' ''k'' = Some ([1, 2], [])"
proof -
  let ?A = "\<lparr>sp = Some 0, keepf = False, kbuf = []\<rparr>"
  let ?X = "cxx0\<lparr>c_heap := [0 \<mapsto> demo 100], objs := [5 \<mapsto> ?A]\<rparr>" and ?v = "[1, 2 :: byte]"
  have c: "c_str ''j'' = ''j''" "c_str ''k'' = ''k''" by (simp_all add: c_str_def)
  obtain s where "ls_write (demo 100) (Some ''k'') 0 (length ?v) (Some ?v) = Some (s, LS_OK)"
    using demo_write [of 0 ?v] by auto
  then obtain X' where X': "on_kbuf (k_assign (k_assign ?X 5 ''j'') 5 ''k'') 5 (c_write 0 ?v) () = Some (X', LS_OK, ())"
    by (simp add: on_kbuf_def k_assign_def set_obj_def c_call_def c_write_def c)
  have "fits (demo 100) (0 + length ?v)" by (rule demo_room) simp
  then obtain s' where "c_heap X' 0 = Some s'" "store_abs s' = kv_write (store_abs (demo 100)) ''k'' 0 ?v"
    "store_abs s' ''j'' = store_abs (demo 100) ''j''"
    using key_buffer_shared [OF _ _ _ demo_inv [OF off_max_big(1)] _ _ _ _ X', of ?A 0] key_k(1)
    by (auto simp: c u64_mod_def)
  moreover have "store_abs (demo 100) = Map.empty" using off_max_big(1) by simp
  ultimately show ?thesis
    using X' by (auto simp: kv_write_def patch_def grown_def blit_def zeros_def)
qed

end
