(* ===== verification/Requests.thy ===== *)
theory Requests
  imports Pool Cxx
begin

text \<open>
  \<open>class request\<close> of \<open>include/libspill.hpp\<close>, with \<open>store::awrite\<close> and \<open>store::aread\<close> that make requests, over
  the pool of theory \<open>Async\<close>. A request object holds at most one \<open>ls_req\<close>, and waits for it when it is
  waited on, assigned to or destroyed. The discipline is that of theory \<open>Ownership\<close>, with \<open>ls_wait\<close>
  as the release.
\<close>

text \<open>The pool of the store, the request objects by number, the requests obtained and those waited for.\<close>

record rqs =
  rpool :: pool
  robjs :: "nat \<rightharpoonup> nat option"
  rgiven :: "nat list"
  rwaited :: "nat list"

definition rqs0 :: "ls_store \<Rightarrow> nat \<Rightarrow> (nat \<Rightarrow> byte list) \<Rightarrow> rqs" where
  "rqs0 s n m = \<lparr>rpool = pool_init s n m, robjs = Map.empty, rgiven = [], rwaited = []\<rparr>"

subsection \<open>The members\<close>

text \<open>Common to \<open>awrite\<close> and \<open>aread\<close>: an error is thrown, a request goes into the object \<open>a\<close>.\<close>

definition request_of :: "(int \<Rightarrow> string) \<Rightarrow> rqs \<Rightarrow> nat \<Rightarrow> string \<Rightarrow> pool \<times> int \<times> nat option \<Rightarrow> rqs \<times> (cxx_error + unit)" where
  "request_of tx R a msg sub =
     (case sub of (p', rc, ro) \<Rightarrow>
        (case check tx rc msg () of
           Inl err \<Rightarrow> (R\<lparr>rpool := p'\<rparr>, Inl err)
         | Inr _ \<Rightarrow> (R\<lparr>rpool := p', robjs := (robjs R)(a \<mapsto> ro),
                       rgiven := rgiven R @ (case ro of None \<Rightarrow> [] | Some r \<Rightarrow> [r])\<rparr>, Inr ())))"

definition store_awrite :: "(int \<Rightarrow> string) \<Rightarrow> rqs \<Rightarrow> nat \<Rightarrow> string \<Rightarrow> nat \<Rightarrow> nat \<Rightarrow> nat option \<Rightarrow> rqs \<times> (cxx_error + unit)" where
  "store_awrite tx R a kk off n buf =
     request_of tx R a ''ls_awrite'' (ls_awrite (rpool R) (Some (c_str kk)) off n buf True)"

definition store_aread :: "(int \<Rightarrow> string) \<Rightarrow> rqs \<Rightarrow> nat \<Rightarrow> string \<Rightarrow> nat \<Rightarrow> nat \<Rightarrow> nat option \<Rightarrow> rqs \<times> (cxx_error + unit)" where
  "store_aread tx R a kk off n buf =
     request_of tx R a ''ls_aread'' (ls_aread (rpool R) (Some (c_str kk)) off n buf True)"

text \<open>\<open>ls_wait (std::exchange (req_, nullptr))\<close>. \<open>None\<close>: it blocks, or the request does not exist any more.\<close>

definition wait_exchange :: "rqs \<Rightarrow> nat \<Rightarrow> nat \<Rightarrow> (rqs \<times> int) option" where
  "wait_exchange R a r =
     map_option (\<lambda>(p', rc). (R\<lparr>rpool := p', robjs := (robjs R)(a \<mapsto> None), rwaited := rwaited R @ [r]\<rparr>, rc))
       (ls_wait (rpool R) (Some r))"

definition request_wait :: "(int \<Rightarrow> string) \<Rightarrow> rqs \<Rightarrow> nat \<Rightarrow> (rqs \<times> (cxx_error + unit)) option" where
  "request_wait tx R a =
     (case robjs R a of
        None \<Rightarrow> None
      | Some None \<Rightarrow> Some (R, Inr ())
      | Some (Some r) \<Rightarrow> map_option (\<lambda>(R', rc). (R', check tx rc ''ls_wait'' ())) (wait_exchange R a r))"

definition request_done :: "(int \<Rightarrow> string) \<Rightarrow> rqs \<Rightarrow> nat \<Rightarrow> (cxx_error + bool) option" where
  "request_done tx R a =
     (case robjs R a of
        None \<Rightarrow> None
      | Some None \<Rightarrow> Some (Inr True)
      | Some (Some r) \<Rightarrow>
          map_option (\<lambda>(rc, d). check tx rc ''ls_test'' (d = Some True)) (ls_test (rpool R) (Some r) True))"

definition request_drain :: "rqs \<Rightarrow> nat \<Rightarrow> rqs option" where
  "request_drain R a =
     (case robjs R a of
        None \<Rightarrow> None
      | Some None \<Rightarrow> Some R
      | Some (Some r) \<Rightarrow> map_option fst (wait_exchange R a r))"

definition request_move_ctor :: "rqs \<Rightarrow> nat \<Rightarrow> nat \<Rightarrow> rqs option" where
  "request_move_ctor R a b =
     (case robjs R b of None \<Rightarrow> None | Some q \<Rightarrow> Some (R\<lparr>robjs := (robjs R)(b \<mapsto> None, a \<mapsto> q)\<rparr>))"

definition request_move_assign :: "rqs \<Rightarrow> nat \<Rightarrow> nat \<Rightarrow> rqs option" where
  "request_move_assign R a b =
     (if a = b then Some R
      else case request_drain R a of
        None \<Rightarrow> None
      | Some R1 \<Rightarrow>
          (case robjs R1 b of None \<Rightarrow> None | Some q \<Rightarrow> Some (R1\<lparr>robjs := (robjs R1)(b \<mapsto> None, a \<mapsto> q)\<rparr>)))"

definition request_dtor :: "rqs \<Rightarrow> nat \<Rightarrow> rqs option" where
  "request_dtor R a = map_option (\<lambda>R1. R1\<lparr>robjs := (robjs R1)(a := None)\<rparr>) (request_drain R a)"

subsection \<open>Programs\<close>

text \<open>What the program does with its requests, and what happens beside it: the workers, the stop flag, the
  caller's memory.\<close>

inductive rq_step :: "rqs \<Rightarrow> rqs \<Rightarrow> bool" where
  awrite: "robjs R a = None \<Longrightarrow> store_awrite tx R a kk off n buf = (R', res) \<Longrightarrow> rq_step R R'"
| aread: "robjs R a = None \<Longrightarrow> store_aread tx R a kk off n buf = (R', res) \<Longrightarrow> rq_step R R'"
| wait: "request_wait tx R a = Some (R', res) \<Longrightarrow> rq_step R R'"
| move_ctor: "robjs R a = None \<Longrightarrow> request_move_ctor R a b = Some R' \<Longrightarrow> rq_step R R'"
| move_assign: "request_move_assign R a b = Some R' \<Longrightarrow> rq_step R R'"
| dtor: "request_dtor R a = Some R' \<Longrightarrow> rq_step R R'"
| beside: "pstep (rpool R) ev p' \<Longrightarrow> \<forall>r rc. ev \<noteq> E_wait r rc \<Longrightarrow> \<forall>r. ev \<noteq> E_submit r \<Longrightarrow> rq_step R (R\<lparr>rpool := p'\<rparr>)"

definition rq_view :: "rqs \<Rightarrow> own" where
  "rq_view R = \<lparr>holds = (\<lambda>a. Option.bind (robjs R a) id), alive = dom (reqs (rpool R)), given = rgiven R,
     released = rwaited R, nxt = rfresh (rpool R)\<rparr>"

lemma rq_view_simps [simp]:
  "holds (rq_view R) a = Option.bind (robjs R a) id" "alive (rq_view R) = dom (reqs (rpool R))"
  "given (rq_view R) = rgiven R" "released (rq_view R) = rwaited R" "nxt (rq_view R) = rfresh (rpool R)"
  by (simp_all add: rq_view_def)

lemma req_held_upd:
  "(\<lambda>x. Option.bind (if x = a then Some q else g x) id) = (\<lambda>x. Option.bind (g x) id)(a := q)"
  by (auto simp: fun_eq_iff)

lemma submit_cases:
  assumes "submit p ko off n buf op outp = (p', rc, ro)"
  shows "rc \<noteq> LS_OK \<and> ro = None \<and> reqs p' = reqs p \<and> rfresh p' = rfresh p
     \<or> rc = LS_OK \<and> ro = Some (rfresh p) \<and> dom (reqs p') = insert (rfresh p) (dom (reqs p)) \<and> rfresh p' = Suc (rfresh p)"
  using assms unfolding submit_def
  by (auto simp: Let_def split: if_splits prod.splits option.splits)

lemma beside_view:
  assumes "pstep p ev p'" "\<forall>r rc. ev \<noteq> E_wait r rc" "\<forall>r. ev \<noteq> E_submit r"
  shows "dom (reqs p') = dom (reqs p)" "rfresh p' = rfresh p"
proof -
  have "dom (reqs p') = dom (reqs p) \<and> rfresh p' = rfresh p"
    using assms
  proof cases
    case (submit ko off n buf op outp rc ro)
    then show ?thesis using submit_cases [OF submit(2)] assms(3) by (auto split: option.splits)
  next
    case (wait r rc)
    then show ?thesis using assms(2) by blast
  qed (auto simp: worker_def worker_take_def worker_rw_def worker_publish_def worker_account_def pool_stop_flag_def Let_def
      split: option.splits if_splits bind_splits ls_op.splits)
  then show "dom (reqs p') = dom (reqs p)" "rfresh p' = rfresh p" by simp_all
qed

lemma request_of_view:
  assumes "robjs R a = None" "request_of tx R a msg (submit (rpool R) ko off n buf op True) = (R', res)"
  shows "own_move\<^sup>*\<^sup>* (rq_view R) (rq_view R')"
proof -
  obtain p' rc ro where sub: "submit (rpool R) ko off n buf op True = (p', rc, ro)" by (rule prod_cases3)
  show ?thesis
  proof (cases "rc = LS_OK")
    case False
    then have "rq_view R' = rq_view R"
      using submit_cases [OF sub] assms(2) by (auto simp: request_of_def sub check_def rq_view_def)
    then show ?thesis by simp
  next
    case True
    let ?r = "rfresh (rpool R)"
    have s: "ro = Some ?r" "dom (reqs p') = insert ?r (dom (reqs (rpool R)))" "rfresh p' = Suc ?r"
      using submit_cases [OF sub] True by auto
    then have R': "R' = R\<lparr>rpool := p', robjs := (robjs R)(a \<mapsto> Some ?r), rgiven := rgiven R @ [?r]\<rparr>"
      using assms(2) True by (auto simp: request_of_def sub check_def)
    have "own_move (rq_view R) (rq_view R')"
      using own_move.acquire [of "rq_view R" a] assms(1) s by (simp add: R' rq_view_def req_held_upd)
    then show ?thesis by blast
  qed
qed

lemma wait_view:
  assumes "robjs R a = Some (Some r)" "wait_exchange R a r = Some (R', rc)"
  shows "own_move\<^sup>*\<^sup>* (rq_view R) (rq_view R')" "robjs R' = (robjs R)(a \<mapsto> None)"
proof -
  obtain x where x: "reqs (rpool R) r = Some x" "rdone x"
    and R': "R' = R\<lparr>rpool := req_release (rpool R) r, robjs := (robjs R)(a \<mapsto> None), rwaited := rwaited R @ [r]\<rparr>"
    using assms(2) by (auto simp: wait_exchange_def ls_wait_def split: bind_splits if_splits)
  have "own_move (rq_view R) (rq_view R')"
    using own_move.release [of "rq_view R" a r] assms(1) x(1) by (auto simp: R' rq_view_def req_held_upd)
  then show "own_move\<^sup>*\<^sup>* (rq_view R) (rq_view R')" by blast
  show "robjs R' = (robjs R)(a \<mapsto> None)" by (simp add: R')
qed

lemma drain_view:
  assumes "request_drain R a = Some R'"
  shows "own_move\<^sup>*\<^sup>* (rq_view R) (rq_view R')" "robjs R' a = Some None"
proof -
  obtain q where q: "robjs R a = Some q" using assms by (auto simp: request_drain_def split: option.splits)
  have "own_move\<^sup>*\<^sup>* (rq_view R) (rq_view R') \<and> robjs R' a = Some None"
  proof (cases q)
    case None
    then show ?thesis using assms q by (simp add: request_drain_def)
  next
    case (Some r)
    then obtain rc where "wait_exchange R a r = Some (R', rc)" using assms q by (auto simp: request_drain_def)
    then show ?thesis using wait_view [of R a r R' rc] q Some by simp
  qed
  then show "own_move\<^sup>*\<^sup>* (rq_view R) (rq_view R')" "robjs R' a = Some None" by simp_all
qed

lemma request_move_view:
  assumes "Option.bind (robjs R a) id = None" "a \<noteq> b" "robjs R b = Some q" "R' = R\<lparr>robjs := (robjs R)(b \<mapsto> None, a \<mapsto> q)\<rparr>"
  shows "own_move\<^sup>*\<^sup>* (rq_view R) (rq_view R')"
proof -
  have "own_move (rq_view R) (rq_view R')"
    using own_move.move [of "rq_view R" a b] assms by (simp add: rq_view_def req_held_upd fun_upd_twist)
  then show ?thesis by blast
qed

interpretation rqo: move_only rq_step rq_view
proof
  fix R R'
  assume "rq_step R R'"
  then show "own_move\<^sup>*\<^sup>* (rq_view R) (rq_view R')"
  proof cases
    case (awrite a tx kk off n buf res)
    then show ?thesis by (auto simp: store_awrite_def ls_awrite_def intro: request_of_view)
  next
    case (aread a tx kk off n buf res)
    then show ?thesis by (auto simp: store_aread_def ls_aread_def intro: request_of_view)
  next
    case (wait tx a res)
    then show ?thesis by (auto simp: request_wait_def split: option.splits intro: wait_view(1))
  next
    case (move_ctor a b)
    then show ?thesis by (auto simp: request_move_ctor_def split: option.splits intro!: request_move_view [of R a b])
  next
    case (move_assign a b)
    show ?thesis
    proof (cases "a = b")
      case False
      then obtain R1 q where R1: "request_drain R a = Some R1" "robjs R1 b = Some q" "R' = R1\<lparr>robjs := (robjs R1)(b \<mapsto> None, a \<mapsto> q)\<rparr>"
        using move_assign by (auto simp: request_move_assign_def split: option.splits)
      then have "own_move\<^sup>*\<^sup>* (rq_view R1) (rq_view R')"
        using drain_view(2) [OF R1(1)] False by (intro request_move_view [of R1 a b q]) auto
      then show ?thesis using drain_view(1) [OF R1(1)] by simp
    qed (use move_assign in \<open>simp add: request_move_assign_def\<close>)
  next
    case (dtor a)
    then obtain R1 where R1: "request_drain R a = Some R1" "R' = R1\<lparr>robjs := (robjs R1)(a := None)\<rparr>"
      by (auto simp: request_dtor_def)
    have "rq_view R' = rq_view R1" using drain_view(2) [OF R1(1)] by (auto simp: R1(2) rq_view_def fun_eq_iff)
    then show ?thesis using drain_view(1) [OF R1(1)] by simp
  next
    case (beside ev p')
    have "rq_view R' = rq_view R" using beside_view [OF beside(2-4)] by (simp add: beside(1) rq_view_def)
    then show ?thesis by simp
  qed
qed

lemma rqs0_inv: "own_inv (rq_view (rqs0 s n m))"
  by (simp add: own_inv_def rqs0_def pool_init_def)

subsection \<open>C++ programs are pool programs\<close>

lemma wait_exchange_pstep:
  assumes "wait_exchange R a r = Some (R', rc)"
  shows "pstep (rpool R) (E_wait r rc) (rpool R')"
  using assms by (auto simp: wait_exchange_def intro: pstep.wait)

lemma drain_pstep:
  assumes "request_drain R a = Some R'"
  shows "rpool R' = rpool R \<or> (\<exists>ev. pstep (rpool R) ev (rpool R'))"
  using assms wait_exchange_pstep [of R a] by (auto simp: request_drain_def split: option.splits)

lemma request_of_pstep:
  assumes "request_of tx R a msg (submit (rpool R) ko off n buf op True) = (R', res)"
  shows "\<exists>ev. pstep (rpool R) ev (rpool R')"
proof -
  obtain p' rc ro where sub: "submit (rpool R) ko off n buf op True = (p', rc, ro)" by (rule prod_cases3)
  then have "rpool R' = p'" using assms by (auto simp: request_of_def check_def split: if_splits)
  then show ?thesis using pstep.submit [OF sub] by blast
qed

lemma rq_step_pool:
  assumes "rq_step R R'"
  shows "rpool R' = rpool R \<or> (\<exists>ev. pstep (rpool R) ev (rpool R'))"
  using assms
proof cases
  case (awrite a tx kk off n buf res)
  then show ?thesis using request_of_pstep by (auto simp: store_awrite_def ls_awrite_def)
next
  case (aread a tx kk off n buf res)
  then show ?thesis using request_of_pstep by (auto simp: store_aread_def ls_aread_def)
next
  case (wait tx a res)
  then show ?thesis using wait_exchange_pstep [of R a] by (auto simp: request_wait_def split: option.splits)
next
  case (move_ctor a b)
  then show ?thesis by (auto simp: request_move_ctor_def split: option.splits)
next
  case (move_assign a b)
  then show ?thesis by (auto simp: request_move_assign_def split: if_splits option.splits dest!: drain_pstep)
next
  case (dtor a)
  then show ?thesis by (auto simp: request_dtor_def dest!: drain_pstep)
next
  case (beside ev p')
  then show ?thesis by auto
qed

lemma rq_steps_pool: "rq_step\<^sup>*\<^sup>* (rqs0 s n m) R \<Longrightarrow> \<exists>es. runs (pool_init s n m) es (rpool R)"
proof (induction rule: rtranclp_induct)
  case base
  then show ?case by (auto simp: rqs0_def intro: runs.refl)
next
  case (step R R')
  then show ?case using rq_step_pool [OF step(2)] by (metis runs.step)
qed

subsection \<open>Properties\<close>

text \<open>C24. Every request a C++ program obtains is waited for exactly once. In every reachable state, with the
  workers running beside the program, a request that exists is held by exactly one object, no object
  holds a request that \<open>ls_wait\<close> has freed, none was waited for twice; and once no object is left the
  requests waited for are those obtained, and the pool has none.\<close>

theorem requests_waited_once:
  assumes "rq_step\<^sup>*\<^sup>* (rqs0 s n m) R"
  shows "(\<forall>r\<in>dom (reqs (rpool R)). \<exists>!a. robjs R a = Some (Some r))
    \<and> (\<forall>a r. robjs R a = Some (Some r) \<longrightarrow> r \<in> dom (reqs (rpool R)))
    \<and> distinct (rwaited R) \<and> set (rwaited R) \<inter> dom (reqs (rpool R)) = {}
    \<and> (robjs R = Map.empty \<longrightarrow> mset (rwaited R) = mset (rgiven R) \<and> reqs (rpool R) = Map.empty)"
proof -
  have inv: "own_inv (rq_view R)" using rqo.steps_inv [OF assms rqs0_inv] .
  have held: "Option.bind (robjs R a) id = Some r \<longleftrightarrow> robjs R a = Some (Some r)" for a r
    by (auto simp: bind_eq_Some_conv)
  have "robjs R = Map.empty \<longrightarrow> mset (rwaited R) = mset (rgiven R) \<and> reqs (rpool R) = Map.empty"
    using own_all_released [OF inv] by (simp add: dom_eq_empty_conv)
  then show ?thesis
    using own_invD(1,2,4,5) [OF inv] unfolding rq_view_simps held by blast
qed

theorem requests_waited_once_witness:
  "\<exists>R. rq_step\<^sup>*\<^sup>* (rqs0 (demo 100) 1 (\<lambda>_. [7, 8])) R \<and> rgiven R = [0] \<and> (\<exists>!a. robjs R a = Some (Some 0))"
proof -
  let ?R = "rqs0 (demo 100) 1 (\<lambda>_. [7, 8])"
  let ?S = "?R\<lparr>rpool := demo_sub, robjs := [4 \<mapsto> Some 0], rgiven := [0]\<rparr>"
  have "c_str ''k'' = ''k''" by (simp add: c_str_def)
  then have "store_awrite (\<lambda>_. ''error'') ?R 4 ''k'' 0 2 (Some 0) = (?S, Inr ())"
    using demo_submit by (simp add: store_awrite_def request_of_def check_def rqs0_def demo_pool_def)
  then have st: "rq_step\<^sup>*\<^sup>* ?R ?S" by (intro r_into_rtranclp rq_step.awrite) (simp_all add: rqs0_def)
  have "0 \<in> dom (reqs (rpool ?S))" by (simp add: demo_sub_def)
  then have "\<exists>!a. robjs ?S a = Some (Some 0)" using requests_waited_once [OF st] by blast
  then show ?thesis using st by (intro exI [of _ ?S]) simp
qed

text \<open>C14. A request object must not outlive its store. When the store is closed while an object still holds
  a request, \<open>ls_close\<close> joins the workers and frees every request; the object keeps its pointer, and
  its destructor, \<open>wait\<close> and \<open>done\<close> all reach a request that does not exist any more.\<close>

theorem request_outlives_store:
  assumes "rq_step\<^sup>*\<^sup>* (rqs0 s n m) R" "0 < n" "\<forall>v\<in>set (wk (rpool R)). v = W_exit" "robjs R a = Some (Some r)"
  shows "\<exists>p'. pool_stop_join (rpool R) = Some p' \<and> reqs p' r = None
    \<and> request_dtor (R\<lparr>rpool := p'\<rparr>) a = None \<and> request_wait tx (R\<lparr>rpool := p'\<rparr>) a = None
    \<and> request_done tx (R\<lparr>rpool := p'\<rparr>) a = None"
proof -
  obtain es where run: "runs (pool_init s n m) es (rpool R)" using rq_steps_pool [OF assms(1)] by blast
  obtain q where ok: "pool_ok (rpool R) q" using runs_ok [OF run pool_init_ok] by blast
  have "0 < length (wk (rpool R))" using runs_length [OF run] assms(2) by (simp add: pool_init_def)
  then obtain p' where p': "pool_stop_join (rpool R) = Some p'" "reqs p' = Map.empty"
    using exited(4) [OF ok assms(3)] by blast
  then show ?thesis
    using assms(4)
    by (simp add: request_dtor_def request_drain_def request_wait_def request_done_def wait_exchange_def ls_wait_def ls_test_def)
qed

lemma worker_beside:
  assumes "i < length (wk p)" "worker p i = Some p'"
  shows "\<exists>ev. pstep p ev p' \<and> (\<forall>r rc. ev \<noteq> E_wait r rc) \<and> (\<forall>r. ev \<noteq> E_submit r)"
proof (cases "wk p ! i")
  case W_idle
  show ?thesis using pstep.take [OF assms(1) W_idle assms(2)] by (cases "qh p") auto
next
  case (W_run r)
  then obtain rc where "wk p' ! i = W_pub r rc"
    using assms by (auto simp: worker_def worker_rw_def Let_def split: bind_splits option.splits ls_op.splits)
  then show ?thesis using pstep.rw [OF assms(1) W_run assms(2)] by blast
next
  case (W_pub r rc)
  show ?thesis using pstep.publish [OF assms(1) W_pub assms(2)] by blast
next
  case (W_acct rc)
  show ?thesis using pstep.account [OF assms(1) W_acct assms(2)] by blast
next
  case W_exit
  then show ?thesis using assms(2) by (simp add: worker_def)
qed

lemma wruns_rq_steps: "wruns p k p' \<Longrightarrow> rpool R = p \<Longrightarrow> rq_step\<^sup>*\<^sup>* R (R\<lparr>rpool := p'\<rparr>)"
proof (induction rule: wruns.induct)
  case (refl p)
  then show ?case by (cases R) simp
next
  case (step p k q i q')
  have "rq_step (R\<lparr>rpool := q\<rparr>) (R\<lparr>rpool := q, rpool := q'\<rparr>)"
    using worker_beside [OF step(2,3)] rq_step.beside [of "R\<lparr>rpool := q\<rparr>"] by auto
  then show ?case using step.IH [OF step.prems] by simp
qed

theorem request_outlives_store_witness:
  "\<exists>R p'. robjs R 4 = Some (Some 0) \<and> pool_stop_join (rpool R) = Some p' \<and> request_dtor (R\<lparr>rpool := p'\<rparr>) 4 = None"
proof -
  let ?R = "rqs0 (demo 100) 1 (\<lambda>_. [7, 8])"
  let ?S = "?R\<lparr>rpool := demo_sub, robjs := [4 \<mapsto> Some 0], rgiven := [0]\<rparr>"
  let ?T = "?S\<lparr>rpool := pool_stop_flag demo_sub\<rparr>"
  have "c_str ''k'' = ''k''" by (simp add: c_str_def)
  then have "store_awrite (\<lambda>_. ''error'') ?R 4 ''k'' 0 2 (Some 0) = (?S, Inr ())"
    using demo_submit by (simp add: store_awrite_def request_of_def check_def rqs0_def demo_pool_def)
  then have "rq_step ?R ?S" by (intro rq_step.awrite) (simp_all add: rqs0_def)
  moreover have "rq_step ?S ?T" using rq_step.beside [of ?S E_tau "pool_stop_flag demo_sub"] pstep.stop [of demo_sub] by simp
  ultimately have st: "rq_step\<^sup>*\<^sup>* ?R ?T" by (meson r_into_rtranclp rtranclp_trans)
  obtain p where p: "wruns (pool_stop_flag demo_sub) 5 p" "wk p = [W_exit]" using demo_drained by blast
  have "rq_step\<^sup>*\<^sup>* ?T (?T\<lparr>rpool := p\<rparr>)" by (rule wruns_rq_steps [OF p(1)]) simp
  then have all: "rq_step\<^sup>*\<^sup>* ?R (?T\<lparr>rpool := p\<rparr>)" using st by simp
  show ?thesis
    using request_outlives_store [OF all, of 4 0] p(2) by (intro exI [of _ "?T\<lparr>rpool := p\<rparr>"]) auto
qed

end
