(* ===== verification/Sync.thy ===== *)
theory Sync
  imports Prelude
begin

text \<open>
  Locks and condition variables (\<open>ls_mutex_*\<close> and \<open>ls_cond_*\<close> of \<open>src/os.h\<close>) and the way \<open>src/async.c\<close>
  uses them. Theory \<open>Async\<close> takes a critical section as one step and lets a worker with nothing to do
  have no step. Here the locks and the sleeping are written out: taking a lock is a step, and so is what
  happens from there to the unlock, the wait, the signal or the broadcast that ends the critical section.
  Threads interleave freely and a sleeping thread may wake without being signalled. What the requests
  carry, the checks of \<open>submit\<close> before its lock and the result of \<open>ls_rw\<close> are in \<open>Async\<close>; \<open>ls_rw\<close> is one step
  here. No two threads are in critical sections of one lock, no wakeup is lost, and the layer
  cannot deadlock.
\<close>

subsection \<open>The primitives\<close>

datatype tid = Wk nat | Cl nat

text \<open>A mutex with the condition variable that is used with it.\<close>

record monitor =
  owner :: "tid option"
  asleep :: "tid set"

definition ls_mutex_init :: monitor where
  "ls_mutex_init = \<lparr>owner = None, asleep = {}\<rparr>"

text \<open>\<open>None\<close>: the caller blocks.\<close>

definition ls_mutex_lock :: "monitor \<Rightarrow> tid \<Rightarrow> monitor option" where
  "ls_mutex_lock v t = (if owner v = None then Some (v\<lparr>owner := Some t\<rparr>) else None)"

definition ls_mutex_unlock :: "monitor \<Rightarrow> monitor" where
  "ls_mutex_unlock v = v\<lparr>owner := None\<rparr>"

text \<open>Releasing the mutex and going to sleep are one step. The second half of the wait takes the mutex again.\<close>

definition ls_cond_wait :: "monitor \<Rightarrow> tid \<Rightarrow> monitor" where
  "ls_cond_wait v t = v\<lparr>owner := None, asleep := insert t (asleep v)\<rparr>"

definition ls_cond_wake :: "monitor \<Rightarrow> tid \<Rightarrow> monitor option" where
  "ls_cond_wake v t = (if t \<in> asleep v then None else ls_mutex_lock v t)"

text \<open>A signal wakes one sleeping thread, of the system's choice \<open>u\<close>, if there is any.\<close>

definition ls_cond_signal :: "monitor \<Rightarrow> tid \<Rightarrow> monitor" where
  "ls_cond_signal v u = v\<lparr>asleep := asleep v - {u}\<rparr>"

definition ls_cond_broadcast :: "monitor \<Rightarrow> monitor" where
  "ls_cond_broadcast v = v\<lparr>asleep := {}\<rparr>"

lemmas sync_defs = ls_mutex_lock_def ls_mutex_unlock_def ls_cond_wait_def ls_cond_wake_def
  ls_cond_signal_def ls_cond_broadcast_def

subsection \<open>The threads\<close>

text \<open>Where a thread is. A worker: before the queue lock, at the test of the inner loop, in the wait, with a
  request, before and inside the request's lock, before and inside the queue lock again, returned. A
  caller: outside the library, in \<open>submit\<close>, in \<open>ls_pool_stop\<close>, in \<open>ls_wait\<close> or in \<open>ls_test\<close>.\<close>

datatype pc = P_top | P_test | P_wait | P_run nat | P_pub nat | P_pub_in nat | P_acct | P_acct_in | P_gone
  | Q_out | Q_sub nat | Q_sub_in nat | Q_stop | Q_stop_in | Q_join | Q_free | Q_free_in
  | Q_wait nat | Q_wait_in nat | Q_wait_cv nat | Q_rel nat | Q_rel_in nat | Q_test nat | Q_test_in nat

text \<open>The monitor of the queue (\<open>None\<close>) and of each request, the position of every thread, the number of
  workers, the queue, the stop flag, the next unused request, the requests that \<open>submit\<close> accepted, and
  those that are done.\<close>

record sync =
  mon :: "nat option \<Rightarrow> monitor"
  pcs :: "tid \<Rightarrow> pc"
  snthr :: nat
  sq :: "nat list"
  sstop :: bool
  snext :: nat
  sacc :: "nat set"
  sdone :: "nat set"

definition sync0 :: "nat \<Rightarrow> sync" where
  "sync0 n = \<lparr>mon = (\<lambda>_. ls_mutex_init), pcs = (\<lambda>t. case t of Wk i \<Rightarrow> if i < n then P_top else P_gone | Cl _ \<Rightarrow> Q_out),
     snthr = n, sq = [], sstop = False, snext = 0, sacc = {}, sdone = {}\<rparr>"

text \<open>The thread moves on, or moves on and leaves monitor \<open>m\<close> as \<open>v\<close>.\<close>

definition at_pc :: "sync \<Rightarrow> tid \<Rightarrow> pc \<Rightarrow> sync" where
  "at_pc x t p = x\<lparr>pcs := (pcs x)(t := p)\<rparr>"

definition go :: "sync \<Rightarrow> tid \<Rightarrow> pc \<Rightarrow> nat option \<Rightarrow> monitor \<Rightarrow> sync" where
  "go x t p m v = x\<lparr>pcs := (pcs x)(t := p), mon := (mon x)(m := v)\<rparr>"

text \<open>The steps of \<open>worker\<close>.\<close>

inductive work :: "sync \<Rightarrow> tid \<Rightarrow> sync \<Rightarrow> bool" where
  enter: "pcs x t = P_top \<Longrightarrow> ls_mutex_lock (mon x None) t = Some v \<Longrightarrow> work x t (go x t P_test None v)"
| sleep: "pcs x t = P_test \<Longrightarrow> sq x = [] \<Longrightarrow> \<not> sstop x \<Longrightarrow> work x t (go x t P_wait None (ls_cond_wait (mon x None) t))"
| awake: "pcs x t = P_wait \<Longrightarrow> ls_cond_wake (mon x None) t = Some v \<Longrightarrow> work x t (go x t P_test None v)"
| leave: "pcs x t = P_test \<Longrightarrow> sq x = [] \<Longrightarrow> sstop x \<Longrightarrow> work x t (go x t P_gone None (ls_mutex_unlock (mon x None)))"
| take: "pcs x t = P_test \<Longrightarrow> sq x = r # q \<Longrightarrow> work x t (go (x\<lparr>sq := q\<rparr>) t (P_run r) None (ls_mutex_unlock (mon x None)))"
| ran: "pcs x t = P_run r \<Longrightarrow> work x t (at_pc x t (P_pub r))"
| publish: "pcs x t = P_pub r \<Longrightarrow> ls_mutex_lock (mon x (Some r)) t = Some v \<Longrightarrow> work x t (go x t (P_pub_in r) (Some r) v)"
| published: "pcs x t = P_pub_in r \<Longrightarrow>
    work x t (go (x\<lparr>sdone := insert r (sdone x)\<rparr>) t P_acct (Some r) (ls_mutex_unlock (ls_cond_broadcast (mon x (Some r)))))"
| account: "pcs x t = P_acct \<Longrightarrow> ls_mutex_lock (mon x None) t = Some v \<Longrightarrow> work x t (go x t P_acct_in None v)"
| accounted: "pcs x t = P_acct_in \<Longrightarrow> work x t (go x t P_top None (ls_mutex_unlock (ls_cond_broadcast (mon x None))))"

text \<open>The steps of a caller inside \<open>submit\<close>.\<close>

inductive submit_step :: "sync \<Rightarrow> tid \<Rightarrow> sync \<Rightarrow> bool" where
  sub: "pcs x t = Q_sub r \<Longrightarrow> ls_mutex_lock (mon x None) t = Some v \<Longrightarrow> submit_step x t (go x t (Q_sub_in r) None v)"
| refused: "pcs x t = Q_sub_in r \<Longrightarrow> sstop x \<Longrightarrow> submit_step x t (go x t Q_out None (ls_mutex_unlock (mon x None)))"
| queued: "pcs x t = Q_sub_in r \<Longrightarrow> \<not> sstop x \<Longrightarrow> u \<in> asleep (mon x None) \<or> asleep (mon x None) = {} \<Longrightarrow>
    submit_step x t (go (x\<lparr>sq := sq x @ [r], sacc := insert r (sacc x)\<rparr>) t Q_out None
      (ls_mutex_unlock (ls_cond_signal (mon x None) u)))"

text \<open>Inside \<open>ls_pool_stop\<close>: the flag, the joins, and the release of what is left.\<close>

inductive stop_step :: "sync \<Rightarrow> tid \<Rightarrow> sync \<Rightarrow> bool" where
  stop: "pcs x t = Q_stop \<Longrightarrow> ls_mutex_lock (mon x None) t = Some v \<Longrightarrow> stop_step x t (go x t Q_stop_in None v)"
| stopped: "pcs x t = Q_stop_in \<Longrightarrow>
    stop_step x t (go (x\<lparr>sstop := True\<rparr>) t Q_join None (ls_mutex_unlock (ls_cond_broadcast (mon x None))))"
| join: "pcs x t = Q_join \<Longrightarrow> \<forall>i < snthr x. pcs x (Wk i) = P_gone \<Longrightarrow> stop_step x t (at_pc x t Q_free)"
| free_lock: "pcs x t = Q_free \<Longrightarrow> ls_mutex_lock (mon x None) t = Some v \<Longrightarrow> stop_step x t (go x t Q_free_in None v)"
| freed: "pcs x t = Q_free_in \<Longrightarrow> stop_step x t (go x t Q_out None (ls_mutex_unlock (mon x None)))"

text \<open>Inside \<open>ls_wait\<close>.\<close>

inductive wait_step :: "sync \<Rightarrow> tid \<Rightarrow> sync \<Rightarrow> bool" where
  wait: "pcs x t = Q_wait r \<Longrightarrow> ls_mutex_lock (mon x (Some r)) t = Some v \<Longrightarrow> wait_step x t (go x t (Q_wait_in r) (Some r) v)"
| wait_sleep: "pcs x t = Q_wait_in r \<Longrightarrow> r \<notin> sdone x \<Longrightarrow>
    wait_step x t (go x t (Q_wait_cv r) (Some r) (ls_cond_wait (mon x (Some r)) t))"
| wait_awake: "pcs x t = Q_wait_cv r \<Longrightarrow> ls_cond_wake (mon x (Some r)) t = Some v \<Longrightarrow> wait_step x t (go x t (Q_wait_in r) (Some r) v)"
| waited: "pcs x t = Q_wait_in r \<Longrightarrow> r \<in> sdone x \<Longrightarrow> wait_step x t (go x t (Q_rel r) (Some r) (ls_mutex_unlock (mon x (Some r))))"
| rel: "pcs x t = Q_rel r \<Longrightarrow> ls_mutex_lock (mon x None) t = Some v \<Longrightarrow> wait_step x t (go x t (Q_rel_in r) None v)"
| released: "pcs x t = Q_rel_in r \<Longrightarrow> wait_step x t (go x t Q_out None (ls_mutex_unlock (mon x None)))"

text \<open>Inside \<open>ls_test\<close>.\<close>

inductive test_step :: "sync \<Rightarrow> tid \<Rightarrow> sync \<Rightarrow> bool" where
  test: "pcs x t = Q_test r \<Longrightarrow> ls_mutex_lock (mon x (Some r)) t = Some v \<Longrightarrow> test_step x t (go x t (Q_test_in r) (Some r) v)"
| tested: "pcs x t = Q_test_in r \<Longrightarrow> test_step x t (go x t Q_out (Some r) (ls_mutex_unlock (mon x (Some r))))"

inductive call_step :: "sync \<Rightarrow> tid \<Rightarrow> sync \<Rightarrow> bool" where
  submits: "submit_step x t x' \<Longrightarrow> call_step x t x'"
| stops: "stop_step x t x' \<Longrightarrow> call_step x t x'"
| waits: "wait_step x t x' \<Longrightarrow> call_step x t x'"
| tests: "test_step x t x' \<Longrightarrow> call_step x t x'"

lemmas call_elims = call_step.cases submit_step.cases stop_step.cases wait_step.cases test_step.cases

text \<open>A caller may enter the library at any time: with a request of its own to submit, to stop the pool, or
  to wait for or test a request that was accepted.\<close>

inductive call_begin :: "sync \<Rightarrow> tid \<Rightarrow> sync \<Rightarrow> bool" where
  begin_submit: "pcs x t = Q_out \<Longrightarrow> call_begin x t (at_pc (x\<lparr>snext := Suc (snext x)\<rparr>) t (Q_sub (snext x)))"
| begin_stop: "pcs x t = Q_out \<Longrightarrow> call_begin x t (at_pc x t Q_stop)"
| begin_wait: "pcs x t = Q_out \<Longrightarrow> r \<in> sacc x \<Longrightarrow> call_begin x t (at_pc x t (Q_wait r))"
| begin_test: "pcs x t = Q_out \<Longrightarrow> r \<in> sacc x \<Longrightarrow> call_begin x t (at_pc x t (Q_test r))"

text \<open>A step inside the library, by a worker or a caller; and any step, a call that begins and a wakeup that
  nobody asked for included.\<close>

inductive inner_step :: "sync \<Rightarrow> sync \<Rightarrow> bool" where
  worker: "work x (Wk i) x' \<Longrightarrow> inner_step x x'"
| caller: "call_step x (Cl i) x' \<Longrightarrow> inner_step x x'"

inductive sync_step :: "sync \<Rightarrow> sync \<Rightarrow> bool" where
  inner: "inner_step x x' \<Longrightarrow> sync_step x x'"
| begins: "call_begin x (Cl i) x' \<Longrightarrow> sync_step x x'"
| spurious: "sync_step x (x\<lparr>mon := (mon x)(m := ls_cond_signal (mon x m) t)\<rparr>)"

inductive sync_reach :: "nat \<Rightarrow> sync \<Rightarrow> bool" for n where
  start: "sync_reach n (sync0 n)"
| steps: "sync_reach n x \<Longrightarrow> sync_step x x' \<Longrightarrow> sync_reach n x'"

subsection \<open>The invariant\<close>

text \<open>The lock a thread at this position has, the condition it sleeps on, and the request it waits for.\<close>

fun in_lock :: "pc \<Rightarrow> nat option option" where
  "in_lock P_test = Some None"
| "in_lock P_acct_in = Some None"
| "in_lock (P_pub_in r) = Some (Some r)"
| "in_lock (Q_sub_in r) = Some None"
| "in_lock Q_stop_in = Some None"
| "in_lock Q_free_in = Some None"
| "in_lock (Q_wait_in r) = Some (Some r)"
| "in_lock (Q_rel_in r) = Some None"
| "in_lock (Q_test_in r) = Some (Some r)"
| "in_lock _ = None"

fun sleeps_on :: "pc \<Rightarrow> nat option option" where
  "sleeps_on P_wait = Some None"
| "sleeps_on (Q_wait_cv r) = Some (Some r)"
| "sleeps_on _ = None"

fun worker_pc :: "pc \<Rightarrow> bool" where
  "worker_pc P_top = True"
| "worker_pc P_test = True"
| "worker_pc P_wait = True"
| "worker_pc (P_run r) = True"
| "worker_pc (P_pub r) = True"
| "worker_pc (P_pub_in r) = True"
| "worker_pc P_acct = True"
| "worker_pc P_acct_in = True"
| "worker_pc P_gone = True"
| "worker_pc _ = False"

fun has_req :: "pc \<Rightarrow> nat option" where
  "has_req (P_run r) = Some r"
| "has_req (P_pub r) = Some r"
| "has_req (P_pub_in r) = Some r"
| "has_req _ = None"

fun awaits :: "pc \<Rightarrow> nat option" where
  "awaits (Q_wait r) = Some r"
| "awaits (Q_wait_in r) = Some r"
| "awaits (Q_wait_cv r) = Some r"
| "awaits _ = None"

definition locks_ok :: "sync \<Rightarrow> bool" where
  "locks_ok x \<longleftrightarrow> (\<forall>m t. owner (mon x m) = Some t \<longleftrightarrow> in_lock (pcs x t) = Some m)
     \<and> (\<forall>m t. t \<in> asleep (mon x m) \<longrightarrow> sleeps_on (pcs x t) = Some m)"

text \<open>Workers are in \<open>worker\<close> and callers are not; the workers that were not created have returned.\<close>

definition threads_ok :: "sync \<Rightarrow> bool" where
  "threads_ok x \<longleftrightarrow> (\<forall>i. worker_pc (pcs x (Wk i))) \<and> (\<forall>i. \<not> worker_pc (pcs x (Cl i))) \<and> (\<forall>i\<ge>snthr x. pcs x (Wk i) = P_gone)"

text \<open>Nobody sleeps on a condition that holds, and a worker that returned left nothing to do.\<close>

definition none_asleep :: "sync \<Rightarrow> bool" where
  "none_asleep x \<longleftrightarrow> (sstop x \<longrightarrow> asleep (mon x None) = {}) \<and> (\<forall>r\<in>sdone x. asleep (mon x (Some r)) = {})"

definition gone_ok :: "sync \<Rightarrow> bool" where
  "gone_ok x \<longleftrightarrow> (\<forall>i < snthr x. pcs x (Wk i) = P_gone \<longrightarrow> sstop x \<and> sq x = [])"

definition join_ok :: "sync \<Rightarrow> bool" where
  "join_ok x \<longleftrightarrow> (\<forall>i. pcs x (Cl i) = Q_join \<longrightarrow> sstop x)"

definition awake_ok :: "sync \<Rightarrow> bool" where
  "awake_ok x \<longleftrightarrow> (sq x \<noteq> [] \<longrightarrow> (\<exists>i < snthr x. Wk i \<notin> asleep (mon x None) \<and> pcs x (Wk i) \<noteq> P_gone))"

text \<open>An accepted request is queued, with a worker, or done; only accepted requests are waited for.\<close>

definition reqs_ok :: "sync \<Rightarrow> bool" where
  "reqs_ok x \<longleftrightarrow> (\<forall>r\<in>sacc x. r \<in> set (sq x) \<or> r \<in> sdone x \<or> (\<exists>i. has_req (pcs x (Wk i)) = Some r))
     \<and> (\<forall>i r. awaits (pcs x (Cl i)) = Some r \<longrightarrow> r \<in> sacc x)"

lemma go_sel [simp]:
  "pcs (go x t p m v) = (pcs x)(t := p)" "mon (go x t p m v) = (mon x)(m := v)" "sq (go x t p m v) = sq x"
  "sstop (go x t p m v) = sstop x" "sdone (go x t p m v) = sdone x" "snthr (go x t p m v) = snthr x"
  "snext (go x t p m v) = snext x" "sacc (go x t p m v) = sacc x"
  "pcs (at_pc x t p) = (pcs x)(t := p)" "mon (at_pc x t p) = mon x" "sq (at_pc x t p) = sq x"
  "sstop (at_pc x t p) = sstop x" "sdone (at_pc x t p) = sdone x" "snthr (at_pc x t p) = snthr x"
  "snext (at_pc x t p) = snext x" "sacc (at_pc x t p) = sacc x"
  by (simp_all add: go_def at_pc_def)

lemma locks_okD:
  assumes "locks_ok x"
  shows "owner (mon x m) = Some t \<longleftrightarrow> in_lock (pcs x t) = Some m" "t \<in> asleep (mon x m) \<Longrightarrow> sleeps_on (pcs x t) = Some m"
  using assms by (auto simp: locks_ok_def)

lemma not_asleep: "locks_ok x \<Longrightarrow> sleeps_on (pcs x t) = None \<Longrightarrow> t \<notin> asleep (mon x m)"
  using locks_okD(2) by fastforce

text \<open>A step takes the lock of one monitor, or gives it back, and is made by a thread that is not asleep.\<close>

lemma locks_go:
  assumes ok: "locks_ok x" and up: "\<forall>m'. t \<notin> asleep (mon x m')"
    and own: "owner v = Some t \<and> in_lock p = Some m \<and> owner (mon x m) = None \<and> in_lock (pcs x t) = None
       \<or> owner v = None \<and> in_lock p = None \<and> in_lock (pcs x t) = Some m"
    and slp: "asleep v \<subseteq> insert t (asleep (mon x m))" "t \<in> asleep v \<Longrightarrow> sleeps_on p = Some m"
  shows "locks_ok (go x t p m v)"
proof -
  note D = locks_okD [OF ok]
  have "owner ((mon (go x t p m v)) m') = Some t' \<longleftrightarrow> in_lock (pcs (go x t p m v) t') = Some m'" for m' t'
  proof (cases "t' = t")
    case True
    then show ?thesis using own D(1) [of m' t] by (cases "m' = m") auto
  next
    case False
    have "owner (mon x m) \<noteq> Some t'" using own D(1) [of m t] D(1) [of m t'] False by auto
    then show ?thesis using own False D(1) [of m' t'] by (cases "m' = m") auto
  qed
  moreover have "sleeps_on (pcs (go x t p m v) u) = Some m'" if "u \<in> asleep (mon (go x t p m v) m')" for m' u
    using that slp up D(2) [of u m'] by (cases "u = t"; cases "m' = m") auto
  ultimately show ?thesis by (simp add: locks_ok_def)
qed

lemma locks_ok_flds [simp]:
  "locks_ok (x\<lparr>sq := q\<rparr>) = locks_ok x" "locks_ok (x\<lparr>snext := k\<rparr>) = locks_ok x" "locks_ok (x\<lparr>sacc := d\<rparr>) = locks_ok x" "locks_ok (x\<lparr>sstop := b\<rparr>) = locks_ok x" "locks_ok (x\<lparr>sdone := d\<rparr>) = locks_ok x"
  by (simp_all add: locks_ok_def)

lemma in_lock_up: "in_lock p = Some m \<Longrightarrow> sleeps_on p = None"
  by (cases p) simp_all

lemma locks_pc:
  assumes "locks_ok x" "in_lock (pcs x t) = None" "sleeps_on (pcs x t) = None" "in_lock p = None"
  shows "locks_ok (at_pc x t p)"
  using assms not_asleep [OF assms(1,3)] locks_okD(1) [OF assms(1), of _ t]
  by (auto simp: locks_ok_def)

lemma locks_acquire:
  assumes "locks_ok x" "ls_mutex_lock (mon x m) t = Some v" "in_lock (pcs x t) = None" "sleeps_on (pcs x t) = None"
    and "in_lock p = Some m"
  shows "locks_ok (go x t p m v)"
  using assms not_asleep [OF assms(1,4)] by (intro locks_go) (auto simp: sync_defs split: if_splits)

lemma locks_wake:
  assumes "locks_ok x" "ls_cond_wake (mon x m) t = Some v" "in_lock (pcs x t) = None" "sleeps_on (pcs x t) = Some m"
    and "in_lock p = Some m"
  shows "locks_ok (go x t p m v)"
proof (rule locks_go [OF assms(1)])
  show "\<forall>m'. t \<notin> asleep (mon x m')"
    using assms(2,4) locks_okD(2) [OF assms(1), of t] by (fastforce simp: sync_defs split: if_splits)
qed (use assms in \<open>auto simp: sync_defs split: if_splits\<close>)

lemma locks_release:
  assumes "locks_ok x" "in_lock (pcs x t) = Some m" "in_lock p = None" "owner v = None" "asleep v \<subseteq> asleep (mon x m)"
  shows "locks_ok (go x t p m v)"
  using assms not_asleep [OF assms(1) in_lock_up [OF assms(2)]] by (intro locks_go) auto

lemma locks_sleep:
  assumes "locks_ok x" "in_lock (pcs x t) = Some m" "in_lock p = None" "sleeps_on p = Some m"
  shows "locks_ok (go x t p m (ls_cond_wait (mon x m) t))"
  using assms not_asleep [OF assms(1) in_lock_up [OF assms(2)]] by (intro locks_go) (auto simp: sync_defs)

lemma unlocked [simp]:
  "owner (ls_mutex_unlock v) = None" "asleep (ls_mutex_unlock v) = asleep v" "asleep (ls_cond_broadcast v) = {}"
  "asleep (ls_cond_signal v u) = asleep v - {u}" "asleep (ls_cond_wait v t) = insert t (asleep v)"
  by (simp_all add: sync_defs)

lemma locked [simp]:
  "ls_mutex_lock v t = Some v' \<longleftrightarrow> owner v = None \<and> v' = v\<lparr>owner := Some t\<rparr>"
  "ls_cond_wake v t = Some v' \<longleftrightarrow> t \<notin> asleep v \<and> owner v = None \<and> v' = v\<lparr>owner := Some t\<rparr>"
  by (auto simp: sync_defs)

lemmas locks_intros = locks_acquire locks_wake locks_release locks_sleep locks_pc

lemma work_locks:
  assumes "work x t x'" "locks_ok x"
  shows "locks_ok x'"
  using assms
proof (cases rule: work.cases)
  case take
  then show ?thesis using assms(2) by (simp add: locks_release)
next
  case published
  then show ?thesis using assms(2) by (simp add: locks_release)
qed (auto intro: locks_intros)

lemma submit_locks:
  assumes "submit_step x t x'" "locks_ok x"
  shows "locks_ok x'"
  using assms
proof (cases rule: submit_step.cases)
  case queued
  then show ?thesis using assms(2) by (auto intro!: locks_release)
qed (auto intro: locks_intros)

lemma stop_locks:
  assumes "stop_step x t x'" "locks_ok x"
  shows "locks_ok x'"
  using assms
proof (cases rule: stop_step.cases)
  case stopped
  then show ?thesis using assms(2) by (auto intro!: locks_release)
qed (auto intro: locks_intros)

lemma wait_locks: "wait_step x t x' \<Longrightarrow> locks_ok x \<Longrightarrow> locks_ok x'"
  by (erule wait_step.cases) (auto intro: locks_intros)

lemma test_locks: "test_step x t x' \<Longrightarrow> locks_ok x \<Longrightarrow> locks_ok x'"
  by (erule test_step.cases) (auto intro: locks_intros)

lemma call_locks: "call_step x t x' \<Longrightarrow> locks_ok x \<Longrightarrow> locks_ok x'"
  by (auto elim!: call_step.cases intro: submit_locks stop_locks wait_locks test_locks)

lemma begin_locks: "call_begin x t x' \<Longrightarrow> locks_ok x \<Longrightarrow> locks_ok x'"
  by (cases rule: call_begin.cases) (auto intro!: locks_pc)

lemma sync_locks: "sync_step x x' \<Longrightarrow> locks_ok x \<Longrightarrow> locks_ok x'"
proof (induction rule: sync_step.induct)
  case (spurious x m t)
  then show ?case by (auto simp: locks_ok_def ls_cond_signal_def)
qed (auto intro: work_locks call_locks begin_locks elim: inner_step.cases)

lemmas step_elims = inner_step.cases work.cases call_begin.cases call_elims

text \<open>A thread moves itself only, a worker within \<open>worker\<close> and a caller outside it.\<close>

lemma work_pc: "work x t x' \<Longrightarrow> worker_pc (pcs x' t) \<and> pcs x t \<noteq> P_gone \<and> (\<forall>u. u \<noteq> t \<longrightarrow> pcs x' u = pcs x u) \<and> snthr x' = snthr x"
  by (erule work.cases) auto

lemma call_pc: "call_step x t x' \<Longrightarrow> \<not> worker_pc (pcs x' t) \<and> (\<forall>u. u \<noteq> t \<longrightarrow> pcs x' u = pcs x u) \<and> snthr x' = snthr x"
  by (auto elim!: call_elims)

lemma begin_pc: "call_begin x t x' \<Longrightarrow> \<not> worker_pc (pcs x' t) \<and> (\<forall>u. u \<noteq> t \<longrightarrow> pcs x' u = pcs x u) \<and> snthr x' = snthr x"
  by (erule call_begin.cases) auto

lemma threads_worker:
  assumes "threads_ok x" "worker_pc (pcs x' (Wk i))" "pcs x (Wk i) \<noteq> P_gone" "\<forall>u. u \<noteq> Wk i \<longrightarrow> pcs x' u = pcs x u"
    and "snthr x' = snthr x"
  shows "threads_ok x'"
proof -
  have "worker_pc (pcs x' (Wk j)) \<and> (snthr x \<le> j \<longrightarrow> pcs x' (Wk j) = P_gone)" for j
    using assms by (cases "j = i") (auto simp: threads_ok_def)
  then show ?thesis using assms by (auto simp: threads_ok_def)
qed

lemma threads_caller:
  assumes "threads_ok x" "\<not> worker_pc (pcs x' (Cl i))" "\<forall>u. u \<noteq> Cl i \<longrightarrow> pcs x' u = pcs x u" "snthr x' = snthr x"
  shows "threads_ok x'"
proof -
  have "\<not> worker_pc (pcs x' (Cl j))" for j
    using assms by (cases "j = i") (auto simp: threads_ok_def)
  then show ?thesis using assms by (auto simp: threads_ok_def)
qed

lemma sync_threads: "sync_step x x' \<Longrightarrow> threads_ok x \<Longrightarrow> threads_ok x' \<and> snthr x' = snthr x"
proof (induction rule: sync_step.induct)
  case (inner x x')
  then show ?case using work_pc call_pc threads_worker threads_caller by (cases rule: inner_step.cases) blast+
next
  case (begins x i x')
  then show ?case using begin_pc threads_caller by blast
qed (simp add: threads_ok_def)

lemma sync_none_asleep: "sync_step x x' \<Longrightarrow> none_asleep x \<Longrightarrow> none_asleep x'"
  by (induction rule: sync_step.induct) (auto simp: none_asleep_def elim!: step_elims split: if_splits)

lemma sync_gone: "sync_step x x' \<Longrightarrow> gone_ok x \<Longrightarrow> gone_ok x'"
  by (induction rule: sync_step.induct) (auto simp: gone_ok_def elim!: step_elims split: if_splits)

lemma sync_join: "sync_step x x' \<Longrightarrow> join_ok x \<Longrightarrow> join_ok x'"
  by (induction rule: sync_step.induct) (auto simp: join_ok_def elim!: step_elims split: if_splits)

text \<open>A worker stays awake as long as it neither goes to sleep nor returns.\<close>

lemma awake_mono:
  assumes "awake_ok x" "sq x' \<noteq> [] \<Longrightarrow> sq x \<noteq> []" "snthr x' = snthr x" "asleep (mon x' None) \<subseteq> asleep (mon x None)"
    and "\<And>j. pcs x' (Wk j) = P_gone \<Longrightarrow> pcs x (Wk j) = P_gone"
  shows "awake_ok x'"
  using assms unfolding awake_ok_def by (metis subsetD)

lemma worker_created: "threads_ok x \<Longrightarrow> pcs x (Wk i) \<noteq> P_gone \<Longrightarrow> i < snthr x"
  unfolding threads_ok_def by (meson not_le)

lemma sleeper_worker:
  assumes "threads_ok x" "locks_ok x" "u \<in> asleep (mon x None)"
  obtains i where "u = Wk i" "pcs x (Wk i) = P_wait" "i < snthr x"
proof -
  have "sleeps_on (pcs x u) = Some None" using locks_okD(2) [OF assms(2,3)] .
  then have p: "pcs x u = P_wait" by (cases "pcs x u") auto
  then obtain i where "u = Wk i" using assms(1) by (cases u) (auto simp: threads_ok_def, metis worker_pc.simps(3))
  with p that worker_created [OF assms(1), of i] show thesis by simp
qed

lemma work_awake:
  assumes "work x (Wk i) x'" "awake_ok x" "threads_ok x" "locks_ok x"
  shows "awake_ok x'"
  using assms(1)
proof (cases rule: work.cases)
  case (take r q)
  then have "Wk i \<notin> asleep (mon x None)" "i < snthr x"
    using not_asleep [OF assms(4), of "Wk i"] worker_created [OF assms(3), of i] by auto
  then show ?thesis using take by (auto simp: awake_ok_def)
next
  case sleep
  then show ?thesis by (simp add: awake_ok_def)
next
  case leave
  then show ?thesis by (simp add: awake_ok_def)
qed (auto intro!: awake_mono [OF assms(2)] split: if_splits)

lemma submit_awake:
  assumes "submit_step x (Cl i) x'" "awake_ok x" "threads_ok x" "locks_ok x" "gone_ok x" "0 < snthr x"
  shows "awake_ok x'"
  using assms(1)
proof (cases rule: submit_step.cases)
  case (queued r u)
  show ?thesis
  proof (cases "u \<in> asleep (mon x None)")
    case True
    then obtain j where "u = Wk j" "pcs x (Wk j) = P_wait" "j < snthr x"
      using sleeper_worker [OF assms(3,4)] by blast
    then show ?thesis using queued by (auto simp: awake_ok_def)
  next
    case False
    then have "asleep (mon x None) = {}" "pcs x (Wk 0) \<noteq> P_gone" using queued assms(5,6) by (auto simp: gone_ok_def)
    then show ?thesis using queued assms(6) by (auto simp: awake_ok_def)
  qed
qed (auto intro!: awake_mono [OF assms(2)])

lemma call_awake:
  assumes "call_step x (Cl i) x'" "awake_ok x" "threads_ok x" "locks_ok x" "gone_ok x" "0 < snthr x"
  shows "awake_ok x'"
  using assms(1)
proof (cases rule: call_step.cases)
  case submits
  then show ?thesis using submit_awake assms by blast
qed (auto intro!: awake_mono [OF assms(2)] elim!: call_elims)

lemma sync_awake:
  assumes "sync_step x x'" "awake_ok x" "threads_ok x" "locks_ok x" "gone_ok x" "0 < snthr x"
  shows "awake_ok x'"
  using assms
proof (induction rule: sync_step.induct)
  case (begins x i x')
  then show ?case by (auto intro!: awake_mono [OF begins(2)] elim!: call_begin.cases)
next
  case (spurious x m t)
  then show ?case by (auto intro!: awake_mono [OF spurious(1)] split: if_splits)
qed (auto intro: work_awake call_awake elim: inner_step.cases)

text \<open>What a step does to the requests: the worker that takes one has it, the one that publishes it makes
  it done, and the others keep what they have.\<close>

lemma reqs_mono:
  assumes "reqs_ok x" "sacc x' = sacc x"
    and "\<And>r. r \<in> sacc x \<Longrightarrow> r \<in> set (sq x) \<Longrightarrow> r \<in> set (sq x') \<or> r \<in> sdone x' \<or> (\<exists>i. has_req (pcs x' (Wk i)) = Some r)"
    and "\<And>r i. r \<in> sacc x \<Longrightarrow> has_req (pcs x (Wk i)) = Some r \<Longrightarrow> r \<in> sdone x' \<or> has_req (pcs x' (Wk i)) = Some r"
    and "sdone x \<subseteq> sdone x'" "\<And>i r. awaits (pcs x' (Cl i)) = Some r \<Longrightarrow> awaits (pcs x (Cl i)) = Some r \<or> r \<in> sacc x"
  shows "reqs_ok x'"
  using assms unfolding reqs_ok_def by (metis subsetD)

lemma work_reqs: "work x (Wk i) x' \<Longrightarrow> reqs_ok x \<Longrightarrow> reqs_ok x'"
  by (erule work.cases) (auto elim!: reqs_mono split: if_splits)

lemma submit_reqs: "submit_step x (Cl i) x' \<Longrightarrow> reqs_ok x \<Longrightarrow> reqs_ok x'"
  by (erule submit_step.cases) (auto simp: reqs_ok_def)

lemma call_reqs:
  assumes "call_step x (Cl i) x'" "reqs_ok x"
  shows "reqs_ok x'"
  using assms(1)
proof (cases rule: call_step.cases)
  case submits
  then show ?thesis using submit_reqs assms(2) by blast
qed (use assms(2) in \<open>auto elim!: reqs_mono call_elims split: if_splits\<close>)

lemma sync_reqs: "sync_step x x' \<Longrightarrow> reqs_ok x \<Longrightarrow> reqs_ok x'"
proof (induction rule: sync_step.induct)
  case (begins x i x')
  then show ?case by (auto elim!: reqs_mono call_begin.cases split: if_splits)
next
  case (spurious x m t)
  then show ?case by (simp add: reqs_ok_def)
qed (auto intro: work_reqs call_reqs elim: inner_step.cases)

definition sync_ok :: "sync \<Rightarrow> bool" where
  "sync_ok x \<longleftrightarrow> locks_ok x \<and> threads_ok x \<and> none_asleep x \<and> gone_ok x \<and> join_ok x \<and> awake_ok x \<and> reqs_ok x \<and> 0 < snthr x"

lemma sync0_ok: "0 < n \<Longrightarrow> sync_ok (sync0 n)"
  by (auto simp: sync_ok_def sync0_def locks_ok_def threads_ok_def none_asleep_def gone_ok_def join_ok_def awake_ok_def
      reqs_ok_def ls_mutex_init_def split: tid.splits)

lemma sync_step_ok: "sync_step x x' \<Longrightarrow> sync_ok x \<Longrightarrow> sync_ok x'"
  by (simp add: sync_ok_def sync_locks sync_threads sync_none_asleep sync_gone sync_join sync_awake sync_reqs)

lemma reach_ok: "sync_reach n x \<Longrightarrow> 0 < n \<Longrightarrow> sync_ok x"
  by (induction rule: sync_reach.induct) (auto intro: sync0_ok sync_step_ok)

lemma reach_nthr: "sync_reach n x \<Longrightarrow> threads_ok x \<and> snthr x = n"
proof (induction rule: sync_reach.induct)
  case start
  show ?case by (auto simp: sync0_def threads_ok_def)
qed (auto dest: sync_threads)

subsection \<open>Progress\<close>

text \<open>A thread inside a lock always has a step.\<close>

lemma worker_in_lock:
  assumes "worker_pc (pcs x t)" "in_lock (pcs x t) = Some m"
  shows "\<exists>x'. work x t x'"
proof (cases "pcs x t")
  case P_test
  show ?thesis
  proof (cases "sq x")
    case Nil
    then show ?thesis using sleep [OF P_test] leave [OF P_test] by blast
  next
    case (Cons r q)
    then show ?thesis using take [OF P_test] by blast
  qed
next
  case (P_pub_in r)
  then show ?thesis by (blast intro: published)
next
  case P_acct_in
  then show ?thesis by (blast intro: accounted)
qed (use assms in simp_all)

lemma caller_in_lock:
  assumes "\<not> worker_pc (pcs x t)" "in_lock (pcs x t) = Some m"
  shows "\<exists>x'. call_step x t x'"
proof (cases "pcs x t")
  case (Q_sub_in r)
  moreover obtain u where "u \<in> asleep (mon x None) \<or> asleep (mon x None) = {}" by blast
  ultimately show ?thesis using submits [OF refused [of x t r]] submits [OF queued [of x t r u]] by blast
next
  case Q_stop_in
  then show ?thesis by (blast intro: stopped stops)
next
  case Q_free_in
  then show ?thesis by (blast intro: freed stops)
next
  case (Q_wait_in r)
  then show ?thesis using waits [OF wait_sleep [of x t r]] waits [OF waited [of x t r]] by blast
next
  case (Q_rel_in r)
  then show ?thesis by (blast intro: released waits)
next
  case (Q_test_in r)
  then show ?thesis by (blast intro: tested tests)
qed (use assms in simp_all)

lemma in_lock_moves:
  assumes "threads_ok x" "in_lock (pcs x t) = Some m"
  shows "\<exists>x'. inner_step x x'"
proof (cases t)
  case (Wk i)
  then show ?thesis using worker_in_lock [of x t] assms inner_step.worker by (auto simp: threads_ok_def)
next
  case (Cl i)
  then show ?thesis using caller_in_lock [of x t] assms inner_step.caller by (auto simp: threads_ok_def)
qed

text \<open>When every lock is free, a thread with no step has nothing to do inside the library, sleeps, or joins a
  worker that has not returned.\<close>

lemma lock_is_free: "owner (mon x m) = None \<Longrightarrow> ls_mutex_lock (mon x m) t = Some ((mon x m)\<lparr>owner := Some t\<rparr>)"
  by simp

lemma wake_is_free:
  "owner (mon x m) = None \<Longrightarrow> t \<notin> asleep (mon x m) \<Longrightarrow> ls_cond_wake (mon x m) t = Some ((mon x m)\<lparr>owner := Some t\<rparr>)"
  by simp

lemma stuck_worker:
  assumes free: "\<And>m. owner (mon x m) = None" and w: "worker_pc (pcs x t)" and stuck: "\<nexists>x'. work x t x'"
  shows "pcs x t = P_gone \<or> pcs x t = P_wait \<and> t \<in> asleep (mon x None)"
proof -
  note L = lock_is_free [OF free]
  have "in_lock (pcs x t) = None" using worker_in_lock [OF w] stuck by (metis not_None_eq)
  moreover have "pcs x t \<noteq> P_top" using enter [OF _ L] stuck by blast
  moreover have "pcs x t \<noteq> P_run r" for r using ran stuck by blast
  moreover have "pcs x t \<noteq> P_pub r" for r using publish [OF _ L] stuck by blast
  moreover have "pcs x t \<noteq> P_acct" using account [OF _ L] stuck by blast
  moreover have "pcs x t = P_wait \<Longrightarrow> t \<in> asleep (mon x None)" using awake [OF _ wake_is_free [OF free]] stuck by blast
  ultimately show ?thesis using w by (cases "pcs x t") auto
qed

lemma stuck_caller:
  assumes free: "\<And>m. owner (mon x m) = None" and w: "\<not> worker_pc (pcs x t)" and stuck: "\<nexists>x'. call_step x t x'"
  shows "pcs x t = Q_out \<or> (\<exists>r. pcs x t = Q_wait_cv r \<and> t \<in> asleep (mon x (Some r)))
    \<or> pcs x t = Q_join \<and> (\<exists>j < snthr x. pcs x (Wk j) \<noteq> P_gone)"
proof -
  note L = lock_is_free [OF free]
  have "in_lock (pcs x t) = None" using caller_in_lock [OF w] stuck by (metis not_None_eq)
  moreover have "pcs x t \<noteq> Q_sub r" for r using sub [OF _ L, THEN submits] stuck by blast
  moreover have "pcs x t \<noteq> Q_stop" using stop_step.stop [OF _ L, THEN stops] stuck by blast
  moreover have "pcs x t = Q_join \<Longrightarrow> \<exists>j < snthr x. pcs x (Wk j) \<noteq> P_gone" using join [THEN stops] stuck by blast
  moreover have "pcs x t \<noteq> Q_free" using free_lock [OF _ L, THEN stops] stuck by blast
  moreover have "pcs x t \<noteq> Q_wait r" for r using wait [OF _ L, THEN waits] stuck by blast
  moreover have "pcs x t = Q_wait_cv r \<Longrightarrow> t \<in> asleep (mon x (Some r))" for r
    using wait_awake [OF _ wake_is_free [OF free], THEN waits] stuck by blast
  moreover have "pcs x t \<noteq> Q_rel r" for r using rel [OF _ L, THEN waits] stuck by blast
  moreover have "pcs x t \<noteq> Q_test r" for r using test [OF _ L, THEN tests] stuck by blast
  ultimately show ?thesis using w by (cases "pcs x t") auto
qed

lemma stuck_free:
  assumes "sync_ok x" "\<nexists>x'. inner_step x x'"
  shows "owner (mon x m) = None"
  using assms in_lock_moves [of x _ m] locks_okD(1) [of x m] by (cases "owner (mon x m)") (auto simp: sync_ok_def)

text \<open>A request that is queued or has_req has a worker that is awake, so nobody waits in a stuck state and the
  queue is empty.\<close>

lemma stuck_workers:
  assumes "sync_ok x" "\<nexists>x'. inner_step x x'"
  shows "pcs x (Wk i) = P_gone \<or> pcs x (Wk i) = P_wait \<and> Wk i \<in> asleep (mon x None)"
  using assms stuck_worker [OF stuck_free [OF assms], of "Wk i"] inner_step.worker
  by (auto simp: sync_ok_def threads_ok_def)

lemma stuck_queue: "sync_ok x \<Longrightarrow> \<nexists>x'. inner_step x x' \<Longrightarrow> sq x = []"
  using stuck_workers [of x] by (auto simp: sync_ok_def awake_ok_def)

lemma stuck_callers:
  assumes ok: "sync_ok x" and stuck: "\<nexists>x'. inner_step x x'"
  shows "pcs x (Cl i) = Q_out"
proof -
  have none: "none_asleep x" "join_ok x" "reqs_ok x" "\<not> worker_pc (pcs x (Cl i))"
    using ok by (auto simp: sync_ok_def threads_ok_def)
  have "pcs x (Cl i) \<noteq> Q_join" if "j < snthr x" "pcs x (Wk j) \<noteq> P_gone" for j
    using that stuck_workers [OF assms, of j] none by (auto simp: none_asleep_def join_ok_def)
  moreover have "pcs x (Cl i) \<noteq> Q_wait_cv r" if z: "Cl i \<in> asleep (mon x (Some r))" for r
  proof
    assume "pcs x (Cl i) = Q_wait_cv r"
    then have "awaits (pcs x (Cl i)) = Some r" by simp
    then have "r \<in> sacc x" using none(3) by (simp add: reqs_ok_def)
    moreover have "r \<notin> sdone x" using z none(1) by (auto simp: none_asleep_def)
    ultimately obtain j where "has_req (pcs x (Wk j)) = Some r"
      using none(3) stuck_queue [OF assms] by (auto simp: reqs_ok_def)
    then show False using stuck_workers [OF assms, of j] by auto
  qed
  ultimately show ?thesis
    using stuck_caller [OF stuck_free [OF assms] none(4)] stuck inner_step.caller by blast
qed

text \<open>No two threads are in critical sections of one lock at the same time, a condition that holds has
  nobody asleep on it, and while there are requests in the queue some worker is awake to take them.\<close>

theorem locks_exclude:
  assumes "sync_reach n x" "0 < n"
  shows "in_lock (pcs x t) = Some m \<Longrightarrow> in_lock (pcs x u) = Some m \<Longrightarrow> t = u"
    and "sstop x \<Longrightarrow> asleep (mon x None) = {}" and "r \<in> sdone x \<Longrightarrow> asleep (mon x (Some r)) = {}"
    and "sq x \<noteq> [] \<Longrightarrow> \<exists>i<n. Wk i \<notin> asleep (mon x None) \<and> pcs x (Wk i) \<noteq> P_gone"
proof -
  have ok: "sync_ok x" by (rule reach_ok [OF assms])
  show "t = u" if "in_lock (pcs x t) = Some m" "in_lock (pcs x u) = Some m"
    using that ok locks_okD(1) [of x m t] locks_okD(1) [of x m u] by (simp add: sync_ok_def)
  show "sstop x \<Longrightarrow> asleep (mon x None) = {}" "r \<in> sdone x \<Longrightarrow> asleep (mon x (Some r)) = {}"
    using ok by (auto simp: sync_ok_def none_asleep_def)
  show "\<exists>i<n. Wk i \<notin> asleep (mon x None) \<and> pcs x (Wk i) \<noteq> P_gone" if "sq x \<noteq> []"
    using that ok reach_nthr [OF assms(1)] by (auto simp: sync_ok_def awake_ok_def)
qed

text \<open>C22. The asynchronous layer cannot deadlock. In every state that workers and callers can reach, with
  any interleaving and any spurious wakeups, either a worker, or a caller that is inside \<open>submit\<close>,
  \<open>ls_wait\<close>, \<open>ls_test\<close> or \<open>ls_pool_stop\<close>, can make a step, or there is nothing left to do: every caller
  is outside the library, no request is queued, every request that was accepted is done, and the workers
  all sleep on the queue, or, if the pool was stopped, have all returned.\<close>

theorem no_deadlock:
  assumes "sync_reach n x" "0 < n"
  shows "(\<exists>x'. inner_step x x') \<or>
    (\<forall>i. pcs x (Cl i) = Q_out) \<and> sq x = [] \<and> sacc x \<subseteq> sdone x
      \<and> (\<forall>i<n. if sstop x then pcs x (Wk i) = P_gone else pcs x (Wk i) = P_wait \<and> Wk i \<in> asleep (mon x None))"
proof (cases "\<exists>x'. inner_step x x'")
  case False
  have ok: "sync_ok x" by (rule reach_ok [OF assms])
  note W = stuck_workers [OF ok False]
  have "has_req (pcs x (Wk i)) = None" for i using W [of i] by auto
  then have "sacc x \<subseteq> sdone x" using ok stuck_queue [OF ok False] by (auto simp: sync_ok_def reqs_ok_def)
  moreover have "if sstop x then pcs x (Wk i) = P_gone else pcs x (Wk i) = P_wait \<and> Wk i \<in> asleep (mon x None)" if "i < n" for i
    using W [of i] that ok reach_nthr [OF assms(1)] by (auto simp: sync_ok_def none_asleep_def gone_ok_def)
  ultimately show ?thesis using stuck_callers [OF ok False] stuck_queue [OF ok False] by blast
qed simp

lemma reach_submitted:
  defines "x1 \<equiv> at_pc ((sync0 1)\<lparr>snext := Suc 0\<rparr>) (Cl 0) (Q_sub 0)"
  defines "x2 \<equiv> go x1 (Cl 0) (Q_sub_in 0) None ((mon x1 None)\<lparr>owner := Some (Cl 0)\<rparr>)"
  shows "\<exists>x. sync_reach 1 x \<and> sq x = [0]"
proof -
  have z: "pcs (sync0 1) (Cl 0) = Q_out" "snext (sync0 1) = 0" by (simp_all add: sync0_def)
  have "call_begin (sync0 1) (Cl 0) x1" using begin_submit [OF z(1)] z(2) by (simp add: x1_def)
  then have "sync_reach 1 x1" by (blast intro: sync_reach.intros sync_step.begins)
  moreover have "call_step x1 (Cl 0) x2"
    unfolding x2_def by (rule submits [OF sub]) (simp_all add: x1_def sync0_def ls_mutex_init_def)
  ultimately have r: "sync_reach 1 x2" by (blast intro: sync_reach.steps sync_step.inner inner_step.caller)
  have c: "call_step x2 (Cl 0) (go (x2\<lparr>sq := sq x2 @ [0], sacc := insert 0 (sacc x2)\<rparr>) (Cl 0) Q_out None
      (ls_mutex_unlock (ls_cond_signal (mon x2 None) (Wk 0))))" (is "call_step _ _ ?x3")
    by (rule submits [OF queued]) (simp_all add: x2_def x1_def sync0_def ls_mutex_init_def)
  moreover have "sq ?x3 = [0]" by (simp add: x2_def x1_def sync0_def)
  ultimately show ?thesis using r by (blast intro: sync_reach.steps sync_step.inner inner_step.caller)
qed

theorem no_deadlock_witness: "\<exists>x. sync_reach 1 x \<and> sq x = [0] \<and> (\<exists>x'. inner_step x x')"
proof -
  obtain x where x: "sync_reach 1 x" "sq x = [0]" using reach_submitted by blast
  then show ?thesis using no_deadlock [OF x(1)] by auto
qed

end
