(* ===== verification/Spec2Isabelle.thy ===== *)
theory Spec2Isabelle
  imports Mapped Dispatch Cray Windows Requests Sync
begin

text \<open>
  \<^bold>\<open>libspill: a verification development\<close>

  libspill keeps named records of bytes in a scratch file. A store has a table of contents (a hash
  table from keys to records), an allocator that hands out aligned extents of the file, a memory
  tier that holds records up to a budget and spills the least recently used ones, data calls that
  move bytes between the caller and a record wherever it lives, a pool of threads for asynchronous
  requests, mapped access, and an on-disk format that \<open>ls_close\<close> writes and \<open>ls_open\<close> validates. An
  optional backend keeps the records in an HDF5 file, and two layers sit on top of the store: the Cray
  word-addressable interface and a C++ interface. Below it a platform floor hides the operating
  system, once for POSIX and once for Windows.

  \<^bold>\<open>How the code is modelled\<close>

  The state of a store is the record \<open>ls_store\<close> (\<open>src/internal.h\<close>). It contains the file it writes
  as a value \<open>os\<close> (theory \<open>Os\<close>): the bytes and the length of the file, and scripts that say how the
  coming system calls and allocations end (success, a short transfer, an errno). Theorems
  quantify over these scripts, so they cover every failure at every point, with one exception: the invariant
  \<open>store_inv\<close> of a store contains \<open>io_ok\<close>, by which the transfers of an uncached (\<open>O_DIRECT\<close>) store are not short,
  because \<open>rw_all\<close> ignores a short one there (the property on lost short writes); a buffered store may have
  any. \<open>quiet\<close> says that nothing fails. Records are named by their address (a natural number), so that pointers held in
  the table, in the recency list and in snapshots can dangle. Integers of type \<open>uint64_t\<close> and \<open>size_t\<close>
  are natural numbers with \<open>add64\<close> and \<open>sub64\<close> written out where the code can wrap; the checksum
  works on \<open>32 word\<close>. Counts of list elements (\<open>ncap\<close>, \<open>nretired\<close>) are unbounded, and an errno is any number from 1 to 999. A function of the code that may follow a freed pointer or not return has an
  option type, and \<open>None\<close> is that outcome; properties that state a result prove that it is not \<open>None\<close>.
  Functions that report errors return the code as an integer, as in C. A critical section is one step,
  except in theory \<open>Sync\<close>, where locks and condition variables are objects that threads block and sleep on.

  \<^bold>\<open>Theories and sources\<close>

  \<^item> \<open>Prelude\<close>: lists, blocks of bytes (\<open>blit\<close>, \<open>part\<close>, \<open>zeros\<close>), 64-bit arithmetic, the collections of simplification rules.
  \<^item> \<open>Errors\<close> (\<open>src/error.c\<close>, codes of \<open>include/libspill.h\<close>): the codes, \<open>ls_strerror\<close>, \<open>snprintf\<close>.
  \<^item> \<open>Os\<close> (\<open>src/os_posix.c\<close>): \<open>pread\<close>, \<open>pwrite\<close>, \<open>ftruncate\<close>, \<open>fsync\<close>, file size, zeroing, allocation.
  \<^item> \<open>RawIO\<close> (\<open>rw_all\<close>, \<open>ls_pread_all\<close>, \<open>ls_pwrite_all\<close>, \<open>zero_range\<close> of \<open>src/store.c\<close>): the transfer loops, buffered and
    through the aligned bounce buffer. They terminate because every call moves forward or fails.
  \<^item> \<open>Floor\<close>: the locale \<open>positional_file\<close>, what \<open>rw_all\<close> relies on of a platform, with its buffered loops over any such
    floor, interpreted for POSIX (\<open>pxf\<close>), where they are the loops of \<open>RawIO\<close>.
  \<^item> \<open>Windows\<close> (\<open>src/os_win32.c\<close>): the Win32 floor over system calls that are a parameter \<open>W\<close>, with their documented
    behaviour as \<open>win_laws\<close>, met by an instance; \<open>positional_file\<close> is interpreted for it (\<open>wnf\<close>), which gives
    reads after writes at every 64-bit offset; the temporary directory; the thread trampoline.
  \<^item> \<open>Internal\<close> (\<open>src/internal.h\<close>): the data of a store.
  \<^item> \<open>Alloc\<close> (\<open>src/alloc.c\<close>): the free list. Over any history of calls, extents handed out are disjoint and
    clear of the free list, and freeing what was allocated restores the list.
  \<^item> \<open>Toc\<close> (\<open>src/toc.c\<close>): the hash table refines a map, growth included.
  \<^item> \<open>Lru\<close>: the doubly linked recency list of \<open>src/store.c\<close> represents a list.
  \<^item> \<open>Scatter\<close> (\<open>ls_scatter\<close>): a transfer over the extents of a record, or over its buffer.
  \<^item> \<open>Capacity\<close>, \<open>Tier\<close> (\<open>ensure_extents\<close>, \<open>spill\<close>, \<open>ls_evict_to\<close>, \<open>ensure_cap\<close>): the invariant \<open>store_inv\<close> of a
    store, and that the housekeeping keeps every record and evicts in the order of recency.
  \<^item> \<open>Store\<close> (the data calls of \<open>src/store.c\<close>), \<open>Refine\<close>, \<open>Datapath\<close>, \<open>Vectored\<close>: each call against the abstract
    store \<open>store_abs\<close>, a map from keys to bytes and attribute, on success and on failure.
  \<^item> \<open>Contract\<close>: the locale \<open>byte_map\<close>, what a client may rely on of a store, interpreted for the POSIX
    backend (\<open>kvs\<close>); reads after writes, gaps.
  \<^item> \<open>Calls\<close>: appending, erasing, reserving, attributes, keys, vectored calls, accumulation.
  \<^item> \<open>Codec\<close>, \<open>Persist\<close>, \<open>Reopen\<close>, \<open>Lifecycle\<close>, \<open>Opening\<close> (\<open>src/open.c\<close>): the locale \<open>fixed_codec\<close> for integers on
    disk, the checksum, options and paths, \<open>ls_open\<close> and \<open>ls_close\<close>. Closing with keep and opening
    again gives the same abstract store; a changed byte of the table is detected.
  \<^item> \<open>Async\<close>, \<open>Pool\<close> (\<open>src/async.c\<close>): workers, queue and waiting as an inductive step relation \<open>pstep\<close> over the
    critical sections; the invariant \<open>pool_ok\<close> holds in every interleaving, and a stopped pool drains.
  \<^item> \<open>Sync\<close> (the \<open>ls_mutex_*\<close> and \<open>ls_cond_*\<close> calls of both floors, and \<open>src/async.c\<close> again): monitors with an owner and
    sleepers, one step per lock and per critical section; mutual exclusion, no lost wakeup, no deadlock.
  \<^item> \<open>Mapped\<close> (\<open>ls_map\<close>, \<open>ls_unmap\<close>, \<open>ls_os_map_extents\<close>): the address space as a partial map to file positions.
  \<^item> \<open>Hdf5\<close>, \<open>Backends\<close> (\<open>src/hdf5.c\<close>): the HDF5 library is a parameter \<open>L\<close>, with its documented behaviour as the
    predicate \<open>h5_laws\<close>, met by an instance in memory; \<open>byte_map\<close> is interpreted for this backend too
    (\<open>h5s\<close>), which gives that both backends answer a program of writes and reads alike.
  \<^item> \<open>Cray\<close> (\<open>compat/crayio/crayio_libspill.c\<close>): units as arrays of words; units opened under one name share the file.
  \<^item> \<open>Dispatch\<close>: the build with HDF5, its branches of \<open>ls_open\<close>, \<open>ls_close\<close> and \<open>segv\<close> and the dispatch of every call;
    vectored writes agree with POSIX, empty transfers do not.
  \<^item> \<open>Ownership\<close>: move-only handles; the locale \<open>move_only\<close>, a program whose steps only acquire, move and release.
  \<^item> \<open>Cxx\<close>, \<open>Requests\<close> (\<open>include/libspill.hpp\<close>): exceptions, options, \<open>class store\<close> over the C calls and \<open>class request\<close>
    over the pool, each with a step relation for the programs that use it; \<open>move_only\<close> is interpreted for
    both (\<open>cxs\<close>, \<open>rqo\<close>): every store is closed once, every request is waited for once. Two properties show
    the limits: the key buffer shared between threads, and requests that outlive their store.

  \<^bold>\<open>Bounds\<close>

  No property needs fuel: every loop of the model is a total function or returns an option, and the
  loops over an arbitrary floor are shown to return. Calls that
  reserve space carry the hypothesis \<open>fits\<close>, that the space asked for, rounded up, stays below \<open>2\<^sup>6\<^sup>4\<close>; the
  property on \<open>ensure_extents\<close> shows what happens without it. Statements that a call succeeds have the
  hypothesis \<open>calm\<close>: nothing fails, the file stays below the largest offset and the hash table can
  still double. File offsets are below \<open>off_max\<close> (\<open>2\<^sup>6\<^sup>3\<close>), as \<open>off_t\<close> demands.

  \<^bold>\<open>Parameters\<close>

  The addition of the machine on one floating-point element (\<open>ls_add_f64\<close>, \<open>ls_add_f32\<close>), the text of
  \<open>strerror\<close>, the environment of the process (\<open>ls_env\<close>), the HDF5 library and the Win32 calls are arguments.

  \<^bold>\<open>Not modelled\<close>

  Fairness of the scheduler, so that \<open>Sync\<close> says that some thread can move and not which one will;
  the locks inside the data calls (\<open>toc_lk\<close>, \<open>alloc_lk\<close>, \<open>h5_lk\<close>), whose critical sections are one step;
  the unmapping of a mapped record that is erased or closed (\<open>ls_rec_free\<close>), which touches no state
  of the store; data races on overlapping ranges of one record, which the interface leaves to the
  caller; in C++, the element types of spans, which only fix the number of bytes; the Fortran and
  Python bindings and the benchmark, which only call the interface.
\<close>

end
